(* ===== verification/T3_Prelude.thy ===== *)
theory T3_Prelude
  imports Main "HOL-Library.Word" "HOL-Library.Monad_Syntax" "HOL-Library.Sublist"
begin

unbundle bit_operations_syntax

text \<open>
  The prelude of the development: the byte and machine-word types, the C library routines the
  sources call on byte buffers (\<open>memchr\<close>, \<open>strstr\<close>, string literals), little- and big-endian
  readings of bytes, out-of-bounds aware reads, and the generic lemmas the components share.

  A C buffer is a list of bytes. A C string is the list of its bytes before the terminating NUL.
  A nullable pointer is an \<open>option\<close>, \<open>None\<close> being NULL. A checked read (\<open>rd\<close>) has the result
  \<open>None\<close> when the program would read outside the buffer; a function that returns \<open>None\<close> in the
  option monad therefore has undefined behaviour on that input, and memory safety is the theorem
  that it never does.
\<close>

type_synonym byte = "8 word"
type_synonym bytes = "8 word list"
type_synonym u16 = "16 word"
type_synonym u32 = "32 word"
type_synonym u64 = "64 word"

named_theorems t3_defs \<open>definitions of the operations, unfolded together\<close>
named_theorems t3_bytes \<open>facts on bytes and their ranges\<close>

subsection \<open>Bytes\<close>

lemma byte_exhaust:
  assumes "\<And>n. n < 256 \<Longrightarrow> P (word_of_nat n :: byte)"
  shows "P b"
proof -
  have "unat b < 256" using unsigned_less [of b] by simp
  then have "P (word_of_nat (unat b))" by (rule assms)
  then show ?thesis by simp
qed

text \<open>A fact of all bytes follows from its 256 instances.\<close>

lemma byte_all:
  assumes "list_all (\<lambda>n. P (word_of_nat n :: byte)) [0..<256]"
  shows "P b"
  by (rule byte_exhaust) (use assms in \<open>simp add: list_all_iff\<close>)

lemma unat_byte_less [simp]: "unat (b :: byte) < 256"
  using unsigned_less [of b] by simp

lemma unat_byte_le [simp]: "unat (b :: byte) \<le> 255"
  using unat_byte_less [of b] by linarith

lemma unat_word_of_nat_byte: "n < 256 \<Longrightarrow> unat (word_of_nat n :: byte) = n"
  by (simp add: unat_of_nat)

lemma byte_le_iff: "(a :: byte) \<le> b \<longleftrightarrow> unat a \<le> unat b"
  by (simp add: word_le_nat_alt)

lemma byte_less_iff: "(a :: byte) < b \<longleftrightarrow> unat a < unat b"
  by (simp add: word_less_nat_alt)

lemma byte_eq_iff: "(a :: byte) = b \<longleftrightarrow> unat a = unat b"
  by (simp add: word_unat_eq_iff)

subsection \<open>String literals and the C string routines\<close>

text \<open>The bytes of a string literal.\<close>

definition ascii :: "string \<Rightarrow> bytes" where
  "ascii s = map (\<lambda>c. word_of_nat (of_char c)) s"

lemma ascii_Nil [simp]: "ascii [] = []"
  by (simp add: ascii_def)

lemma ascii_Cons [simp]: "ascii (c # s) = word_of_nat (of_char c) # ascii s"
  by (simp add: ascii_def)

lemma length_ascii [simp]: "length (ascii s) = length s"
  by (simp add: ascii_def)

text \<open>\<open>memchr\<close> and, on the bytes before the NUL, \<open>strchr\<close>: the offset of the first occurrence.\<close>

fun memchr :: "byte \<Rightarrow> bytes \<Rightarrow> nat option" where
  "memchr c [] = None"
| "memchr c (x # xs) = (if x = c then Some 0 else map_option Suc (memchr c xs))"

lemma memchr_None_iff: "memchr c xs = None \<longleftrightarrow> c \<notin> set xs"
  by (induction xs) auto

lemma memchr_notin [simp]: "c \<notin> set xs \<Longrightarrow> memchr c xs = None"
  by (simp add: memchr_None_iff)

lemma memchr_SomeD:
  "memchr c xs = Some i \<Longrightarrow> i < length xs \<and> xs ! i = c \<and> c \<notin> set (take i xs)"
proof (induction xs arbitrary: i)
  case (Cons x xs)
  then show ?case by (cases i) (auto split: if_splits)
qed simp

lemma memchr_append:
  "memchr c (xs @ ys) =
     (if c \<in> set xs then memchr c xs else map_option (\<lambda>i. length xs + i) (memchr c ys))"
proof (induction xs)
  case Nil
  show ?case by (cases "memchr c ys") simp_all
next
  case (Cons x xs)
  then show ?case by (cases "memchr c ys") (auto simp: option.map_comp comp_def memchr_None_iff)
qed

lemma memchr_split:
  assumes "memchr c xs = Some i"
  shows "xs = take i xs @ c # drop (Suc i) xs" and "c \<notin> set (take i xs)" and "i < length xs"
  using memchr_SomeD [OF assms] by (auto simp: id_take_nth_drop)

lemma memchr_here [simp]: "c \<notin> set xs \<Longrightarrow> memchr c (xs @ c # ys) = Some (length xs)"
  by (simp add: memchr_append)

text \<open>\<open>strncmp\<close>/\<open>memcmp\<close> of a prefix against zero, and \<open>strstr\<close>.\<close>

definition starts_with :: "bytes \<Rightarrow> bytes \<Rightarrow> bool" where
  "starts_with p xs \<longleftrightarrow> take (length p) xs = p"

lemma starts_with_append [simp]: "starts_with p (p @ xs)"
  by (simp add: starts_with_def)

lemma starts_with_Nil [simp]: "starts_with [] xs"
  by (simp add: starts_with_def)

lemma starts_with_Cons_Nil [simp]: "\<not> starts_with (x # p) []"
  by (simp add: starts_with_def)

lemma starts_with_Cons [simp]: "starts_with (x # p) (y # xs) \<longleftrightarrow> x = y \<and> starts_with p xs"
  by (auto simp: starts_with_def)

lemma starts_with_iff_prefix: "starts_with p xs \<longleftrightarrow> prefix p xs"
proof
  assume "starts_with p xs"
  then have "xs = p @ drop (length p) xs"
    by (metis append_take_drop_id starts_with_def)
  then show "prefix p xs" by (metis prefixI)
qed (auto simp: prefix_def)

lemma starts_withD: "starts_with p xs \<Longrightarrow> \<exists>ys. xs = p @ ys"
  by (simp add: starts_with_iff_prefix prefix_def)

fun strstr :: "bytes \<Rightarrow> bytes \<Rightarrow> nat option" where
  "strstr p [] = (if p = [] then Some 0 else None)"
| "strstr p (x # xs) =
     (if starts_with p (x # xs) then Some 0 else map_option Suc (strstr p xs))"

lemma strstr_SomeD:
  "strstr p xs = Some i \<Longrightarrow>
     i + length p \<le> length xs \<and> starts_with p (drop i xs)
     \<and> (\<forall>j<i. \<not> starts_with p (drop j xs))"
proof (induction xs arbitrary: i)
  case Nil
  then show ?case by (auto split: if_splits)
next
  case (Cons x xs)
  show ?case
  proof (cases "starts_with p (x # xs)")
    case True
    then have "length p \<le> length (x # xs)"
      by (metis starts_withD length_append le_add1)
    with True Cons.prems show ?thesis by auto
  next
    case False
    then obtain k where k: "strstr p xs = Some k" "i = Suc k"
      using Cons.prems by auto
    from Cons.IH [OF k(1)] have "k + length p \<le> length xs" and "starts_with p (drop k xs)"
      and least: "\<forall>j<k. \<not> starts_with p (drop j xs)" by auto
    moreover have "\<not> starts_with p (drop j (x # xs))" if "j < i" for j
      using that least False k(2) by (cases j) auto
    ultimately show ?thesis using k(2) by auto
  qed
qed

lemma strstr_NoneD: "strstr p xs = None \<Longrightarrow> \<not> starts_with p (drop j xs)"
proof (induction xs arbitrary: j)
  case Nil
  then show ?case by (cases p) (auto split: if_splits)
next
  case (Cons x xs)
  then show ?case by (cases j) (auto split: if_splits)
qed

lemma strstr_eqI:
  assumes "starts_with p (drop i xs)" and "\<And>j. j < i \<Longrightarrow> \<not> starts_with p (drop j xs)"
  shows "strstr p xs = Some i"
proof (cases "strstr p xs")
  case None
  with assms(1) show ?thesis by (auto dest: strstr_NoneD)
next
  case (Some k)
  then have "starts_with p (drop k xs)" and "\<forall>j<k. \<not> starts_with p (drop j xs)"
    by (auto dest: strstr_SomeD)
  with assms have "k = i" by (metis linorder_neqE_nat)
  with Some show ?thesis by simp
qed

text \<open>The case-insensitive search \<open>strcasestr\<close>, and the C string a buffer starts with.\<close>

definition to_lower :: "byte \<Rightarrow> byte" where
  "to_lower c = (if 0x41 \<le> c \<and> c \<le> 0x5A then c + 0x20 else c)"

definition strcasestr :: "bytes \<Rightarrow> bytes \<Rightarrow> nat option" where
  "strcasestr p xs = strstr (map to_lower p) (map to_lower xs)"

definition cstr :: "bytes \<Rightarrow> bytes" where
  "cstr b = takeWhile (\<lambda>c. c \<noteq> 0) b"

lemma cstr_id [simp]: "0 \<notin> set b \<Longrightarrow> cstr b = b"
  unfolding cstr_def by (induction b) auto

subsection \<open>Checked reads\<close>

definition rd :: "bytes \<Rightarrow> nat \<Rightarrow> byte option" where
  "rd b i = (if i < length b then Some (b ! i) else None)"

lemma rd_in [simp]: "i < length b \<Longrightarrow> rd b i = Some (b ! i)"
  by (simp add: rd_def)

lemma rd_None_iff: "rd b i = None \<longleftrightarrow> length b \<le> i"
  by (simp add: rd_def)

text \<open>A checked read of \<open>n\<close> bytes from offset \<open>i\<close> (the source of a \<open>memcpy\<close> or \<open>memcmp\<close>).\<close>

definition rd_range :: "bytes \<Rightarrow> nat \<Rightarrow> nat \<Rightarrow> bytes option" where
  "rd_range b i n = (if i + n \<le> length b then Some (take n (drop i b)) else None)"

lemma rd_range_in [simp]: "i + n \<le> length b \<Longrightarrow> rd_range b i n = Some (take n (drop i b))"
  by (simp add: rd_range_def)

lemma rd_range_None_iff: "rd_range b i n = None \<longleftrightarrow> length b < i + n"
  by (auto simp: rd_range_def)

subsection \<open>Byte order\<close>

text \<open>Little- and big-endian readings as natural numbers.\<close>

fun le_nat :: "bytes \<Rightarrow> nat" where
  "le_nat [] = 0"
| "le_nat (b # bs) = unat b + 256 * le_nat bs"

definition be_nat :: "bytes \<Rightarrow> nat" where
  "be_nat bs = foldl (\<lambda>a b. 256 * a + unat b) 0 bs"

text \<open>The \<open>k\<close> low-order bytes of a number, in each order.\<close>

fun le_bytes :: "nat \<Rightarrow> nat \<Rightarrow> bytes" where
  "le_bytes 0 n = []"
| "le_bytes (Suc k) n = word_of_nat (n mod 256) # le_bytes k (n div 256)"

definition be_bytes :: "nat \<Rightarrow> nat \<Rightarrow> bytes" where
  "be_bytes k n = rev (le_bytes k n)"

lemma length_le_bytes [simp]: "length (le_bytes k n) = k"
  by (induction k arbitrary: n) auto

lemma length_be_bytes [simp]: "length (be_bytes k n) = k"
  by (simp add: be_bytes_def)

lemma le_nat_less: "le_nat bs < 256 ^ length bs"
proof (induction bs)
  case (Cons b bs)
  have "unat b + 256 * le_nat bs < 256 * (le_nat bs + 1)"
    by simp
  also have "\<dots> \<le> 256 * 256 ^ length bs"
    using Cons by (intro mult_le_mono2) simp
  finally show ?case by simp
qed simp

lemma le_nat_le_bytes [simp]: "n < 256 ^ k \<Longrightarrow> le_nat (le_bytes k n) = n"
proof (induction k arbitrary: n)
  case (Suc k)
  then have "n div 256 < 256 ^ k" by (simp add: less_mult_imp_div_less mult.commute)
  with Suc.IH show ?case by (simp add: unat_of_nat)
qed simp

lemma le_bytes_le_nat [simp]: "le_bytes (length bs) (le_nat bs) = bs"
  by (induction bs) auto

lemma be_nat_rev: "be_nat bs = le_nat (rev bs)"
  unfolding be_nat_def by (induction bs rule: rev_induct) auto

lemma be_nat_be_bytes [simp]: "n < 256 ^ k \<Longrightarrow> be_nat (be_bytes k n) = n"
  by (simp add: be_nat_rev be_bytes_def)

text \<open>The same readings as a C program computes them, with shifts and bitwise or.\<close>

lemma byte_or_push_bit:
  "ucast (b :: byte) OR push_bit 8 (word_of_nat n) = (word_of_nat (unat b + 256 * n) :: 'a :: len word)"
proof -
  have "push_bit 8 (word_of_nat n :: 'a word) = word_of_nat (256 * n)"
    by (simp add: push_bit_eq_mult mult.commute)
  moreover have "ucast b = (word_of_nat (unat b) :: 'a word)"
    by (simp add: word_of_nat_eq_iff)
  moreover have "ucast b OR push_bit 8 (word_of_nat n :: 'a word)
      = ucast b + push_bit 8 (word_of_nat n)"
    by (rule disjunctive_add [symmetric]) (auto simp: bit_simps dest: bit_imp_le_length)
  ultimately show ?thesis by simp
qed

lemma word_of_le_nat_Cons:
  "(word_of_nat (le_nat (b # bs)) :: 'a :: len word) =
     ucast b OR push_bit 8 (word_of_nat (le_nat bs))"
  by (simp only: byte_or_push_bit le_nat.simps)

definition be_word :: "bytes \<Rightarrow> 'a :: len word" where
  "be_word bs = foldl (\<lambda>l b. push_bit 8 l OR ucast b) 0 bs"

lemma be_nat_snoc [simp]: "be_nat (bs @ [b]) = 256 * be_nat bs + unat b"
  by (simp add: be_nat_def)

lemma be_nat_Nil [simp]: "be_nat [] = 0"
  by (simp add: be_nat_def)

lemma be_word_eq: "(be_word bs :: 'a :: len word) = word_of_nat (be_nat bs)"
proof (induction bs rule: rev_induct)
  case (snoc b bs)
  then have "(be_word (bs @ [b]) :: 'a word) = ucast b OR push_bit 8 (word_of_nat (be_nat bs))"
    by (simp add: be_word_def or.commute)
  then show ?case by (simp only: byte_or_push_bit be_nat_snoc add.commute)
qed (simp add: be_word_def)

lemma be_nat_less: "be_nat bs < 256 ^ length bs"
  using le_nat_less [of "rev bs"] by (simp add: be_nat_rev)

lemma byte_of_nat_mod: "(word_of_nat (n mod 256) :: byte) = word_of_nat n"
  by (simp add: word_unat_eq_iff unat_of_nat)

lemma be_bytes_numerals:
  "be_bytes 2 n = [word_of_nat (n div 256), word_of_nat n]"
  "be_bytes 4 n = [word_of_nat (n div 2 ^ 24), word_of_nat (n div 2 ^ 16),
                   word_of_nat (n div 256), word_of_nat n]"
proof -
  have "le_bytes 2 n = le_bytes (Suc (Suc 0)) n" by (simp only: numeral_2_eq_2)
  then show "be_bytes 2 n = [word_of_nat (n div 256), word_of_nat n]"
    by (simp add: be_bytes_def byte_of_nat_mod)
  have "(4 :: nat) = Suc (Suc (Suc (Suc 0)))" by simp
  then have "le_bytes 4 n = le_bytes (Suc (Suc (Suc (Suc 0)))) n" by (rule arg_cong)
  then show "be_bytes 4 n = [word_of_nat (n div 2 ^ 24), word_of_nat (n div 2 ^ 16),
                   word_of_nat (n div 256), word_of_nat n]"
    by (simp add: be_bytes_def byte_of_nat_mod flip: div_mult2_eq)
qed

subsection \<open>32-bit words\<close>

lemma sint_of_nat_u32: "n < 2 ^ 31 \<Longrightarrow> sint (word_of_nat n :: u32) = int n"
  by (simp add: signed_of_nat signed_take_bit_int_eq_self)

lemma sint_small: "unat x < 2 ^ 31 \<Longrightarrow> sint x = int (unat x)" for x :: u32
  using sint_of_nat_u32 [of "unat x"] by simp

lemma take_bit_id: "unat x < 2 ^ k \<Longrightarrow> take_bit k x = x" for x :: u32
proof -
  assume "unat x < 2 ^ k"
  then have "unat (take_bit k x) = unat x" by (simp only: unsigned_take_bit_eq take_bit_nat_eq_self)
  then show "take_bit k x = x" by (rule unsigned_word_eqI)
qed

lemma and_high_zero: "unat x < 2 ^ k \<Longrightarrow> x AND push_bit k y = 0" for x y :: u32
proof (rule bit_eqI)
  fix n
  assume "unat x < 2 ^ k"
  from take_bit_id [OF this] have "bit x n \<Longrightarrow> n < k" by (metis bit_take_bit_iff)
  then show "bit (x AND push_bit k y) n = bit 0 n" by (auto simp: bit_and_iff bit_push_bit_iff)
qed

lemma unat_and_mask: "unat (x AND mask k :: u32) = unat x mod 2 ^ k"
  by (simp only: unsigned_take_bit_eq flip: take_bit_eq_mask) (simp only: take_bit_eq_mod)

lemma and_not_id: "x AND m = 0 \<Longrightarrow> x AND NOT m = x" for x m :: u32
proof (rule bit_eqI)
  fix n
  assume "x AND m = 0"
  then have "\<not> bit (x AND m) n" by simp
  then show "bit (x AND NOT m) n = bit x n" by (auto simp: bit_simps dest: bit_imp_le_length)
qed

lemma unat_push_bit2: "unat x < 2 ^ 30 \<Longrightarrow> unat (push_bit 2 x :: u32) = 4 * unat x"
  by (simp add: push_bit_eq_mult unat_word_ariths)

lemma unat_drop_bit8: "unat (drop_bit 8 x :: u32) = unat x div 256"
  using unat_drop_bit_eq [of 8 x] by (simp add: drop_bit_eq_div)

subsection \<open>Size arithmetic of a 64-bit \<open>size_t\<close>\<close>

text \<open>
  Sizes are natural numbers below \<open>2^64\<close>. Where the source's arithmetic can leave that range the
  wrap-around is written out with these operations.
\<close>

definition SIZE_MAX :: nat where
  "SIZE_MAX = 2 ^ 64 - 1"

definition sz_add :: "nat \<Rightarrow> nat \<Rightarrow> nat" where
  "sz_add a b = (a + b) mod 2 ^ 64"

definition sz_sub :: "nat \<Rightarrow> nat \<Rightarrow> nat" where
  "sz_sub a b = (if b \<le> a then a - b else a + 2 ^ 64 - b)"

definition sz_mul :: "nat \<Rightarrow> nat \<Rightarrow> nat" where
  "sz_mul a b = (a * b) mod 2 ^ 64"

lemma sz_add_eq [simp]: "a + b < 2 ^ 64 \<Longrightarrow> sz_add a b = a + b"
  by (simp add: sz_add_def)

lemma sz_sub_eq [simp]: "b \<le> a \<Longrightarrow> sz_sub a b = a - b"
  by (simp add: sz_sub_def)

lemma sz_mul_eq [simp]: "a * b < 2 ^ 64 \<Longrightarrow> sz_mul a b = a * b"
  by (simp add: sz_mul_def)

subsection \<open>Lists\<close>

lemma take_drop_append_exact [simp]:
  "length xs = n \<Longrightarrow> take n (xs @ ys) = xs" "length xs = n \<Longrightarrow> drop n (xs @ ys) = ys"
  by auto

lemma split_at: "n \<le> length xs \<Longrightarrow> \<exists>ys zs. xs = ys @ zs \<and> length ys = n"
  by (metis append_take_drop_id length_take min.absorb2)

lemma list_eq_take_nth: "n = length xs \<Longrightarrow> map (\<lambda>i. xs ! i) [0..<n] = xs"
  by (simp add: map_nth)

end
