(* ===== verification/T3_Types.thy ===== *)
theory T3_Types
  imports T3_Prelude
begin

text \<open>
  The public types of \<open>lib/include/t3.h\<close>: result codes with the X-macro table of their numeric
  values and messages (\<open>T3_RESULT_LIST\<close>), the version-negotiation and retry enumerations, the
  session header, and \<open>t3_strerror\<close> / \<open>t3_abi_version_string\<close>.
\<close>

subsection \<open>Result codes\<close>

datatype t3_result =
    T3_OK
  | T3_ERR_INVALID_ARG
  | T3_ERR_MALFORMED
  | T3_ERR_UNSUPPORTED_VERSION
  | T3_ERR_RNG
  | T3_ERR_HOST_EMPTY
  | T3_ERR_HOST_INVALID
  | T3_ERR_KEY_INVALID
  | T3_ERR_BUF_TOO_SMALL
  | T3_ERR_HOST_NON_ASCII
  | T3_ERR_CLOCK_BACKWARDS
  | T3_ERR_PATH_MISSING_LEADING_SLASH
  | T3_ERR_PATH_TRAILING_SLASH
  | T3_ERR_PATH_PERCENT_ENCODED
  | T3_ERR_PATH_EMPTY_SEGMENT
  | T3_ERR_PATH_NON_ASCII
  | T3_ERR_DOMAIN_TOO_LONG
  | T3_ERR_INVALID_CONFIG
  | T3_ERR_INTERNAL

text \<open>The rows of the X-macro, in its order: enumerator, numeric value, message.\<close>

definition t3_result_list :: "(t3_result \<times> int \<times> string) list" where
  "t3_result_list =
    [(T3_OK, 0, ''ok''),
     (T3_ERR_INVALID_ARG, -1, ''invalid argument''),
     (T3_ERR_MALFORMED, -2, ''malformed input''),
     (T3_ERR_UNSUPPORTED_VERSION, -3, ''unsupported version''),
     (T3_ERR_RNG, -4, ''rng failure''),
     (T3_ERR_HOST_EMPTY, -5, ''host field is empty''),
     (T3_ERR_HOST_INVALID, -6, ''host field is invalid''),
     (T3_ERR_KEY_INVALID, -7, ''key field is invalid''),
     (T3_ERR_BUF_TOO_SMALL, -8, ''output buffer too small''),
     (T3_ERR_HOST_NON_ASCII, -10, ''host contains non-ASCII characters (rejected at v0.1.0)''),
     (T3_ERR_CLOCK_BACKWARDS, -11, ''monotonic clock went backwards''),
     (T3_ERR_PATH_MISSING_LEADING_SLASH, -12,
        ''path does not start with '' @ [CHR 0x27] @ ''/'' @ [CHR 0x27]),
     (T3_ERR_PATH_TRAILING_SLASH, -13, ''path has a trailing slash''),
     (T3_ERR_PATH_PERCENT_ENCODED, -14, ''path contains percent-encoded octets''),
     (T3_ERR_PATH_EMPTY_SEGMENT, -15,
        ''path contains an empty segment ('' @ [CHR 0x27] @ ''//'' @ [CHR 0x27] @ '')''),
     (T3_ERR_PATH_NON_ASCII, -16, ''path contains non-ASCII characters (rejected at v0.1.0)''),
     (T3_ERR_DOMAIN_TOO_LONG, -17, ''domain field exceeds 512-byte ceiling (A-005)''),
     (T3_ERR_INVALID_CONFIG, -18, ''invalid configuration value (A-009)''),
     (T3_ERR_INTERNAL, -99, ''internal error'')]"

text \<open>\<open>t3_strerror\<close> switches on the numeric code, so a code outside the table has a message too.\<close>

definition t3_strerror :: "int \<Rightarrow> string" where
  "t3_strerror rc =
     (case find (\<lambda>(_, v, _). v = rc) t3_result_list of
        Some (_, _, msg) \<Rightarrow> msg
      | None \<Rightarrow> ''unknown error'')"

definition t3_result_code :: "t3_result \<Rightarrow> int" where
  "t3_result_code r =
     (case find (\<lambda>(n, _, _). n = r) t3_result_list of Some (_, v, _) \<Rightarrow> v | None \<Rightarrow> 0)"

definition t3_abi_version_string :: string where
  "t3_abi_version_string = ''0'' @ ''.'' @ ''6'' @ ''.'' @ ''0''"

lemma t3_result_list_complete: "r \<in> fst ` set t3_result_list"
  by (cases r) (simp_all add: t3_result_list_def)

lemma t3_result_list_rows:
  "list_all (\<lambda>(r, v, msg). t3_result_code r = v \<and> t3_strerror v = msg) t3_result_list"
  by code_simp

lemma t3_strerror_code: "(r, v, msg) \<in> set t3_result_list \<Longrightarrow> t3_strerror (t3_result_code r) = msg"
  using t3_result_list_rows by (auto simp: list_all_iff)

subsection \<open>Enumerations and the session header\<close>

datatype t3_version_action = T3_VERSION_OK | T3_VERSION_SILENT_CLOSE | T3_VERSION_RETRY_DOWNGRADE

datatype t3_retry_state = T3_RETRY_OK | T3_RETRY_TIER1 | T3_RETRY_TIER2 | T3_RETRY_TIER3

datatype t3_transport_mode = T3_TRANSPORT_WS | T3_TRANSPORT_HTTP_STREAM

record t3_header =
  hdr_command_type :: byte
  hdr_version :: byte
  hdr_flags :: u16

definition T3_CMD_MTPROTO_PASSTHROUGH :: byte where "T3_CMD_MTPROTO_PASSTHROUGH = 0x01"
definition T3_CMD_HTTP_DECOY_MIMIC :: byte where "T3_CMD_HTTP_DECOY_MIMIC = 0x02"
definition T3_CMD_BENCH :: byte where "T3_CMD_BENCH = 0x04"
definition T3_FLAG_PADDING :: u16 where "T3_FLAG_PADDING = 0x0001"
definition T3_PADDING_MARKER :: byte where "T3_PADDING_MARKER = 0xFE"

lemmas t3_cmd_defs = T3_CMD_MTPROTO_PASSTHROUGH_def T3_CMD_HTTP_DECOY_MIMIC_def T3_CMD_BENCH_def

text \<open>\<open>t3_padding_detect\<close>, the inline helper of \<open>t3.h\<close>.\<close>

definition t3_padding_detect :: "byte \<Rightarrow> bool" where
  "t3_padding_detect first_decrypted_byte = (first_decrypted_byte = T3_PADDING_MARKER)"

end
