(* ===== verification/T3_Utf8.thy ===== *)
theory T3_Utf8
  imports T3_Types
begin

unbundle bit_operations_syntax

text \<open>
  The octet check of secret domains, \<open>validate_utf8_and_controls\<close> of \<open>lib/src/t3_secret.c\<close>, and
  the proof that it is exact: it accepts a byte string if and only if the string is the
  concatenation of the UTF-8 encodings of Unicode scalar values none of which is an ASCII control or
  DEL. So it rejects truncated and overlong sequences, surrogates, values above U+10FFFF and stray
  continuation bytes, and nothing else.
\<close>

subsection \<open>UTF-8 and control-character validation\<close>

fun validate_utf8_and_controls :: "bytes \<Rightarrow> bool" where
  "validate_utf8_and_controls [] = True"
| "validate_utf8_and_controls (b # rest) =
    (if b \<le> 0x1F \<or> b = 0x7F then False
     else if b \<le> 0x7F then validate_utf8_and_controls rest
     else if b \<le> 0xC1 then False
     else if b \<le> 0xDF then
       (case rest of
          b2 # rest2 \<Rightarrow>
            if b2 AND 0xC0 \<noteq> 0x80 then False else validate_utf8_and_controls rest2
        | _ \<Rightarrow> False)
     else if b \<le> 0xEF then
       (case rest of
          b2 # b3 # rest3 \<Rightarrow>
            if b2 AND 0xC0 \<noteq> 0x80 \<or> b3 AND 0xC0 \<noteq> 0x80 then False
            else if b = 0xE0 \<and> b2 < 0xA0 then False
            else if b = 0xED \<and> b2 \<ge> 0xA0 then False
            else validate_utf8_and_controls rest3
        | _ \<Rightarrow> False)
     else if b \<le> 0xF4 then
       (case rest of
          b2 # b3 # b4 # rest4 \<Rightarrow>
            if b2 AND 0xC0 \<noteq> 0x80 \<or> b3 AND 0xC0 \<noteq> 0x80 \<or> b4 AND 0xC0 \<noteq> 0x80 then False
            else if b = 0xF0 \<and> b2 < 0x90 then False
            else if b = 0xF4 \<and> b2 > 0x8F then False
            else validate_utf8_and_controls rest4
        | _ \<Rightarrow> False)
     else False)"

section \<open>The check is exact\<close>

lemma cont_byte_iff: "((b::byte) AND 0xC0 = 0x80) \<longleftrightarrow> 128 \<le> unat b \<and> unat b < 192"
  by (rule byte_all) code_simp

text \<open>The code points the format allows, and their encoding (Unicode table 3-6).\<close>

definition text_scalar :: "nat \<Rightarrow> bool" where
  "text_scalar c \<longleftrightarrow> 0x20 \<le> c \<and> c \<noteq> 0x7F \<and> c < 0x110000 \<and> \<not> (0xD800 \<le> c \<and> c < 0xE000)"

definition utf8_encode :: "nat \<Rightarrow> bytes" where
  "utf8_encode c =
     (if c < 0x80 then [word_of_nat c]
      else if c < 0x800 then [word_of_nat (0xC0 + c div 64), word_of_nat (0x80 + c mod 64)]
      else if c < 0x10000 then
        [word_of_nat (0xE0 + c div 4096), word_of_nat (0x80 + c div 64 mod 64),
         word_of_nat (0x80 + c mod 64)]
      else
        [word_of_nat (0xF0 + c div 262144), word_of_nat (0x80 + c div 4096 mod 64),
         word_of_nat (0x80 + c div 64 mod 64), word_of_nat (0x80 + c mod 64)])"

lemmas byte_consts = byte_eq_iff [of _ "0x7F"] byte_eq_iff [of _ "0xE0"] byte_eq_iff [of _ "0xED"]
  byte_eq_iff [of _ "0xF0"] byte_eq_iff [of _ "0xF4"]

lemmas byte_conv = byte_le_iff byte_less_iff byte_consts cont_byte_iff unat_word_of_nat_byte

lemma validate_seq2:
  "194 \<le> unat b \<Longrightarrow> unat b < 224 \<Longrightarrow> 128 \<le> unat b2 \<Longrightarrow> unat b2 < 192 \<Longrightarrow>
   validate_utf8_and_controls (b # b2 # rest) = validate_utf8_and_controls rest"
  by (simp add: byte_conv)

lemma validate_seq3:
  "224 \<le> unat b \<Longrightarrow> unat b < 240 \<Longrightarrow> 128 \<le> unat b2 \<Longrightarrow> unat b2 < 192 \<Longrightarrow>
   128 \<le> unat b3 \<Longrightarrow> unat b3 < 192 \<Longrightarrow>
   (unat b = 224 \<Longrightarrow> 160 \<le> unat b2) \<Longrightarrow> (unat b = 237 \<Longrightarrow> unat b2 < 160) \<Longrightarrow>
   validate_utf8_and_controls (b # b2 # b3 # rest) = validate_utf8_and_controls rest"
  by (cases "unat b = 224"; cases "unat b = 237") (simp_all add: byte_conv)

lemma validate_seq4:
  "240 \<le> unat b \<Longrightarrow> unat b < 245 \<Longrightarrow> 128 \<le> unat b2 \<Longrightarrow> unat b2 < 192 \<Longrightarrow>
   128 \<le> unat b3 \<Longrightarrow> unat b3 < 192 \<Longrightarrow> 128 \<le> unat b4 \<Longrightarrow> unat b4 < 192 \<Longrightarrow>
   (unat b = 240 \<Longrightarrow> 144 \<le> unat b2) \<Longrightarrow> (unat b = 244 \<Longrightarrow> unat b2 < 144) \<Longrightarrow>
   validate_utf8_and_controls (b # b2 # b3 # b4 # rest) = validate_utf8_and_controls rest"
  by (cases "unat b = 240"; cases "unat b = 244") (simp_all add: byte_conv)

lemma utf8_encode2:
  assumes "2 \<le> a" "a < 32" "m < 64"
  shows "utf8_encode (a * 64 + m) = [word_of_nat (192 + a), word_of_nat (128 + m)]"
proof -
  have "128 \<le> a * 64 + m" "a * 64 + m < 2048" using assms by linarith+
  then show ?thesis using assms by (simp add: utf8_encode_def)
qed

lemma horner_div_mod: "n < k \<Longrightarrow> (x * k + n) div k = x" "n < k \<Longrightarrow> (x * k + n) mod k = n"
  for x n k :: nat
  by auto

lemma utf8_encode3:
  assumes "a < 16" "m < 64" "n < 64" "a \<noteq> 0 \<or> 32 \<le> m"
  shows "utf8_encode (a * 4096 + m * 64 + n)
           = [word_of_nat (224 + a), word_of_nat (128 + m), word_of_nat (128 + n)]"
proof -
  let ?c = "a * 4096 + m * 64 + n"
  have c: "?c = (a * 64 + m) * 64 + n" by simp
  have "2048 \<le> ?c" using assms by (cases "a = 0") auto
  moreover have "?c < 65536" using assms by linarith
  moreover have "?c mod 64 = n" "?c div 64 = a * 64 + m"
    unfolding c using assms by (auto simp only: horner_div_mod)
  moreover have "?c div 4096 = a" using assms by simp
  ultimately show ?thesis using assms by (simp add: utf8_encode_def)
qed

lemma utf8_encode4:
  assumes "a < 5" "l < 64" "m < 64" "n < 64" "a \<noteq> 0 \<or> 16 \<le> l"
  shows "utf8_encode (a * 262144 + l * 4096 + m * 64 + n)
           = [word_of_nat (240 + a), word_of_nat (128 + l), word_of_nat (128 + m), word_of_nat (128 + n)]"
proof -
  let ?c = "a * 262144 + l * 4096 + m * 64 + n"
  have c: "?c = ((a * 64 + l) * 64 + m) * 64 + n" by simp
  have c2: "?c = (a * 64 + l) * 4096 + (m * 64 + n)" by simp
  have "65536 \<le> ?c" using assms by (cases "a = 0") auto
  moreover have "?c mod 64 = n" "?c div 64 mod 64 = m"
    unfolding c using assms by (auto simp only: horner_div_mod)
  moreover have "?c div 4096 = a * 64 + l"
    unfolding c2 by (rule horner_div_mod) (use assms in linarith)
  moreover have "?c div 262144 = a" using assms by simp
  ultimately show ?thesis using assms by (simp add: utf8_encode_def)
qed

lemma validate_encode:
  assumes "text_scalar c"
  shows "validate_utf8_and_controls (utf8_encode c @ rest) = validate_utf8_and_controls rest"
proof -
  have ts: "0x20 \<le> c" "c \<noteq> 0x7F" "c < 0x110000" "\<not> (0xD800 \<le> c \<and> c < 0xE000)"
    using assms by (auto simp: text_scalar_def)
  consider "c < 0x80" | "0x80 \<le> c" "c < 0x800" | "0x800 \<le> c" "c < 0x10000" | "0x10000 \<le> c"
    by linarith
  then show ?thesis
  proof cases
    case 1
    with ts show ?thesis by (simp add: utf8_encode_def byte_conv)
  next
    case 2
    obtain a m where c: "c = a * 64 + m" "m < 64"
      by (metis div_mult_mod_eq mod_less_divisor zero_less_numeral)
    with 2 have a: "2 \<le> a" "a < 32" by linarith+
    show ?thesis unfolding c(1) utf8_encode2 [OF a c(2)] append.simps
      by (rule validate_seq2) (use a c in \<open>simp_all add: unat_word_of_nat_byte del: of_nat_add\<close>)
  next
    case 3
    obtain d n where d: "c = d * 64 + n" "n < 64"
      by (metis div_mult_mod_eq mod_less_divisor zero_less_numeral)
    obtain a m where e: "d = a * 64 + m" "m < 64"
      by (metis div_mult_mod_eq mod_less_divisor zero_less_numeral)
    have c: "c = a * 4096 + m * 64 + n" using d e by simp
    have a: "a < 16" "a \<noteq> 0 \<or> 32 \<le> m" "a \<noteq> 13 \<or> m < 32" using 3 ts d(2) e(2) c by linarith+
    show ?thesis unfolding c utf8_encode3 [OF a(1) e(2) d(2) a(2)] append.simps
      by (rule validate_seq3) (use a d e in \<open>simp_all add: unat_word_of_nat_byte del: of_nat_add\<close>)
  next
    case 4
    obtain d n where d: "c = d * 64 + n" "n < 64"
      by (metis div_mult_mod_eq mod_less_divisor zero_less_numeral)
    obtain e m where e: "d = e * 64 + m" "m < 64"
      by (metis div_mult_mod_eq mod_less_divisor zero_less_numeral)
    obtain a l where f: "e = a * 64 + l" "l < 64"
      by (metis div_mult_mod_eq mod_less_divisor zero_less_numeral)
    have c: "c = a * 262144 + l * 4096 + m * 64 + n" using d e f by simp
    have a: "a < 5" "a \<noteq> 0 \<or> 16 \<le> l" "a \<noteq> 4 \<or> l < 16" using 4 ts d(2) e(2) f(2) c by linarith+
    show ?thesis unfolding c utf8_encode4 [OF a(1) f(2) e(2) d(2) a(2)] append.simps
      by (rule validate_seq4) (use a d e f in \<open>simp_all add: unat_word_of_nat_byte del: of_nat_add\<close>)
  qed
qed

lemma byte_offset:
  assumes "k \<le> unat (b :: byte)"
  obtains a where "unat b = k + a" "b = word_of_nat (k + a)"
  using assms by (metis le_Suc_ex of_nat_unat ucast_id)

lemma validate_decode:
  assumes "validate_utf8_and_controls (b # rest)"
  shows "\<exists>c r. text_scalar c \<and> b # rest = utf8_encode c @ r \<and> validate_utf8_and_controls r"
proof -
  consider "unat b < 0x80" | "0x80 \<le> unat b" "unat b < 0xE0" | "0xE0 \<le> unat b" "unat b < 0xF0"
    | "0xF0 \<le> unat b" by linarith
  then show ?thesis
  proof cases
    case 1
    with assms have "text_scalar (unat b) \<and> b # rest = utf8_encode (unat b) @ rest
       \<and> validate_utf8_and_controls rest"
      by (auto simp: text_scalar_def utf8_encode_def byte_conv split: if_splits)
    then show ?thesis by blast
  next
    case 2
    with assms obtain b2 r where r: "rest = b2 # r" "validate_utf8_and_controls r"
      and n: "194 \<le> unat b" "128 \<le> unat b2" "unat b2 < 192"
      by (auto simp: byte_conv split: if_splits list.splits)
    obtain a where a: "unat b = 192 + a" "b = word_of_nat (192 + a)"
      using n by (elim byte_offset [of 192 b, rotated]) auto
    obtain m where m: "unat b2 = 128 + m" "b2 = word_of_nat (128 + m)"
      using n by (elim byte_offset [of 128 b2, rotated]) auto
    have k: "2 \<le> a" "a < 32" "m < 64" using 2 n a(1) m(1) by linarith+
    have "text_scalar (a * 64 + m)" using k by (auto simp: text_scalar_def)
    moreover have "b # rest = utf8_encode (a * 64 + m) @ r"
      unfolding utf8_encode2 [OF k] r(1) append.simps a(2) [symmetric] m(2) [symmetric] ..
    ultimately show ?thesis using r by blast
  next
    case 3
    with assms obtain b2 b3 r where r: "rest = b2 # b3 # r" "validate_utf8_and_controls r"
      and n: "128 \<le> unat b2" "unat b2 < 192" "128 \<le> unat b3" "unat b3 < 192"
       "unat b = 224 \<Longrightarrow> 160 \<le> unat b2" "unat b = 237 \<Longrightarrow> unat b2 < 160"
      by (auto simp: byte_conv split: if_splits list.splits)
    obtain a where a: "unat b = 224 + a" "b = word_of_nat (224 + a)"
      using 3 by (elim byte_offset [of 224 b, rotated]) auto
    obtain m where m: "unat b2 = 128 + m" "b2 = word_of_nat (128 + m)"
      using n by (elim byte_offset [of 128 b2, rotated]) auto
    obtain l where l: "unat b3 = 128 + l" "b3 = word_of_nat (128 + l)"
      using n by (elim byte_offset [of 128 b3, rotated]) auto
    have k: "a < 16" "m < 64" "l < 64" "a \<noteq> 0 \<or> 32 \<le> m" "a \<noteq> 13 \<or> m < 32"
      using 3 n a(1) m(1) l(1) by linarith+
    consider "a < 13" | "a = 13" | "13 < a" by linarith
    then have "\<not> (0xD800 \<le> a * 4096 + m * 64 + l \<and> a * 4096 + m * 64 + l < 0xE000)"
      using k by cases auto
    with k have "text_scalar (a * 4096 + m * 64 + l)" by (cases "a = 0") (auto simp: text_scalar_def)
    moreover have "b # rest = utf8_encode (a * 4096 + m * 64 + l) @ r"
      unfolding utf8_encode3 [OF k(1-4)] r(1) append.simps a(2) [symmetric] m(2) [symmetric]
        l(2) [symmetric] ..
    ultimately show ?thesis using r by blast
  next
    case 4
    with assms obtain b2 b3 b4 r where r: "rest = b2 # b3 # b4 # r" "validate_utf8_and_controls r"
      and n: "128 \<le> unat b2" "unat b2 < 192"
       "128 \<le> unat b3" "unat b3 < 192" "128 \<le> unat b4" "unat b4 < 192" "unat b \<le> 244"
       "unat b = 240 \<Longrightarrow> 144 \<le> unat b2" "unat b = 244 \<Longrightarrow> unat b2 \<le> 143"
      by (auto simp: byte_conv split: if_splits list.splits)
    obtain a where a: "unat b = 240 + a" "b = word_of_nat (240 + a)"
      using 4 by (elim byte_offset [of 240 b, rotated]) auto
    obtain m where m: "unat b2 = 128 + m" "b2 = word_of_nat (128 + m)"
      using n by (elim byte_offset [of 128 b2, rotated]) auto
    obtain l where l: "unat b3 = 128 + l" "b3 = word_of_nat (128 + l)"
      using n by (elim byte_offset [of 128 b3, rotated]) auto
    obtain j where j: "unat b4 = 128 + j" "b4 = word_of_nat (128 + j)"
      using n by (elim byte_offset [of 128 b4, rotated]) auto
    have k: "a < 5" "m < 64" "l < 64" "j < 64" "a \<noteq> 0 \<or> 16 \<le> m" "a \<noteq> 4 \<or> m < 16"
      using 4 n a(1) m(1) l(1) j(1) by linarith+
    consider "a = 0" | "0 < a" "a < 4" | "a = 4" using k by linarith
    then have "text_scalar (a * 262144 + m * 4096 + l * 64 + j)"
      using k by cases (auto simp: text_scalar_def)
    moreover have "b # rest = utf8_encode (a * 262144 + m * 4096 + l * 64 + j) @ r"
      unfolding utf8_encode4 [OF k(1-5)] r(1) append.simps a(2) [symmetric] m(2) [symmetric]
        l(2) [symmetric] j(2) [symmetric] ..
    ultimately show ?thesis using r by blast
  qed
qed

lemma utf8_encode_nonempty: "utf8_encode c \<noteq> []"
  by (simp add: utf8_encode_def)

text \<open>C26: (octet check is exact). \<open>validate_utf8_and_controls\<close> accepts a byte string if and only if it is
  the concatenation of the UTF-8 encodings of Unicode scalar values, none a C0 control or DEL.
\<close>

theorem validate_utf8_iff:
  "validate_utf8_and_controls bs \<longleftrightarrow>
     (\<exists>cs. list_all text_scalar cs \<and> bs = concat (map utf8_encode cs))"
proof
  show "validate_utf8_and_controls bs \<Longrightarrow> \<exists>cs. list_all text_scalar cs \<and> bs = concat (map utf8_encode cs)"
  proof (induction bs rule: length_induct)
    case (1 bs)
    show ?case
    proof (cases bs)
      case Nil
      then show ?thesis by (intro exI [of _ "[]"]) simp
    next
      case (Cons b rest)
      with 1 obtain c r where c: "text_scalar c" "bs = utf8_encode c @ r" "validate_utf8_and_controls r"
        using validate_decode by blast
      then have "length r < length bs" using utf8_encode_nonempty [of c] by simp
      with 1 c(3) obtain cs where "list_all text_scalar cs" "r = concat (map utf8_encode cs)" by blast
      with c show ?thesis by (intro exI [of _ "c # cs"]) simp
    qed
  qed
next
  assume "\<exists>cs. list_all text_scalar cs \<and> bs = concat (map utf8_encode cs)"
  then obtain cs where "list_all text_scalar cs" "bs = concat (map utf8_encode cs)" by blast
  then show "validate_utf8_and_controls bs"
    by (induction cs arbitrary: bs) (auto simp: validate_encode)
qed

end
