(* ===== verification/T3_Secret.thy ===== *)
theory T3_Secret
  imports T3_Utf8
begin

text \<open>
  The secret format, \<open>lib/src/t3_secret.c\<close>. The definitions come first, then what makes them
  correct: the host check accepts exactly the dotted labels of the format, parsing accepts exactly
  the well-formed blobs and splits their domain without losing a byte, the transport mode is the
  one the query asks for, and serialising then parsing returns the fields.
\<close>

subsection \<open>Data\<close>

text \<open>\<open>struct t3_secret\<close>: each \<open>char *\<close>/length pair is one byte list.\<close>

record t3_secret =
  sec_key :: bytes
  sec_domain :: bytes
  sec_host :: bytes
  sec_path :: bytes
  sec_query :: bytes
  sec_fragment :: bytes

text \<open>\<open>t3_secret_fields\<close>: the producer-side input; \<open>None\<close> is a NULL string.\<close>

record t3_secret_fields =
  fld_key :: bytes
  fld_host :: "bytes option"
  fld_path :: "bytes option"

subsection \<open>Parsing\<close>

text \<open>The split of the domain at the first slash (host, path with its slash).\<close>

definition split_host_path :: "bytes \<Rightarrow> bytes \<times> bytes" where
  "split_host_path d =
     (case memchr 0x2F d of
        None \<Rightarrow> (d, [])
      | Some host_len \<Rightarrow> (take host_len d, drop host_len d))"

text \<open>
  The query and the fragment of a suffix that starts at the first \<open>?\<close> or \<open>#\<close>, with the source's
  two length computations: the second conditional overrides the first when the \<open>#\<close> comes first.
\<close>

definition split_suffix :: "bytes \<Rightarrow> bytes \<times> bytes" where
  "split_suffix sfx =
     (let q = memchr 0x3F sfx; f = memchr 0x23 sfx; n = length sfx;
          lens = (case (q, f) of
                    (Some qi, Some fi) \<Rightarrow>
                      if fi > qi then (fi - (qi + 1), n - (fi + 1)) else (n - (qi + 1), 0)
                  | (Some qi, None) \<Rightarrow> (n - (qi + 1), 0)
                  | _ \<Rightarrow> (0, 0));
          lens2 = (case f of
                     Some fi \<Rightarrow>
                       if (case q of None \<Rightarrow> True | Some qi \<Rightarrow> fi < qi)
                       then (0, n - (fi + 1)) else lens
                   | None \<Rightarrow> lens);
          query = (case q of Some qi \<Rightarrow> take (fst lens2) (drop (qi + 1) sfx) | None \<Rightarrow> []);
          fragment = (case f of Some fi \<Rightarrow> take (snd lens2) (drop (fi + 1) sfx) | None \<Rightarrow> [])
      in (query, fragment))"

text \<open>The first of the two special octets of a region, as the source's nested conditionals.\<close>

definition first_special :: "bytes \<Rightarrow> nat option" where
  "first_special s =
     (case (memchr 0x3F s, memchr 0x23 s) of
        (Some q, Some f) \<Rightarrow> Some (if q < f then q else f)
      | (Some q, None) \<Rightarrow> Some q
      | (None, Some f) \<Rightarrow> Some f
      | (None, None) \<Rightarrow> None)"

text \<open>
  The A-010 split: a special octet in the host ends host and path there; otherwise one in the
  path ends the path; the suffix is always taken from the original domain. The third component
  says whether the path buffer was allocated a second time.
\<close>

definition split_query_fragment :: "bytes \<Rightarrow> bytes \<Rightarrow> bytes \<Rightarrow> (bytes \<times> bytes \<times> bytes \<times> bytes) \<times> bool" where
  "split_query_fragment domn host path =
     (case first_special host of
        Some clean_host_len \<Rightarrow>
          let (query, fragment) = split_suffix (drop clean_host_len domn)
          in ((take clean_host_len host, [], query, fragment), True)
      | None \<Rightarrow>
          (case (if path = [] then None else first_special path) of
             Some clean_path_len \<Rightarrow>
               let (query, fragment) = split_suffix (drop (length host + clean_path_len) domn)
               in ((host, take clean_path_len path, query, fragment), False)
           | None \<Rightarrow> ((host, path, [], []), False)))"

text \<open>
  \<open>t3_secret_parse buf len &out\<close>. \<open>out_ok\<close> says that \<open>out\<close> is not NULL. The allocations of one call
  are numbered from 0 in program order and \<open>alloc k\<close> says that the \<open>k\<close>-th one succeeds.
\<close>

definition t3_secret_parse ::
  "(nat \<Rightarrow> bool) \<Rightarrow> bytes option \<Rightarrow> nat \<Rightarrow> bool \<Rightarrow> t3_result \<times> t3_secret option" where
  "t3_secret_parse alloc buf len out_ok =
     (if \<not> out_ok then (T3_ERR_INVALID_ARG, None)
      else if buf = None \<and> len > 0 then (T3_ERR_INVALID_ARG, None)
      else if len < 18 then (T3_ERR_MALFORMED, None)
      else
        (let b = the buf in
         if b ! 0 \<noteq> 0xFF then (T3_ERR_MALFORMED, None)
         else
           (let domain_len = len - 17; domain_buf = take domain_len (drop 17 b) in
            if domain_len > 512 then (T3_ERR_MALFORMED, None)
            else if domain_buf ! 0 = 0x2F then (T3_ERR_MALFORMED, None)
            else if \<not> validate_utf8_and_controls domain_buf then (T3_ERR_MALFORMED, None)
            else if \<not> alloc 0 then (T3_ERR_INTERNAL, None)
            else if \<not> alloc 1 then (T3_ERR_INTERNAL, None)
            else
              (let (host, path) = split_host_path domain_buf in
               if \<not> alloc 2 then (T3_ERR_INTERNAL, None)
               else if \<not> alloc 3 then (T3_ERR_INTERNAL, None)
               else
                 (let ((host', path', query, fragment), realloc) =
                        split_query_fragment domain_buf host path;
                      k = (if realloc then 5 else 4) in
                  if realloc \<and> \<not> alloc 4 then (T3_ERR_INTERNAL, None)
                  else if \<not> alloc k then (T3_ERR_INTERNAL, None)
                  else if \<not> alloc (k + 1) then (T3_ERR_INTERNAL, None)
                  else (T3_OK, Some \<lparr>sec_key = take 16 (drop 1 b), sec_domain = domain_buf,
                                     sec_host = host', sec_path = path',
                                     sec_query = query, sec_fragment = fragment\<rparr>))))))"

subsection \<open>Zeroising\<close>

definition t3_internal_bzero :: "bytes \<Rightarrow> bytes" where
  "t3_internal_bzero p = replicate (length p) 0"

text \<open>\<open>t3_secret_free\<close>: what the struct holds when it is handed to \<open>free\<close>.\<close>

definition t3_secret_free :: "t3_secret option \<Rightarrow> t3_secret option" where
  "t3_secret_free s =
     (case s of
        None \<Rightarrow> None
      | Some sec \<Rightarrow> Some \<lparr>sec_key = t3_internal_bzero (sec_key sec), sec_domain = [], sec_host = [],
                          sec_path = [], sec_query = [], sec_fragment = []\<rparr>)"

definition t3_secret_zeroise :: "t3_secret_fields option \<Rightarrow> t3_secret_fields option" where
  "t3_secret_zeroise flds =
     (case flds of
        None \<Rightarrow> None
      | Some f \<Rightarrow> Some (f\<lparr>fld_key := t3_internal_bzero (fld_key f)\<rparr>))"

subsection \<open>Host and path validation\<close>

definition host_char :: "byte \<Rightarrow> bool" where
  "host_char c \<longleftrightarrow> (0x61 \<le> c \<and> c \<le> 0x7A) \<or> (0x41 \<le> c \<and> c \<le> 0x5A) \<or> (0x30 \<le> c \<and> c \<le> 0x39) \<or> c = 0x2D"

text \<open>
  The label loop: the bytes left, the counters \<open>total\<close> and \<open>label_len\<close>, and the byte before the
  current one (\<open>*(p-1)\<close>, read only when \<open>label_len\<close> is not zero).
\<close>

fun validate_host_loop :: "bytes \<Rightarrow> nat \<Rightarrow> nat \<Rightarrow> byte \<Rightarrow> t3_result" where
  "validate_host_loop [] tot label_len prev =
     (if label_len = 0 \<or> prev = 0x2D then T3_ERR_HOST_INVALID else T3_OK)"
| "validate_host_loop (c # rest) tot label_len prev =
     (if tot + 1 > 253 then T3_ERR_HOST_INVALID
      else if c = 0x2E then
        (if label_len = 0 \<or> label_len > 63 \<or> prev = 0x2D then T3_ERR_HOST_INVALID
         else validate_host_loop rest (tot + 1) 0 c)
      else if label_len = 0 \<and> c = 0x2D then T3_ERR_HOST_INVALID
      else if \<not> host_char c then T3_ERR_HOST_INVALID
      else if label_len + 1 > 63 then T3_ERR_HOST_INVALID
      else validate_host_loop rest (tot + 1) (label_len + 1) c)"

definition t3_secret_validate_host :: "bytes option \<Rightarrow> t3_result" where
  "t3_secret_validate_host host =
     (case host of
        None \<Rightarrow> T3_ERR_HOST_EMPTY
      | Some h \<Rightarrow>
          if h = [] then T3_ERR_HOST_EMPTY
          else if list_ex (\<lambda>c. c > 0x7F) h then T3_ERR_HOST_NON_ASCII
          else validate_host_loop h 0 0 0)"

fun validate_path_chars :: "bytes \<Rightarrow> t3_result" where
  "validate_path_chars [] = T3_OK"
| "validate_path_chars (c # rest) =
     (if c > 0x7F then T3_ERR_PATH_NON_ASCII
      else if c = 0x25 then T3_ERR_PATH_PERCENT_ENCODED
      else validate_path_chars rest)"

fun has_empty_segment :: "bytes \<Rightarrow> bool" where
  "has_empty_segment (a # b # rest) = ((a = 0x2F \<and> b = 0x2F) \<or> has_empty_segment (b # rest))"
| "has_empty_segment _ = False"

definition t3_secret_validate_path :: "bytes option \<Rightarrow> t3_result" where
  "t3_secret_validate_path path =
     (case path of
        None \<Rightarrow> T3_OK
      | Some p \<Rightarrow>
          if p = [] then T3_OK
          else if hd p \<noteq> 0x2F then T3_ERR_PATH_MISSING_LEADING_SLASH
          else if validate_path_chars p \<noteq> T3_OK then validate_path_chars p
          else if has_empty_segment p then T3_ERR_PATH_EMPTY_SEGMENT
          else if length p > 1 \<and> last p = 0x2F then T3_ERR_PATH_TRAILING_SLASH
          else T3_OK)"

subsection \<open>Serialising\<close>

text \<open>
  \<open>t3_secret_serialise in out &inout_len\<close>: \<open>cap\<close> is \<open>*inout_len\<close> on entry, \<open>None\<close> for a NULL
  \<open>inout_len\<close>; \<open>out_ok\<close> says that \<open>out\<close> is not NULL. The result is the code, the bytes written
  and \<open>*inout_len\<close> on return.
\<close>

definition t3_secret_serialise ::
  "t3_secret_fields option \<Rightarrow> bool \<Rightarrow> nat option \<Rightarrow> t3_result \<times> bytes option \<times> nat option" where
  "t3_secret_serialise inp out_ok cap =
     (case (inp, cap) of
        (Some f, Some c) \<Rightarrow>
          if t3_secret_validate_host (fld_host f) \<noteq> T3_OK
          then (t3_secret_validate_host (fld_host f), None, Some c)
          else if t3_secret_validate_path (fld_path f) \<noteq> T3_OK
          then (t3_secret_validate_path (fld_path f), None, Some c)
          else if list_all (\<lambda>k. k = 0) (fld_key f) then (T3_ERR_KEY_INVALID, None, Some c)
          else
            (let host = the (fld_host f);
                 path = (case fld_path f of None \<Rightarrow> [] | Some p \<Rightarrow> p);
                 domain_len = length host + length path;
                 required = 1 + 16 + domain_len in
             if domain_len > 512 then (T3_ERR_INVALID_ARG, None, Some c)
             else if \<not> out_ok \<or> c < required then (T3_ERR_BUF_TOO_SMALL, None, Some required)
             else (T3_OK, Some ([0xFF] @ fld_key f @ host @ path), Some required))
      | _ \<Rightarrow> (T3_ERR_INVALID_ARG, None, cap))"

subsection \<open>Transport mode\<close>

text \<open>The decimal loop: the mode so far; \<open>None\<close> when it exceeds 255.\<close>

fun parse_mode_digits :: "bytes \<Rightarrow> nat \<Rightarrow> (nat \<times> bytes) option" where
  "parse_mode_digits [] mode = Some (mode, [])"
| "parse_mode_digits (c # rest) mode =
     (if 0x30 \<le> c \<and> c \<le> 0x39 then
        (let mode' = mode * 10 + unat (c - 0x30) in
         if mode' > 255 then None else parse_mode_digits rest mode')
      else Some (mode, c # rest))"

definition t3_secret_transport_mode :: "t3_secret option \<Rightarrow> t3_transport_mode" where
  "t3_secret_transport_mode s =
     (case s of
        None \<Rightarrow> T3_TRANSPORT_WS
      | Some sec \<Rightarrow>
          if sec_query sec = [] then T3_TRANSPORT_WS
          else if \<not> starts_with [0x74, 0x3D] (sec_query sec) then T3_TRANSPORT_WS
          else
            (let val = drop 2 (sec_query sec) in
             if val = [] \<or> hd val = 0x26 then T3_TRANSPORT_WS
             else if hd val < 0x30 \<or> hd val > 0x39 then T3_TRANSPORT_WS
             else if hd val = 0x30 \<and> tl val \<noteq> [] \<and> hd (tl val) \<noteq> 0x26 then T3_TRANSPORT_WS
             else
               (case parse_mode_digits val 0 of
                  None \<Rightarrow> T3_TRANSPORT_WS
                | Some (mode, p) \<Rightarrow>
                    if p \<noteq> [] \<and> hd p \<noteq> 0x26 then T3_TRANSPORT_WS
                    else if mode = 1 then T3_TRANSPORT_HTTP_STREAM
                    else T3_TRANSPORT_WS)))"

section \<open>Host validation is exact\<close>

text \<open>The labels of a host name: the maximal runs without a dot.\<close>
fun labels :: "bytes \<Rightarrow> bytes list" where
  "labels [] = [[]]"
| "labels (c # s) = (if c = 0x2E then [] # labels s
                     else (case labels s of l # ls \<Rightarrow> (c # l) # ls | [] \<Rightarrow> [[c]]))"

definition valid_label :: "bytes \<Rightarrow> bool" where
  "valid_label l \<longleftrightarrow> l \<noteq> [] \<and> length l \<le> 63 \<and> list_all host_char l \<and> hd l \<noteq> 0x2D \<and> last l \<noteq> 0x2D"

definition valid_host :: "bytes \<Rightarrow> bool" where
  "valid_host h \<longleftrightarrow> length h \<le> 253 \<and> list_all valid_label (labels h)"

lemma labels_ne [simp]: "labels s \<noteq> []"
  by (induction s) (auto split: list.splits)

text \<open>The loop in the middle of a label whose first part is \<open>p\<close>.\<close>

definition label_part :: "bytes \<Rightarrow> bool" where
  "label_part p \<longleftrightarrow> length p \<le> 63 \<and> list_all host_char p \<and> (p \<noteq> [] \<longrightarrow> hd p \<noteq> 0x2D)"

lemma host_char_not_dot: "host_char c \<Longrightarrow> c \<noteq> 0x2E"
  by (auto simp: host_char_def)

lemma labels_prefix: "0x2E \<notin> set p \<Longrightarrow> labels (p @ s) = (p @ hd (labels s)) # tl (labels s)"
  by (induction p) (auto simp: neq_Nil_conv split: list.splits)

lemma host_loop_iff:
  "label_part p \<Longrightarrow> n \<le> 253 \<Longrightarrow>
   validate_host_loop s n (length p) (if p = [] then v else last p) = T3_OK
     \<longleftrightarrow> n + length s \<le> 253 \<and> list_all valid_label ((p @ hd (labels s)) # tl (labels s))"
proof (induction s arbitrary: n p v)
  case Nil
  then show ?case by (auto simp: label_part_def valid_label_def)
next
  case (Cons c s)
  show ?case
  proof (cases "c = 0x2E")
    case True
    then show ?thesis
      using Cons.IH [of "[]" "Suc n" c] Cons.prems
      by (cases "labels s"; cases "n = 253") (auto simp: label_part_def valid_label_def)
  next
    case False
    let ?p = "p @ [c]"
    have lab: "labels (c # s) = (c # hd (labels s)) # tl (labels s)"
      using False by (cases "labels s") auto
    show ?thesis
    proof (cases "label_part ?p")
      case True
      then show ?thesis
        using Cons.IH [of ?p "Suc n" v] Cons.prems False
        by (cases "n = 253") (auto simp: lab label_part_def hd_append simp del: labels.simps split: if_splits)
    next
      case F: False
      then have bad: "\<not> valid_label (p @ c # hd (labels s))"
        using Cons.prems by (auto simp: label_part_def valid_label_def hd_append split: if_splits)
      from F Cons.prems False have "validate_host_loop (c # s) n (length p) (if p = [] then v else last p) \<noteq> T3_OK"
        by (auto simp: label_part_def hd_append split: if_splits)
      with bad show ?thesis by (simp add: lab del: labels.simps validate_host_loop.simps)
    qed
  qed
qed

lemma host_char_ascii: "host_char c \<Longrightarrow> \<not> c > 0x7F"
  by (auto simp: host_char_def byte_le_iff byte_less_iff)

lemma labels_set: "set s \<subseteq> {0x2E} \<union> \<Union> (set ` set (labels s))"
proof (induction s)
  case (Cons c s)
  then show ?case by (cases "labels s") auto
qed simp

text \<open>\<open>t3_secret_validate_host\<close> accepts a host if and only if it is not
  empty, has at most 253 octets, and each of its dot-separated labels has 1 to 63 letters, digits
  and hyphens and neither starts nor ends with a hyphen.
\<close>

lemma validate_host_iff: "t3_secret_validate_host (Some h) = T3_OK \<longleftrightarrow> h \<noteq> [] \<and> valid_host h"
proof (cases "h = []")
  case False
  have lp: "label_part []" by (simp add: label_part_def)
  have "valid_host h \<Longrightarrow> \<not> list_ex (\<lambda>c. c > 0x7F) h"
  proof
    assume v: "valid_host h" and "list_ex (\<lambda>c. c > 0x7F) h"
    then obtain c where c: "c \<in> set h" "c > 0x7F" by (auto simp: list_ex_iff)
    with labels_set [of h] have "c = 0x2E \<or> (\<exists>l\<in>set (labels h). c \<in> set l)" by auto
    with v c(2) show False
      using host_char_ascii [of c] by (auto simp: valid_host_def valid_label_def list_all_iff)
  qed
  with False host_loop_iff [OF lp, of 0 h 0] show ?thesis
    by (cases "labels h") (auto simp: t3_secret_validate_host_def valid_host_def)
qed (simp add: t3_secret_validate_host_def)

section \<open>Parsing\<close>

lemma first_special_None_iff: "first_special s = None \<longleftrightarrow> 0x3F \<notin> set s \<and> 0x23 \<notin> set s"
  by (cases "memchr 0x3F s"; cases "memchr 0x23 s")
     (auto simp: first_special_def simp flip: memchr_None_iff)

lemma first_special_SomeD:
  assumes "first_special s = Some i"
  shows "i < length s" "s ! i \<in> {0x3F, 0x23}" "0x3F \<notin> set (take i s)" "0x23 \<notin> set (take i s)"
proof -
  have t: "c \<notin> set (take i s)" if "memchr c s = Some j" "i \<le> j" for c j
    using memchr_SomeD [OF that(1)] that(2) set_take_subset_set_take [of i j s] by auto
  have n: "c \<notin> set (take i s)" if "memchr c s = None" for c
    using that by (auto simp: memchr_None_iff dest: in_set_takeD)
  show "i < length s" "s ! i \<in> {0x3F, 0x23}"
    using assms unfolding first_special_def
    by (auto split: option.splits if_splits dest: memchr_SomeD)
  show "0x3F \<notin> set (take i s)" "0x23 \<notin> set (take i s)"
    using assms unfolding first_special_def
    by (cases "memchr 0x3F s"; cases "memchr 0x23 s"; auto simp: t n split: if_splits)+
qed

text \<open>The three shapes of the suffix that a special octet starts.\<close>

definition suffix_of :: "bytes \<Rightarrow> bytes \<Rightarrow> bytes \<Rightarrow> bool" where
  "suffix_of s query fragment \<longleftrightarrow>
     s = 0x23 # fragment \<and> query = []
     \<or> s = 0x3F # query \<and> 0x23 \<notin> set query \<and> fragment = []
     \<or> s = 0x3F # query @ 0x23 # fragment \<and> 0x23 \<notin> set query"

lemma split_suffix_hash: "split_suffix (0x23 # s) = ([], s)"
  by (cases "memchr 0x3F s") (auto simp: split_suffix_def Let_def)

lemma split_suffix_query: "0x23 \<notin> set s \<Longrightarrow> split_suffix (0x3F # s) = (s, [])"
  by (auto simp: split_suffix_def Let_def)

lemma split_suffix_both:
  "0x23 \<notin> set q \<Longrightarrow> split_suffix (0x3F # q @ 0x23 # s) = (q, s)"
  by (simp add: split_suffix_def Let_def)

lemma split_suffix_shape:
  assumes "s \<noteq> []" "hd s \<in> {0x3F, 0x23}"
  shows "suffix_of s (fst (split_suffix s)) (snd (split_suffix s))"
proof -
  from assms obtain c t where s: "s = c # t" "c = 0x3F \<or> c = 0x23" by (cases s) auto
  show ?thesis
  proof (cases "c = 0x23")
    case True
    with s show ?thesis by (simp add: split_suffix_hash suffix_of_def)
  next
    case False
    with s have c: "c = 0x3F" by simp
    show ?thesis
    proof (cases "0x23 \<in> set t")
      case False
      with s c show ?thesis by (simp add: split_suffix_query suffix_of_def)
    next
      case True
      then obtain q f where "t = q @ 0x23 # f" "0x23 \<notin> set q"
        by (meson split_list_first)
      with s c show ?thesis by (simp add: split_suffix_both suffix_of_def)
    qed
  qed
qed

text \<open>
  The well-formedness invariant of a parsed secret: host and path are a prefix of the domain, free
  of the octets that end them, and what follows them in the domain is spelt by query and fragment.
\<close>

definition secret_wf :: "t3_secret \<Rightarrow> bool" where
  "secret_wf s \<longleftrightarrow>
     length (sec_key s) = 16
     \<and> sec_host s @ sec_path s = take (length (sec_host s) + length (sec_path s)) (sec_domain s)
     \<and> set (sec_host s) \<inter> {0x2F, 0x3F, 0x23} = {}
     \<and> (sec_path s \<noteq> [] \<longrightarrow> hd (sec_path s) = 0x2F) \<and> set (sec_path s) \<inter> {0x3F, 0x23} = {}
     \<and> (let r = drop (length (sec_host s) + length (sec_path s)) (sec_domain s) in
        r = [] \<and> sec_query s = [] \<and> sec_fragment s = []
        \<or> suffix_of r (sec_query s) (sec_fragment s))"

lemma split_host_path_shape:
  assumes "split_host_path d = (h, p)"
  shows "h @ p = d" "0x2F \<notin> set h" "p \<noteq> [] \<Longrightarrow> hd p = 0x2F" 
proof -
  show "h @ p = d" "0x2F \<notin> set h" "p \<noteq> [] \<Longrightarrow> hd p = 0x2F" 
    using assms
    by (auto simp: split_host_path_def hd_drop_conv_nth memchr_None_iff split: option.splits
             dest: memchr_SomeD)
qed

lemma split_query_fragment_shape:
  assumes sp: "split_query_fragment d h p = ((h', p', q, f), ra)" and d: "h @ p = d" "0x2F \<notin> set h"
    and hp: "p \<noteq> [] \<Longrightarrow> hd p = 0x2F"
  shows "h' @ p' = take (length h' + length p') d" (is ?A)
    and "set h' \<inter> {0x2F, 0x3F, 0x23} = {}" (is ?B)
    and "p' \<noteq> [] \<longrightarrow> hd p' = 0x2F" (is ?C)
    and "set p' \<inter> {0x3F, 0x23} = {}" (is ?D)
    and "let r = drop (length h' + length p') d in r = [] \<and> q = [] \<and> f = [] \<or> suffix_of r q f" (is ?E)
proof -
  have "?A \<and> ?B \<and> ?C \<and> ?D \<and> ?E"
  proof (cases "first_special h")
    case (Some i)
    note s = first_special_SomeD [OF Some]
    have "hd (drop i d) = h ! i" "drop i d \<noteq> []"
      using s(1) d by (auto simp: hd_drop_conv_nth nth_append)
    then have "suffix_of (drop i d) (fst (split_suffix (drop i d))) (snd (split_suffix (drop i d)))"
      using s(2) by (intro split_suffix_shape) auto
    with s sp d Some show ?thesis
      by (auto simp: split_query_fragment_def Let_def split: prod.splits dest: in_set_takeD)
  next
    case None
    then have h: "set h \<inter> {0x2F, 0x3F, 0x23} = {}" using d by (auto simp: first_special_None_iff)
    show ?thesis
    proof (cases "first_special p")
      case p: None
      with None sp have "h' = h" "p' = p" "q = []" "f = []"
        by (cases "p = []"; simp add: split_query_fragment_def)+
      with h hp d p show ?thesis by (auto simp: first_special_None_iff)
    next
      case (Some i)
      note s = first_special_SomeD [OF Some]
      have "hd (drop (length h + i) d) = p ! i" "drop (length h + i) d \<noteq> []"
        using s(1) d by (auto simp: hd_drop_conv_nth nth_append)
      then have "suffix_of (drop (length h + i) d) (fst (split_suffix (drop (length h + i) d)))
          (snd (split_suffix (drop (length h + i) d)))"
        using s(2) by (intro split_suffix_shape) auto
      moreover have "i \<noteq> 0" using s(1,2) hp by (cases p; cases i) auto
      ultimately show ?thesis
        using s sp d None Some h hp
        by (auto simp: split_query_fragment_def Let_def split: prod.splits if_splits)
    qed
  qed
  then show ?A ?B ?C ?D ?E by auto
qed

lemma t3_secret_parse_OK_cases:
  assumes "t3_secret_parse alloc (Some b) (length b) True = (T3_OK, Some s)"
  obtains h p h' p' q f ra where "18 \<le> length b" "length b \<le> 529" "b ! 0 = 0xFF"
    "drop 17 b ! 0 \<noteq> 0x2F" "validate_utf8_and_controls (drop 17 b)"
    "split_host_path (drop 17 b) = (h, p)" "split_query_fragment (drop 17 b) h p = ((h', p', q, f), ra)"
    "s = \<lparr>sec_key = take 16 (drop 1 b), sec_domain = drop 17 b, sec_host = h', sec_path = p',
          sec_query = q, sec_fragment = f\<rparr>"
  using assms by (auto simp: t3_secret_parse_def Let_def split: if_splits prod.splits)

text \<open>When \<open>t3_secret_parse\<close> succeeds, the blob is the marker, the key
  and the domain, and the secret satisfies the invariant \<open>secret_wf\<close>: host and path are byte-clean
  and query and fragment are exactly what follows them.
\<close>

lemma t3_secret_parse_wf:
  assumes "t3_secret_parse alloc (Some b) (length b) True = (T3_OK, Some s)"
  shows "secret_wf s \<and> b = 0xFF # sec_key s @ sec_domain s"
proof -
  from assms obtain h p h' p' q f ra where l: "18 \<le> length b" and b0: "b ! 0 = 0xFF"
    and hp: "split_host_path (drop 17 b) = (h, p)"
    and sq: "split_query_fragment (drop 17 b) h p = ((h', p', q, f), ra)"
    and s: "s = \<lparr>sec_key = take 16 (drop 1 b), sec_domain = drop 17 b, sec_host = h', sec_path = p',
          sec_query = q, sec_fragment = f\<rparr>"
    by (rule t3_secret_parse_OK_cases)
  note sh = split_query_fragment_shape [OF sq split_host_path_shape [OF hp]]
  from l obtain x r where br: "b = x # r" by (cases b) auto
  have "r = take 16 r @ drop 16 r" by simp
  then have "b = 0xFF # sec_key s @ sec_domain s" using b0 br s by simp
  moreover have "secret_wf s" using sh l s by (simp add: secret_wf_def)
  ultimately show ?thesis by blast
qed

text \<open>With memory available, \<open>t3_secret_parse\<close> succeeds exactly on the blobs
  of 18 to 529 bytes with marker 0xFF whose domain does not start with a slash and passes the
  octet check.
\<close>

lemma t3_secret_parse_accepts:
  assumes "\<And>k. k < 7 \<Longrightarrow> alloc k"
  shows "fst (t3_secret_parse alloc (Some b) (length b) True) = T3_OK \<longleftrightarrow>
     18 \<le> length b \<and> length b \<le> 529 \<and> b ! 0 = 0xFF \<and> b ! 17 \<noteq> 0x2F
     \<and> validate_utf8_and_controls (drop 17 b)"
  using assms by (auto simp: t3_secret_parse_def Let_def split: prod.splits)

lemma validate_ascii:
  "list_all (\<lambda>c. 0x20 \<le> c \<and> c < 0x7F) s \<Longrightarrow> validate_utf8_and_controls s"
  by (induction s) (auto simp: byte_le_iff byte_less_iff byte_eq_iff [of _ "0x7F"])

lemma split_clean:
  assumes "0x2F \<notin> set h" "p \<noteq> [] \<longrightarrow> hd p = 0x2F"
    and "set (h @ p) \<inter> {0x3F, 0x23} = {}"
  shows "split_host_path (h @ p) = (h, p)"
    and "split_query_fragment (h @ p) h p = ((h, p, [], []), False)"
proof -
  show "split_host_path (h @ p) = (h, p)"
    using assms by (cases p) (auto simp: split_host_path_def)
  have "first_special h = None" "first_special p = None"
    using assms(3) by (auto simp: first_special_None_iff)
  then show "split_query_fragment (h @ p) h p = ((h, p, [], []), False)"
    by (cases p) (simp_all add: split_query_fragment_def)
qed

lemma parse_mode_digits_Some:
  "parse_mode_digits s m = Some (n, p) \<Longrightarrow> p \<noteq> [] \<Longrightarrow> \<not> (0x30 \<le> hd p \<and> hd p \<le> 0x39)"
  by (induction s m rule: parse_mode_digits.induct) (auto simp: Let_def split: if_splits)

lemma parse_mode_digits_ge: "parse_mode_digits s m = Some (n, p) \<Longrightarrow> m \<le> n"
  by (induction s m rule: parse_mode_digits.induct) (auto simp: Let_def split: if_splits)

lemma parse_mode_digits_grows:
  "parse_mode_digits (c # s) m = Some (n, p) \<Longrightarrow> 0 < m \<Longrightarrow> 0x30 \<le> c \<Longrightarrow> c \<le> 0x39 \<Longrightarrow> 10 \<le> n"
  by (auto simp: Let_def split: if_splits dest!: parse_mode_digits_ge)

lemma digit_unat: "0x30 \<le> c \<Longrightarrow> c \<le> 0x39 \<Longrightarrow> unat (c - 0x30) = unat c - 48" for c :: byte
  by (simp add: byte_le_iff unat_sub_if_size)

lemma parse_mode_one:
  assumes "parse_mode_digits (c # s) 0 = Some (1, p)" "0x30 \<le> c" "c \<le> 0x39"
    "p = [] \<or> hd p = 0x26" "\<not> (c = 0x30 \<and> s \<noteq> [] \<and> hd s \<noteq> 0x26)"
  shows "c = 0x31 \<and> s = p"
proof -
  have c0: "parse_mode_digits s (unat (c - 0x30)) = Some (1, p)"
    using assms(1-3) by (auto simp: Let_def split: if_splits)
  have nz: "unat (c - 0x30) \<noteq> 0"
  proof
    assume z: "unat (c - 0x30) = 0"
    then have "c = 0x30" by (simp add: unat_eq_0)
    with assms(5) c0 z show False by (cases s) (auto simp: Let_def split: if_splits)
  qed
  then have u: "unat (c - 0x30) = 1" using parse_mode_digits_ge [OF c0] by simp
  have "unat c = 49" using u assms(2) digit_unat [OF assms(2,3)] unfolding byte_le_iff by simp
  then have "c = 0x31" by (simp add: byte_eq_iff)
  moreover have "s = p"
  proof (cases s)
    case Nil
    with c0 show ?thesis by simp
  next
    case (Cons d t)
    show ?thesis
    proof (cases "0x30 \<le> d \<and> d \<le> 0x39")
      case True
      with parse_mode_digits_grows [of d t "unat (c - 0x30)" 1 p] c0 Cons nz show ?thesis by simp
    next
      case False
      with c0 Cons show ?thesis by auto
    qed
  qed
  ultimately show ?thesis by blast
qed

text \<open>A parsed secret selects the HTTP stream if and only if its query is
  \<open>t=1\<close> or starts with \<open>t=1&\<close>; every other query, also a malformed one, falls back to WebSocket.
\<close>

lemma transport_mode_iff:
  "t3_secret_transport_mode (Some s) = T3_TRANSPORT_HTTP_STREAM \<longleftrightarrow>
     sec_query s = ascii ''t=1'' \<or> starts_with (ascii ''t=1&'') (sec_query s)"
proof
  assume "sec_query s = ascii ''t=1'' \<or> starts_with (ascii ''t=1&'') (sec_query s)"
  then show "t3_secret_transport_mode (Some s) = T3_TRANSPORT_HTTP_STREAM"
    by (auto simp: t3_secret_transport_mode_def Let_def dest!: starts_withD)
next
  assume a: "t3_secret_transport_mode (Some s) = T3_TRANSPORT_HTTP_STREAM"
  then have "starts_with [0x74, 0x3D] (sec_query s)"
    by (auto simp: t3_secret_transport_mode_def split: if_splits)
  then obtain v where q: "sec_query s = 0x74 # 0x3D # v" by (auto dest: starts_withD)
  with a obtain c t where v: "v = c # t"
    by (cases v) (auto simp: t3_secret_transport_mode_def Let_def split: if_splits)
  from a q v obtain p where "parse_mode_digits (c # t) 0 = Some (1, p)" "0x30 \<le> c" "c \<le> 0x39"
    "p = [] \<or> hd p = 0x26" "\<not> (c = 0x30 \<and> t \<noteq> [] \<and> hd t \<noteq> 0x26)"
    by (auto simp: t3_secret_transport_mode_def Let_def not_less split: if_splits option.splits)
  then have "c = 0x31 \<and> t = p" "p = [] \<or> hd p = 0x26" using parse_mode_one by blast+
  with q v show "sec_query s = ascii ''t=1'' \<or> starts_with (ascii ''t=1&'') (sec_query s)"
    by (cases p) auto
qed

section \<open>Serialising and parsing back\<close>

lemma valid_host_chars: "valid_host h \<Longrightarrow> c \<in> set h \<Longrightarrow> c = 0x2E \<or> host_char c"
  using labels_set [of h] by (fastforce simp: valid_host_def valid_label_def list_all_iff)

text \<open>The octets of a producer-side path that the parser keeps in the path.\<close>

definition clean_path_octet :: "byte \<Rightarrow> bool" where
  "clean_path_octet c \<longleftrightarrow> 0x20 \<le> c \<and> c < 0x7F \<and> c \<noteq> 0x3F \<and> c \<noteq> 0x23"

lemma host_char_plain: "host_char c \<Longrightarrow> clean_path_octet c \<and> c \<noteq> 0x2F"
  by (auto simp: host_char_def clean_path_octet_def byte_le_iff byte_less_iff)

lemma validate_host_loop_OK_valid:
  assumes "t3_secret_validate_host (Some h) = T3_OK" shows "h \<noteq> [] \<and> valid_host h"
proof -
  have "label_part []" by (simp add: label_part_def)
  from host_loop_iff [OF this, of 0 h 0] assms show ?thesis
    by (cases "labels h") (auto simp: t3_secret_validate_host_def valid_host_def split: if_splits)
qed

lemma validate_path_slash:
  "t3_secret_validate_path (Some p) = T3_OK \<Longrightarrow> p \<noteq> [] \<Longrightarrow> hd p = 0x2F"
  by (auto simp: t3_secret_validate_path_def split: if_splits)

lemma t3_secret_serialise_OK:
  assumes "t3_secret_serialise (Some f) out_ok cap = (T3_OK, Some b, n)"
  obtains h p where "fld_host f = Some h" "p = (case fld_path f of None \<Rightarrow> [] | Some p \<Rightarrow> p)"
    "b = 0xFF # fld_key f @ h @ p" "h \<noteq> []" "valid_host h" "p \<noteq> [] \<longrightarrow> hd p = 0x2F"
    "length h + length p \<le> 512" "list_ex (\<lambda>k. k \<noteq> 0) (fld_key f)"
proof -
  from assms have host: "t3_secret_validate_host (fld_host f) = T3_OK"
    and path: "t3_secret_validate_path (fld_path f) = T3_OK"
    by (auto simp: t3_secret_serialise_def split: if_splits option.splits)
  from host obtain h where h: "fld_host f = Some h" by (cases "fld_host f") (auto simp: t3_secret_validate_host_def)
  let ?p = "case fld_path f of None \<Rightarrow> [] | Some p \<Rightarrow> p"
  have "?p \<noteq> [] \<longrightarrow> hd ?p = 0x2F" using path validate_path_slash by (cases "fld_path f") auto
  moreover have "h \<noteq> []" "valid_host h" using validate_host_loop_OK_valid host h by auto
  moreover have "b = 0xFF # fld_key f @ h @ ?p" "length h + length ?p \<le> 512"
    "list_ex (\<lambda>k. k \<noteq> 0) (fld_key f)"
    using assms host path h
    by (auto simp: t3_secret_serialise_def Let_def list_ex_iff list_all_iff
             split: if_splits option.splits)
  ultimately show ?thesis using that h by blast
qed

lemma t3_secret_parse_eq:
  assumes "18 \<le> length b" "length b \<le> 529" "b ! 0 = 0xFF" "d = drop 17 b" "d ! 0 \<noteq> 0x2F"
    "validate_utf8_and_controls d" "split_host_path d = (h, p)"
    "split_query_fragment d h p = ((h', p', q, f), ra)" "\<And>k. k < 7 \<Longrightarrow> alloc k"
  shows "t3_secret_parse alloc (Some b) (length b) True =
    (T3_OK, Some \<lparr>sec_key = take 16 (drop 1 b), sec_domain = d, sec_host = h', sec_path = p',
       sec_query = q, sec_fragment = f\<rparr>)"
  using assms by (simp add: t3_secret_parse_def Let_def)

text \<open>C5: (round trip). Whatever \<open>t3_secret_serialise\<close> emits for a 16-byte key, a host and a path of
  printable octets without \<open>?\<close> and \<open>#\<close>, \<open>t3_secret_parse\<close> reads back: same key, host and path,
  empty query and fragment.
\<close>

theorem t3_secret_serialise_parse:
  assumes ser: "t3_secret_serialise (Some f) out_ok cap = (T3_OK, Some b, n)"
    and key: "length (fld_key f) = 16"
    and path: "list_all clean_path_octet (case fld_path f of None \<Rightarrow> [] | Some p \<Rightarrow> p)"
    and alloc: "\<And>k. k < 7 \<Longrightarrow> alloc k"
  shows "t3_secret_parse alloc (Some b) (length b) True =
    (T3_OK, Some \<lparr>sec_key = fld_key f,
       sec_domain = the (fld_host f) @ (case fld_path f of None \<Rightarrow> [] | Some p \<Rightarrow> p),
       sec_host = the (fld_host f), sec_path = (case fld_path f of None \<Rightarrow> [] | Some p \<Rightarrow> p),
       sec_query = [], sec_fragment = []\<rparr>)"
proof -
  from ser obtain h p where h: "fld_host f = Some h" and p: "p = (case fld_path f of None \<Rightarrow> [] | Some p \<Rightarrow> p)"
    and b: "b = 0xFF # fld_key f @ h @ p" and ne: "h \<noteq> []" and v: "valid_host h"
    and sl: "p \<noteq> [] \<longrightarrow> hd p = 0x2F" and l: "length h + length p \<le> 512"
    by (rule t3_secret_serialise_OK)
  have hc: "clean_path_octet c \<and> c \<noteq> 0x2F" if "c \<in> set h" for c
    using valid_host_chars [OF v that] host_char_plain by (auto simp: clean_path_octet_def)
  have cl: "\<forall>c\<in>set (h @ p). clean_path_octet c" using hc path p by (auto simp: list_all_iff)
  have d: "drop 17 b = h @ p" "take 16 (drop 1 b) = fld_key f" "b ! 0 = 0xFF"
    using key b by simp_all
  have "(h @ p) ! 0 \<noteq> 0x2F" using ne hc by (cases h) auto
  moreover have "validate_utf8_and_controls (h @ p)"
    by (rule validate_ascii) (use cl in \<open>auto simp: list_all_iff clean_path_octet_def\<close>)
  moreover have "split_host_path (h @ p) = (h, p)"
      "split_query_fragment (h @ p) h p = ((h, p, [], []), False)"
    using split_clean [of h p] hc cl sl by (auto simp: clean_path_octet_def)
  moreover have "18 \<le> length b" "length b \<le> 529" using b key l ne by (cases h; simp)+
  ultimately show ?thesis
    using t3_secret_parse_eq [of b "h @ p" h p h p "[]" "[]" False alloc] d alloc h p by simp
qed

theorem t3_secret_serialise_parse_witness:
  "t3_secret_parse (\<lambda>_. True) (Some (0xFF # replicate 16 0xAB @ ascii ''ex.io/ws'')) 25 True =
    (T3_OK, Some \<lparr>sec_key = replicate 16 0xAB, sec_domain = ascii ''ex.io/ws'',
       sec_host = ascii ''ex.io'', sec_path = ascii ''/ws'', sec_query = [], sec_fragment = []\<rparr>)"
proof -
  let ?f = "\<lparr>fld_key = replicate 16 0xAB, fld_host = Some (ascii ''ex.io''),
              fld_path = Some (ascii ''/ws'')\<rparr>"
  have ser: "t3_secret_serialise (Some ?f) True (Some 100) =
      (T3_OK, Some (0xFF # replicate 16 0xAB @ ascii ''ex.io/ws''), Some 25)"
    by code_simp
  have path: "list_all clean_path_octet (case fld_path ?f of None \<Rightarrow> [] | Some p \<Rightarrow> p)"
    by code_simp
  show ?thesis
    using t3_secret_serialise_parse [OF ser _ path, of "\<lambda>_. True"] by simp
qed

text \<open>
  The comment in \<open>t3_secret_parse\<close> says that \<open>t3_secret_serialise\<close> enforces the producer-side ban
  on \<open>?\<close> and \<open>#\<close>. It does not: such a path is serialised, and parses back to another path with a
  query. A path with a control character is serialised too, and then does not parse at all.
\<close>

lemma t3_secret_serialise_accepts_query:
  "fst (t3_secret_serialise (Some \<lparr>fld_key = replicate 16 1, fld_host = Some (ascii ''a''),
        fld_path = Some (ascii ''/b?t=1'')\<rparr>) True (Some 100)) = T3_OK
   \<and> t3_secret_parse (\<lambda>_. True) (Some (0xFF # replicate 16 1 @ ascii ''a/b?t=1'')) 24 True
     = (T3_OK, Some \<lparr>sec_key = replicate 16 1, sec_domain = ascii ''a/b?t=1'', sec_host = ascii ''a'',
          sec_path = ascii ''/b'', sec_query = ascii ''t=1'', sec_fragment = []\<rparr>)"
  by code_simp

lemma t3_secret_serialise_accepts_control:
  "t3_secret_serialise (Some \<lparr>fld_key = replicate 16 1, fld_host = Some (ascii ''a''),
      fld_path = Some [0x2F, 0x01]\<rparr>) True (Some 100)
     = (T3_OK, Some (0xFF # replicate 16 1 @ [0x61, 0x2F, 0x01]), Some 20)
   \<and> fst (t3_secret_parse (\<lambda>_. True) (Some (0xFF # replicate 16 1 @ [0x61, 0x2F, 0x01])) 20 True)
     = T3_ERR_MALFORMED"
  by code_simp

end
