(* ===== verification/T3_Url.thy ===== *)
theory T3_Url
  imports T3_Secret
begin

text \<open>
  The deeplink parser, \<open>lib/src/t3_url_parser.c\<close>: the hexadecimal decoder, the query-parameter
  search and \<open>t3_url_parse\<close>. A link that carries the hexadecimal form of a blob gives the result
  of parsing the blob, wherever the parameter stands in the query.
\<close>

subsection \<open>The deeplink parser\<close>

definition hex_nibble :: "byte \<Rightarrow> nat option" where
  "hex_nibble c =
     (if 0x30 \<le> c \<and> c \<le> 0x39 then Some (unat (c - 0x30))
      else if 0x61 \<le> c \<and> c \<le> 0x66 then Some (unat (c - 0x61) + 10)
      else if 0x41 \<le> c \<and> c \<le> 0x46 then Some (unat (c - 0x41) + 10)
      else None)"

fun hex_decode_pairs :: "bytes \<Rightarrow> bytes option" where
  "hex_decode_pairs (h # l # rest) =
     (case (hex_nibble h, hex_nibble l) of
        (Some hi, Some lo) \<Rightarrow>
          map_option ((#) (word_of_nat (hi * 16 + lo))) (hex_decode_pairs rest)
      | _ \<Rightarrow> None)"
| "hex_decode_pairs _ = Some []"

definition hex_decode :: "bytes \<Rightarrow> nat \<Rightarrow> bytes option" where
  "hex_decode hex expected =
     (if length hex \<noteq> expected * 2 then None else hex_decode_pairs hex)"

text \<open>\<open>query_param\<close>: the value of the first parameter named \<open>key\<close>; the allocation of its copy
  is the flag \<open>alloc\<close>.\<close>

function query_param :: "bool \<Rightarrow> bytes \<Rightarrow> bytes \<Rightarrow> bytes option" where
  "query_param alloc p key =
     (if p = [] then None
      else if starts_with (key @ [0x3D]) p then
        (let vs = drop (length key + 1) p;
             vlen = (case memchr 0x26 vs of Some e \<Rightarrow> e | None \<Rightarrow> length vs) in
         if alloc then Some (take vlen vs) else None)
      else
        (case memchr 0x26 p of
           None \<Rightarrow> None
         | Some i \<Rightarrow> query_param alloc (drop (Suc i) p) key))"
  by pat_completeness auto
termination
  by (relation "measure (\<lambda>(a, p, k). length p)") (auto dest: memchr_SomeD)

declare query_param.simps [simp del]

text \<open>\<open>t3_url_parse\<close>: \<open>alloc\<close> answers for the copy of the parameter (0), the binary buffer (1)
  and, shifted by two, the allocations of \<open>t3_secret_parse\<close>.\<close>

definition t3_url_parse ::
  "(nat \<Rightarrow> bool) \<Rightarrow> bytes option \<Rightarrow> bool \<Rightarrow> t3_result \<times> t3_secret option" where
  "t3_url_parse alloc url out_ok =
     (if \<not> out_ok then (T3_ERR_INVALID_ARG, None)
      else
        (case url of
           None \<Rightarrow> (T3_ERR_INVALID_ARG, None)
         | Some u \<Rightarrow>
             if \<not> starts_with (ascii ''tg://proxy?'') u then (T3_ERR_MALFORMED, None)
             else
               (case query_param (alloc 0) (drop 11 u) (ascii ''secret'') of
                  None \<Rightarrow> (T3_ERR_MALFORMED, None)
                | Some secret_hex \<Rightarrow>
                    (let hex_len = length secret_hex; bin_len = hex_len div 2 in
                     if hex_len < 36 \<or> odd hex_len then (T3_ERR_MALFORMED, None)
                     else if \<not> alloc 1 then (T3_ERR_INTERNAL, None)
                     else
                       (case hex_decode secret_hex bin_len of
                          None \<Rightarrow> (T3_ERR_MALFORMED, None)
                        | Some bin \<Rightarrow>
                            t3_secret_parse (\<lambda>k. alloc (k + 2)) (Some bin) bin_len True)))))"

section \<open>Correctness\<close>

definition hex_digit :: "nat \<Rightarrow> byte" where
  "hex_digit n = word_of_nat (if n < 10 then 48 + n else 87 + n)"

fun hex_encode :: "bytes \<Rightarrow> bytes" where
  "hex_encode [] = []"
| "hex_encode (b # bs) = hex_digit (unat b div 16) # hex_digit (unat b mod 16) # hex_encode bs"

lemma hex_nibble_digit: "n < 16 \<Longrightarrow> hex_nibble (hex_digit n) = Some n"
proof -
  have "list_all (\<lambda>n. hex_nibble (hex_digit n) = Some n) [0..<16]" by code_simp
  then show "n < 16 \<Longrightarrow> hex_nibble (hex_digit n) = Some n" by (simp add: list_all_iff)
qed

lemma hex_digit_not_amp: "n < 16 \<Longrightarrow> hex_digit n \<noteq> 0x26"
proof -
  have "list_all (\<lambda>n. hex_digit n \<noteq> 0x26) [0..<16]" by code_simp
  then show "n < 16 \<Longrightarrow> hex_digit n \<noteq> 0x26" by (simp add: list_all_iff)
qed

lemma unat_div16: "unat (b :: byte) div 16 < 16"
  using unat_byte_less [of b] by linarith

lemma hex_decode_encode: "hex_decode_pairs (hex_encode bs) = Some bs"
  by (induction bs) (simp_all add: hex_nibble_digit unat_div16)

lemma length_hex_encode [simp]: "length (hex_encode bs) = 2 * length bs"
  by (induction bs) auto

lemma hex_encode_no_amp: "0x26 \<notin> set (hex_encode bs)"
proof (induction bs)
  case (Cons b bs)
  then show ?case
    using hex_digit_not_amp [OF unat_div16 [of b]] hex_digit_not_amp [of "unat b mod 16"] by auto
qed simp

lemma starts_with_append_iff:
  "length k \<le> length x \<Longrightarrow> starts_with k (x @ y) \<longleftrightarrow> starts_with k x"
  by (simp add: starts_with_def)

text \<open>A query parameter that is not the one looked for.\<close>

definition other_param :: "bytes \<Rightarrow> bytes \<Rightarrow> bool" where
  "other_param key p \<longleftrightarrow> 0x26 \<notin> set p \<and> \<not> starts_with (key @ [0x3D]) p"

lemma query_param_skip:
  assumes "other_param key p" "0x26 \<notin> set key"
  shows "query_param alloc (p @ 0x26 # rest) key = query_param alloc rest key"
proof -
  have "\<not> starts_with (key @ [0x3D]) (p @ 0x26 # rest)"
  proof
    assume s: "starts_with (key @ [0x3D]) (p @ 0x26 # rest)"
    show False
    proof (cases "length (key @ [0x3D]) \<le> length p")
      case True
      with s assms show False by (simp add: starts_with_append_iff other_param_def)
    next
      case False
      from s have "(p @ 0x26 # rest) ! length p = (key @ [0x3D]) ! length p"
        using False by (metis starts_with_def nth_take not_le)
      moreover have "length p < length (key @ [0x3D])" using False by simp
      ultimately have "0x26 \<in> set (key @ [0x3D])" by (metis nth_append_length nth_mem)
      with assms show False by auto
    qed
  qed
  with assms show ?thesis
    by (subst query_param.simps) (simp add: other_param_def)
qed

lemma query_param_concat:
  assumes "list_all (other_param key) ps" "0x26 \<notin> set key"
  shows "query_param alloc (concat (map (\<lambda>p. p @ [0x26]) ps) @ rest) key = query_param alloc rest key"
  using assms by (induction ps) (auto simp: query_param_skip)

lemma query_param_hit:
  assumes "0x26 \<notin> set v" "rest = [] \<or> hd rest = 0x26"
  shows "query_param True (key @ [0x3D] @ v @ rest) key = Some v"
proof -
  have "starts_with (key @ [0x3D]) (key @ [0x3D] @ v @ rest)"
    using starts_with_append [of "key @ [0x3D]" "v @ rest"] by simp
  with assms show ?thesis
    by (subst query_param.simps) (cases rest, auto simp: Let_def)
qed

text \<open>C27: (deeplink round trip). A deeplink whose query carries the hexadecimal form of a blob of at
  least 18 bytes, after any other parameters and before any rest, gives exactly what
  \<open>t3_secret_parse\<close> gives on the blob.
\<close>

theorem t3_url_parse_correct:
  assumes "list_all (other_param (ascii ''secret'')) ps"
    and "rest = [] \<or> hd rest = 0x26" and "18 \<le> length b" and "alloc 0" and "alloc 1"
  shows "t3_url_parse alloc
      (Some (ascii ''tg://proxy?'' @ concat (map (\<lambda>p. p @ ascii ''&'') ps)
             @ ascii ''secret='' @ hex_encode b @ rest)) True
    = t3_secret_parse (\<lambda>k. alloc (k + 2)) (Some b) (length b) True"
proof -
  let ?q = "concat (map (\<lambda>p. p @ ascii ''&'') ps) @ ascii ''secret='' @ hex_encode b @ rest"
  have amp: "ascii ''&'' = [0x26]" by simp
  have eq: "ascii ''secret='' @ v = ascii ''secret'' @ [0x3D] @ v" for v by simp
  have q: "query_param True ?q (ascii ''secret'') = Some (hex_encode b)"
    unfolding amp eq
    by (subst query_param_concat [OF assms(1)])
       (simp, rule query_param_hit [OF hex_encode_no_amp assms(2)])
  have "drop 11 (ascii ''tg://proxy?'' @ ?q) = ?q" by (rule take_drop_append_exact) simp
  with q assms(3-5) show ?thesis
    by (simp add: t3_url_parse_def Let_def hex_decode_def hex_decode_encode del: ascii_Cons)
qed

theorem t3_url_parse_correct_witness:
  "fst (t3_url_parse (\<lambda>_. True)
      (Some (ascii ''tg://proxy?'' @ concat (map (\<lambda>p. p @ ascii ''&'') [ascii ''server=x''])
             @ ascii ''secret='' @ hex_encode (0xFF # replicate 16 7 @ ascii ''a'') @ ascii ''&port=1'')) True)
    = T3_OK"
proof -
  have "list_all (other_param (ascii ''secret'')) [ascii ''server=x'']" by code_simp
  moreover have "fst (t3_secret_parse (\<lambda>_. True) (Some (0xFF # replicate 16 7 @ ascii ''a''))
      (length (0xFF # replicate 16 7 @ ascii ''a'')) True) = T3_OK"
    by code_simp
  ultimately show ?thesis
    using t3_url_parse_correct [of "[ascii ''server=x'']" "ascii ''&port=1''"
        "0xFF # replicate 16 7 @ ascii ''a''" "\<lambda>_. True"] by (simp del: ascii_Cons add: ascii_def)
qed

end
