(* ===== verification/T3_Session.thy ===== *)
theory T3_Session
  imports T3_Types
begin

unbundle bit_operations_syntax

text \<open>
  The session object (\<open>lib/include/internal/session.h\<close>, \<open>retry.h\<close>) and its header and lifecycle
  operations, \<open>lib/src/t3_session_header.c\<close>: header parsing and serialising, version negotiation,
  the byte-at-a-time header accumulator, creation and the binding of the host callbacks.
\<close>

subsection \<open>State\<close>

text \<open>
  A pointer field of a C struct. \<open>Torn\<close> is a pointer of which a partial structure copy has
  overwritten only some bytes; calling through \<open>NullPtr\<close> or \<open>Torn\<close> is undefined behaviour.
\<close>

datatype 'f fptr = NullPtr | Fn 'f | Torn

text \<open>
  \<open>t3_callbacks_t\<close>. The library calls only \<open>rng\<close>: it gets the opaque context pointer and a length
  and, in the host state \<open>'w\<close>, either delivers that many bytes or fails (\<open>None\<close>).
\<close>

type_synonym 'w rng_fn = "nat \<Rightarrow> nat \<Rightarrow> 'w \<Rightarrow> bytes option \<times> 'w"

record 'w t3_callbacks =
  cb_struct_size :: nat
  cb_lower_send :: "unit fptr"
  cb_lower_recv :: "unit fptr"
  cb_frame_send :: "unit fptr"
  cb_frame_recv :: "unit fptr"
  cb_rng :: "'w rng_fn fptr"
  cb_monotonic_ns :: "unit fptr"
  cb_log_sink :: "unit fptr"
  cb_ctx :: nat

text \<open>\<open>t3_retry_ring_t\<close>; the two 8-bit counters are natural numbers below 256.\<close>

record t3_retry_ring =
  ring_slots :: "u64 list"
  ring_head :: nat
  ring_count :: nat

text \<open>\<open>struct t3_session\<close>; the secret is the address the caller passed.\<close>

record 'w t3_session =
  ses_secret :: nat
  ses_cb :: "'w t3_callbacks"
  ses_callbacks_bound :: bool
  ses_parse_buf :: bytes
  ses_parse_buf_len :: nat
  ses_peer_version :: byte
  ses_command_type :: byte
  ses_local_version :: byte
  ses_ring :: t3_retry_ring
  ses_state :: t3_retry_state
  ses_tier2_entered_ns :: u64
  ses_last_close_ns :: u64

subsection \<open>Session header\<close>

definition t3_cmd_known :: "byte \<Rightarrow> bool" where
  "t3_cmd_known c \<longleftrightarrow> c = T3_CMD_MTPROTO_PASSTHROUGH \<or> c = T3_CMD_BENCH"

text \<open>\<open>t3_header_parse buf out\<close> on a buffer of four bytes; \<open>out_ok\<close>: \<open>out\<close> is not NULL.\<close>

definition t3_header_parse :: "bytes option \<Rightarrow> bool \<Rightarrow> t3_result \<times> t3_header option" where
  "t3_header_parse buf out_ok =
     (case buf of
        None \<Rightarrow> (T3_ERR_INVALID_ARG, None)
      | Some b \<Rightarrow>
          if \<not> out_ok then (T3_ERR_INVALID_ARG, None)
          else
            (let cmd = b ! 0; ver = b ! 1;
                 flg = (ucast (b ! 2) :: u16) OR push_bit 8 (ucast (b ! 3)) in
             if cmd = 0x00 \<or> cmd = 0xFF then (T3_ERR_MALFORMED, None)
             else if ver = 0x00 then (T3_ERR_MALFORMED, None)
             else if t3_cmd_known cmd \<and> ver > 0x01 then (T3_ERR_UNSUPPORTED_VERSION, None)
             else if \<not> t3_cmd_known cmd \<and> ver = 0x01 then (T3_ERR_MALFORMED, None)
             else if \<not> t3_cmd_known cmd \<and> ver > 0x01 then (T3_ERR_UNSUPPORTED_VERSION, None)
             else if flg \<noteq> 0 then (T3_ERR_MALFORMED, None)
             else (T3_OK, Some \<lparr>hdr_command_type = cmd, hdr_version = ver, hdr_flags = flg\<rparr>)))"

definition t3_header_serialise :: "t3_header option \<Rightarrow> bool \<Rightarrow> t3_result \<times> bytes option" where
  "t3_header_serialise inp buf_ok =
     (case inp of
        None \<Rightarrow> (T3_ERR_INVALID_ARG, None)
      | Some h \<Rightarrow>
          if \<not> buf_ok then (T3_ERR_INVALID_ARG, None)
          else if \<not> t3_cmd_known (hdr_command_type h) then (T3_ERR_MALFORMED, None)
          else if hdr_version h \<noteq> 0x01 then (T3_ERR_MALFORMED, None)
          else if hdr_flags h \<noteq> 0 then (T3_ERR_MALFORMED, None)
          else (T3_OK, Some [hdr_command_type h, hdr_version h, ucast (hdr_flags h AND 0xFF),
                             ucast (drop_bit 8 (hdr_flags h) AND 0xFF)]))"

subsection \<open>Version negotiation\<close>

definition t3_session_negotiate_version ::
  "'w t3_session option \<Rightarrow> byte \<Rightarrow> bool
     \<Rightarrow> t3_result \<times> 'w t3_session option \<times> t3_version_action option" where
  "t3_session_negotiate_version sess peer_version out_ok =
     (case sess of
        None \<Rightarrow> (T3_ERR_INVALID_ARG, None, None)
      | Some s \<Rightarrow>
          if \<not> out_ok then (T3_ERR_INVALID_ARG, Some s, None)
          else if peer_version = 0x01 then
            (T3_OK, Some (s\<lparr>ses_peer_version := peer_version\<rparr>), Some T3_VERSION_OK)
          else if peer_version > 0x01 then
            (T3_OK, Some (s\<lparr>ses_peer_version := peer_version\<rparr>), Some T3_VERSION_RETRY_DOWNGRADE)
          else (T3_OK, Some s, Some T3_VERSION_SILENT_CLOSE))"

subsection \<open>The header accumulator\<close>

definition t3_session_handle_header_byte ::
  "'w t3_session option \<Rightarrow> byte \<Rightarrow> t3_result \<times> 'w t3_session option" where
  "t3_session_handle_header_byte sess b =
     (case sess of
        None \<Rightarrow> (T3_ERR_INVALID_ARG, None)
      | Some s \<Rightarrow>
          if ses_parse_buf_len s \<ge> 4 then (T3_ERR_INVALID_ARG, Some s)
          else
            (let s1 = s\<lparr>ses_parse_buf := (ses_parse_buf s)[ses_parse_buf_len s := b],
                        ses_parse_buf_len := ses_parse_buf_len s + 1\<rparr> in
             if ses_parse_buf_len s1 < 4 then (T3_OK, Some s1)
             else
               (let (rc, hdr) = t3_header_parse (Some (ses_parse_buf s1)) True in
                if rc \<noteq> T3_OK then (rc, Some s1)
                else
                  (let (rc2, s2, act) =
                         t3_session_negotiate_version (Some s1) (hdr_version (the hdr)) True in
                   if rc2 \<noteq> T3_OK then (rc2, s2)
                   else if act \<noteq> Some T3_VERSION_OK then (T3_ERR_UNSUPPORTED_VERSION, s2)
                   else (T3_OK, Some ((the s2)\<lparr>ses_command_type := hdr_command_type (the hdr)\<rparr>))))))"

text \<open>Bytes handed over one at a time, stopping at the first error.\<close>

fun feed_header :: "'w t3_session \<Rightarrow> bytes \<Rightarrow> t3_result \<times> 'w t3_session" where
  "feed_header s [] = (T3_OK, s)"
| "feed_header s (b # bs) =
     (let (rc, s') = t3_session_handle_header_byte (Some s) b in
      if rc = T3_OK then feed_header (the s') bs else (rc, the s'))"

subsection \<open>Lifecycle\<close>

definition zero_callbacks :: "'w t3_callbacks" where
  "zero_callbacks = \<lparr>cb_struct_size = 0, cb_lower_send = NullPtr, cb_lower_recv = NullPtr,
     cb_frame_send = NullPtr, cb_frame_recv = NullPtr, cb_rng = NullPtr, cb_monotonic_ns = NullPtr,
     cb_log_sink = NullPtr, cb_ctx = 0\<rparr>"

definition zero_ring :: t3_retry_ring where
  "zero_ring = \<lparr>ring_slots = replicate 8 0, ring_head = 0, ring_count = 0\<rparr>"

definition zero_session :: "'w t3_session" where
  "zero_session = \<lparr>ses_secret = 0, ses_cb = zero_callbacks, ses_callbacks_bound = False,
     ses_parse_buf = replicate 4 0, ses_parse_buf_len = 0, ses_peer_version = 0,
     ses_command_type = 0, ses_local_version = 0, ses_ring = zero_ring, ses_state = T3_RETRY_OK,
     ses_tier2_entered_ns = 0, ses_last_close_ns = 0\<rparr>"

text \<open>\<open>t3_session_new s &out\<close>: \<open>s\<close> is the secret's address (0 is NULL), \<open>alloc\<close> the \<open>calloc\<close>.\<close>

definition t3_session_new :: "bool \<Rightarrow> nat \<Rightarrow> bool \<Rightarrow> t3_result \<times> 'w t3_session option" where
  "t3_session_new alloc s out_ok =
     (if \<not> out_ok then (T3_ERR_INVALID_ARG, None)
      else if s = 0 then (T3_ERR_INVALID_ARG, None)
      else if \<not> alloc then (T3_ERR_INTERNAL, None)
      else (T3_OK, Some (zero_session\<lparr>ses_secret := s, ses_local_version := 0x01,
                                       ses_state := T3_RETRY_OK\<rparr>)))"

text \<open>\<open>t3_session_free\<close>: what the struct holds when it is handed to \<open>free\<close>.\<close>

definition t3_session_free :: "'w t3_session option \<Rightarrow> 'w t3_session option" where
  "t3_session_free sess = map_option (\<lambda>_. zero_session) sess"

text \<open>
  The partial copy of the callback structure: its nine members are eight bytes each on an LP64
  target, so the member at offset \<open>off\<close> is copied when \<open>off + 8 \<le> size\<close>, zeroed when \<open>size \<le> off\<close>
  and torn in between (a NULL stays NULL).
\<close>

definition T3_CALLBACKS_SIZE :: nat where "T3_CALLBACKS_SIZE = 72"

definition copy_fptr :: "nat \<Rightarrow> nat \<Rightarrow> 'f fptr \<Rightarrow> 'f fptr" where
  "copy_fptr sz off p =
     (if off + 8 \<le> sz then p
      else if sz \<le> off then NullPtr
      else (case p of NullPtr \<Rightarrow> NullPtr | _ \<Rightarrow> Torn))"

definition copy_callbacks :: "nat \<Rightarrow> 'w t3_callbacks \<Rightarrow> 'w t3_callbacks" where
  "copy_callbacks sz cb =
     \<lparr>cb_struct_size = cb_struct_size cb mod 256 ^ min sz 8,
      cb_lower_send = copy_fptr sz 8 (cb_lower_send cb),
      cb_lower_recv = copy_fptr sz 16 (cb_lower_recv cb),
      cb_frame_send = copy_fptr sz 24 (cb_frame_send cb),
      cb_frame_recv = copy_fptr sz 32 (cb_frame_recv cb),
      cb_rng = copy_fptr sz 40 (cb_rng cb),
      cb_monotonic_ns = copy_fptr sz 48 (cb_monotonic_ns cb),
      cb_log_sink = copy_fptr sz 56 (cb_log_sink cb),
      cb_ctx = cb_ctx cb mod 256 ^ (sz - 64)\<rparr>"

definition t3_session_bind_callbacks ::
  "'w t3_session option \<Rightarrow> 'w t3_callbacks option \<Rightarrow> t3_result \<times> 'w t3_session option" where
  "t3_session_bind_callbacks sess cb =
     (case (sess, cb) of
        (Some s, Some c) \<Rightarrow>
          if cb_struct_size c = 0 then (T3_ERR_INVALID_ARG, Some s)
          else if cb_struct_size c > T3_CALLBACKS_SIZE then (T3_ERR_INVALID_ARG, Some s)
          else if cb_lower_send c = NullPtr \<or> cb_lower_recv c = NullPtr \<or> cb_frame_send c = NullPtr
               \<or> cb_frame_recv c = NullPtr \<or> cb_rng c = NullPtr \<or> cb_monotonic_ns c = NullPtr
          then (T3_ERR_INVALID_ARG, Some s)
          else (T3_OK, Some (s\<lparr>ses_cb := copy_callbacks (cb_struct_size c) c,
                               ses_callbacks_bound := True\<rparr>))
      | _ \<Rightarrow> (T3_ERR_INVALID_ARG, sess))"

subsection \<open>Parsing and serialising agree\<close>

lemma flags_word_eq_0: "((ucast (a :: byte) :: u16) OR push_bit 8 (ucast (b :: byte)) = 0) \<longleftrightarrow> a = 0 \<and> b = 0"
proof -
  have "(ucast a :: u16) = 0 \<longleftrightarrow> a = 0"
    by (rule byte_all) code_simp
  moreover have "push_bit 8 (ucast b :: u16) = 0 \<longleftrightarrow> b = 0"
    by (rule byte_all) code_simp
  ultimately show ?thesis by (simp add: or_eq_0_iff)
qed

lemma byte_gt_1: "(v :: byte) > 1 \<longleftrightarrow> v \<noteq> 0 \<and> v \<noteq> 1"
  by (rule byte_all) code_simp

lemma length4E:
  assumes "length b = 4" obtains a0 a1 a2 a3 where "b = [a0, a1, a2, a3]"
  using assms by (auto simp: numeral_eq_Suc length_Suc_conv)

text \<open>C28: the exact behaviour of the header parser. Exactly two headers are accepted, the passthrough
  and the bench command at version 1 with no flags; a well-formed command with a newer version is
  reported as an unsupported version, and everything else is malformed.\<close>

theorem t3_header_parse_exact:
  assumes "length b = 4"
  shows "fst (t3_header_parse (Some b) True) =
    (if b = [0x01, 0x01, 0, 0] \<or> b = [0x04, 0x01, 0, 0] then T3_OK
     else if b ! 0 \<noteq> 0x00 \<and> b ! 0 \<noteq> 0xFF \<and> b ! 1 > 0x01 then T3_ERR_UNSUPPORTED_VERSION
     else T3_ERR_MALFORMED)"
proof -
  from assms obtain a0 a1 a2 a3 where "b = [a0, a1, a2, a3]" by (rule length4E)
  then show ?thesis
    by (auto simp: t3_header_parse_def Let_def t3_cmd_known_def t3_cmd_defs flags_word_eq_0 byte_gt_1)
qed

lemma t3_header_parse_OK:
  assumes "length b = 4" "fst (t3_header_parse (Some b) True) = T3_OK"
  shows "t3_header_parse (Some b) True =
    (T3_OK, Some \<lparr>hdr_command_type = b ! 0, hdr_version = 0x01, hdr_flags = 0\<rparr>)"
  using assms
  by (auto simp: t3_header_parse_def Let_def t3_cmd_known_def byte_gt_1 split: if_splits)

theorem t3_header_parse_exact_witness:
  "fst (t3_header_parse (Some [0x07, 0x02, 0, 0]) True) = T3_ERR_UNSUPPORTED_VERSION"
  using t3_header_parse_exact [of "[0x07, 0x02, 0, 0]"] by simp

text \<open>Whatever header the serialiser emits, the parser reads back the same header.\<close>

lemma t3_header_roundtrip:
  assumes "t3_header_serialise (Some h) True = (T3_OK, Some b)"
  shows "t3_header_parse (Some b) True = (T3_OK, Some h)"
  using assms
  by (cases h) (auto simp: t3_header_serialise_def t3_header_parse_def Let_def t3_cmd_known_def
      t3_cmd_defs split: if_splits)

subsection \<open>The accumulator\<close>

lemma feed_step_short:
  assumes "ses_parse_buf_len s = n" "n < 3"
  shows "t3_session_handle_header_byte (Some s) b =
    (T3_OK, Some (s\<lparr>ses_parse_buf := (ses_parse_buf s)[n := b], ses_parse_buf_len := n + 1\<rparr>))"
  using assms by (simp add: t3_session_handle_header_byte_def Let_def)

lemma feed_step_last:
  assumes "ses_parse_buf_len s = 3" "length (ses_parse_buf s) = 4"
    "bs = (ses_parse_buf s)[3 := b]"
  shows "t3_session_handle_header_byte (Some s) b =
    (fst (t3_header_parse (Some bs) True),
     Some (let s1 = s\<lparr>ses_parse_buf := bs, ses_parse_buf_len := 4\<rparr> in
           if fst (t3_header_parse (Some bs) True) = T3_OK
           then s1\<lparr>ses_peer_version := 0x01, ses_command_type := bs ! 0\<rparr> else s1))"
proof (cases "fst (t3_header_parse (Some bs) True) = T3_OK")
  case True
  have "length bs = 4" using assms by simp
  from t3_header_parse_OK [OF this True] assms show ?thesis
    by (simp add: t3_session_handle_header_byte_def Let_def t3_session_negotiate_version_def)
next
  case False
  with assms show ?thesis
    by (auto simp: t3_session_handle_header_byte_def Let_def split: prod.splits)
qed

text \<open>Feeding a header byte by byte to a fresh accumulator gives exactly the verdict of parsing the
  four bytes at once; on success the session has the peer's version and command, on failure only
  the accumulator itself has changed.\<close>

lemma feed_header_whole:
  assumes "ses_parse_buf_len s = 0" "length (ses_parse_buf s) = 4" "length bs = 4"
  shows "feed_header s bs =
    (fst (t3_header_parse (Some bs) True),
     let s1 = s\<lparr>ses_parse_buf := bs, ses_parse_buf_len := 4\<rparr> in
     if fst (t3_header_parse (Some bs) True) = T3_OK
     then s1\<lparr>ses_peer_version := 0x01, ses_command_type := bs ! 0\<rparr> else s1)"
proof -
  from assms(3) obtain a0 a1 a2 a3 where bs: "bs = [a0, a1, a2, a3]" by (rule length4E)
  from assms(2) obtain c0 c1 c2 c3 where pb: "ses_parse_buf s = [c0, c1, c2, c3]" by (rule length4E)
  let ?s3 = "s\<lparr>ses_parse_buf := [a0, a1, a2, c3], ses_parse_buf_len := Suc (Suc (Suc 0))\<rparr>"
  have "t3_session_handle_header_byte (Some ?s3) a3 =
    (fst (t3_header_parse (Some bs) True),
     Some (let s1 = ?s3\<lparr>ses_parse_buf := bs, ses_parse_buf_len := 4\<rparr> in
           if fst (t3_header_parse (Some bs) True) = T3_OK
           then s1\<lparr>ses_peer_version := 0x01, ses_command_type := bs ! 0\<rparr> else s1))"
    by (rule feed_step_last) (simp_all add: bs)
  then show ?thesis
    using assms(1) pb
    by (simp add: bs feed_step_short Let_def)
qed

text \<open>A fifth byte is refused and changes nothing.\<close>

lemma header_byte_after_four:
  assumes "ses_parse_buf_len s \<ge> 4"
  shows "t3_session_handle_header_byte (Some s) b = (T3_ERR_INVALID_ARG, Some s)"
  using assms by (simp add: t3_session_handle_header_byte_def)

subsection \<open>Binding the callbacks\<close>

lemma copy_callbacks_full:
  assumes "cb_struct_size c = T3_CALLBACKS_SIZE" "cb_ctx c < 2 ^ 64"
  shows "copy_callbacks (cb_struct_size c) c = c"
  using assms by (cases c) (simp add: copy_callbacks_def copy_fptr_def T3_CALLBACKS_SIZE_def)

lemma bind_callbacks_rng:
  assumes "t3_session_bind_callbacks (Some s) (Some c) = (T3_OK, Some s')" "48 \<le> cb_struct_size c"
  shows "cb_rng (ses_cb s') = cb_rng c \<and> cb_rng (ses_cb s') \<noteq> NullPtr"
  using assms by (auto simp: t3_session_bind_callbacks_def copy_callbacks_def copy_fptr_def split: if_splits)

text \<open>
  A callback structure that declares a size of at most 40 bytes is accepted although the copy stops
  before its \<open>rng\<close> member: the session is bound, and its \<open>rng\<close> is NULL.
\<close>

lemma bind_callbacks_small_struct:
  assumes "cb_struct_size c \<le> 40" 
    "t3_session_bind_callbacks (Some s) (Some c) = (T3_OK, Some s')"
  shows "ses_callbacks_bound s' \<and> cb_rng (ses_cb s') = NullPtr"
  using assms by (auto simp: t3_session_bind_callbacks_def copy_callbacks_def copy_fptr_def split: if_splits)

end
