(* ===== verification/T3_Random.thy ===== *)
theory T3_Random
  imports T3_Session
begin

unbundle bit_operations_syntax

text \<open>
  The randomised parts of the library: the silent-close delay (\<open>lib/src/t3_timing.c\<close>), padding
  frames and split plans (\<open>lib/src/t3_padding.c\<close>). All draw from the host's \<open>rng\<close> callback by
  rejection sampling, in a loop that has no bound of its own. The operations are partial: \<open>None\<close> is
  a run that never returns or calls through a NULL or torn function pointer.
\<close>

subsection \<open>Drawing from the callback\<close>

definition call_rng :: "'w t3_callbacks \<Rightarrow> nat \<Rightarrow> 'w \<Rightarrow> (bytes option \<times> 'w) option" where
  "call_rng cb len w =
     (case cb_rng cb of Fn f \<Rightarrow> Some (f (cb_ctx cb) len w) | NullPtr \<Rightarrow> None | Torn \<Rightarrow> None)"

text \<open>
  The loop both samplers have: draw, give up when the callback fails, draw again when the value is
  not acceptable.
\<close>

partial_function (option) draw_until ::
  "('w \<Rightarrow> (bytes option \<times> 'w) option) \<Rightarrow> (bytes \<Rightarrow> bool) \<Rightarrow> 'w \<Rightarrow> (bytes option \<times> 'w) option" where
  "draw_until draw ok w =
     do {
       (bs, w') \<leftarrow> draw w;
       (case bs of
          None \<Rightarrow> Some (None, w')
        | Some b \<Rightarrow> if ok b then Some (Some b, w') else draw_until draw ok w')
     }"

declare draw_until.simps [code]

definition le_word64 :: "bytes \<Rightarrow> u64" where
  "le_word64 b =
     ucast (b ! 0)
     OR push_bit 8 (ucast (b ! 1)) OR push_bit 16 (ucast (b ! 2))
     OR push_bit 24 (ucast (b ! 3)) OR push_bit 32 (ucast (b ! 4))
     OR push_bit 40 (ucast (b ! 5)) OR push_bit 48 (ucast (b ! 6))
     OR push_bit 56 (ucast (b ! 7))"

definition le_word32 :: "bytes \<Rightarrow> u32" where
  "le_word32 b =
     ucast (b ! 0)
     OR push_bit 8 (ucast (b ! 1))
     OR push_bit 16 (ucast (b ! 2))
     OR push_bit 24 (ucast (b ! 3))"

subsection \<open>The silent-close delay\<close>

text \<open>
  \<open>t3_timing_rejection_sample_uniform_ns\<close>: the C return value and what is written to \<open>*out_ns\<close>.
  A range of zero (the full 64-bit interval) is a division by zero.
\<close>

definition t3_timing_rejection_sample_uniform_ns ::
  "'w t3_callbacks option \<Rightarrow> u64 \<Rightarrow> u64 \<Rightarrow> bool \<Rightarrow> 'w \<Rightarrow> ((int \<times> u64 option) \<times> 'w) option" where
  "t3_timing_rejection_sample_uniform_ns cb lo_ns hi_ns out_ok w =
     (case cb of
        None \<Rightarrow> Some ((-1, None), w)
      | Some c \<Rightarrow>
          if \<not> out_ok \<or> hi_ns < lo_ns then Some ((-1, None), w)
          else
            (let range = hi_ns - lo_ns + 1 in
             if range = 0 then None
             else
               (let bucket_count = (-1) div range; cutoff = bucket_count * range in
                do {
                  (bytes, w') \<leftarrow> draw_until (call_rng c 8) (\<lambda>b. \<not> le_word64 b \<ge> cutoff) w;
                  (case bytes of
                     None \<Rightarrow> Some ((-2, None), w')
                   | Some b \<Rightarrow> Some ((0, Some (lo_ns + le_word64 b mod range)), w'))
                })))"

definition SILENT_CLOSE_LO :: u64 where "SILENT_CLOSE_LO = 50000000"
definition SILENT_CLOSE_HI :: u64 where "SILENT_CLOSE_HI = 200000000"

definition t3_silent_close_delay_sample_ns ::
  "'w t3_session option \<Rightarrow> bool \<Rightarrow> 'w \<Rightarrow> ((t3_result \<times> u64 option) \<times> 'w) option" where
  "t3_silent_close_delay_sample_ns sess out_ok w =
     (case sess of
        None \<Rightarrow> Some ((T3_ERR_INVALID_ARG, None), w)
      | Some s \<Rightarrow>
          if \<not> out_ok then Some ((T3_ERR_INVALID_ARG, None), w)
          else if \<not> ses_callbacks_bound s then Some ((T3_ERR_INVALID_ARG, None), w)
          else do {
            ((rc, out), w') \<leftarrow> t3_timing_rejection_sample_uniform_ns (Some (ses_cb s))
                                SILENT_CLOSE_LO SILENT_CLOSE_HI True w;
            (if rc = -2 then Some ((T3_ERR_RNG, out), w')
             else if rc \<noteq> 0 then Some ((T3_ERR_INVALID_ARG, out), w')
             else Some ((T3_OK, out), w'))
          })"

subsection \<open>Padding\<close>

text \<open>\<open>t3__rng_range\<close>, with the 64-bit range cut to 32 bits as the source does.\<close>

definition t3__rng_range ::
  "'w t3_session \<Rightarrow> nat \<Rightarrow> nat \<Rightarrow> 'w \<Rightarrow> ((t3_result \<times> nat option) \<times> 'w) option" where
  "t3__rng_range s lo hi w =
     (let range = sz_add (sz_sub hi lo) 1 in
      if range = 0 then None
      else
        (let bucket_count = word_of_nat (0xFFFFFFFF div range) :: u32;
             cutoff = bucket_count * word_of_nat range in
         do {
           (bytes, w') \<leftarrow> draw_until (call_rng (ses_cb s) 4) (\<lambda>b. \<not> le_word32 b \<ge> cutoff) w;
           (case bytes of
              None \<Rightarrow> Some ((T3_ERR_RNG, None), w')
            | Some b \<Rightarrow> Some ((T3_OK, Some (sz_add lo (unat (le_word32 b) mod range))), w'))
         }))"

text \<open>
  \<open>t3_padding_generate\<close>: the code, the bytes written from the start of \<open>buf\<close>, and \<open>*out_len\<close>.
\<close>

definition t3_padding_generate ::
  "'w t3_session option \<Rightarrow> bool \<Rightarrow> nat \<Rightarrow> nat \<Rightarrow> bool \<Rightarrow> 'w
     \<Rightarrow> ((t3_result \<times> bytes \<times> nat option) \<times> 'w) option" where
  "t3_padding_generate sess buf_ok min_len max_len out_ok w =
     (case sess of
        None \<Rightarrow> Some ((T3_ERR_INVALID_ARG, [], None), w)
      | Some s \<Rightarrow>
          if \<not> buf_ok \<or> \<not> out_ok then Some ((T3_ERR_INVALID_ARG, [], None), w)
          else if \<not> ses_callbacks_bound s then Some ((T3_ERR_INVALID_ARG, [], None), w)
          else if min_len < 1 \<or> max_len < min_len \<or> max_len > 65535
          then Some ((T3_ERR_INVALID_ARG, [], None), w)
          else do {
            ((rc, n), w1) \<leftarrow> t3__rng_range s min_len max_len w;
            (if rc \<noteq> T3_OK then Some ((rc, [], None), w1)
             else if the n > 1 then do {
               (fill, w2) \<leftarrow> call_rng (ses_cb s) (the n - 1) w1;
               (case fill of
                  None \<Rightarrow> Some ((T3_ERR_RNG, [T3_PADDING_MARKER], None), w2)
                | Some r \<Rightarrow> Some ((T3_OK, T3_PADDING_MARKER # r, n), w2))
             }
             else Some ((T3_OK, [T3_PADDING_MARKER], n), w1))
          })"

text \<open>
  The loop of \<open>t3_split_plan\<close> with \<open>n\<close> slots left (\<open>max_chunks - i\<close>): the code, the chunk sizes
  written from here on and the remaining length when the loop ends.
\<close>

fun split_plan_loop ::
  "'w t3_session \<Rightarrow> nat \<Rightarrow> nat \<Rightarrow> nat \<Rightarrow> nat \<Rightarrow> 'w \<Rightarrow> ((t3_result \<times> nat list \<times> nat) \<times> 'w) option" where
  "split_plan_loop s min_chunk max_chunk 0 rem_len w = Some ((T3_OK, [], rem_len), w)"
| "split_plan_loop s min_chunk max_chunk (Suc rem_slots) rem_len w =
     do {
       (choice, w1) \<leftarrow>
         (if rem_len \<le> max_chunk then
            (if rem_slots = 0 \<or> rem_len < sz_mul 2 min_chunk then Some (Some True, w)
             else do {
               (rand_choice, w') \<leftarrow> call_rng (ses_cb s) 1 w;
               (case rand_choice of
                  None \<Rightarrow> Some (None, w')
                | Some b \<Rightarrow> Some (Some (b ! 0 mod 2 = 0), w'))
             })
          else Some (Some False, w));
       (case choice of
          None \<Rightarrow> Some ((T3_ERR_RNG, [], rem_len), w1)
        | Some finish \<Rightarrow>
            if finish then Some ((T3_OK, [rem_len], 0), w1)
            else
              (let max_rem_cover =
                     (if rem_slots > 0 \<and> max_chunk > SIZE_MAX div rem_slots then SIZE_MAX
                      else sz_mul rem_slots max_chunk);
                   L = (if rem_len > max_rem_cover
                        then (let l = rem_len - max_rem_cover in
                              if l < min_chunk then min_chunk else l)
                        else min_chunk);
                   H = (if sz_sub rem_len min_chunk < max_chunk then sz_sub rem_len min_chunk
                        else max_chunk) in
               if H < L then Some ((T3_ERR_INTERNAL, [], rem_len), w1)
               else do {
                 ((rc, c), w2) \<leftarrow> t3__rng_range s L H w1;
                 (if rc \<noteq> T3_OK then Some ((rc, [], rem_len), w2)
                  else do {
                    ((rc', cs, r), w3) \<leftarrow>
                      split_plan_loop s min_chunk max_chunk rem_slots (sz_sub rem_len (the c)) w2;
                    Some ((rc', the c # cs, r), w3)
                  })
               }))
     }"

text \<open>\<open>t3_split_plan\<close>: the code, the entries written to \<open>plan\<close>, and \<open>*out_count\<close>.\<close>

definition t3_split_plan ::
  "'w t3_session option \<Rightarrow> nat \<Rightarrow> nat \<Rightarrow> nat \<Rightarrow> bool \<Rightarrow> nat \<Rightarrow> bool \<Rightarrow> 'w
     \<Rightarrow> ((t3_result \<times> nat list \<times> nat option) \<times> 'w) option" where
  "t3_split_plan sess total_len min_chunk max_chunk plan_ok max_chunks out_ok w =
     (case sess of
        None \<Rightarrow> Some ((T3_ERR_INVALID_ARG, [], None), w)
      | Some s \<Rightarrow>
          if \<not> plan_ok \<or> \<not> out_ok then Some ((T3_ERR_INVALID_ARG, [], None), w)
          else if \<not> ses_callbacks_bound s then Some ((T3_ERR_INVALID_ARG, [], None), w)
          else if total_len < 1 \<or> min_chunk < 1 \<or> max_chunk < min_chunk \<or> total_len < min_chunk
          then Some ((T3_ERR_INVALID_ARG, [], None), w)
          else if max_chunks = 0 then Some ((T3_ERR_INVALID_ARG, [], None), w)
          else
            (let max_possible =
                   (if max_chunk > SIZE_MAX div max_chunks then SIZE_MAX
                    else sz_mul max_chunks max_chunk) in
             if max_possible < total_len then Some ((T3_ERR_BUF_TOO_SMALL, [], None), w)
             else do {
               ((rc, plan, rem_len), w') \<leftarrow>
                 split_plan_loop s min_chunk max_chunk max_chunks total_len w;
               (if rc \<noteq> T3_OK then Some ((rc, plan, None), w')
                else if rem_len > 0 then Some ((T3_ERR_INTERNAL, plan, None), w')
                else Some ((T3_OK, plan, Some (length plan)), w'))
             }))"

subsection \<open>Words from bytes\<close>

lemma le_word64_eq: "length b = 8 \<Longrightarrow> le_word64 b = word_of_nat (le_nat b)"
proof -
  assume "length b = 8"
  then obtain a0 a1 a2 a3 a4 a5 a6 a7 where b: "b = [a0, a1, a2, a3, a4, a5, a6, a7]"
    by (auto simp: numeral_eq_Suc length_Suc_conv)
  show ?thesis
    unfolding b le_word64_def
    by (simp add: word_of_le_nat_Cons push_bit_or or.assoc del: le_nat.simps(2))
qed

lemma le_word32_eq: "length b = 4 \<Longrightarrow> le_word32 b = word_of_nat (le_nat b)"
proof -
  assume "length b = 4"
  then obtain a0 a1 a2 a3 where b: "b = [a0, a1, a2, a3]"
    by (auto simp: numeral_eq_Suc length_Suc_conv)
  show ?thesis
    unfolding b le_word32_def
    by (simp add: word_of_le_nat_Cons push_bit_or or.assoc del: le_nat.simps(2))
qed

lemma unat_le_word64: "length b = 8 \<Longrightarrow> unat (le_word64 b) = le_nat b"
  using le_nat_less [of b] by (simp add: le_word64_eq unat_of_nat)

lemma unat_le_word32: "length b = 4 \<Longrightarrow> unat (le_word32 b) = le_nat b"
  using le_nat_less [of b] by (simp add: le_word32_eq unat_of_nat)

subsection \<open>The sampling loop\<close>

lemma draw_until_step:
  "draw w = None \<Longrightarrow> draw_until draw ok w = None"
  "draw w = Some (None, w') \<Longrightarrow> draw_until draw ok w = Some (None, w')"
  "draw w = Some (Some b, w') \<Longrightarrow> ok b \<Longrightarrow> draw_until draw ok w = Some (Some b, w')"
  "draw w = Some (Some b, w') \<Longrightarrow> \<not> ok b \<Longrightarrow> draw_until draw ok w = draw_until draw ok w'"
  by (simp_all add: draw_until.simps [of draw ok w])

text \<open>Induction over the draws of a run that returns.\<close>

lemma draw_until_induct [consumes 1, case_names fail hit miss]:
  assumes run: "draw_until draw ok w = Some y"
    and fail: "\<And>w w'. draw w = Some (None, w') \<Longrightarrow> P w (None, w')"
    and hit: "\<And>w b w'. draw w = Some (Some b, w') \<Longrightarrow> ok b \<Longrightarrow> P w (Some b, w')"
    and miss: "\<And>w b w' y. draw w = Some (Some b, w') \<Longrightarrow> \<not> ok b \<Longrightarrow> P w' y \<Longrightarrow> P w y"
  shows "P w y"
proof -
  have "d = draw \<and> k = ok \<longrightarrow> P w y" if "draw_until d k w = Some y" for d k w y
    using that
  proof (rule draw_until.raw_induct [rotated], intro impI)
    fix du d k w y
    assume IH: "\<And>d k w y. du d k w = Some y \<Longrightarrow> d = draw \<and> k = ok \<longrightarrow> P w y"
      and eq: "do { (bs, w') \<leftarrow> d w;
        case bs of None \<Rightarrow> Some (None, w')
        | Some b \<Rightarrow> if k b then Some (Some b, w') else du d k w' } = Some y"
      and dk: "d = draw \<and> k = ok"
    from eq dk obtain bs w' where d: "draw w = Some (bs, w')" by (cases "d w") auto
    show "P w y"
    proof (cases bs)
      case None
      with eq d dk fail show ?thesis by auto
    next
      case (Some b)
      with eq d dk hit miss IH show ?thesis by (cases "ok b") auto
    qed
  qed
  with run show ?thesis by blast
qed

lemma draw_until_post:
  assumes "draw_until draw ok w = Some (Some b, w')"
  shows "ok b" and "\<exists>v v'. draw v = Some (Some b, v')"
proof -
  have "fst y = Some b \<longrightarrow> ok b \<and> (\<exists>v v'. draw v = Some (Some b, v'))"
    if "draw_until draw ok w = Some y" for y
    using that by (induction rule: draw_until_induct) auto
  from this [OF assms] show "ok b" and "\<exists>v v'. draw v = Some (Some b, v')" by auto
qed

lemma draw_until_never:
  assumes "\<And>b. \<not> ok b" "\<And>w w'. draw w \<noteq> Some (None, w')"
  shows "draw_until draw ok w = None"
proof -
  have False if "draw_until draw ok w = Some y" for y
    using that by (induction rule: draw_until_induct) (use assms in auto)
  then show ?thesis by (cases "draw_until draw ok w") auto
qed

lemma draw_until_no_failure:
  assumes "\<And>w w'. draw w \<noteq> Some (None, w')"
  shows "draw_until draw ok w \<noteq> Some (None, w')"
proof -
  have "fst y \<noteq> None" if "draw_until draw ok w = Some y" for y
    using that by (induction rule: draw_until_induct) (use assms in auto)
  then show ?thesis by fastforce
qed

text \<open>A loop that returns with a stricter test returns with a laxer one.\<close>

lemma draw_until_weaken:
  assumes "draw_until draw ok w = Some y" "\<And>b. ok b \<Longrightarrow> ok' b"
  shows "draw_until draw ok' w \<noteq> None"
  using assms(1)
proof (induction rule: draw_until_induct)
  case (miss w b w' y)
  then show ?case by (cases "ok' b") (simp_all add: draw_until_step(3,4))
qed (simp_all add: draw_until_step(2,3) assms(2))

subsection \<open>The callback's contract\<close>

text \<open>
  What the interface documents of \<open>rng\<close>: it fills the whole buffer or fails (\<open>rng_sized\<close>). For
  termination: it does not fail, and it goes on producing words whose top bit is clear.
\<close>

definition rng_sized :: "'w t3_callbacks \<Rightarrow> bool" where
  "rng_sized cb \<longleftrightarrow> (\<forall>len w bs w'. call_rng cb len w = Some (Some bs, w') \<longrightarrow> length bs = len)"

definition rng_live :: "'w t3_callbacks \<Rightarrow> bool" where
  "rng_live cb \<longleftrightarrow>
     (\<forall>len w. \<exists>bs w'. call_rng cb len w = Some (Some bs, w'))
     \<and> (\<forall>w. draw_until (call_rng cb 4) (\<lambda>b. le_word32 b < 2 ^ 31) w \<noteq> None)
     \<and> (\<forall>w. draw_until (call_rng cb 8) (\<lambda>b. le_word64 b < 2 ^ 63) w \<noteq> None)"

lemma rng_live_call: "rng_live cb \<Longrightarrow> call_rng cb n w \<noteq> Some (None, w')"
  by (metis rng_live_def option.inject prod.inject option.distinct(1))

lemma draw_until_sized:
  assumes "rng_sized cb" "draw_until (call_rng cb n) ok w = Some (Some b, w')"
  shows "length b = n"
  using draw_until_post(2) [OF assms(2)] assms(1) by (auto simp: rng_sized_def)

lemma draw_until_live:
  assumes "\<And>w w'. draw w \<noteq> Some (None, w')" "draw_until draw low w \<noteq> None"
    "\<And>b. low b \<Longrightarrow> ok b"
  shows "\<exists>b w'. draw_until draw ok w = Some (Some b, w')"
proof -
  from assms(2) obtain y where "draw_until draw low w = Some y" by blast
  from draw_until_weaken [OF this assms(3)]
  obtain r w' where "draw_until draw ok w = Some (r, w')" by fastforce
  moreover from this have "r \<noteq> None" using draw_until_no_failure [of draw ok w w', OF assms(1)] by auto
  ultimately show ?thesis by auto
qed

lemma card_residue:
  assumes "k < n"
  shows "card {r :: nat. r < m div n * n \<and> r mod n = k} = m div n"
proof -
  have "{r. r < m div n * n \<and> r mod n = k} = (\<lambda>q. q * n + k) ` {..<m div n}"
  proof (intro equalityI subsetI)
    fix r assume "r \<in> {r. r < m div n * n \<and> r mod n = k}"
    then have "r = r div n * n + k" "r div n < m div n"
      by (auto simp: less_mult_imp_div_less)
    then show "r \<in> (\<lambda>q. q * n + k) ` {..<m div n}" by blast
  next
    fix r assume "r \<in> (\<lambda>q. q * n + k) ` {..<m div n}"
    then obtain q where r: "r = q * n + k" and "q < m div n" by auto
    then have "Suc q * n \<le> m div n * n" by (intro mult_le_mono1) simp
    with r assms show "r \<in> {r. r < m div n * n \<and> r mod n = k}" by simp
  qed
  moreover have "inj_on (\<lambda>q. q * n + k) {..<m div n}"
    using assms by (auto intro: inj_onI)
  ultimately show ?thesis by (simp add: card_image)
qed

lemma half_accepted:
  assumes "0 < n" "n \<le> (m :: nat)"
  shows "m < 2 * (m div n * n)"
proof -
  have "m = m div n * n + m mod n" by simp
  moreover have "m mod n < n" using assms by simp
  moreover have "1 * n \<le> m div n * n"
    using assms by (intro mult_le_mono1) (simp add: div_greater_zero_iff Suc_leI)
  ultimately show ?thesis by linarith
qed



subsection \<open>Uniform delays\<close>

definition delay_cutoff :: u64 where
  "delay_cutoff = word_of_nat ((2 ^ 64 - 1) div 150000001 * 150000001)"

lemma unat_delay_cutoff: "unat delay_cutoff = (2 ^ 64 - 1) div 150000001 * 150000001"
  by (simp add: delay_cutoff_def)

lemma delay_range: "SILENT_CLOSE_HI - SILENT_CLOSE_LO + 1 = 150000001"
  by (simp add: SILENT_CLOSE_LO_def SILENT_CLOSE_HI_def)

lemma delay_cutoff_eq: "(-1) div 150000001 * 150000001 = delay_cutoff"
  by (simp add: word_unat_eq_iff unat_word_ariths unat_div unat_delay_cutoff)

lemma silent_close_eq:
  assumes "ses_callbacks_bound s"
  shows "t3_silent_close_delay_sample_ns (Some s) True w =
    do {
      (bytes, w') \<leftarrow> draw_until (call_rng (ses_cb s) 8) (\<lambda>b. le_word64 b < delay_cutoff) w;
      Some (case bytes of
         None \<Rightarrow> ((T3_ERR_RNG, None), w')
       | Some b \<Rightarrow> ((T3_OK, Some (SILENT_CLOSE_LO + le_word64 b mod 150000001)), w'))
    }"
proof -
  have lohi: "(SILENT_CLOSE_HI < SILENT_CLOSE_LO) = False"
    by (simp add: SILENT_CLOSE_LO_def SILENT_CLOSE_HI_def)
  have nz: "((150000001 :: u64) = 0) = False" by simp
  show ?thesis
    unfolding t3_silent_close_delay_sample_ns_def t3_timing_rejection_sample_uniform_ns_def
      option.case Let_def delay_range delay_cutoff_eq lohi nz not_le not_True_eq_False if_False
      simp_thms
    using assms
    by (cases "draw_until (call_rng (ses_cb s) 8) (\<lambda>b. le_word64 b < delay_cutoff) w")
      (auto split: option.splits)
qed

lemma unat_delay:
  "unat (SILENT_CLOSE_LO + r mod 150000001) = 50000000 + unat r mod 150000001"
proof -
  have m: "unat r mod 150000001 < 150000001" by simp
  have "unat (SILENT_CLOSE_LO + r mod 150000001)
      = (50000000 + unat r mod 150000001) mod 2 ^ 64"
    by (simp add: unat_word_ariths unat_mod SILENT_CLOSE_LO_def)
  also have "\<dots> = 50000000 + unat r mod 150000001"
    using m by (intro mod_less) simp
  finally show ?thesis .
qed

lemma silent_close_delay_ok:
  assumes "ses_callbacks_bound s" "rng_live (ses_cb s)"
  shows "\<exists>v w'. t3_silent_close_delay_sample_ns (Some s) True w = Some ((T3_OK, Some v), w')
    \<and> 50000000 \<le> unat v \<and> unat v \<le> 200000000"
proof -
  have half: "(2 ^ 63 :: u64) \<le> delay_cutoff"
    by (simp add: word_le_nat_alt unat_delay_cutoff)
  have "\<exists>b w'. draw_until (call_rng (ses_cb s) 8) (\<lambda>b. le_word64 b < delay_cutoff) w
      = Some (Some b, w')"
  proof (rule draw_until_live [where low = "\<lambda>b. le_word64 b < 2 ^ 63"])
    show "call_rng (ses_cb s) 8 v \<noteq> Some (None, v')" for v v'
      using assms(2) by (rule rng_live_call)
    show "draw_until (call_rng (ses_cb s) 8) (\<lambda>b. le_word64 b < 2 ^ 63) w \<noteq> None"
      using assms(2) by (simp add: rng_live_def)
    show "le_word64 b < delay_cutoff" if "le_word64 b < 2 ^ 63" for b
      using that half by (rule less_le_trans)
  qed
  then obtain b w' where "t3_silent_close_delay_sample_ns (Some s) True w =
      Some ((T3_OK, Some (SILENT_CLOSE_LO + le_word64 b mod 150000001)), w')"
    by (auto simp: silent_close_eq [OF assms(1)])
  moreover have "unat (le_word64 b) mod 150000001 < 150000001" by simp
  ultimately show ?thesis by (auto simp: unat_delay)
qed

text \<open>With callbacks bound, a generator that fills the requested bytes and keeps producing words
  with a clear top bit, sampling the silent-close delay returns, succeeds, and the delay lies in
  the closed interval from 50 to 200 milliseconds.\<close>

lemma silent_close_delay_total:
  assumes "ses_callbacks_bound s" "rng_live (ses_cb s)"
  shows "\<exists>v w'. t3_silent_close_delay_sample_ns (Some s) True w = Some ((T3_OK, Some v), w')
    \<and> 50000000 \<le> unat v \<and> unat v \<le> 200000000"
  using assms by (rule silent_close_delay_ok)

text \<open>A session bound to the generator \<open>g\<close>, and the generator that repeats one word.\<close>

definition with_rng :: "'w t3_session \<Rightarrow> 'w rng_fn \<Rightarrow> 'w t3_session" where
  "with_rng s g = s\<lparr>ses_callbacks_bound := True, ses_cb := (ses_cb s)\<lparr>cb_rng := Fn g\<rparr>\<rparr>"

definition repeat_word :: "nat \<Rightarrow> 'w rng_fn" where
  "repeat_word r = (\<lambda>ctx len w. (Some (le_bytes len r), w))"

lemma call_rng_with_rng [simp]:
  "call_rng (ses_cb (with_rng s g)) len w = Some (g (cb_ctx (ses_cb s)) len w)"
  "ses_callbacks_bound (with_rng s g)"
  by (simp_all add: with_rng_def call_rng_def)

lemma draw_repeat:
  "draw_until (call_rng (ses_cb (with_rng s (repeat_word r))) n) ok w =
     (if ok (le_bytes n r) then Some (Some (le_bytes n r), w) else None)"
proof (cases "ok (le_bytes n r)")
  case False
  have "False" if "draw_until (call_rng (ses_cb (with_rng s (repeat_word r))) n) ok w = Some y" for y
    using that
    by (induction rule: draw_until_induct) (use False in \<open>auto simp: repeat_word_def\<close>)
  with False show ?thesis by (metis option.exhaust)
qed (simp add: draw_until_step(3) repeat_word_def)

lemma rng_live_repeat:
  assumes "r < 2 ^ 31"
  shows "rng_live (ses_cb (with_rng s (repeat_word r)))"
proof -
  have "le_word32 (le_bytes 4 r) < 2 ^ 31"
    using assms by (simp add: word_less_nat_alt unat_le_word32)
  moreover have "le_word64 (le_bytes 8 r) < 2 ^ 63"
    using assms by (simp add: word_less_nat_alt unat_le_word64)
  ultimately show ?thesis
    unfolding rng_live_def draw_repeat by (simp add: repeat_word_def)
qed

text \<open>C23: the delay is unbiased. Of the \<open>2^64\<close> words the generator can draw, exactly 122978293004 give
  the delay \<open>v\<close>, and that number is the same for every delay from 50 to 200 milliseconds; no word
  gives any other delay. (The generator is the one that repeats the word, so a word the sampler
  refuses gives no delay.)\<close>

theorem silent_close_delay_uniform:
  "card {r. r < 2 ^ 64 \<and> (\<exists>w'. t3_silent_close_delay_sample_ns
              (Some (with_rng s (repeat_word r))) True w = Some ((T3_OK, Some v), w'))}
     = (if 50000000 \<le> unat v \<and> unat v \<le> 200000000 then 122978293004 else 0)"
proof -
  let ?M = "2 ^ 64 - 1 :: nat" and ?n = "150000001 :: nat"
  have lt: "r < ?M div ?n * ?n \<Longrightarrow> r < 2 ^ 64" for r by simp
  have "(\<exists>w'. t3_silent_close_delay_sample_ns (Some (with_rng s (repeat_word r))) True w
        = Some ((T3_OK, Some v), w'))
      \<longleftrightarrow> r < ?M div ?n * ?n \<and> unat v = 50000000 + r mod ?n" if "r < 2 ^ 64" for r
  proof -
    have r: "unat (le_word64 (le_bytes 8 r)) = r" using that by (simp add: unat_le_word64)
    have "unat v = 50000000 + r mod ?n \<longleftrightarrow> v = SILENT_CLOSE_LO + le_word64 (le_bytes 8 r) mod 150000001"
      using unat_delay [of "le_word64 (le_bytes 8 r)"] r by (metis word_unat_eq_iff)
    moreover have "le_word64 (le_bytes 8 r) < delay_cutoff \<longleftrightarrow> r < ?M div ?n * ?n"
      by (simp only: word_less_nat_alt r unat_delay_cutoff)
    ultimately show ?thesis
      by (auto simp: silent_close_eq draw_repeat)
  qed
  then have eq: "{r. r < 2 ^ 64 \<and> (\<exists>w'. t3_silent_close_delay_sample_ns
              (Some (with_rng s (repeat_word r))) True w = Some ((T3_OK, Some v), w'))}
      = {r. r < ?M div ?n * ?n \<and> unat v = 50000000 + r mod ?n}"
    using lt by blast
  show ?thesis
  proof (cases "50000000 \<le> unat v \<and> unat v \<le> 200000000")
    case True
    then have "unat v - 50000000 < ?n" and
      "\<And>r. unat v = 50000000 + r mod ?n \<longleftrightarrow> r mod ?n = unat v - 50000000" by auto
    then have "card {r. r < ?M div ?n * ?n \<and> unat v = 50000000 + r mod ?n} = ?M div ?n"
      using card_residue [of "unat v - 50000000" ?n ?M] by simp
    then show ?thesis using True unfolding eq by simp
  next
    case False
    have "r mod ?n < ?n" for r by simp
    then have "{r. r < ?M div ?n * ?n \<and> unat v = 50000000 + r mod ?n} = {}"
      using False by fastforce
    then show ?thesis by (simp only: eq card.empty if_not_P [OF False])
  qed
qed

subsection \<open>Ranges\<close>

lemma unat_mult_u32: "a * b \<le> 0xFFFFFFFF \<Longrightarrow> unat (word_of_nat a * word_of_nat b :: u32) = a * b"
  by (simp add: unat_of_nat flip: of_nat_mult)

lemma sz_add_mod_range:
  assumes "lo \<le> hi" "hi < 2 ^ 64" "n = hi - lo + 1"
  shows "sz_add lo (r mod n) = lo + r mod n" "lo + r mod n \<le> hi"
proof -
  have "r mod n \<le> hi - lo" using mod_less_divisor [of n r] assms(3) by linarith
  then show *: "lo + r mod n \<le> hi" using assms(1) by linarith
  show "sz_add lo (r mod n) = lo + r mod n"
    by (rule sz_add_eq) (rule le_less_trans [OF * assms(2)])
qed

lemma rng_range_eq:
  assumes "lo \<le> hi" "n = hi - lo + 1" "n < 2 ^ 32" "hi < 2 ^ 64"
  shows "t3__rng_range s lo hi w =
    do {
      (bytes, w') \<leftarrow> draw_until (call_rng (ses_cb s) 4)
        (\<lambda>b. unat (le_word32 b) < 0xFFFFFFFF div n * n) w;
      Some (case bytes of
              None \<Rightarrow> ((T3_ERR_RNG, None), w')
            | Some b \<Rightarrow> ((T3_OK, Some (lo + unat (le_word32 b) mod n)), w'))
    }"
proof -
  have n: "sz_add (sz_sub hi lo) 1 = n" using assms by simp
  have nz: "(n = 0) = False" using assms(2) by simp
  have "0xFFFFFFFF div n * n \<le> (0xFFFFFFFF :: nat)" by (rule div_times_less_eq_dividend)
  then have c: "unat (word_of_nat (0xFFFFFFFF div n) * word_of_nat n :: u32) = 0xFFFFFFFF div n * n"
    by (rule unat_mult_u32)
  show ?thesis
    unfolding t3__rng_range_def Let_def n nz if_False sz_add_mod_range(1) [OF assms(1,4,2)]
      word_le_nat_alt c not_le
    by (cases "draw_until (call_rng (ses_cb s) 4)
        (\<lambda>b. unat (le_word32 b) < 0xFFFFFFFF div n * n) w") (auto split: option.splits)
qed

lemma rng_range_sound:
  assumes "lo \<le> hi" "hi < 2 ^ 64" "t3__rng_range s lo hi w = Some ((rc, out), w')"
  shows "(rc = T3_OK \<and> (\<exists>c. out = Some c \<and> lo \<le> c \<and> c \<le> hi)) \<or> (rc = T3_ERR_RNG \<and> out = None)"
proof -
  define n where "n = sz_add (sz_sub hi lo) 1"
  have nz: "n \<noteq> 0" using assms(3) by (intro notI) (simp add: t3__rng_range_def n_def)
  have n: "n = hi - lo + 1"
  proof (cases "hi - lo + 1 < 2 ^ 64")
    case False
    with assms have "hi - lo + 1 = 2 ^ 64" by linarith
    with nz assms(1) show ?thesis by (simp add: sz_add_def n_def)
  qed (use assms(1) in \<open>simp add: n_def\<close>)
  note mod = sz_add_mod_range [OF assms(1,2) n]
  show ?thesis
    using assms(3) nz mod(2)
    unfolding t3__rng_range_def Let_def n_def [symmetric] mod(1)
    by (auto simp: Option.bind_eq_Some_conv split: option.splits)
qed

lemma rng_range_total:
  assumes "lo \<le> hi" "hi - lo < 2 ^ 32 - 1" "hi < 2 ^ 64" "rng_live (ses_cb s)"
  shows "\<exists>c w'. t3__rng_range s lo hi w = Some ((T3_OK, Some c), w') \<and> lo \<le> c \<and> c \<le> hi"
proof -
  let ?n = "hi - lo + 1"
  have "2 ^ 32 - 1 < 2 * ((2 ^ 32 - 1) div ?n * ?n)"
    by (rule half_accepted) (use assms(2) in auto)
  then have half: "2 ^ 31 \<le> 0xFFFFFFFF div ?n * ?n" by simp
  have "\<exists>b w'. draw_until (call_rng (ses_cb s) 4)
      (\<lambda>b. unat (le_word32 b) < 0xFFFFFFFF div ?n * ?n) w = Some (Some b, w')"
  proof (rule draw_until_live [where low = "\<lambda>b. le_word32 b < 2 ^ 31"])
    show "call_rng (ses_cb s) 4 v \<noteq> Some (None, v')" for v v'
      using assms(4) by (rule rng_live_call)
    show "draw_until (call_rng (ses_cb s) 4) (\<lambda>b. le_word32 b < 2 ^ 31) w \<noteq> None"
      using assms(4) by (simp add: rng_live_def)
    show "unat (le_word32 b) < 0xFFFFFFFF div ?n * ?n" if "le_word32 b < 2 ^ 31" for b
      using that half by (simp add: word_less_nat_alt)
  qed
  then obtain c w' where r: "t3__rng_range s lo hi w = Some ((T3_OK, Some c), w')"
    using rng_range_eq [OF assms(1) refl _ assms(3), of s w] assms(2) by auto
  with rng_range_sound [OF assms(1,3) r] show ?thesis by auto
qed

text \<open>
  The documented precondition is needed: with a range above \<open>2^32 - 1\<close> the cutoff is zero and the
  loop never ends, whatever a working generator delivers.
\<close>

lemma rng_range_diverges:
  assumes "2 ^ 32 \<le> hi - lo + 1" "hi < 2 ^ 64" "rng_live (ses_cb s)"
  shows "t3__rng_range s lo hi w = None"
proof (cases "sz_add (sz_sub hi lo) 1 = 0")
  case False
  have le: "lo \<le> hi" using assms(1) by (cases "lo \<le> hi") auto
  have "hi - lo + 1 < 2 ^ 64"
  proof (rule ccontr)
    assume "\<not> hi - lo + 1 < 2 ^ 64"
    with assms le have "hi - lo + 1 = 2 ^ 64" "lo \<le> hi" by linarith+
    with False show False by (simp add: sz_add_def)
  qed
  with le have "sz_add (sz_sub hi lo) 1 = hi - lo + 1" by simp
  with assms(1) have z: "0xFFFFFFFF div sz_add (sz_sub hi lo) 1 = 0" by simp
  have "draw_until (call_rng (ses_cb s) 4) (\<lambda>b. \<not> le_word32 b \<ge> 0 * word_of_nat n) w = None" for n
    by (rule draw_until_never) (simp_all add: rng_live_call [OF assms(3)])
  then show ?thesis
    unfolding t3__rng_range_def Let_def z of_nat_0 by simp
qed (simp add: t3__rng_range_def)

subsection \<open>Padding frames\<close>

text \<open>With valid bounds and a live generator, a padding frame is produced: its length lies between
  the bounds and is the one reported, it starts with the padding marker (so the receiver detects
  it), and invalid bounds are refused before anything is drawn.\<close>

lemma t3_padding_generate_correct:
  assumes "ses_callbacks_bound s" "rng_live (ses_cb s)" "rng_sized (ses_cb s)"
  shows "if 1 \<le> lo \<and> lo \<le> hi \<and> hi \<le> 65535
    then \<exists>frame w'. t3_padding_generate (Some s) True lo hi True w =
           Some ((T3_OK, frame, Some (length frame)), w')
         \<and> lo \<le> length frame \<and> length frame \<le> hi \<and> t3_padding_detect (hd frame)
    else t3_padding_generate (Some s) True lo hi True w = Some ((T3_ERR_INVALID_ARG, [], None), w)"
proof (cases "1 \<le> lo \<and> lo \<le> hi \<and> hi \<le> 65535")
  case True
  then obtain c w1 where c: "t3__rng_range s lo hi w = Some ((T3_OK, Some c), w1)" "lo \<le> c" "c \<le> hi"
    using rng_range_total [of lo hi s w] assms(2) by fastforce
  obtain bs w2 where bs: "call_rng (ses_cb s) (c - 1) w1 = Some (Some bs, w2)"
    using assms(2) unfolding rng_live_def by blast
  then have "length bs = c - 1" using assms(3) by (auto simp: rng_sized_def)
  then have "length (T3_PADDING_MARKER # bs) = c" using True c by simp
  then show ?thesis
    using True assms(1) c bs
    by (cases "1 < c") (auto simp: t3_padding_generate_def t3_padding_detect_def)
next
  case False
  then show ?thesis using assms(1) by (auto simp: t3_padding_generate_def)
qed

lemma rng_sized_repeat: "rng_sized (ses_cb (with_rng s (repeat_word r)))"
  by (simp add: rng_sized_def repeat_word_def)

subsection \<open>Split plans\<close>

definition plan_ok :: "nat \<Rightarrow> nat \<Rightarrow> nat list \<Rightarrow> bool" where
  "plan_ok lo hi plan \<longleftrightarrow> (\<forall>c\<in>set plan. lo \<le> c \<and> c \<le> hi)"

lemma plan_ok_simps [simp]:
  "plan_ok lo hi []" "plan_ok lo hi (c # cs) \<longleftrightarrow> lo \<le> c \<and> c \<le> hi \<and> plan_ok lo hi cs"
  by (auto simp: plan_ok_def)

text \<open>The bounds of the next chunk, as the loop computes them.\<close>

definition chunk_lo :: "nat \<Rightarrow> nat \<Rightarrow> nat \<Rightarrow> nat \<Rightarrow> nat" where
  "chunk_lo mn mx slots rem =
     (let cover = (if slots > 0 \<and> mx > SIZE_MAX div slots then SIZE_MAX else sz_mul slots mx) in
      if rem > cover then (let l = rem - cover in if l < mn then mn else l) else mn)"

definition chunk_hi :: "nat \<Rightarrow> nat \<Rightarrow> nat \<Rightarrow> nat" where
  "chunk_hi mn mx rem = (if sz_sub rem mn < mx then sz_sub rem mn else mx)"

lemma chunk_hi_bounds: "mn \<le> rem \<Longrightarrow> chunk_hi mn mx rem \<le> mx \<and> chunk_hi mn mx rem \<le> rem - mn"
  by (simp add: chunk_hi_def)

lemma chunk_lo_ge: "mn \<le> chunk_lo mn mx slots rem"
  by (simp add: chunk_lo_def Let_def)

lemma sz_cover:
  assumes "rem < 2 ^ 64"
  shows "min rem (if slots > 0 \<and> mx > SIZE_MAX div slots then SIZE_MAX else sz_mul slots mx)
    = min rem (slots * mx)"
proof (cases "slots > 0 \<and> mx > SIZE_MAX div slots")
  case True
  then have "SIZE_MAX < slots * mx"
    by (metis div_less_iff_less_mult mult.commute)
  with assms True show ?thesis by (simp add: SIZE_MAX_def min_def)
next
  case False
  have "slots * mx \<le> SIZE_MAX"
  proof (cases "slots = 0")
    case False
    with \<open>\<not> (slots > 0 \<and> mx > SIZE_MAX div slots)\<close> have "mx \<le> SIZE_MAX div slots" by simp
    then have "slots * mx \<le> slots * (SIZE_MAX div slots)" by simp
    also have "\<dots> \<le> SIZE_MAX" by simp
    finally show ?thesis .
  qed simp
  then have "sz_mul slots mx = slots * mx" by (simp add: SIZE_MAX_def)
  then show ?thesis by (simp only: if_not_P [OF False])
qed

lemma chunk_lo_eq:
  assumes "rem < 2 ^ 64"
  shows "chunk_lo mn mx slots rem = max mn (rem - slots * mx)"
proof -
  let ?cover = "if slots > 0 \<and> mx > SIZE_MAX div slots then SIZE_MAX else sz_mul slots mx"
  have "rem - ?cover = rem - slots * mx"
    using sz_cover [OF assms, of slots mx] by (auto simp: min_def split: if_splits)
  then show ?thesis by (auto simp: chunk_lo_def Let_def)
qed

text \<open>One turn of the loop, with its three outcomes: finish, fail, or cut a chunk and go on.\<close>

definition choose_finish ::
  "'w t3_session \<Rightarrow> nat \<Rightarrow> nat \<Rightarrow> nat \<Rightarrow> nat \<Rightarrow> 'w \<Rightarrow> (bool option \<times> 'w) option" where
  "choose_finish s mn mx slots rem w =
     (if rem \<le> mx then
        (if slots = 0 \<or> rem < sz_mul 2 mn then Some (Some True, w)
         else do {
           (rand_choice, w') \<leftarrow> call_rng (ses_cb s) 1 w;
           (case rand_choice of
              None \<Rightarrow> Some (None, w')
            | Some b \<Rightarrow> Some (Some (b ! 0 mod 2 = 0), w'))
         })
      else Some (Some False, w))"

lemma split_plan_loop_Suc:
  "split_plan_loop s mn mx (Suc slots) rem w =
     do {
       (choice, w1) \<leftarrow> choose_finish s mn mx slots rem w;
       (case choice of
          None \<Rightarrow> Some ((T3_ERR_RNG, [], rem), w1)
        | Some True \<Rightarrow> Some ((T3_OK, [rem], 0), w1)
        | Some False \<Rightarrow>
            if chunk_hi mn mx rem < chunk_lo mn mx slots rem
            then Some ((T3_ERR_INTERNAL, [], rem), w1)
            else do {
              ((rc, c), w2) \<leftarrow> t3__rng_range s (chunk_lo mn mx slots rem) (chunk_hi mn mx rem) w1;
              (if rc \<noteq> T3_OK then Some ((rc, [], rem), w2)
               else do {
                 ((rc', cs, r), w3) \<leftarrow>
                   split_plan_loop s mn mx slots (sz_sub rem (the c)) w2;
                 Some ((rc', the c # cs, r), w3)
               })
            })
     }"
  unfolding choose_finish_def chunk_lo_def chunk_hi_def
  by (simp only: split_plan_loop.simps Let_def) (intro Option.bind_cong refl; auto split: option.splits bool.splits)

declare split_plan_loop.simps(2) [simp del]

lemma choose_finish_True: "choose_finish s mn mx slots rem w = Some (Some True, w') \<Longrightarrow> rem \<le> mx"
  by (simp add: choose_finish_def split: if_splits)

lemma choose_finish_False:
  "choose_finish s mn mx slots rem w = Some (Some False, w')
     \<Longrightarrow> mx < rem \<or> (0 < slots \<and> sz_mul 2 mn \<le> rem)"
  by (auto simp: choose_finish_def split: if_splits)

lemma choose_finish_live:
  "rng_live (ses_cb s) \<Longrightarrow> \<exists>b w'. choose_finish s mn mx slots rem w = Some (Some b, w')"
  by (auto simp: choose_finish_def rng_live_def) (metis (no_types, lifting) bind.bind_lunit case_prod_conv option.simps(5))

lemma split_plan_loop_sound:
  assumes "mn \<le> mx" "mx < 2 ^ 64"
  shows "mn \<le> rem \<Longrightarrow> split_plan_loop s mn mx n rem w = Some ((T3_OK, plan, r), w')
    \<Longrightarrow> sum_list plan + r = rem \<and> plan_ok mn mx plan \<and> length plan \<le> n"
proof (induction n arbitrary: rem w plan w')
  case (Suc slots)
  from Suc.prems(2) obtain choice w1 where ch: "choose_finish s mn mx slots rem w = Some (choice, w1)"
    by (auto simp: split_plan_loop_Suc Option.bind_eq_Some_conv)
  show ?case
  proof (cases "choice = Some True")
    case True
    with Suc.prems ch choose_finish_True [of s mn mx slots rem w w1] show ?thesis
      by (auto simp: split_plan_loop_Suc)
  next
    case False
    with Suc.prems(2) ch have ch': "choose_finish s mn mx slots rem w = Some (Some False, w1)"
      by (auto simp: split_plan_loop_Suc split: option.splits bool.splits)
    with Suc.prems(2) obtain c w2 cs w3 where
      bounds: "chunk_lo mn mx slots rem \<le> chunk_hi mn mx rem"
      and c: "t3__rng_range s (chunk_lo mn mx slots rem) (chunk_hi mn mx rem) w1 = Some ((T3_OK, c), w2)"
      and cs: "split_plan_loop s mn mx slots (sz_sub rem (the c)) w2 = Some ((T3_OK, cs, r), w3)"
      and plan: "plan = the c # cs"
      by (auto simp: split_plan_loop_Suc Option.bind_eq_Some_conv split: if_splits)
    note hi = chunk_hi_bounds [OF Suc.prems(1), of mx]
    have "chunk_hi mn mx rem < 2 ^ 64" using hi assms(2) by linarith
    from rng_range_sound [OF bounds this c] obtain k where
      k: "c = Some k" "chunk_lo mn mx slots rem \<le> k" "k \<le> chunk_hi mn mx rem" by auto
    have "mn \<le> k" using k(2) chunk_lo_ge [of mn mx slots rem] by linarith
    moreover have "k \<le> mx" "k \<le> rem - mn" using k(3) hi by auto
    moreover from this have sub: "sz_sub rem k = rem - k" "mn \<le> rem - k" "k \<le> rem"
      using Suc.prems(1) by auto
    moreover from Suc.IH [OF _ cs] k(1) sub
    have "sum_list cs + r = rem - k \<and> plan_ok mn mx cs \<and> length cs \<le> slots" by simp
    moreover from this sub(3) have "k + sum_list cs + r = rem" by linarith
    ultimately show ?thesis using plan k(1) by simp
  qed
qed simp

lemma split_plan_loop_total:
  assumes "rng_live (ses_cb s)" "1 \<le> mn" "2 * mn \<le> mx + 1" "mx < 2 ^ 32"
  shows "mn \<le> rem \<Longrightarrow> rem < 2 ^ 64 \<Longrightarrow> rem \<le> n * mx
    \<Longrightarrow> \<exists>plan w'. split_plan_loop s mn mx n rem w = Some ((T3_OK, plan, 0), w')"
proof (induction n arbitrary: rem w)
  case (Suc slots)
  have mul: "sz_mul 2 mn = 2 * mn" using assms by simp
  from choose_finish_live [OF assms(1)] obtain b w1 where
    ch: "choose_finish s mn mx slots rem w = Some (Some b, w1)" by blast
  show ?case
  proof (cases b)
    case True
    with ch show ?thesis by (simp add: split_plan_loop_Suc)
  next
    case False
    let ?L = "chunk_lo mn mx slots rem" and ?H = "chunk_hi mn mx rem"
    have L: "?L = max mn (rem - slots * mx)" using Suc.prems(2) by (rule chunk_lo_eq)
    have H: "?H = min mx (rem - mn)" using Suc.prems(1) by (auto simp: chunk_hi_def min_def)
    from choose_finish_False [of s mn mx slots rem w w1] ch False mul
    have split: "mx < rem \<or> (0 < slots \<and> 2 * mn \<le> rem)" by simp
    have slots: "0 < slots"
    proof (rule ccontr)
      assume "\<not> 0 < slots"
      with split Suc.prems(3) show False by simp
    qed
    then have "1 * mx \<le> slots * mx" by (intro mult_le_mono1) simp
    then have mx_slots: "mx \<le> slots * mx" by simp
    have "2 * mn \<le> rem" using split assms(3) by linarith
    moreover have "mn \<le> mx" using assms(2,3) by linarith
    moreover have "rem \<le> mx + slots * mx" using Suc.prems(3) by simp
    moreover have "rem - slots * mx \<le> rem - mn" "rem - slots * mx \<le> mx"
      using calculation mx_slots by linarith+
    ultimately have LH: "?L \<le> ?H" unfolding L H by (simp add: le_diff_conv2)
    have "?H \<le> mx" "1 \<le> ?L" using H L assms(2) by simp_all
    then have "?H < 2 ^ 64" "?H - ?L < 2 ^ 32 - 1" using assms(4) by simp_all
    with rng_range_total [OF LH _ _ assms(1), of w1] obtain c w2 where
      c: "t3__rng_range s ?L ?H w1 = Some ((T3_OK, Some c), w2)" "?L \<le> c" "c \<le> ?H" by blast
    have "c \<le> rem - mn" "rem - slots * mx \<le> c" using c L H by auto
    then have "mn \<le> rem - c" "rem - c \<le> slots * mx" "c \<le> rem" using Suc.prems(1) by linarith+
    moreover have "rem - c < 2 ^ 64" using Suc.prems(2) by (rule le_less_trans [OF diff_le_self])
    ultimately obtain cs w3 where
      "split_plan_loop s mn mx slots (rem - c) w2 = Some ((T3_OK, cs, 0), w3)"
      using Suc.IH [of "rem - c" w2] by blast
    with ch False c LH \<open>c \<le> rem\<close> show ?thesis by (simp add: split_plan_loop_Suc)
  qed
qed (use assms in simp)

text \<open>Whenever a split plan is returned, for any parameters and any generator, its chunks add up
  to exactly the payload, each lies within the chunk bounds, and their reported number does not
  exceed the number of slots.\<close>

lemma t3_split_plan_sound:
  assumes "mx < 2 ^ 64"
    and "t3_split_plan sess len mn mx pl_ok slots o_ok w = Some ((T3_OK, plan, count), w')"
  shows "sum_list plan = len \<and> (\<forall>c\<in>set plan. mn \<le> c \<and> c \<le> mx)
    \<and> count = Some (length plan) \<and> 1 \<le> length plan \<and> length plan \<le> slots"
proof -
  obtain s where s: "sess = Some s" using assms(2) by (cases sess) (auto simp: t3_split_plan_def)
  from assms(2) have "mn \<le> mx" "mn \<le> len" "1 \<le> len"
    and loop: "split_plan_loop s mn mx slots len w = Some ((T3_OK, plan, 0), w')"
    and "count = Some (length plan)"
    by (auto simp: t3_split_plan_def s Let_def Option.bind_eq_Some_conv split: if_splits)
  moreover from split_plan_loop_sound [OF \<open>mn \<le> mx\<close> assms(1) \<open>mn \<le> len\<close> loop]
  have "sum_list plan = len" "plan_ok mn mx plan" "length plan \<le> slots" by auto
  moreover from this \<open>1 \<le> len\<close> have "plan \<noteq> []" by auto
  ultimately show ?thesis by (auto simp: plan_ok_def Suc_le_eq)
qed

text \<open>A plan is found whenever one can be expected: with a live generator, enough slots, and a
  maximal chunk of at least twice the minimal one less one (below \<open>2^32\<close>), \<open>t3_split_plan\<close> returns
  and succeeds.\<close>

lemma t3_split_plan_total:
  assumes "ses_callbacks_bound s" "rng_live (ses_cb s)"
    and "1 \<le> mn" "2 * mn \<le> mx + 1" "mx < 2 ^ 32" "mn \<le> len" "len < 2 ^ 64" "len \<le> slots * mx"
  shows "\<exists>plan w'. t3_split_plan (Some s) len mn mx True slots True w =
    Some ((T3_OK, plan, Some (length plan)), w')"
proof -
  from split_plan_loop_total [OF assms(2-5) assms(6-8)] obtain plan w' where
    loop: "split_plan_loop s mn mx slots len w = Some ((T3_OK, plan, 0), w')" by blast
  have "slots \<noteq> 0" using assms(3,6,8) by (intro notI) simp
  moreover have "len \<le> (if SIZE_MAX div slots < mx then SIZE_MAX else sz_mul slots mx)"
    using sz_cover [OF assms(7), of slots mx] assms(8) \<open>slots \<noteq> 0\<close>
    by (auto simp: min_def split: if_splits)
  moreover have "mn \<le> mx" using assms(3,4) by linarith
  ultimately show ?thesis
    using loop assms(1,3,6) by (auto simp: t3_split_plan_def Let_def)
qed

text \<open>The generator of even bytes: the plan it gives is one chunk.\<close>

lemma split_plan_example:
  "t3_split_plan (Some (with_rng (zero_session :: nat t3_session) (repeat_word 4))) 200 64 300 True 8
     True 0 = Some ((T3_OK, [200], Some 1), 0)"
proof -
  let ?s = "with_rng (zero_session :: nat t3_session) (repeat_word 4)"
  have "split_plan_loop ?s 64 300 (Suc 7) 200 0 = Some ((T3_OK, [200], 0), 0)"
    unfolding split_plan_loop_Suc choose_finish_def by (simp add: repeat_word_def)
  then show ?thesis by (simp add: t3_split_plan_def SIZE_MAX_def)
qed

text \<open>
  The guard the source calls unreachable is reached: a payload of 5 in chunks of 3 or 4 passes the
  feasibility check for two slots and ends in an internal error.
\<close>

lemma split_plan_internal_error:
  "t3_split_plan (Some (with_rng (zero_session :: nat t3_session) g)) 5 3 4 True 2 True 0
     = Some ((T3_ERR_INTERNAL, [], None), 0)"
proof -
  have "split_plan_loop (with_rng (zero_session :: nat t3_session) g) 3 4 (Suc 1) 5 0
      = Some ((T3_ERR_INTERNAL, [], 5), 0)"
    unfolding split_plan_loop_Suc choose_finish_def chunk_lo_def chunk_hi_def SIZE_MAX_def by simp
  then have "split_plan_loop (with_rng (zero_session :: nat t3_session) g) 3 4 2 5 0
      = Some ((T3_ERR_INTERNAL, [], 5), 0)" by (simp only: Suc_1)
  then show ?thesis by (simp add: t3_split_plan_def SIZE_MAX_def)
qed

end
