(* ===== verification/T3_Framing.thy ===== *)
theory T3_Framing
  imports T3_Prelude
begin

text \<open>
  The interface of a stream framing: an encoder of messages and an incremental decoder that says
  whether a buffer starts with a whole frame, needs more bytes, or is broken. The client is the
  receive loop every transport of the library has: append what the socket delivered to the
  leftover, take whole frames off the front, keep the rest. Its lemma is that how the stream was cut
  into segments does not matter.
\<close>

datatype 'm decoded = Frame 'm nat | More | Bad

text \<open>Taking whole frames off the front of a buffer: the messages, the leftover, and whether the
  rest is broken.\<close>

function drain :: "(bytes \<Rightarrow> 'm decoded) \<Rightarrow> bytes \<Rightarrow> 'm list \<times> bytes \<times> bool" where
  "drain dec buf =
     (case dec buf of
        More \<Rightarrow> ([], buf, False)
      | Bad \<Rightarrow> ([], buf, True)
      | Frame m n \<Rightarrow>
          if n = 0 \<or> length buf < n then ([], buf, True)
          else (let (ms, rest, bad) = drain dec (drop n buf) in (m # ms, rest, bad)))"
  by auto
termination by (relation "measure (\<lambda>(_, buf). length buf)") auto

declare drain.simps [simp del]

text \<open>The receive loop over the segments the transport delivers.\<close>

fun receive :: "(bytes \<Rightarrow> 'm decoded) \<Rightarrow> bytes \<Rightarrow> bytes list \<Rightarrow> 'm list \<times> bytes \<times> bool" where
  "receive dec left [] = ([], left, False)"
| "receive dec left (seg # segs) =
     (let (ms, left', bad) = drain dec (left @ seg) in
      if bad then (ms, left', True)
      else (let (ms', left'', bad') = receive dec left' segs in (ms @ ms', left'', bad')))"

locale framing =
  fixes enc :: "'m \<Rightarrow> bytes" and dec :: "bytes \<Rightarrow> 'm decoded" and valid :: "'m \<Rightarrow> bool"
  assumes enc_nonempty: "valid m \<Longrightarrow> enc m \<noteq> []"
    and dec_enc: "valid m \<Longrightarrow> dec (enc m @ rest) = Frame m (length (enc m))"
    and dec_prefix: "valid m \<Longrightarrow> strict_prefix p (enc m) \<Longrightarrow> dec p = More"
begin

definition stream :: "'m list \<Rightarrow> bytes" where
  "stream ms = concat (map enc ms)"

lemma stream_simps [simp]: "stream [] = []" "stream (m # ms) = enc m @ stream ms"
  "stream (ms @ ns) = stream ms @ stream ns"
  by (simp_all add: stream_def)

text \<open>A proper part of a frame: nothing yet, or some bytes of a next one.\<close>

definition partial :: "bytes \<Rightarrow> 'm list \<Rightarrow> bool" where
  "partial p ms \<longleftrightarrow> (case ms of [] \<Rightarrow> p = [] | m # _ \<Rightarrow> strict_prefix p (enc m))"

lemma drain_frame:
  assumes "valid m"
  shows "drain dec (enc m @ rest) =
    (let (ms, r, bad) = drain dec rest in (m # ms, r, bad))"
  using dec_enc [OF assms, of rest] enc_nonempty [OF assms]
  by (subst drain.simps) simp

lemma dec_Nil: "valid m \<Longrightarrow> dec [] = More"
  using dec_prefix [of m "[]"] enc_nonempty [of m] by (simp add: strict_prefix_def)

text \<open>Any initial part of a stream is drained to the frames it contains.\<close>

lemma drain_prefix_of_stream:
  assumes "\<forall>m \<in> set ms. valid m" "ms \<noteq> []" "prefix p (stream ms)"
  shows "\<exists>ns ks r. ms = ns @ ks \<and> p = stream ns @ r \<and> partial r ks
    \<and> drain dec p = (ns, r, False)"
  using assms
proof (induction ms arbitrary: p)
  case (Cons m ms)
  have m: "valid m" using Cons.prems(1) by simp
  show ?case
  proof (cases "prefix (enc m) p")
    case False
    then have "strict_prefix p (enc m)"
      using Cons.prems(3) by (metis prefix_order.less_le prefix_same_cases prefixI stream_simps(2))
    then have "drain dec p = ([], p, False)"
      using dec_prefix [OF m] by (subst drain.simps) simp
    then show ?thesis
      using \<open>strict_prefix p (enc m)\<close>
      by (intro exI [of _ "[]"] exI [of _ "m # ms"] exI [of _ p]) (simp add: partial_def)
  next
    case True
    then obtain q where p: "p = enc m @ q" by (auto simp: prefix_def)
    show ?thesis
    proof (cases "ms = []")
      case True
      then have "q = []" using Cons.prems(3) p by (auto simp: prefix_def)
      moreover have "drain dec [] = ([], [], False)"
        using dec_Nil [OF m] by (subst drain.simps) simp
      ultimately show ?thesis
        using True p drain_frame [OF m, of "[]"]
        by (intro exI [of _ "[m]"] exI [of _ "[]"]) (simp add: partial_def)
    next
      case False
      have "prefix q (stream ms)" using Cons.prems(3) p by simp
      from Cons.IH [OF _ False this] Cons.prems(1) obtain ns ks r where
        "ms = ns @ ks" "q = stream ns @ r" "partial r ks" "drain dec q = (ns, r, False)" by auto
      then show ?thesis
        using p drain_frame [OF m, of q]
        by (intro exI [of _ "m # ns"] exI [of _ ks] exI [of _ r]) simp
    qed
  qed
qed simp

lemma receive_from:
  assumes "\<forall>m \<in> set ks. valid m" "partial r ks" "r @ concat segs = stream ks" "segs \<noteq> []"
    "ks \<noteq> []"
  shows "receive dec r segs = (ks, [], False)"
  using assms
proof (induction segs arbitrary: r ks)
  case (Cons seg segs)
  have "prefix (r @ seg) (stream ks)" using Cons.prems(3) by (metis append_assoc concat.simps(2) prefixI)
  from drain_prefix_of_stream [OF Cons.prems(1) Cons.prems(5) this] obtain ns js r' where
    d: "ks = ns @ js" "r @ seg = stream ns @ r'" "partial r' js" "drain dec (r @ seg) = (ns, r', False)"
    by blast
  have "(r @ seg) @ concat segs = stream ns @ stream js" using Cons.prems(3) d(1) by simp
  then have rest: "r' @ concat segs = stream js" unfolding d(2) by simp
  have "receive dec r' segs = (js, [], False)"
  proof (cases "segs = []")
    case True
    with rest have "stream js = r'" by simp
    moreover have "js = []"
    proof (rule ccontr)
      assume "js \<noteq> []"
      then obtain j js' where js: "js = j # js'" by (cases js) auto
      with d(3) have "strict_prefix r' (enc j)" by (simp add: partial_def)
      with \<open>stream js = r'\<close> js show False
        by (metis prefixI prefix_order.less_le_not_le stream_simps(2))
    qed
    ultimately show ?thesis using True by simp
  next
    case False
    show ?thesis
    proof (cases "js = []")
      case True
      with rest d(3) have "r' = []" "concat segs = []" by (simp_all add: partial_def)
      have "valid (hd ks)" using Cons.prems(1,5) by simp
      then have "drain dec [] = ([], [], False)"
        using dec_Nil by (subst drain.simps) simp
      then have "receive dec [] ss = ([], [], False)" if "concat ss = []" for ss
        using that by (induction ss) auto
      with True \<open>r' = []\<close> \<open>concat segs = []\<close> show ?thesis by simp
    next
      case False
      have "\<forall>m \<in> set js. valid m" using Cons.prems(1) d(1) by simp
      from Cons.IH [OF this d(3) rest \<open>segs \<noteq> []\<close> False] show ?thesis .
    qed
  qed
  with d show ?case by simp
qed simp

text \<open>However the stream of some messages is cut into segments, the receive loop gives exactly the
  messages, in order, and nothing is left over.\<close>

lemma receive_stream:
  assumes "\<forall>m \<in> set ms. valid m" "concat segs = stream ms" "ms \<noteq> []"
  shows "receive dec [] segs = (ms, [], False)"
proof -
  have m: "valid (hd ms)" "enc (hd ms) \<noteq> []" using assms(1,3) enc_nonempty by auto
  then have "stream ms \<noteq> []" using assms(3) by (cases ms) auto
  then have "segs \<noteq> []" using assms(2) by auto
  moreover have "partial [] ms"
    using m assms(3) by (cases ms) (simp_all add: partial_def strict_prefix_def)
  ultimately show ?thesis using receive_from [OF assms(1), of "[]" segs] assms(2,3) by simp
qed

end

end
