(* ===== verification/T3_Http_Stream.thy ===== *)
theory T3_Http_Stream
  imports T3_Types T3_Framing
begin

text \<open>
  HTTP chunked framing, \<open>lib/src/t3_http_stream.c\<close>: hexadecimal sizes, the chunk writer, the
  terminal chunk and the incremental chunk parser. Reads of the parser are checked: \<open>None\<close> is a read
  outside the buffer.
\<close>

subsection \<open>Hexadecimal sizes\<close>

definition http_hex_digit :: "byte \<Rightarrow> nat option" where
  "http_hex_digit c =
     (if 0x30 \<le> c \<and> c \<le> 0x39 then Some (unat (c - 0x30))
      else if 0x61 \<le> c \<and> c \<le> 0x66 then Some (unat (c - 0x61) + 10)
      else if 0x41 \<le> c \<and> c \<le> 0x46 then Some (unat (c - 0x41) + 10)
      else None)"

fun hex_to_size_loop :: "bytes \<Rightarrow> nat \<Rightarrow> nat option" where
  "hex_to_size_loop [] val = Some val"
| "hex_to_size_loop (c # rest) val =
     (case http_hex_digit c of
        None \<Rightarrow> None
      | Some digit \<Rightarrow>
          if val > (SIZE_MAX - digit) div 16 then None
          else hex_to_size_loop rest (val * 16 + digit))"

definition t3__hex_to_size :: "bytes \<Rightarrow> nat option" where
  "t3__hex_to_size hex = (if length hex = 0 then None else hex_to_size_loop hex 0)"

definition hex_char :: "nat \<Rightarrow> byte" where
  "hex_char rem = word_of_nat (if rem < 10 then 0x30 + rem else 0x61 + rem - 10)"

text \<open>The division loop; the reversed copy makes it most significant digit first.\<close>

fun size_to_hex_loop :: "nat \<Rightarrow> bytes" where
  "size_to_hex_loop val =
     (if val > 0 then hex_char (val mod 16) # size_to_hex_loop (val div 16) else [])"

declare size_to_hex_loop.simps [simp del]

definition t3__size_to_hex :: "nat \<Rightarrow> bytes" where
  "t3__size_to_hex val = (if val = 0 then [0x30] else rev (size_to_hex_loop val))"

subsection \<open>Writing\<close>

abbreviation CRLF :: bytes where "CRLF \<equiv> [0x0D, 0x0A]"

text \<open>
  \<open>t3_http_chunk_write out out_cap data data_len &written\<close>: the code and the bytes written, whose
  number is \<open>*out_written\<close>. \<open>out_ok\<close> says that neither out-pointer is NULL.
\<close>

definition t3_http_chunk_write :: "bool \<Rightarrow> nat \<Rightarrow> bytes option \<Rightarrow> nat \<Rightarrow> t3_result \<times> bytes option" where
  "t3_http_chunk_write out_ok out_cap data data_len =
     (if \<not> out_ok then (T3_ERR_INVALID_ARG, None)
      else if data_len = 0 then (T3_ERR_INVALID_ARG, None)
      else
        (case data of
           None \<Rightarrow> (T3_ERR_INVALID_ARG, None)
         | Some d \<Rightarrow>
             (let hex = t3__size_to_hex data_len;
                  required = sz_add (sz_add (sz_add (length hex) 2) data_len) 2 in
              if out_cap < required then (T3_ERR_BUF_TOO_SMALL, None)
              else (T3_OK, Some (hex @ CRLF @ take data_len d @ CRLF)))))"

definition t3_http_chunk_write_terminal :: "bool \<Rightarrow> nat \<Rightarrow> t3_result \<times> bytes option" where
  "t3_http_chunk_write_terminal out_ok out_cap =
     (if \<not> out_ok then (T3_ERR_INVALID_ARG, None)
      else if out_cap < 5 then (T3_ERR_BUF_TOO_SMALL, None)
      else (T3_OK, Some ([0x30] @ CRLF @ CRLF)))"

subsection \<open>Parsing\<close>

text \<open>The scan for the first CRLF.\<close>

fun find_crlf :: "bytes \<Rightarrow> nat option" where
  "find_crlf (a # b # rest) =
     (if a = 0x0D \<and> b = 0x0A then Some 0 else map_option Suc (find_crlf (b # rest)))"
| "find_crlf _ = None"

text \<open>
  \<open>t3_http_chunk_parse\<close>: the code and, on success, \<open>*out_data\<close> (\<open>None\<close> for the NULL of a terminal
  chunk) with \<open>*out_consumed\<close>. First its second half, from the limit on the chunk size on.
\<close>

definition chunk_finish ::
  "bytes \<Rightarrow> nat \<Rightarrow> nat \<Rightarrow> (t3_result \<times> (bytes option \<times> nat) option) option" where
  "chunk_finish b header_line_len chunk_size =
     (if chunk_size > 65535 then Some (T3_ERR_MALFORMED, None)
      else if chunk_size = 0 then
        (let required_len = header_line_len + 2 + 2 in
         if length b < required_len then Some (T3_ERR_BUF_TOO_SMALL, None)
         else do {
           c2 \<leftarrow> rd b (header_line_len + 2);
           c3 \<leftarrow> rd b (header_line_len + 3);
           (if c2 \<noteq> 0x0D \<or> c3 \<noteq> 0x0A then Some (T3_ERR_MALFORMED, None)
            else Some (T3_OK, Some (None, required_len)))
         })
      else
        (let header_len = header_line_len + 2 in
         if chunk_size > SIZE_MAX - header_len - 2 then Some (T3_ERR_MALFORMED, None)
         else
           (let required_len = header_len + chunk_size + 2 in
            if length b < required_len then Some (T3_ERR_BUF_TOO_SMALL, None)
            else do {
              c0 \<leftarrow> rd b (header_len + chunk_size);
              c1 \<leftarrow> rd b (header_len + chunk_size + 1);
              data \<leftarrow> rd_range b header_len chunk_size;
              (if c0 \<noteq> 0x0D \<or> c1 \<noteq> 0x0A then Some (T3_ERR_MALFORMED, None)
               else Some (T3_OK, Some (Some data, required_len)))
            })))"

definition t3_http_chunk_parse ::
  "bytes option \<Rightarrow> bool \<Rightarrow> (t3_result \<times> (bytes option \<times> nat) option) option" where
  "t3_http_chunk_parse buf out_ok =
     (case buf of
        None \<Rightarrow> Some (T3_ERR_INVALID_ARG, None)
      | Some b \<Rightarrow>
          if \<not> out_ok then Some (T3_ERR_INVALID_ARG, None)
          else if length b < 2 then Some (T3_ERR_BUF_TOO_SMALL, None)
          else
            (case find_crlf b of
               None \<Rightarrow>
                 if length b > 16 + 2 + 255 then Some (T3_ERR_MALFORMED, None)
                 else Some (T3_ERR_BUF_TOO_SMALL, None)
             | Some header_line_len \<Rightarrow>
                 if header_line_len = 0 then Some (T3_ERR_MALFORMED, None)
                 else
                   (let semi = memchr 0x3B (take header_line_len b);
                        hex_len = (case semi of None \<Rightarrow> header_line_len | Some i \<Rightarrow> i) in
                    if semi \<noteq> None \<and> header_line_len - hex_len - 1 > 255
                    then Some (T3_ERR_MALFORMED, None)
                    else if hex_len = 0 then Some (T3_ERR_MALFORMED, None)
                    else
                      (case t3__hex_to_size (take hex_len b) of
                         None \<Rightarrow> Some (T3_ERR_MALFORMED, None)
                       | Some chunk_size \<Rightarrow> chunk_finish b header_line_len chunk_size))))"

subsection \<open>Hexadecimal round trip\<close>

lemma hex_char_digit: "n < 16 \<Longrightarrow> http_hex_digit (hex_char n) = Some n"
proof -
  have "list_all (\<lambda>n. http_hex_digit (hex_char n) = Some n) [0..<16]" by code_simp
  then show "n < 16 \<Longrightarrow> ?thesis" by (simp add: list_all_iff)
qed

lemma http_hex_digit_less: "http_hex_digit c = Some d \<Longrightarrow> d < 16"
proof -
  have "case http_hex_digit c of None \<Rightarrow> True | Some d \<Rightarrow> d < 16" by (rule byte_all) code_simp
  then show "http_hex_digit c = Some d \<Longrightarrow> ?thesis" by simp
qed

text \<open>Characters the parser looks for do not occur in a written size.\<close>

lemma hex_char_plain: "n < 16 \<Longrightarrow> hex_char n \<notin> {0x0D, 0x0A, 0x3B}"
proof -
  have "list_all (\<lambda>n. hex_char n \<notin> {0x0D, 0x0A, 0x3B}) [0..<16]" by code_simp
  then show "n < 16 \<Longrightarrow> ?thesis" by (simp add: list_all_iff)
qed

definition digits_value :: "nat \<Rightarrow> nat list \<Rightarrow> nat" where
  "digits_value v ds = foldl (\<lambda>a d. 16 * a + d) v ds"

lemma digits_value_simps [simp]:
  "digits_value v [] = v" "digits_value v (d # ds) = digits_value (16 * v + d) ds"
  "digits_value v (ds @ [d]) = 16 * digits_value v ds + d"
  by (simp_all add: digits_value_def)

lemma digits_value_ge: "v \<le> digits_value v ds"
proof (induction ds arbitrary: v)
  case (Cons d ds)
  from Cons.IH [of "16 * v + d"] show ?case by simp
qed simp

lemma hex_to_size_loop_digits:
  assumes "\<forall>d\<in>set ds. d < 16" "digits_value v ds \<le> SIZE_MAX"
  shows "hex_to_size_loop (map hex_char ds) v = Some (digits_value v ds)"
  using assms
proof (induction ds arbitrary: v)
  case (Cons d ds)
  have "16 * v + d \<le> SIZE_MAX" using digits_value_ge [of "16 * v + d" ds] Cons.prems(2) by simp
  then have "\<not> v > (SIZE_MAX - d) div 16" by (simp add: not_less less_eq_div_iff_mult_less_eq)
  with Cons show ?case by (simp add: hex_char_digit mult.commute)
qed simp

fun hex_digits :: "nat \<Rightarrow> nat list" where
  "hex_digits n = (if n > 0 then hex_digits (n div 16) @ [n mod 16] else [])"

declare hex_digits.simps [simp del]

lemma size_to_hex_digits: "rev (size_to_hex_loop n) = map hex_char (hex_digits n)"
proof (induction n rule: hex_digits.induct)
  case (1 n)
  then show ?case by (simp add: size_to_hex_loop.simps [of n] hex_digits.simps [of n])
qed

lemma hex_digits_value: "digits_value 0 (hex_digits n) = n"
proof (induction n rule: hex_digits.induct)
  case (1 n)
  then show ?case by (simp add: hex_digits.simps [of n])
qed

lemma hex_digits_less: "d \<in> set (hex_digits n) \<Longrightarrow> d < 16"
proof (induction n rule: hex_digits.induct)
  case (1 n)
  then show ?case by (auto simp: hex_digits.simps [of n] split: if_splits)
qed

lemma length_hex_digits: "n < 16 ^ k \<Longrightarrow> length (hex_digits n) \<le> k"
proof (induction k arbitrary: n)
  case 0
  then show ?case by (simp add: hex_digits.simps [of 0])
next
  case (Suc k)
  have "n div 16 < 16 ^ k" using Suc.prems by (simp add: less_mult_imp_div_less mult.commute)
  from Suc.IH [OF this] show ?case by (subst hex_digits.simps) simp
qed

lemma size_to_hex_eq: "0 < n \<Longrightarrow> t3__size_to_hex n = map hex_char (hex_digits n)"
  by (simp add: t3__size_to_hex_def size_to_hex_digits)

lemma hex_digits_nonempty: "0 < n \<Longrightarrow> hex_digits n \<noteq> []"
  by (subst hex_digits.simps) simp

lemma hex_to_size_roundtrip: "0 < n \<Longrightarrow> n \<le> SIZE_MAX \<Longrightarrow> t3__hex_to_size (t3__size_to_hex n) = Some n"
  using hex_to_size_loop_digits [of "hex_digits n" 0] hex_digits_nonempty
  by (simp add: size_to_hex_eq t3__hex_to_size_def hex_digits_less hex_digits_value)

lemma size_to_hex_plain: "0 < n \<Longrightarrow> c \<in> set (t3__size_to_hex n) \<Longrightarrow> c \<notin> {0x0D, 0x0A, 0x3B}"
  using hex_char_plain hex_digits_less by (auto simp: size_to_hex_eq simp del: insert_iff)

subsection \<open>Chunks\<close>

lemma find_crlf_here: "0x0D \<notin> set xs \<Longrightarrow> find_crlf (xs @ 0x0D # 0x0A # rest) = Some (length xs)"
proof (induction xs)
  case (Cons x xs)
  then show ?case by (cases xs) auto
qed simp

lemma find_crlf_None: "0x0A \<notin> set xs \<Longrightarrow> find_crlf xs = None"
  by (induction xs rule: find_crlf.induct) auto

lemma find_crlf_SomeD:
  "find_crlf b = Some i \<Longrightarrow> \<exists>rest. b = take i b @ CRLF @ rest \<and> i < length b"
proof (induction b arbitrary: i rule: find_crlf.induct)
  case (1 x y rest)
  consider "x = 0x0D \<and> y = 0x0A" | "\<not> (x = 0x0D \<and> y = 0x0A)" by blast
  then show ?case
  proof cases
    case 1
    with "1.prems" show ?thesis by auto
  next
    case 2
    with "1.prems" obtain j where "find_crlf (y # rest) = Some j" "i = Suc j" by auto
    with "1.IH" [OF 2] show ?thesis by auto
  qed
qed auto

text \<open>The chunk that carries \<open>d\<close>.\<close>

definition chunk :: "bytes \<Rightarrow> bytes" where
  "chunk d = t3__size_to_hex (length d) @ CRLF @ d @ CRLF"

definition chunkable :: "bytes \<Rightarrow> bool" where
  "chunkable d \<longleftrightarrow> d \<noteq> [] \<and> length d \<le> 65535"

lemma chunk_write_eq:
  assumes "chunkable d" "length (chunk d) \<le> cap"
  shows "t3_http_chunk_write True cap (Some d) (length d) = (T3_OK, Some (chunk d))"
proof -
  have "length (t3__size_to_hex (length d)) \<le> 4"
    using assms(1) length_hex_digits [of "length d" 4] by (simp add: chunkable_def size_to_hex_eq)
  with assms show ?thesis
    by (simp add: t3_http_chunk_write_def chunkable_def chunk_def Let_def)
qed

lemma chunk_header:
  assumes "chunkable d"
  defines "h \<equiv> t3__size_to_hex (length d)"
  shows "0x0D \<notin> set h" "0x0A \<notin> set h" "0x3B \<notin> set h" "h \<noteq> []" "length h \<le> 4"
    "t3__hex_to_size h = Some (length d)"
proof -
  have l: "0 < length d" "length d < 16 ^ 4" using assms(1) by (auto simp: chunkable_def)
  show "0x0D \<notin> set h" "0x0A \<notin> set h" "0x3B \<notin> set h"
    unfolding h_def using size_to_hex_plain [OF l(1)] by blast+
  show "h \<noteq> []" using l hex_digits_nonempty by (simp add: h_def size_to_hex_eq)
  show "length h \<le> 4" using l length_hex_digits by (simp add: h_def size_to_hex_eq)
  show "t3__hex_to_size h = Some (length d)"
    unfolding h_def using l by (intro hex_to_size_roundtrip) (simp_all add: SIZE_MAX_def)
qed

lemma parse_after_header:
  assumes "chunkable d"
  shows "t3_http_chunk_parse (Some (t3__size_to_hex (length d) @ CRLF @ rest)) True =
    (if length rest < length d + 2 then Some (T3_ERR_BUF_TOO_SMALL, None)
     else if take 2 (drop (length d) rest) = CRLF
     then Some (T3_OK, Some (Some (take (length d) rest),
                             length (t3__size_to_hex (length d)) + 4 + length d))
     else Some (T3_ERR_MALFORMED, None))"
proof -
  let ?h = "t3__size_to_hex (length d)"
  note h = chunk_header [OF assms]
  have two: "take 2 xs = CRLF \<longleftrightarrow> xs ! 0 = 0x0D \<and> xs ! 1 = 0x0A" if "2 \<le> length xs" for xs :: bytes
    using that by (cases xs; cases "tl xs") auto
  show ?thesis
    using assms h find_crlf_here [OF h(1), of rest] two [of "drop (length d) rest"]
    by (auto simp: t3_http_chunk_parse_def chunk_finish_def Let_def chunkable_def SIZE_MAX_def nth_append
        nth_Cons' add.commute)
qed

subsection \<open>Chunked streams\<close>

text \<open>
  A message is the payload of a chunk, or \<open>None\<close> for the terminal chunk: how the writers encode it,
  and the parser as an incremental decoder.
\<close>

definition chunk_enc :: "bytes option \<Rightarrow> bytes" where
  "chunk_enc m =
     (case m of
        Some d \<Rightarrow> the (snd (t3_http_chunk_write True (length d + 20) (Some d) (length d)))
      | None \<Rightarrow> the (snd (t3_http_chunk_write_terminal True 5)))"

definition chunk_dec :: "bytes \<Rightarrow> bytes option decoded" where
  "chunk_dec buf =
     (case t3_http_chunk_parse (Some buf) True of
        Some (rc, Some (d, n)) \<Rightarrow> if rc = T3_OK then Frame d n else Bad
      | Some (rc, None) \<Rightarrow> if rc = T3_ERR_BUF_TOO_SMALL then More else Bad
      | None \<Rightarrow> Bad)"

definition chunk_valid :: "bytes option \<Rightarrow> bool" where
  "chunk_valid m = (case m of Some d \<Rightarrow> chunkable d | None \<Rightarrow> True)"

lemma chunk_enc_simps:
  "chunkable d \<Longrightarrow> chunk_enc (Some d) = chunk d"
  "chunk_enc None = [0x30, 0x0D, 0x0A, 0x0D, 0x0A]"
proof -
  assume d: "chunkable d"
  then have "length (chunk d) \<le> length d + 20"
    using chunk_header(5) [OF d] by (simp add: chunk_def)
  with chunk_write_eq [OF d] show "chunk_enc (Some d) = chunk d" by (simp add: chunk_enc_def)
qed (simp add: chunk_enc_def t3_http_chunk_write_terminal_def)

lemma chunk_dec_chunk: "chunkable d \<Longrightarrow> chunk_dec (chunk d @ rest) = Frame (Some d) (length (chunk d))"
  using parse_after_header [of d "d @ CRLF @ rest"]
  by (simp add: chunk_dec_def chunk_def)

lemma parse_no_crlf:
  "find_crlf p = None \<Longrightarrow> length p \<le> 273 \<Longrightarrow> chunk_dec p = More"
  by (simp add: chunk_dec_def t3_http_chunk_parse_def)

lemma strict_prefix_append:
  "strict_prefix p (xs @ ys) \<Longrightarrow> prefix p xs \<or> (\<exists>zs. p = xs @ zs \<and> strict_prefix zs ys)"
  by (auto simp: strict_prefix_def prefix_append)

lemma chunk_dec_prefix:
  assumes "chunkable d" "strict_prefix p (chunk d)"
  shows "chunk_dec p = More"
proof -
  let ?h = "t3__size_to_hex (length d)"
  note h = chunk_header [OF assms(1)]
  have "chunk d = (?h @ [0x0D]) @ [0x0A] @ d @ CRLF" by (simp add: chunk_def)
  then consider "prefix p (?h @ [0x0D])"
    | zs where "p = (?h @ [0x0D]) @ zs" "strict_prefix zs ([0x0A] @ d @ CRLF)"
    using strict_prefix_append assms(2) by metis
  then show ?thesis
  proof cases
    case 1
    then have "set p \<subseteq> set (?h @ [0x0D])" "length p \<le> length ?h + 1"
      using set_mono_prefix prefix_length_le by fastforce+
    then have "0x0A \<notin> set p" "length p \<le> 273" using h by auto
    then show ?thesis by (simp add: parse_no_crlf find_crlf_None)
  next
    case (2 zs)
    show ?thesis
    proof (cases zs)
      case Nil
      then have "0x0A \<notin> set p" "length p \<le> 273" using 2 h by auto
      then show ?thesis by (simp add: parse_no_crlf find_crlf_None)
    next
      case (Cons z r)
      with 2 have "z = 0x0A" "strict_prefix r (d @ CRLF)" by auto
      then have "length r < length d + 2" using prefix_length_less by fastforce
      with 2 Cons \<open>z = 0x0A\<close> parse_after_header [OF assms(1), of r] show ?thesis
        by (simp add: chunk_dec_def)
    qed
  qed
qed

lemma chunk_dec_terminal: "chunk_dec (0x30 # 0x0D # 0x0A # 0x0D # 0x0A # rest) = Frame None 5"
  by (simp add: chunk_dec_def t3_http_chunk_parse_def chunk_finish_def Let_def t3__hex_to_size_def
      http_hex_digit_def)

lemma chunk_dec_terminal_prefix:
  assumes "strict_prefix p [0x30, 0x0D, 0x0A, 0x0D, 0x0A]"
  shows "chunk_dec p = More"
proof -
  have "p \<in> set [[], [0x30], [0x30, 0x0D], [0x30, 0x0D, 0x0A], [0x30, 0x0D, 0x0A, 0x0D]]"
    using assms by (auto simp: strict_prefix_def prefix_Cons)
  moreover have "list_all (\<lambda>p. chunk_dec p = More)
      [[], [0x30], [0x30, 0x0D], [0x30, 0x0D, 0x0A], [0x30, 0x0D, 0x0A, 0x0D]]"
    by (simp add: chunk_dec_def t3_http_chunk_parse_def chunk_finish_def Let_def t3__hex_to_size_def
        http_hex_digit_def)
  ultimately show ?thesis by (simp only: list_all_iff)
qed

interpretation http: framing chunk_enc chunk_dec chunk_valid
proof
  fix m rest p
  assume v: "chunk_valid m"
  show "chunk_enc m \<noteq> []"
    using v by (cases m) (simp_all add: chunk_valid_def chunk_enc_simps chunk_def)
  show "chunk_dec (chunk_enc m @ rest) = Frame m (length (chunk_enc m))"
    using v by (cases m)
      (simp_all add: chunk_valid_def chunk_enc_simps chunk_dec_chunk chunk_dec_terminal)
  show "chunk_dec p = More" if "strict_prefix p (chunk_enc m)"
    using v that by (cases m)
      (auto simp: chunk_valid_def chunk_enc_simps intro: chunk_dec_prefix chunk_dec_terminal_prefix)
qed

text \<open>C9: a sequence of payloads of 1 to 65535 bytes, and terminal chunks, written by the chunk writers
  and cut into segments in any way, is read back by the chunk parser as exactly that sequence; the
  parser asks for more bytes, and never reports an error, while a chunk is incomplete.\<close>

theorem http_chunk_stream:
  assumes "\<forall>m \<in> set ms. chunk_valid m" "ms \<noteq> []" "concat segs = concat (map chunk_enc ms)"
  shows "receive chunk_dec [] segs = (ms, [], False)"
  using http.receive_stream [OF assms(1) _ assms(2)] assms(3) by (simp add: http.stream_def)

theorem http_chunk_stream_witness:
  "receive chunk_dec [] [[0x33, 0x0D], [0x0A, 1, 2], [3, 0x0D, 0x0A, 0x30, 0x0D, 0x0A, 0x0D], [0x0A]]
     = ([Some [1, 2, 3], None], [], False)"
  by (rule http_chunk_stream)
    (simp_all add: chunk_valid_def chunkable_def chunk_enc_simps chunk_def t3__size_to_hex_def
      size_to_hex_loop.simps hex_char_def)

text \<open>What a successful parse means for the buffer.\<close>

definition chunk_shape :: "bytes \<Rightarrow> bytes option \<Rightarrow> nat \<Rightarrow> bool" where
  "chunk_shape b out n \<longleftrightarrow>
     (\<exists>hex ext d rest.
        out = (if d = [] then None else Some d)
        \<and> b = hex @ ext @ CRLF @ d @ CRLF @ rest
        \<and> t3__hex_to_size hex = Some (length d) \<and> length d \<le> 65535
        \<and> (ext = [] \<or> hd ext = 0x3B \<and> length ext \<le> 256)
        \<and> n = length (hex @ ext @ CRLF @ d @ CRLF))"

lemma chunk_shapeI:
  assumes line: "b = line @ CRLF @ body" and "hex_len \<le> length line"
    and hex: "t3__hex_to_size (take hex_len line) = Some k" "k \<le> 65535"
    and ext: "drop hex_len line = [] \<or> hd (drop hex_len line) = 0x3B \<and> length (drop hex_len line) \<le> 256"
    and body: "k + 2 \<le> length body" "body ! k = 0x0D" "body ! (k + 1) = 0x0A"
  shows "chunk_shape b (if k = 0 then None else Some (take k body)) (length line + k + 4)"
proof -
  have "drop k body = body ! k # drop (Suc k) body"
    using body(1) by (intro Cons_nth_drop_Suc [symmetric]) simp
  moreover have "drop (Suc k) body = body ! Suc k # drop (Suc (Suc k)) body"
    using body(1) by (intro Cons_nth_drop_Suc [symmetric]) simp
  ultimately have dr: "drop k body = CRLF @ drop (k + 2) body" using body(2,3) by simp
  have k: "length (take k body) = k" using body(1) by simp
  have eq: "b = take hex_len line @ drop hex_len line @ CRLF @ take k body @ CRLF @ drop (k + 2) body"
    by (simp only: line append_assoc [symmetric] append_take_drop_id)
      (simp only: append_assoc dr [symmetric] append_take_drop_id)
  have out: "(if k = 0 then None else Some (take k body))
      = (if take k body = [] then None else Some (take k body))"
    using k by (metis length_0_conv)
  have n: "length line + k + 4 = length (take hex_len line @ drop hex_len line @ CRLF @ take k body @ CRLF)"
    using k assms(2) by simp
  show ?thesis
    unfolding chunk_shape_def using eq out n hex ext k by metis
qed

lemma chunk_finish_safe: "chunk_finish b hl k \<noteq> None"
  by (simp add: chunk_finish_def Let_def)

lemma chunk_finish_success:
  assumes fin: "chunk_finish b hl k = Some (rc, Some (out, n))"
    and b: "b = line @ CRLF @ body" "length line = hl"
  shows "rc = T3_OK \<and> k \<le> 65535 \<and> k + 2 \<le> length body \<and> body ! k = 0x0D \<and> body ! (k + 1) = 0x0A
    \<and> out = (if k = 0 then None else Some (take k body)) \<and> n = length line + k + 4"
proof -
  have len: "length b = hl + 2 + length body" and drop: "drop (hl + 2) b = body"
    using b by auto
  have nth: "b ! (hl + 2 + i) = body ! i" for i
    using drop len by (metis nth_drop le_add1)
  have nth3: "b ! (hl + 3) = body ! 1" using nth [of 1] by (simp add: numeral_3_eq_3)
  show ?thesis
  proof (cases "k = 0")
    case True
    with fin have two: "2 \<le> length body"
      by (auto simp: chunk_finish_def Let_def len split: if_splits)
    then have "hl + 2 < length b" "hl + 3 < length b" using len by linarith+
    then have "rd b (hl + 2) = Some (body ! 0)" "rd b (hl + 3) = Some (body ! 1)"
      using nth [of 0] nth3 by (simp_all add: rd_def)
    with fin True two show ?thesis
      unfolding chunk_finish_def Let_def by (auto simp: len b(2) split: if_splits)
  next
    case False
    with fin have k: "k \<le> 65535" "hl + 2 + k + 2 \<le> length b"
      by (auto simp: chunk_finish_def Let_def split: if_splits)
    then have "rd b (hl + 2 + k) = Some (body ! k)" "rd b (hl + 2 + k + 1) = Some (body ! (k + 1))"
      "rd_range b (hl + 2) k = Some (take k body)"
      using nth [of k] nth [of "k + 1"] drop by (simp_all add: add.assoc)
    with fin k False show ?thesis
      unfolding chunk_finish_def Let_def by (auto simp: len b(2) split: if_splits)
  qed
qed

lemma parse_success:
  assumes "t3_http_chunk_parse (Some b) True = Some (rc, Some out)" "find_crlf b = Some hl"
    "line = take hl b" "hl < length b"
  obtains hex_len k where "hex_len \<le> length line" "t3__hex_to_size (take hex_len line) = Some k"
    "drop hex_len line = [] \<or> hd (drop hex_len line) = 0x3B \<and> length (drop hex_len line) \<le> 256"
    "chunk_finish b hl k = Some (rc, Some out)"
proof (cases "memchr 0x3B line")
  case None
  with assms have "t3__hex_to_size line \<noteq> None"
    "chunk_finish b hl (the (t3__hex_to_size line)) = Some (rc, Some out)"
    by (auto simp: t3_http_chunk_parse_def Let_def split: if_splits option.splits)
  with that [of "length line" "the (t3__hex_to_size line)"] show thesis by auto
next
  case (Some i)
  from memchr_SomeD [OF Some] have i: "i < length line" "line ! i = 0x3B" by auto
  then have "take i b = take i line" using assms(3) by simp
  with assms Some have "t3__hex_to_size (take i line) \<noteq> None" "hl - i - 1 \<le> 255"
    "chunk_finish b hl (the (t3__hex_to_size (take i line))) = Some (rc, Some out)"
    by (auto simp: t3_http_chunk_parse_def Let_def split: if_splits option.splits)
  moreover have "hd (drop i line) = 0x3B" using i by (simp add: hd_drop_conv_nth)
  moreover have "length line = hl" using assms(3,4) by simp
  ultimately show thesis using that [of i "the (t3__hex_to_size (take i line))"] i by auto
qed

text \<open>The chunk parser never reads outside its buffer, and a success is justified: the buffer
  starts with a size line (hexadecimal digits, perhaps an extension of at most 255 bytes), CRLF, as
  many data bytes as the line says (none, or 1 to 65535), CRLF, and exactly these are consumed.\<close>

lemma http_chunk_parse_sound:
  "t3_http_chunk_parse (Some b) True \<noteq> None
   \<and> (\<forall>rc out n. t3_http_chunk_parse (Some b) True = Some (rc, Some (out, n))
        \<longrightarrow> rc = T3_OK \<and> chunk_shape b out n)"
proof (intro conjI allI impI)
  show "t3_http_chunk_parse (Some b) True \<noteq> None"
    using chunk_finish_safe by (auto simp: t3_http_chunk_parse_def Let_def split: option.splits)
next
  fix rc out n
  assume p: "t3_http_chunk_parse (Some b) True = Some (rc, Some (out, n))"
  then obtain hl where f: "find_crlf b = Some hl"
    by (cases "find_crlf b") (auto simp: t3_http_chunk_parse_def split: if_splits)
  from find_crlf_SomeD [OF f] obtain body where
    b: "b = take hl b @ CRLF @ body" and hl: "hl < length b" by blast
  have len: "length (take hl b) = hl" using hl by simp
  obtain hex_len k where h: "hex_len \<le> length (take hl b)"
    "t3__hex_to_size (take hex_len (take hl b)) = Some k"
    "drop hex_len (take hl b) = [] \<or> hd (drop hex_len (take hl b)) = 0x3B
       \<and> length (drop hex_len (take hl b)) \<le> 256"
    and fin: "chunk_finish b hl k = Some (rc, Some (out, n))"
    by (rule parse_success [OF p f refl hl]) 
  note ok = chunk_finish_success [OF fin b len]
  have "chunk_shape b (if k = 0 then None else Some (take k body)) (length (take hl b) + k + 4)"
    by (rule chunk_shapeI [OF b h(1,2) _ h(3)]) (use ok in auto)
  with ok show "rc = T3_OK" "chunk_shape b out n" by auto
qed

text \<open>The writer has no upper limit: what it emits for 65536 bytes and more the parser refuses.\<close>

lemma chunk_write_oversized:
  assumes "length d = 65536"
  shows "\<exists>c. t3_http_chunk_write True 70000 (Some d) (length d) = (T3_OK, Some c)
    \<and> t3_http_chunk_parse (Some c) True = Some (T3_ERR_MALFORMED, None)"
proof -
  have h: "t3__size_to_hex 65536 = [0x31, 0x30, 0x30, 0x30, 0x30]"
    by (simp add: t3__size_to_hex_def size_to_hex_loop.simps hex_char_def)
  have "t3__hex_to_size [0x31, 0x30, 0x30, 0x30, 0x30] = Some 65536"
    by (simp add: t3__hex_to_size_def http_hex_digit_def SIZE_MAX_def)
  then show ?thesis
    using assms
    by (simp add: t3_http_chunk_write_def h t3_http_chunk_parse_def Let_def chunk_finish_def)
qed

end
