(* ===== verification/T3_Cipher.thy ===== *)
theory T3_Cipher
  imports T3_Prelude
begin

unbundle bit_operations_syntax

text \<open>
  Stream transformations that the transports share: exclusive or with a stream of bytes, indexed by
  position. WebSocket masking is one; AES-256-CTR is another, with the keystream of a key and an
  initialisation vector as a parameter of the development. \<open>SHA256\<close> is a parameter too: nothing
  that is proved depends on what either computes.
\<close>

definition xor_stream :: "(nat \<Rightarrow> byte) \<Rightarrow> nat \<Rightarrow> bytes \<Rightarrow> bytes" where
  "xor_stream f off d = map (\<lambda>i. d ! i XOR f (off + i)) [0..<length d]"

lemma length_xor_stream [simp]: "length (xor_stream f off d) = length d"
  by (simp add: xor_stream_def)

lemma xor_stream_nth [simp]: "i < length d \<Longrightarrow> xor_stream f off d ! i = d ! i XOR f (off + i)"
  by (simp add: xor_stream_def)

lemma xor_stream_Nil [simp]: "xor_stream f off [] = []"
  by (simp add: xor_stream_def)

lemma xor_stream_involution [simp]: "xor_stream f off (xor_stream f off d) = d"
  by (rule nth_equalityI) (simp_all add: xor.assoc)

text \<open>In pieces, with the offset carried over, is the same as at once.\<close>

lemma xor_stream_append:
  "xor_stream f off (d @ e) = xor_stream f off d @ xor_stream f (off + length d) e"
  by (rule nth_equalityI) (auto simp: nth_append)

lemma take_xor_stream [simp]: "take n (xor_stream f off d) = xor_stream f off (take n d)"
  by (rule nth_equalityI) auto

lemma drop_xor_stream: "drop n (xor_stream f off d) = xor_stream f (off + n) (drop n d)"
  by (rule nth_equalityI) (auto simp: add.assoc)

lemma xor_stream_cong: "(\<And>i. f (off + i) = g (off' + i)) \<Longrightarrow> xor_stream f off d = xor_stream g off' d"
  by (simp add: xor_stream_def)

subsection \<open>AES-256 in counter mode\<close>

type_synonym keystream = "bytes \<Rightarrow> bytes \<Rightarrow> nat \<Rightarrow> byte"

text \<open>A cipher context: key, initialisation vector and the number of bytes processed so far.\<close>

record aes_ctx =
  ctx_key :: bytes
  ctx_iv :: bytes
  ctx_pos :: nat

definition aes_init :: "bytes \<Rightarrow> bytes \<Rightarrow> aes_ctx" where
  "aes_init key iv = \<lparr>ctx_key = key, ctx_iv = iv, ctx_pos = 0\<rparr>"

definition ctr_crypt :: "keystream \<Rightarrow> aes_ctx \<Rightarrow> bytes \<Rightarrow> bytes \<times> aes_ctx" where
  "ctr_crypt ks c d =
     (xor_stream (ks (ctx_key c) (ctx_iv c)) (ctx_pos c) d, c\<lparr>ctx_pos := ctx_pos c + length d\<rparr>)"

lemma length_ctr_crypt [simp]: "length (fst (ctr_crypt ks c d)) = length d"
  by (simp add: ctr_crypt_def)

lemma ctr_crypt_Nil_iff [simp]: "fst (ctr_crypt ks c d) = [] \<longleftrightarrow> d = []" "[] = fst (ctr_crypt ks c d) \<longleftrightarrow> d = []"
  using length_ctr_crypt [of ks c d] by (metis length_0_conv)+

lemma ctr_crypt_inverse [simp]: "fst (ctr_crypt ks c (fst (ctr_crypt ks c d))) = d"
  by (simp add: ctr_crypt_def)

lemma snd_ctr_crypt_length: "length d = length e \<Longrightarrow> snd (ctr_crypt ks c d) = snd (ctr_crypt ks c e)"
  by (simp add: ctr_crypt_def)

lemma ctr_crypt_append:
  "ctr_crypt ks c (d @ e) =
     (fst (ctr_crypt ks c d) @ fst (ctr_crypt ks (snd (ctr_crypt ks c d)) e),
      snd (ctr_crypt ks (snd (ctr_crypt ks c d)) e))"
  by (simp add: ctr_crypt_def xor_stream_append add.assoc)

end
