(* ===== verification/T3_Client_WS.thy ===== *)
theory T3_Client_WS
  imports T3_Framing T3_Cipher
begin

unbundle bit_operations_syntax

text \<open>
  The client's WebSocket framing, \<open>lib/src/t3_client_ws.c\<close>: masked binary frames to the server,
  unmasked frames from it, and the upgrade request. The masking key and the nonce are what
  \<open>RAND_bytes\<close> delivered.
\<close>

subsection \<open>Frames to the server\<close>

text \<open>The length bytes; the masked bit is \<open>m\<close> (0x80 or 0). The extended forms are big-endian.\<close>

definition ws_length_bytes :: "byte \<Rightarrow> nat \<Rightarrow> bytes" where
  "ws_length_bytes m payload_len =
     (if payload_len < 126 then [m OR word_of_nat payload_len]
      else if payload_len \<le> 65535
      then [m OR 126, word_of_nat (payload_len div 256), word_of_nat payload_len]
      else [m OR 127, 0, 0, 0, 0, word_of_nat (payload_len div 2 ^ 24),
            word_of_nat (payload_len div 2 ^ 16), word_of_nat (payload_len div 256),
            word_of_nat payload_len])"

text \<open>The masking loop, from position \<open>off\<close> of the key's rotation on.\<close>

definition mask_bytes :: "bytes \<Rightarrow> nat \<Rightarrow> bytes \<Rightarrow> bytes" where
  "mask_bytes mask_key off d = xor_stream (\<lambda>i. mask_key ! (i mod 4)) off d"

text \<open>\<open>t3c_ws_frame_write\<close>: \<open>None\<close> is the return value -1; otherwise the frame, of length \<open>*out_len\<close>.\<close>

definition t3c_ws_frame_write :: "bytes \<Rightarrow> bytes \<Rightarrow> bool \<Rightarrow> nat \<Rightarrow> bytes option" where
  "t3c_ws_frame_write mask_key payload out_ok out_cap =
     (if \<not> out_ok then None
      else
        (let payload_len = length payload;
             header_size = 2 + (if payload_len \<ge> 126 \<and> payload_len \<le> 65535 then 2
                                else if payload_len > 65535 then 8 else 0) + 4;
             total = sz_add header_size payload_len in
         if out_cap < total then None
         else Some ([0x82] @ ws_length_bytes 0x80 payload_len @ mask_key @ mask_bytes mask_key 0 payload)))"

subsection \<open>Frames from the server\<close>

text \<open>
  \<open>t3c_ws_frame_read\<close>: its return values -1 and 1, and 0 with \<open>payload_out\<close> as an offset into the
  buffer, \<open>*payload_len_out\<close> and \<open>*consumed_out\<close>. The outer \<open>None\<close> is a read outside the buffer.
\<close>

datatype ws_read = WsError | WsMore | WsFrame nat nat nat

definition t3c_ws_frame_read :: "bytes option \<Rightarrow> bool \<Rightarrow> ws_read option" where
  "t3c_ws_frame_read buf out_ok =
     (case buf of
        None \<Rightarrow> Some WsError
      | Some b \<Rightarrow>
          if \<not> out_ok then Some WsError
          else if length b < 2 then Some WsMore
          else do {
            b1 \<leftarrow> rd b 1;
            (let masked = (drop_bit 7 b1 AND 1 = 1); len7 = unat (b1 AND 0x7F) in
             do {
               hdr \<leftarrow>
                 (if len7 = 126 then
                    (if length b < 4 then Some None
                     else do {
                       b2 \<leftarrow> rd b 2; b3 \<leftarrow> rd b 3;
                       Some (Some (unat (push_bit 8 (ucast b2) OR ucast b3 :: u64), 4 :: nat))
                     })
                  else if len7 = 127 then
                    (if length b < 10 then Some None
                     else do {
                       bs \<leftarrow> rd_range b 2 8;
                       Some (Some (unat (be_word bs :: u64), 10))
                     })
                  else Some (Some (len7, 2)));
               (case hdr of
                  None \<Rightarrow> Some WsMore
                | Some (len, hs) \<Rightarrow>
                    (let header_size = (if masked then hs + 4 else hs);
                         tot = sz_add header_size len in
                     if length b < tot then Some WsMore
                     else if masked then Some WsError
                     else Some (WsFrame header_size len tot)))
             })
          })"

subsection \<open>The upgrade request\<close>

definition b64_alphabet :: bytes where
  "b64_alphabet = ascii ''ABCDEFGHIJKLMNOPQRSTUVWXYZabcdefghijklmnopqrstuvwxyz0123456789+/''"

definition b64_char :: "u32 \<Rightarrow> byte" where
  "b64_char v = b64_alphabet ! unat (v AND 0x3F)"

text \<open>The encoding loop, three bytes of the nonce at a time.\<close>

fun b64_encode :: "bytes \<Rightarrow> bytes" where
  "b64_encode [] = []"
| "b64_encode [x] =
     (let v = push_bit 16 (ucast x) :: u32 in
      [b64_char (drop_bit 18 v), b64_char (drop_bit 12 v), 0x3D, 0x3D])"
| "b64_encode [x, y] =
     (let v = push_bit 16 (ucast x) OR push_bit 8 (ucast y) :: u32 in
      [b64_char (drop_bit 18 v), b64_char (drop_bit 12 v), b64_char (drop_bit 6 v), 0x3D])"
| "b64_encode (x # y # z # rest) =
     (let v = push_bit 16 (ucast x) OR push_bit 8 (ucast y) OR ucast z :: u32 in
      [b64_char (drop_bit 18 v), b64_char (drop_bit 12 v), b64_char (drop_bit 6 v), b64_char v]
      @ b64_encode rest)"

text \<open>The text \<open>snprintf\<close> produces from the format.\<close>

definition upgrade_request_text :: "bytes \<Rightarrow> bytes \<Rightarrow> bytes \<Rightarrow> bytes" where
  "upgrade_request_text path host key =
     ascii ''GET '' @ path @ ascii '' HTTP/1.1'' @ [0x0D, 0x0A]
     @ ascii ''Host: '' @ host @ [0x0D, 0x0A]
     @ ascii ''Connection: Upgrade'' @ [0x0D, 0x0A]
     @ ascii ''Upgrade: websocket'' @ [0x0D, 0x0A]
     @ ascii ''Sec-WebSocket-Version: 13'' @ [0x0D, 0x0A]
     @ ascii ''Sec-WebSocket-Key: '' @ key @ [0x0D, 0x0A]
     @ [0x0D, 0x0A]"

text \<open>
  \<open>t3c_ws_upgrade_request\<close>: the request and the key copied to \<open>ws_key_out\<close> (when it is not NULL),
  \<open>None\<close> for -1.
\<close>

definition t3c_ws_upgrade_request ::
  "bytes \<Rightarrow> bytes option \<Rightarrow> bytes option \<Rightarrow> bool \<Rightarrow> nat \<Rightarrow> (bytes \<times> bytes) option" where
  "t3c_ws_upgrade_request nonce host path out_ok out_cap =
     (case (host, path) of
        (Some h, Some p) \<Rightarrow>
          if \<not> out_ok then None
          else
            (let key_b64 = b64_encode nonce; req = upgrade_request_text p h key_b64 in
             if length req \<ge> out_cap then None else Some (req, key_b64))
      | _ \<Rightarrow> None)"

subsection \<open>Masking\<close>

lemma length_mask_bytes [simp]: "length (mask_bytes m off d) = length d"
  by (simp add: mask_bytes_def)

lemma mask_bytes_involution [simp]: "mask_bytes m off (mask_bytes m off d) = d"
  by (simp add: mask_bytes_def)

lemma mask_bytes_mod: "mask_bytes m (off mod 4) d = mask_bytes m off d"
  unfolding mask_bytes_def by (rule xor_stream_cong) (simp add: mod_add_left_eq)

text \<open>Masking in pieces, with the offset carried over, is masking at once.\<close>

lemma mask_bytes_append:
  "mask_bytes m off (d @ e) = mask_bytes m off d @ mask_bytes m ((off + length d) mod 4) e"
  unfolding mask_bytes_mod by (simp add: mask_bytes_def xor_stream_append)

lemma length_ws_length_bytes:
  "length (ws_length_bytes m n) = (if n < 126 then 1 else if n \<le> 65535 then 3 else 9)"
  by (simp add: ws_length_bytes_def)

lemma length_b64_encode: "length (b64_encode d) = 4 * ((length d + 2) div 3)"
proof (induction d rule: b64_encode.induct)
  case (4 x y z rest)
  have "(length rest + 5) div 3 = Suc ((length rest + 2) div 3)" by presburger
  with 4 show ?case by (simp add: Let_def add.commute)
qed (simp_all add: Let_def)

end
