(* ===== verification/Srv_Websocket.thy ===== *)
theory Srv_Websocket
  imports T3_Client_WS
begin

unbundle bit_operations_syntax

text \<open>
  The server's WebSocket layer, \<open>server/src/net/net-websocket.c\<close>: the upgrade handshake, the frame
  header parser, the frame writer and unmasking. A \<open>raw_message\<close> is the list of its bytes; the
  fields of \<open>connection_info\<close> the layer owns are a record. Results are \<open>None\<close> where the C code would
  read outside the peeked header or overflow a signed addition.
\<close>

record ws_conn =
  wc_frame_remaining :: int
  wc_mask :: bytes
  wc_mask_offset :: nat

subsection \<open>Handshake\<close>

definition WS_MAGIC_GUID :: bytes where
  "WS_MAGIC_GUID = ascii ''258EAFA5-E914-47DA-95CA-C5AB0DC85B11''"

text \<open>
  \<open>ws_compute_accept_key\<close>, with \<open>SHA1\<close> and the BIO base64 encoder as parameters: the return value and
  the text written with its length.
\<close>

definition ws_compute_accept_key ::
  "(bytes \<Rightarrow> bytes) \<Rightarrow> (bytes \<Rightarrow> bytes) \<Rightarrow> bytes \<Rightarrow> nat \<Rightarrow> int \<times> bytes option" where
  "ws_compute_accept_key sha1 b64 key out_len =
     (if length key + 37 > 256 then (-1, None)
      else
        (let enc = b64 (sha1 (key @ WS_MAGIC_GUID)) in
         if length enc \<ge> out_len then (-1, None) else (int (length enc), Some enc)))"

definition upgrade_response_text :: "bytes \<Rightarrow> bytes" where
  "upgrade_response_text accept_key =
     ascii ''HTTP/1.1 101 Switching Protocols'' @ [0x0D, 0x0A]
     @ ascii ''Upgrade: websocket'' @ [0x0D, 0x0A]
     @ ascii ''Connection: Upgrade'' @ [0x0D, 0x0A]
     @ ascii ''Sec-WebSocket-Accept: '' @ accept_key @ [0x0D, 0x0A]
     @ [0x0D, 0x0A]"

text \<open>\<open>ws_build_upgrade_response\<close>: the value of \<open>snprintf\<close> and the text it stores.\<close>

definition ws_build_upgrade_response :: "bytes \<Rightarrow> nat \<Rightarrow> int \<times> bytes" where
  "ws_build_upgrade_response accept_key buf_len =
     (let t = upgrade_response_text accept_key in (int (length t), take (buf_len - 1) t))"

text \<open>\<open>ws_parse_upgrade_request\<close>: the return value with \<open>ws_key\<close> and \<open>path\<close> as C strings.\<close>

definition ws_parse_upgrade_request ::
  "bytes \<Rightarrow> nat \<Rightarrow> nat \<Rightarrow> int \<times> (bytes \<times> bytes) option" where
  "ws_parse_upgrade_request inp ws_key_len path_len =
     (if length inp < 4 then (0, None)
      else
        (let read_len = (if length inp < 4096 then length inp else 4096);
             raw = take read_len inp; buf = cstr raw in
         case strstr [0x0D, 0x0A, 0x0D, 0x0A] buf of
           None \<Rightarrow> if read_len \<ge> 4096 then (-1, None) else (0, None)
         | Some _ \<Rightarrow>
             if \<not> starts_with (ascii ''GET '') raw then (-1, None)
             else
               (let path_start = drop 4 buf in
                case strstr (ascii '' HTTP/'') path_start of
                  None \<Rightarrow> (-1, None)
                | Some plen \<Rightarrow>
                    (let path = take (if plen \<ge> path_len then path_len - 1 else plen) path_start in
                     if strcasestr (ascii ''Upgrade: websocket'') buf = None then (-1, None)
                     else
                       (case strcasestr (ascii ''Sec-WebSocket-Key:'') buf of
                          None \<Rightarrow> (-1, None)
                        | Some k \<Rightarrow>
                            (let key_header = dropWhile (\<lambda>c. c = 0x20) (drop (k + 18) buf) in
                             case strstr [0x0D, 0x0A] key_header of
                               None \<Rightarrow> (-1, None)
                             | Some klen \<Rightarrow>
                                 (1, Some (take (if klen \<ge> ws_key_len then ws_key_len - 1 else klen)
                                             key_header, path))))))))"

subsection \<open>Frames\<close>

definition WS_OPCODE_CLOSE :: byte where "WS_OPCODE_CLOSE = 0x8"
definition WS_OPCODE_PING :: byte where "WS_OPCODE_PING = 0x9"
definition WS_OPCODE_PONG :: byte where "WS_OPCODE_PONG = 0xA"

lemmas ws_opcodes = WS_OPCODE_CLOSE_def WS_OPCODE_PING_def WS_OPCODE_PONG_def

text \<open>
  The length field of a peeked header: \<open>Inl r\<close> is an early return of \<open>r\<close>, \<open>Inr\<close> the payload length
  (a C \<open>int\<close>) and the position after it.
\<close>

definition ws_payload_length :: "bytes \<Rightarrow> (int + int \<times> nat) option" where
  "ws_payload_length header =
     do {
       b1 \<leftarrow> rd header 1;
       (let payload_len = uint (b1 AND 0x7F) in
        if payload_len = 126 then
          (if length header < 4 then Some (Inl 0)
           else do {
             h2 \<leftarrow> rd header 2; h3 \<leftarrow> rd header 3;
             Some (Inr (sint (push_bit 8 (ucast h2) OR ucast h3 :: u32), 4))
           })
        else if payload_len = 127 then
          (if length header < 10 then Some (Inl 0)
           else do {
             h2 \<leftarrow> rd header 2; h3 \<leftarrow> rd header 3; h4 \<leftarrow> rd header 4; h5 \<leftarrow> rd header 5;
             low \<leftarrow> rd_range header 6 4;
             (if h2 OR h3 OR h4 OR h5 \<noteq> 0 then Some (Inl (-1))
              else
                (let len = sint (be_word low :: u32) in
                 if len < 0 then Some (Inl (-1)) else Some (Inr (len, 10))))
           })
        else Some (Inr (payload_len, 2)))
     }"

text \<open>\<open>ws_parse_frame_header\<close>: the return value, the connection's fields and what is left of the input.\<close>

definition ws_parse_frame_header :: "ws_conn \<Rightarrow> bytes \<Rightarrow> (int \<times> ws_conn \<times> bytes) option" where
  "ws_parse_frame_header c inp =
     (let total = length inp in
      if total < 2 then Some (0, c, inp)
      else
        (let header = take (if total < 14 then total else 14) inp in
         do {
           b0 \<leftarrow> rd header 0;
           b1 \<leftarrow> rd header 1;
           l \<leftarrow> ws_payload_length header;
           (case l of
              Inl r \<Rightarrow> Some (r, c, inp)
            | Inr (payload_len, pos) \<Rightarrow>
                (let opcode = b0 AND 0x0F; masked = (drop_bit 7 b1 AND 1 = 1) in
                 if masked \<and> length header < pos + 4 then Some (0, c, inp)
                 else do {
                   mk \<leftarrow> (if masked then rd_range header pos 4 else Some (wc_mask c));
                   (let c1 = (if masked then c\<lparr>wc_mask := mk, wc_mask_offset := 0\<rparr> else c);
                        header_len = (if masked then pos + 4 else pos) in
                    if opcode = WS_OPCODE_CLOSE then Some (-1, c1, inp)
                    else if opcode = WS_OPCODE_PING \<or> opcode = WS_OPCODE_PONG then
                      (if int header_len + payload_len > 2 ^ 31 - 1 then None
                       else if int total < int header_len + payload_len then Some (0, c1, inp)
                       else Some (0, c1, drop (header_len + nat payload_len) inp))
                    else if total < header_len then Some (0, c1, inp)
                    else Some (payload_len, c1\<lparr>wc_frame_remaining := payload_len\<rparr>,
                               drop header_len inp))
                 }))
         }))"

text \<open>\<open>ws_write_frame_header\<close>: the bytes pushed to the output.\<close>

definition ws_write_frame_header :: "nat \<Rightarrow> bytes" where
  "ws_write_frame_header payload_len = [0x82] @ ws_length_bytes 0 payload_len"

definition ws_unmask_data :: "ws_conn \<Rightarrow> bytes \<Rightarrow> ws_conn \<times> bytes" where
  "ws_unmask_data c d =
     (c\<lparr>wc_mask_offset := (wc_mask_offset c + length d) mod 4\<rparr>,
      mask_bytes (wc_mask c) (wc_mask_offset c) d)"

subsection \<open>Frame headers\<close>

lemma len7_masked:
  "n < 128 \<Longrightarrow> (0x80 OR word_of_nat n :: byte) AND 0x7F = word_of_nat n
     \<and> drop_bit 7 (0x80 OR word_of_nat n :: byte) AND 1 = 1"
proof -
  have "list_all (\<lambda>n. (0x80 OR word_of_nat n :: byte) AND 0x7F = word_of_nat n
     \<and> drop_bit 7 (0x80 OR word_of_nat n :: byte) AND 1 = 1) [0..<128]" by code_simp
  then show "n < 128 \<Longrightarrow> ?thesis" by (simp add: list_all_iff)
qed

lemma len7_unmasked:
  "n < 128 \<Longrightarrow> (word_of_nat n :: byte) AND 0x7F = word_of_nat n
     \<and> drop_bit 7 (word_of_nat n :: byte) AND 1 \<noteq> 1"
proof -
  have "list_all (\<lambda>n. (word_of_nat n :: byte) AND 0x7F = word_of_nat n
     \<and> drop_bit 7 (word_of_nat n :: byte) AND 1 \<noteq> 1) [0..<128]" by code_simp
  then show "n < 128 \<Longrightarrow> ?thesis" by (simp add: list_all_iff)
qed

lemma be16:
  assumes "n < 2 ^ 16"
  shows "push_bit 8 (ucast (word_of_nat (n div 256) :: byte)) OR ucast (word_of_nat n :: byte)
      = (word_of_nat n :: 'a :: len word)"
proof -
  have "be_nat [word_of_nat (n div 256), word_of_nat n] = n"
    using be_nat_be_bytes [of n 2] assms by (simp add: be_bytes_numerals)
  then show ?thesis
    using be_word_eq [of "[word_of_nat (n div 256), word_of_nat n :: byte]", where ?'a = 'a]
    by (simp add: be_word_def)
qed

lemma be32:
  assumes "n < 2 ^ 32"
  shows "be_nat [word_of_nat (n div 16777216), word_of_nat (n div 65536), word_of_nat (n div 256), word_of_nat n] = n"
  using be_nat_be_bytes [of n 4] assms by (simp add: be_bytes_numerals)

lemma be64:
  assumes "n < 2 ^ 32"
  shows "be_nat [0, 0, 0, 0, word_of_nat (n div 16777216), word_of_nat (n div 65536),
      word_of_nat (n div 256), word_of_nat n] = n"
  using be32 [OF assms] by (simp add: be_nat_def)

text \<open>Reads of the peeked header are reads of the input.\<close>

lemma peek_reads:
  "take (if length xs < 14 then length xs else 14) xs = take 14 xs"
  "i < 14 \<Longrightarrow> rd (take 14 xs) i = rd xs i"
  "i + n \<le> 14 \<Longrightarrow> rd_range (take 14 xs) i n = rd_range xs i n"
  "k \<le> 14 \<Longrightarrow> length (take 14 xs) < k \<longleftrightarrow> length xs < k"
  by (auto simp: rd_def rd_range_def drop_take min_def)

text \<open>The parser, reading from the input itself.\<close>

lemma ws_payload_length_peek: "ws_payload_length (take 14 xs) = ws_payload_length xs"
proof -
  have "rd (take 14 xs) 1 = rd xs 1" "rd (take 14 xs) 2 = rd xs 2" "rd (take 14 xs) 3 = rd xs 3"
    "rd (take 14 xs) 4 = rd xs 4" "rd (take 14 xs) 5 = rd xs 5"
    "rd_range (take 14 xs) 6 4 = rd_range xs 6 4"
    "length (take 14 xs) < 4 \<longleftrightarrow> length xs < 4" "length (take 14 xs) < 10 \<longleftrightarrow> length xs < 10"
    by (rule peek_reads; simp)+
  then show ?thesis by (simp only: ws_payload_length_def)
qed

lemma ws_parse_frame_header_eq:
  "ws_parse_frame_header c inp =
     (if length inp < 2 then Some (0, c, inp)
      else do {
        b0 \<leftarrow> rd inp 0;
        b1 \<leftarrow> rd inp 1;
        l \<leftarrow> ws_payload_length inp;
        (case l of
           Inl r \<Rightarrow> Some (r, c, inp)
         | Inr (payload_len, pos) \<Rightarrow>
             (let opcode = b0 AND 0x0F; masked = (drop_bit 7 b1 AND 1 = 1);
                  header_len = (if masked then pos + 4 else pos) in
              if length (take 14 inp) < header_len \<and> masked then Some (0, c, inp)
              else do {
                mk \<leftarrow> (if masked then rd_range (take 14 inp) pos 4 else Some (wc_mask c));
                (let c1 = (if masked then c\<lparr>wc_mask := mk, wc_mask_offset := 0\<rparr> else c) in
                 if opcode = WS_OPCODE_CLOSE then Some (-1, c1, inp)
                 else if opcode = WS_OPCODE_PING \<or> opcode = WS_OPCODE_PONG then
                   (if int header_len + payload_len > 2 ^ 31 - 1 then None
                    else if int (length inp) < int header_len + payload_len then Some (0, c1, inp)
                    else Some (0, c1, drop (header_len + nat payload_len) inp))
                 else if length inp < header_len then Some (0, c1, inp)
                 else Some (payload_len, c1\<lparr>wc_frame_remaining := payload_len\<rparr>,
                            drop header_len inp))
              }))
      })"
  unfolding ws_parse_frame_header_def Let_def peek_reads(1) ws_payload_length_peek
  by (auto simp: peek_reads(2) split: Option.bind_splits sum.splits)

text \<open>The header of a masked frame of \<open>n\<close> bytes.\<close>

definition client_header :: "nat \<Rightarrow> bytes \<Rightarrow> bytes" where
  "client_header n mk = [0x82] @ ws_length_bytes 0x80 n @ mk"

lemma uint_byte_of_nat: "n < 256 \<Longrightarrow> uint (word_of_nat n :: byte) = int n"
  by (simp add: unsigned_of_nat take_bit_nat_eq_self)

lemma ws_payload_length_client:
  assumes "n < 2 ^ 31"
  shows "ws_payload_length ([0x82] @ ws_length_bytes 0x80 n @ rest) =
    Some (Inr (int n, length (ws_length_bytes 0x80 n) + 1))"
proof -
  consider "n < 126" | "126 \<le> n" "n \<le> 65535" | "65535 < n" by linarith
  then show ?thesis
  proof cases
    case 1
    with len7_masked [of n] show ?thesis
      by (simp add: ws_payload_length_def ws_length_bytes_def uint_byte_of_nat Let_def)
  next
    case 2
    then show ?thesis
      by (simp add: ws_payload_length_def ws_length_bytes_def be16 sint_of_nat_u32)
  next
    case 3
    with assms show ?thesis
      by (simp add: ws_payload_length_def ws_length_bytes_def be32 be_word_eq sint_of_nat_u32)
  qed
qed

lemma client_first_bytes:
  "(([0x82] @ ws_length_bytes 0x80 n @ rest) ! 0) AND 0x0F = 0x02"
  "drop_bit 7 (([0x82] @ ws_length_bytes 0x80 n @ rest) ! 1) AND 1 = 1"
  using len7_masked [of n] by (simp_all add: ws_length_bytes_def)

lemma ws_parse_client:
  assumes "n < 2 ^ 31" "length mk = 4"
  shows "ws_parse_frame_header c (client_header n mk @ rest) =
    Some (int n, c\<lparr>wc_mask := mk, wc_mask_offset := 0, wc_frame_remaining := int n\<rparr>, rest)"
proof -
  let ?l = "length (ws_length_bytes 0x80 n) + 1"
  let ?inp = "[0x82] @ ws_length_bytes 0x80 n @ mk @ rest"
  have l: "2 \<le> ?l" "?l + 4 \<le> 14" by (simp_all add: length_ws_length_bytes)
  have len: "length ?inp = ?l + 4 + length rest" using assms(2) by simp
  have "rd_range (take 14 ?inp) ?l 4 = rd_range ?inp ?l 4" using l by (intro peek_reads(3))
  also have "\<dots> = Some mk"
    using len assms(2) by (subst rd_range_in) simp_all
  finally have mk: "rd_range (take 14 ?inp) ?l 4 = Some mk" .
  have "\<not> length (take 14 ?inp) < ?l + 4" using l len by simp
  moreover have "rd ?inp 0 = Some (?inp ! 0)" "rd ?inp 1 = Some (?inp ! 1)" "\<not> length ?inp < 2"
    using l len by (simp_all add: rd_def)
  moreover have "drop (?l + 4) (([0x82] @ ws_length_bytes 0x80 n @ mk) @ rest) = rest"
    by (rule take_drop_append_exact(2)) (simp add: assms(2))
  then have "drop (?l + 4) ?inp = rest" by (simp only: append_assoc)
  ultimately have "ws_parse_frame_header c ?inp =
    Some (int n, c\<lparr>wc_mask := mk, wc_mask_offset := 0, wc_frame_remaining := int n\<rparr>, rest)"
    unfolding ws_parse_frame_header_eq
    using mk len ws_payload_length_client [OF assms(1), of "mk @ rest"] client_first_bytes
    by (simp only: option.case bind.bind_lunit Let_def if_False if_True simp_thms sum.case prod.case ws_opcodes)
      simp
  then show ?thesis by (simp add: client_header_def)
qed

text \<open>Until the header is complete nothing is consumed and nothing changes.\<close>

lemma ws_parse_client_partial:
  assumes "n < 2 ^ 31" "length mk = 4" "strict_prefix p (client_header n mk)"
  shows "ws_parse_frame_header c p = Some (0, c, p)"
proof (cases "length p < 2")
  case False
  let ?L = "ws_length_bytes 0x80 n"
  from assms(3) obtain q where q: "client_header n mk = p @ q" "q \<noteq> []"
    by (auto simp: strict_prefix_def prefix_def)
  have len: "length p + length q = length ?L + 5"
    using arg_cong [OF q(1), of length] assms(2) by (simp add: client_header_def)
  have nth: "p ! i = client_header n mk ! i" if "i < length p" for i
    using q(1) that by (simp add: nth_append)
  have m: "drop_bit 7 (p ! 1) AND 1 = 1"
    using nth [of 1] False client_first_bytes(2) [of n mk] by (simp add: client_header_def)
  have "ws_payload_length p = Some (Inl 0) \<or>
      (\<exists>k. ws_payload_length p = Some (Inr (k, length ?L + 1)))"
  proof (cases "length ?L + 1 \<le> length p")
    case True
    then have "take (length ?L + 1) (p @ q) = take (length ?L + 1) p" by simp
    moreover have "take (length ?L + 1) (p @ q) = [0x82] @ ?L"
      using q(1) by (simp add: client_header_def flip: q(1))
    ultimately have "p = [0x82] @ ?L @ drop (length ?L + 1) p"
      by (metis append_take_drop_id append_assoc)
    with ws_payload_length_client [OF assms(1)] show ?thesis by metis
  next
    case short: False
    then have n: "126 \<le> n" using False by (auto simp: length_ws_length_bytes split: if_splits)
    have "p ! 1 = ?L ! 0" using nth [of 1] False by (simp add: client_header_def nth_append length_ws_length_bytes)
    with n short False show ?thesis
      by (auto simp: ws_payload_length_def ws_length_bytes_def rd_def Let_def split: if_splits)
  qed
  moreover have "length (take 14 p) < length ?L + 1 + 4" using len q(2) by (cases q) auto
  moreover have "0 < length p" "1 < length p" using False by linarith+
  then have "rd p 0 = Some (p ! 0)" "rd p 1 = Some (p ! 1)" by (simp_all only: rd_in)
  ultimately show ?thesis
    using m False by (auto simp: ws_parse_frame_header_eq Let_def)
qed (simp add: ws_parse_frame_header_eq)

subsection \<open>The two directions\<close>

text \<open>What the client writes the server parses and unmasks, whatever is behind the frame.\<close>

lemma client_frame_eq:
  assumes "length mk = 4" "length d < 2 ^ 31" "length d + 14 \<le> cap"
  shows "t3c_ws_frame_write mk d True cap =
    Some (client_header (length d) mk @ mask_bytes mk 0 d)"
proof -
  have "2 + (if length d \<ge> 126 \<and> length d \<le> 65535 then 2 else if length d > 65535 then 8 else 0) + 4
      \<le> (14 :: nat)" by simp
  with assms show ?thesis
    by (simp add: t3c_ws_frame_write_def client_header_def Let_def)
qed

definition ws_server_enc :: "bytes \<Rightarrow> bytes" where
  "ws_server_enc d = ws_write_frame_header (length d) @ d"

definition ws_client_dec :: "bytes \<Rightarrow> bytes decoded" where
  "ws_client_dec b =
     (case t3c_ws_frame_read (Some b) True of
        Some (WsFrame off len n) \<Rightarrow> Frame (take len (drop off b)) n
      | Some WsMore \<Rightarrow> More
      | Some WsError \<Rightarrow> Bad
      | None \<Rightarrow> Bad)"

definition ws_payload_ok :: "bytes \<Rightarrow> bool" where
  "ws_payload_ok d \<longleftrightarrow> length d < 2 ^ 31"

text \<open>The client's reader on a buffer that starts with a server header for \<open>n\<close> bytes.\<close>

lemma ws_client_read:
  assumes "n < 2 ^ 31"
  shows "t3c_ws_frame_read (Some (ws_write_frame_header n @ rest)) True =
    Some (let h = length (ws_write_frame_header n) in
          if length rest < n then WsMore else WsFrame h n (h + n))"
proof -
  consider "n < 126" | "126 \<le> n" "n \<le> 65535" | "65535 < n" by linarith
  then show ?thesis
  proof cases
    case 1
    with len7_unmasked [of n] show ?thesis
      by (simp add: t3c_ws_frame_read_def ws_write_frame_header_def ws_length_bytes_def Let_def
          unat_word_of_nat_byte)
  next
    case 2
    then show ?thesis
      by (simp add: t3c_ws_frame_read_def ws_write_frame_header_def ws_length_bytes_def Let_def
          be16 unat_of_nat)
  next
    case 3
    have "unat (be_word [0, 0, 0, 0, word_of_nat (n div 16777216), word_of_nat (n div 65536),
        word_of_nat (n div 256), word_of_nat n] :: u64) = n"
      using assms be64 [of n] by (simp only: be_word_eq) (simp add: unat_of_nat)
    with 3 assms show ?thesis
      by (simp add: t3c_ws_frame_read_def ws_write_frame_header_def ws_length_bytes_def Let_def)
  qed
qed

lemma ws_client_read_short:
  assumes "n < 2 ^ 31" "strict_prefix p (ws_write_frame_header n)"
  shows "t3c_ws_frame_read (Some p) True = Some WsMore"
proof (cases "length p < 2")
  case False
  let ?H = "ws_write_frame_header n"
  from assms(2) obtain q where q: "?H = p @ q" "q \<noteq> []"
    by (auto simp: strict_prefix_def prefix_def)
  then have len: "length p < length ?H" by (cases q) auto
  then have n: "126 \<le> n"
    using False by (auto simp: ws_write_frame_header_def length_ws_length_bytes split: if_splits)
  have "1 < length p" using False by simp
  then have p1: "rd p 1 = Some (?H ! 1)" using q(1) by (simp add: nth_append)
  from n len False p1 show ?thesis
    by (auto simp: t3c_ws_frame_read_def ws_write_frame_header_def ws_length_bytes_def Let_def
        split: if_splits)
qed (simp add: t3c_ws_frame_read_def)

lemma strict_prefix_append_cases:
  "strict_prefix p (xs @ ys) \<Longrightarrow> strict_prefix p xs \<or> (\<exists>zs. p = xs @ zs \<and> strict_prefix zs ys)"
  by (auto simp: strict_prefix_def prefix_append)

interpretation ws_down: framing ws_server_enc ws_client_dec ws_payload_ok
proof
  fix d rest p
  assume "ws_payload_ok d"
  then have n: "length d < 2 ^ 31" by (simp add: ws_payload_ok_def)
  show "ws_server_enc d \<noteq> []" by (simp add: ws_server_enc_def ws_write_frame_header_def)
  show "ws_client_dec (ws_server_enc d @ rest) = Frame d (length (ws_server_enc d))"
    using ws_client_read [OF n, of "d @ rest"]
    by (simp add: ws_client_dec_def ws_server_enc_def Let_def)
  show "ws_client_dec p = More" if "strict_prefix p (ws_server_enc d)"
  proof (cases "strict_prefix p (ws_write_frame_header (length d))")
    case True
    then show ?thesis using ws_client_read_short [OF n] by (simp add: ws_client_dec_def)
  next
    case False
    with that obtain zs where "p = ws_write_frame_header (length d) @ zs" "strict_prefix zs d"
      unfolding ws_server_enc_def using strict_prefix_append_cases by blast
    moreover from this have "length zs < length d" using prefix_length_less by blast
    ultimately show ?thesis
      using ws_client_read [OF n, of zs] by (simp add: ws_client_dec_def Let_def)
  qed
qed

text \<open>Binary frames the server writes, of any payload of less than \<open>2^31\<close> bytes (the empty one
  included), arrive at the client unchanged and in order however the stream is cut into segments.\<close>

lemma ws_server_to_client:
  assumes "\<forall>d \<in> set ds. length d < 2 ^ 31" "ds \<noteq> []"
    and "concat segs = concat (map (\<lambda>d. ws_write_frame_header (length d) @ d) ds)"
  shows "receive ws_client_dec [] segs = (ds, [], False)"
proof -
  have "map ws_server_enc ds = map (\<lambda>d. ws_write_frame_header (length d) @ d) ds"
    by (simp add: ws_server_enc_def)
  then have "concat segs = ws_down.stream ds" using assms(3) by (simp only: ws_down.stream_def)
  with assms(1,2) show ?thesis by (intro ws_down.receive_stream) (auto simp: ws_payload_ok_def)
qed

subsection \<open>Corner cases\<close>

text \<open>
  The client adds header size and payload length in 64 bits: a frame that announces \<open>2^64 - 10\<close>
  bytes is taken as complete, with a payload far beyond the buffer and no byte consumed.
\<close>

lemma ws_read_length_wraps:
  "t3c_ws_frame_read (Some [0x82, 0x7F, 0xFF, 0xFF, 0xFF, 0xFF, 0xFF, 0xFF, 0xFF, 0xF6]) True
     = Some (WsFrame 10 (2 ^ 64 - 10) 0)"
proof -
  have "unat (be_word [0xFF, 0xFF, 0xFF, 0xFF, 0xFF, 0xFF, 0xFF, 0xF6] :: u64) = 2 ^ 64 - 10"
    by (simp add: be_word_eq be_nat_def unat_of_nat)
  then show ?thesis by (simp add: t3c_ws_frame_read_def Let_def sz_add_def)
qed

text \<open>
  A ping, and an empty data frame, is consumed with the return value 0, which the callers take as a
  request for more bytes: a whole frame behind it stays in the buffer.
\<close>

lemma ws_ping_reports_more:
  "ws_parse_frame_header c ([0x89, 0x00] @ rest) = Some (0, c, rest)"
  by (simp add: ws_parse_frame_header_eq ws_payload_length_def ws_opcodes)

text \<open>A ping whose announced length overflows the signed addition with the header length.\<close>

lemma ws_ping_overflow:
  "ws_parse_frame_header c ([0x89, 0x7F, 0, 0, 0, 0, 0x7F, 0xFF, 0xFF, 0xFF] @ rest) = None"
proof -
  have "sint (be_word [0x7F, 0xFF, 0xFF, 0xFF] :: u32) = 2 ^ 31 - 1"
    using sint_of_nat_u32 [of "2 ^ 31 - 1"] by (simp add: be_word_eq be_nat_def)
  then show ?thesis
    by (simp add: ws_parse_frame_header_eq ws_payload_length_def ws_opcodes)
qed

end
