(* ===== verification/Srv_Transport.thy ===== *)
theory Srv_Transport
  imports Srv_Websocket T3_Http_Stream
begin

unbundle bit_operations_syntax

text \<open>
  The server's encrypted transports, \<open>server/src/net/net-tcp-connections.c\<close>: what is written to and
  read from a connection once its AES-CTR keys are set, over WebSocket frames, HTTP chunks, fake TLS
  records or the bare stream; and the chunk unwrapping before the keys are set.

  Queues and \<open>raw_message\<close>s are byte lists. The allocations of \<open>rwm_encrypt_decrypt_to\<close> are a
  predicate \<open>mem\<close> of the number of bytes still to process, which differs from call to call. The buffer for
  unmasking a frame of more than 16384 bytes, whose \<open>malloc\<close> is not tested (line 516), is taken to be there.
\<close>

lemma not_prefix_strict: "prefix p (h @ t) \<Longrightarrow> \<not> prefix h p \<Longrightarrow> strict_prefix p h"
  using prefix_same_cases [of p "h @ t" h] by (auto simp: strict_prefix_def)

subsection \<open>State\<close>

datatype transport_mode = TRANSPORT_MODE_WS | TRANSPORT_MODE_HTTP_STREAM | TRANSPORT_MODE_HTTP_STREAM_RAW

text \<open>
  The fields of \<open>connection_info\<close> the transports use. \<open>tc_failed\<close> is the argument of the last
  \<open>fail_connection\<close>.
\<close>

record tconn =
  tc_ws :: ws_conn
  tc_ws_active :: bool
  tc_mode :: transport_mode
  tc_chunk_remaining :: nat
  tc_chunk_state :: nat
  tc_tls :: bool
  tc_left_tls :: nat
  tc_in_u :: bytes
  tc_in :: bytes
  tc_out :: bytes
  tc_out_p :: bytes
  tc_read_key :: aes_ctx
  tc_write_key :: aes_ctx
  tc_failed :: "int option"

text \<open>A connection right after its keys are set, with nothing read or written.\<close>

definition conn_start :: "transport_mode \<Rightarrow> bool \<Rightarrow> bool \<Rightarrow> aes_ctx \<Rightarrow> aes_ctx \<Rightarrow> tconn" where
  "conn_start mode ws tls rk wk =
     \<lparr>tc_ws = \<lparr>wc_frame_remaining = 0, wc_mask = [0, 0, 0, 0], wc_mask_offset = 0\<rparr>, tc_ws_active = ws,
      tc_mode = mode, tc_chunk_remaining = 0, tc_chunk_state = 0, tc_tls = tls, tc_left_tls = 0,
      tc_in_u = [], tc_in = [], tc_out = [], tc_out_p = [], tc_read_key = rk, tc_write_key = wk,
      tc_failed = None\<rparr>"

definition http_mode :: "tconn \<Rightarrow> bool" where
  "http_mode c \<longleftrightarrow>
     tc_mode c = TRANSPORT_MODE_HTTP_STREAM \<or> tc_mode c = TRANSPORT_MODE_HTTP_STREAM_RAW"

subsection \<open>Writing\<close>

text \<open>\<open>"%x\r\n"\<close>\<close>

definition http_chunk_write_header :: "nat \<Rightarrow> bytes" where
  "http_chunk_write_header len = t3__size_to_hex len @ CRLF"

text \<open>What precedes one piece of output, how long the piece is and what follows it.\<close>

definition output_piece :: "tconn \<Rightarrow> nat \<Rightarrow> bytes \<times> nat" where
  "output_piece c len =
     (if tc_ws_active c then
        (let len = (if len > 16384 then 16384 else len) in (ws_write_frame_header len, len))
      else if http_mode c then
        (let len = (if len > 16384 then 16384 else len) in (http_chunk_write_header len, len))
      else if tc_tls c then
        (let len = (if 1425 < len then 1425 else len) in
         ([0x17, 0x03, 0x03, word_of_nat (len div 256), word_of_nat len], len))
      else ([], len))"

lemma output_piece_pos: "0 < len \<Longrightarrow> 0 < snd (output_piece c len) \<and> snd (output_piece c len) \<le> len"
  by (auto simp: output_piece_def Let_def)

text \<open>\<open>cpu_tcp_aes_crypto_ctr128_encrypt_output\<close>: the return value and the connection.\<close>

function encrypt_output :: "keystream \<Rightarrow> (nat \<Rightarrow> bool) \<Rightarrow> tconn \<Rightarrow> int \<times> tconn" where
  "encrypt_output ks mem c =
     (if tc_out c = [] then (0, c)
      else
        (let (header, len) = output_piece c (length (tc_out c));
             c1 = c\<lparr>tc_out_p := tc_out_p c @ header\<rparr> in
         if \<not> mem (length (tc_out c)) then (-1, c1\<lparr>tc_failed := Some (-1)\<rparr>)
         else
           (let (enc, key) = ctr_crypt ks (tc_write_key c1) (take len (tc_out c1)) in
            encrypt_output ks mem
              (c1\<lparr>tc_out := drop len (tc_out c1), tc_write_key := key,
                  tc_out_p := tc_out_p c1 @ enc @ (if http_mode c then CRLF else [])\<rparr>))))"
  by auto
termination
proof (relation "measure (\<lambda>(_, _, c). length (tc_out c))")
  fix ks :: keystream and mem :: "nat \<Rightarrow> bool" and c p header len c1 q enc key
  assume "tc_out c \<noteq> []" "p = output_piece c (length (tc_out c))" "(header, len) = p"
    "c1 = c\<lparr>tc_out_p := tc_out_p c @ header\<rparr>"
  then have "0 < len" "len \<le> length (tc_out c)" "tc_out c1 = tc_out c"
    using output_piece_pos [of "length (tc_out c)" c] by (metis length_greater_0_conv snd_conv, metis length_greater_0_conv snd_conv, simp)
  then show "((ks, mem, c1\<lparr>tc_out := drop len (tc_out c1), tc_write_key := key,
                  tc_out_p := tc_out_p c1 @ enc @ (if http_mode c then CRLF else [])\<rparr>), ks, mem, c)
      \<in> measure (\<lambda>(_, _, c). length (tc_out c))" by simp
qed simp

declare encrypt_output.simps [simp del]

subsection \<open>HTTP chunk headers\<close>

fun chunk_size_loop :: "bytes \<Rightarrow> nat \<Rightarrow> nat option" where
  "chunk_size_loop [] sz = Some sz"
| "chunk_size_loop (ch # rest) sz =
     (case http_hex_digit ch of
        None \<Rightarrow> None
      | Some digit \<Rightarrow>
          if sz > (65535 - digit) div 16 then None else chunk_size_loop rest (sz * 16 + digit))"

text \<open>
  \<open>http_stream_chunk_header_parse\<close>: 1 for more data, -1 for a malformed header, 0 with the sz and
  the rest of the message.
\<close>

datatype chunk_header = ChunkMore | ChunkMalformed | ChunkSize nat bytes

definition http_stream_chunk_header_parse :: "bytes \<Rightarrow> chunk_header" where
  "http_stream_chunk_header_parse rmsg =
     (let avail = length rmsg in
      if avail = 0 then ChunkMore
      else
        (let peek_buf = take (if avail < 18 then avail else 18) rmsg in
         case find_crlf peek_buf of
           None \<Rightarrow> if avail \<ge> 18 then ChunkMalformed else ChunkMore
         | Some header_line_len \<Rightarrow>
             if header_line_len = 0 then ChunkMalformed
             else
               (let hex_len = (case memchr 0x3B (take header_line_len peek_buf) of
                                 None \<Rightarrow> header_line_len | Some i \<Rightarrow> i) in
                if hex_len = 0 then ChunkMalformed
                else
                  (case chunk_size_loop (take hex_len peek_buf) 0 of
                     None \<Rightarrow> ChunkMalformed
                   | Some sz \<Rightarrow> ChunkSize sz (drop (header_line_len + 2) rmsg)))))"

subsection \<open>Reading\<close>

text \<open>
  The part of a turn of the HTTP loops that runs with no chunk open: the CRLF after a chunk and the
  next header. \<open>Inl\<close> ends the call: \<open>None\<close> to wait for more data, \<open>Some code\<close> after
  \<open>fail_connection (C, code)\<close>.
\<close>

definition http_next_chunk :: "tconn \<Rightarrow> (int option \<times> tconn) + tconn" where
  "http_next_chunk c =
     (if tc_chunk_remaining c = 0 then
        (let after =
               (if tc_chunk_state c = 2 then
                  (if length (tc_in_u c) < 2 then Inl (None, c)
                   else if tc_in_u c ! 0 \<noteq> 0x0D \<or> tc_in_u c ! 1 \<noteq> 0x0A
                   then Inl (Some (-1), c\<lparr>tc_failed := Some (-1)\<rparr>)
                   else Inr (c\<lparr>tc_in_u := drop 2 (tc_in_u c), tc_chunk_state := 0\<rparr>))
                else Inr c) in
         case after of
           Inl r \<Rightarrow> Inl r
         | Inr c1 \<Rightarrow>
             if tc_chunk_state c1 = 0 then
               (case http_stream_chunk_header_parse (tc_in_u c1) of
                  ChunkMore \<Rightarrow> Inl (None, c1)
                | ChunkMalformed \<Rightarrow> Inl (Some (-1), c1\<lparr>tc_failed := Some (-1)\<rparr>)
                | ChunkSize sz rest \<Rightarrow>
                    (let c2 = c1\<lparr>tc_in_u := rest\<rparr> in
                     if sz = 0 then Inl (Some 0, c2\<lparr>tc_failed := Some 0\<rparr>)
                     else Inr (c2\<lparr>tc_chunk_remaining := sz, tc_chunk_state := 1\<rparr>)))
             else Inr c1)
      else Inr c)"

text \<open>\<open>rwm_encrypt_decrypt_to (&c->in_u, &c->in, len, T->read_aeskey, 1)\<close>\<close>

definition decrypt_bytes :: "keystream \<Rightarrow> nat \<Rightarrow> tconn \<Rightarrow> tconn" where
  "decrypt_bytes ks len c =
     (let (dec, key) = ctr_crypt ks (tc_read_key c) (take len (tc_in_u c)) in
      c\<lparr>tc_in_u := drop len (tc_in_u c), tc_in := tc_in c @ dec, tc_read_key := key\<rparr>)"

text \<open>One turn of the loop of \<open>cpu_tcp_aes_crypto_ctr128_decrypt_input\<close>, per transport: \<open>Inl\<close> returns.\<close>

definition ws_next_frame :: "tconn \<Rightarrow> ((int \<times> tconn) + tconn) option" where
  "ws_next_frame c =
     (if wc_frame_remaining (tc_ws c) = 0 then
        do {
          (payload_len, w, rest) \<leftarrow> ws_parse_frame_header (tc_ws c) (tc_in_u c);
          (let c1 = c\<lparr>tc_ws := w, tc_in_u := rest\<rparr> in
           if payload_len < 0 then Some (Inl (0, c1\<lparr>tc_failed := Some (-1)\<rparr>))
           else if payload_len = 0 then Some (Inl (0, c1))
           else Some (Inr c1))
        }
      else Some (Inr c))"

definition ws_read_piece :: "keystream \<Rightarrow> (nat \<Rightarrow> bool) \<Rightarrow> tconn \<Rightarrow> (int \<times> tconn) + tconn" where
  "ws_read_piece ks mem c =
     (let len = min (int (length (tc_in_u c))) (wc_frame_remaining (tc_ws c));
          w1 = (tc_ws c)\<lparr>wc_frame_remaining := wc_frame_remaining (tc_ws c) - len\<rparr>;
          c1 = c\<lparr>tc_ws := w1\<rparr> in
      if len > 0 then
        (let (w2, plain) = ws_unmask_data w1 (take (nat len) (tc_in_u c1));
             c2 = c1\<lparr>tc_ws := w2, tc_in_u := drop (nat len) (tc_in_u c1)\<rparr> in
         if \<not> mem (length (tc_in_u c1)) then Inl (-1, c2\<lparr>tc_failed := Some (-1)\<rparr>)
         else
           (let (dec, key) = ctr_crypt ks (tc_read_key c2) plain in
            Inr (c2\<lparr>tc_in := tc_in c2 @ dec, tc_read_key := key\<rparr>)))
      else Inr c1)"

definition decrypt_ws_step ::
  "keystream \<Rightarrow> (nat \<Rightarrow> bool) \<Rightarrow> tconn \<Rightarrow> ((int \<times> tconn) + tconn) option" where
  "decrypt_ws_step ks mem c =
     do {
       r \<leftarrow> ws_next_frame c;
       Some (case r of Inl out \<Rightarrow> Inl out | Inr c1 \<Rightarrow> ws_read_piece ks mem c1)
     }"

definition decrypt_http_step :: "keystream \<Rightarrow> (nat \<Rightarrow> bool) \<Rightarrow> tconn \<Rightarrow> (int \<times> tconn) + tconn" where
  "decrypt_http_step ks mem c =
     (case http_next_chunk c of
        Inl (_, c1) \<Rightarrow> Inl (0, c1)
      | Inr c1 \<Rightarrow>
          (let to_read = min (length (tc_in_u c1)) (tc_chunk_remaining c1);
               c2 = c1\<lparr>tc_chunk_remaining := tc_chunk_remaining c1 - to_read\<rparr>;
               c3 = (if tc_chunk_remaining c2 = 0 then c2\<lparr>tc_chunk_state := 2\<rparr> else c2) in
           if to_read > 0 then
             (if \<not> mem (length (tc_in_u c3)) then Inl (-1, c3\<lparr>tc_failed := Some (-1)\<rparr>)
              else Inr (decrypt_bytes ks to_read c3))
           else Inr c3))"

definition decrypt_plain_step :: "keystream \<Rightarrow> (nat \<Rightarrow> bool) \<Rightarrow> tconn \<Rightarrow> (int \<times> tconn) + tconn" where
  "decrypt_plain_step ks mem c =
     (let r =
            (if tc_tls c then
               (let next =
                      (if tc_left_tls c = 0 then
                         (if length (tc_in_u c) < 5 then Inl (5 - int (length (tc_in_u c)), c)
                          else if take 3 (tc_in_u c) \<noteq> [0x17, 0x03, 0x03]
                          then Inl (0, c\<lparr>tc_failed := Some (-1)\<rparr>)
                          else Inr (c\<lparr>tc_left_tls := 256 * unat (tc_in_u c ! 3) + unat (tc_in_u c ! 4),
                                      tc_in_u := drop 5 (tc_in_u c)\<rparr>))
                       else Inr c) in
                case next of
                  Inl out \<Rightarrow> Inl out
                | Inr c1 \<Rightarrow>
                    (let len = min (tc_left_tls c1) (length (tc_in_u c1)) in
                     Inr (c1\<lparr>tc_left_tls := tc_left_tls c1 - len\<rparr>, len)))
             else Inr (c, length (tc_in_u c))) in
      case r of
        Inl out \<Rightarrow> Inl out
      | Inr (c1, len) \<Rightarrow>
          if len > 0 \<and> \<not> mem (length (tc_in_u c1)) then Inl (-1, c1\<lparr>tc_failed := Some (-1)\<rparr>)
          else Inr (decrypt_bytes ks len c1))"

definition decrypt_step ::
  "keystream \<Rightarrow> (nat \<Rightarrow> bool) \<Rightarrow> tconn \<Rightarrow> ((int \<times> tconn) + tconn) option" where
  "decrypt_step ks mem c =
     (if tc_ws_active c then decrypt_ws_step ks mem c
      else if tc_mode c = TRANSPORT_MODE_HTTP_STREAM then Some (decrypt_http_step ks mem c)
      else Some (decrypt_plain_step ks mem c))"

subsection \<open>The reading loop ends\<close>

definition decrypt_measure :: "tconn \<Rightarrow> nat" where
  "decrypt_measure c =
     3 * length (tc_in_u c)
     + (if tc_ws_active c \<and> wc_frame_remaining (tc_ws c) \<noteq> 0 then 1 else 0)
     + (if tc_chunk_remaining c = 0 \<and> tc_chunk_state c \<noteq> 0 \<and> tc_chunk_state c \<noteq> 2 then 1 else 0)"

lemma ws_parse_rest:
  assumes "ws_parse_frame_header c inp = Some (n, c', rest)" "0 < n"
  shows "length rest + 2 \<le> length inp" "wc_frame_remaining c' = n"
  using assms
  by (auto simp: ws_parse_frame_header_eq Let_def Option.bind_eq_Some_conv ws_payload_length_def
      split: if_splits sum.splits prod.splits)

lemma chunk_header_rest:
  "http_stream_chunk_header_parse b = ChunkSize n rest \<Longrightarrow> length rest < length b"
  by (auto simp: http_stream_chunk_header_parse_def Let_def split: if_splits option.splits)

lemma ws_next_frame_measure:
  assumes "ws_next_frame c = Some (Inr c1)" "tc_ws_active c"
  shows "wc_frame_remaining (tc_ws c1) \<noteq> 0 \<and> tc_ws_active c1 \<and> decrypt_measure c1 \<le> decrypt_measure c
    \<and> (tc_in_u c1 = [] \<longrightarrow> tc_in_u c = [] \<or> decrypt_measure c1 < decrypt_measure c)"
proof (cases "wc_frame_remaining (tc_ws c) = 0")
  case True
  with assms obtain n w rest where p: "ws_parse_frame_header (tc_ws c) (tc_in_u c) = Some (n, w, rest)" "0 < n"
    and c1: "c1 = c\<lparr>tc_ws := w, tc_in_u := rest\<rparr>"
    by (auto simp: ws_next_frame_def Let_def Option.bind_eq_Some_conv split: if_splits)
  from ws_parse_rest [OF p] p(2) True assms(2) show ?thesis
    by (auto simp: c1 decrypt_measure_def)
qed (use assms in \<open>auto simp: ws_next_frame_def\<close>)

text \<open>A piece of positive length, the only kind a connection with a sane counter reads.\<close>

lemma ws_read_piece_pos:
  assumes "0 < wc_frame_remaining (tc_ws c)" "tc_in_u c \<noteq> []"
    and "k = min (length (tc_in_u c)) (nat (wc_frame_remaining (tc_ws c)))"
    and "w = (tc_ws c)\<lparr>wc_frame_remaining := wc_frame_remaining (tc_ws c) - int k,
      wc_mask_offset := (wc_mask_offset (tc_ws c) + k) mod 4\<rparr>"
    and "plain = mask_bytes (wc_mask (tc_ws c)) (wc_mask_offset (tc_ws c)) (take k (tc_in_u c))"
  shows "0 < k" and "ws_read_piece ks mem c =
    (if mem (length (tc_in_u c))
     then Inr (c\<lparr>tc_ws := w, tc_in_u := drop k (tc_in_u c),
                 tc_in := tc_in c @ fst (ctr_crypt ks (tc_read_key c) plain),
                 tc_read_key := snd (ctr_crypt ks (tc_read_key c) plain)\<rparr>)
     else Inl (-1, c\<lparr>tc_ws := w, tc_in_u := drop k (tc_in_u c), tc_failed := Some (-1)\<rparr>))"
proof -
  show k: "0 < k" using assms(1-3) by simp
  have len: "min (int (length (tc_in_u c))) (wc_frame_remaining (tc_ws c)) = int k"
    using assms(1,3) by (simp add: min_def le_nat_iff)
  have "length (take k (tc_in_u c)) = k" using assms(3) by simp
  then show "ws_read_piece ks mem c =
    (if mem (length (tc_in_u c))
     then Inr (c\<lparr>tc_ws := w, tc_in_u := drop k (tc_in_u c),
                 tc_in := tc_in c @ fst (ctr_crypt ks (tc_read_key c) plain),
                 tc_read_key := snd (ctr_crypt ks (tc_read_key c) plain)\<rparr>)
     else Inl (-1, c\<lparr>tc_ws := w, tc_in_u := drop k (tc_in_u c), tc_failed := Some (-1)\<rparr>))"
    unfolding ws_read_piece_def len Let_def ws_unmask_data_def assms(4,5)
    using k by (simp split: prod.split)
qed

lemma ws_read_piece_rest:
  assumes "\<not> (0 < wc_frame_remaining (tc_ws c) \<and> tc_in_u c \<noteq> [])"
  shows "ws_read_piece ks mem c =
    Inr (c\<lparr>tc_ws := (tc_ws c)\<lparr>wc_frame_remaining := max 0 (wc_frame_remaining (tc_ws c))\<rparr>\<rparr>)"
proof -
  let ?r = "wc_frame_remaining (tc_ws c)"
  have 1: "\<not> 0 < min (int (length (tc_in_u c))) ?r"
    and 2: "?r - min (int (length (tc_in_u c))) ?r = max 0 ?r"
    using assms by auto
  show ?thesis unfolding ws_read_piece_def Let_def by (simp only: if_not_P [OF 1] 2)
qed

lemma ws_read_piece_measure:
  assumes "ws_read_piece ks mem c = Inr c'" "wc_frame_remaining (tc_ws c) \<noteq> 0" "tc_ws_active c"
  shows "decrypt_measure c' \<le> decrypt_measure c \<and> (tc_in_u c \<noteq> [] \<longrightarrow> decrypt_measure c' < decrypt_measure c)"
proof (cases "0 < wc_frame_remaining (tc_ws c) \<and> tc_in_u c \<noteq> []")
  case True
  then have p: "0 < wc_frame_remaining (tc_ws c)" "tc_in_u c \<noteq> []" by auto
  define k where "k = min (length (tc_in_u c)) (nat (wc_frame_remaining (tc_ws c)))"
  note piece = ws_read_piece_pos [OF p k_def refl refl]
  have u: "tc_in_u c' = drop k (tc_in_u c)" and "tc_chunk_remaining c' = tc_chunk_remaining c"
    "tc_chunk_state c' = tc_chunk_state c"
    using piece(2) [of ks mem] assms(1) by (auto split: if_splits)
  moreover have "length (tc_in_u c') < length (tc_in_u c)" using u piece(1) p(2) by simp
  ultimately show ?thesis using assms(2,3) by (simp add: decrypt_measure_def)
next
  case False
  from assms(1) have c': "c' = c\<lparr>tc_ws := (tc_ws c)\<lparr>wc_frame_remaining := max 0 (wc_frame_remaining (tc_ws c))\<rparr>\<rparr>"
    unfolding ws_read_piece_rest [OF False] by simp
  show ?thesis using False assms(2,3) unfolding c' by (auto simp: decrypt_measure_def)
qed

lemma decrypt_ws_step_measure:
  assumes "decrypt_ws_step ks mem c = Some (Inr c')" "tc_in_u c \<noteq> []" "tc_ws_active c"
  shows "decrypt_measure c' < decrypt_measure c"
proof -
  from assms(1) obtain c1 where n: "ws_next_frame c = Some (Inr c1)" and r: "ws_read_piece ks mem c1 = Inr c'"
    by (cases "ws_next_frame c"; cases "the (ws_next_frame c)") (auto simp: decrypt_ws_step_def)
  note m = ws_next_frame_measure [OF n assms(3)]
  note k = ws_read_piece_measure [OF r]
  show ?thesis using m k assms(2) by (cases "tc_in_u c1 = []") auto
qed

lemma decrypt_bytes_fields [simp]:
  "tc_in_u (decrypt_bytes ks n c) = drop n (tc_in_u c)"
  "tc_ws (decrypt_bytes ks n c) = tc_ws c" "tc_ws_active (decrypt_bytes ks n c) = tc_ws_active c"
  "tc_mode (decrypt_bytes ks n c) = tc_mode c" "tc_failed (decrypt_bytes ks n c) = tc_failed c"
  "tc_chunk_remaining (decrypt_bytes ks n c) = tc_chunk_remaining c"
  "tc_chunk_state (decrypt_bytes ks n c) = tc_chunk_state c"
  "tc_tls (decrypt_bytes ks n c) = tc_tls c" "tc_left_tls (decrypt_bytes ks n c) = tc_left_tls c"
  "tc_in (decrypt_bytes ks n c) = tc_in c @ fst (ctr_crypt ks (tc_read_key c) (take n (tc_in_u c)))"
  "tc_read_key (decrypt_bytes ks n c) = snd (ctr_crypt ks (tc_read_key c) (take n (tc_in_u c)))"
  by (simp_all add: decrypt_bytes_def split: prod.split)

lemma http_next_chunk_measure:
  assumes "http_next_chunk c = Inr c1"
  shows "(length (tc_in_u c1) < length (tc_in_u c) \<or> c1 = c)"
    and "tc_ws_active c1 = tc_ws_active c" "tc_ws c1 = tc_ws c"
    and "tc_chunk_remaining c1 \<noteq> 0 \<or> tc_chunk_state c1 \<noteq> 0 \<and> tc_chunk_state c1 \<noteq> 2"
  using assms
  by (auto simp: http_next_chunk_def Let_def dest!: chunk_header_rest
      split: if_splits chunk_header.splits sum.splits)

lemma decrypt_http_step_measure:
  assumes "decrypt_http_step ks mem c = Inr c'" "tc_in_u c \<noteq> []"
  shows "decrypt_measure c' < decrypt_measure c"
proof -
  from assms(1) obtain c1 where n: "http_next_chunk c = Inr c1"
    by (cases "http_next_chunk c") (auto simp: decrypt_http_step_def)
  note m = http_next_chunk_measure [OF n]
  let ?k = "min (length (tc_in_u c1)) (tc_chunk_remaining c1)"
  let ?n = "3 * (length (tc_in_u c1) - ?k) + (if tc_ws_active c \<and> wc_frame_remaining (tc_ws c) \<noteq> 0 then 1 else 0)"
  have c': "decrypt_measure c' = ?n"
    using assms(1) m(2-4)
    by (auto simp: decrypt_http_step_def n Let_def decrypt_measure_def split: if_splits)
  show ?thesis
  proof (cases "?k = 0")
    case False
    then have "?n < 3 * length (tc_in_u c) + (if tc_ws_active c \<and> wc_frame_remaining (tc_ws c) \<noteq> 0 then 1 else 0)"
      using m(1) by auto
    then show ?thesis unfolding c' by (simp add: decrypt_measure_def)
  next
    case True
    show ?thesis
    proof (cases "c1 = c")
      case same: True
      then have "tc_chunk_remaining c = 0"
        using True assms(2) by (cases "tc_in_u c") (auto simp: min_def split: if_splits)
      with m(4) same True show ?thesis unfolding c' by (simp add: decrypt_measure_def)
    next
      case False
      with m(1) show ?thesis unfolding c' by (simp add: decrypt_measure_def)
    qed
  qed
qed

lemma decrypt_plain_step_measure:
  assumes "decrypt_plain_step ks mem c = Inr c'" "tc_in_u c \<noteq> []"
  shows "decrypt_measure c' < decrypt_measure c"
proof -
  have m: "decrypt_measure c' < decrypt_measure c"
    if "length (tc_in_u c') < length (tc_in_u c)" "tc_ws_active c' = tc_ws_active c" "tc_ws c' = tc_ws c"
      "tc_chunk_remaining c' = tc_chunk_remaining c" "tc_chunk_state c' = tc_chunk_state c"
    using that by (simp add: decrypt_measure_def)
  show ?thesis
  proof (cases "tc_tls c")
    case False
    with assms m show ?thesis by (auto simp: decrypt_plain_step_def split: if_splits)
  next
    case True
    with assms m show ?thesis
      by (cases "tc_left_tls c = 0") (auto simp: decrypt_plain_step_def Let_def split: if_splits)
  qed
qed

lemma decrypt_step_measure:
  assumes "decrypt_step ks mem c = Some (Inr c')" "tc_in_u c \<noteq> []"
  shows "decrypt_measure c' < decrypt_measure c"
  using assms decrypt_ws_step_measure decrypt_http_step_measure decrypt_plain_step_measure
  by (auto simp: decrypt_step_def split: if_splits)

text \<open>\<open>cpu_tcp_aes_crypto_ctr128_decrypt_input\<close>.\<close>

function decrypt_input :: "keystream \<Rightarrow> (nat \<Rightarrow> bool) \<Rightarrow> tconn \<Rightarrow> (int \<times> tconn) option" where
  "decrypt_input ks mem c =
     (if tc_in_u c = [] then Some (0, c)
      else
        (case decrypt_step ks mem c of
           None \<Rightarrow> None
         | Some (Inl out) \<Rightarrow> Some out
         | Some (Inr c') \<Rightarrow> decrypt_input ks mem c'))"
  by auto
termination
  by (relation "measure (\<lambda>(_, _, c). decrypt_measure c)") (auto intro: decrypt_step_measure)

declare decrypt_input.simps [simp del]

subsection \<open>What the reading loop delivers\<close>

text \<open>What a run of the reading loop has done: it handled the payload \<open>E\<close>.\<close>

definition delivered :: "keystream \<Rightarrow> tconn \<Rightarrow> bytes \<Rightarrow> tconn \<Rightarrow> bool" where
  "delivered ks c E c' \<longleftrightarrow>
     tc_in c' = tc_in c @ fst (ctr_crypt ks (tc_read_key c) E)
     \<and> tc_read_key c' = snd (ctr_crypt ks (tc_read_key c) E) \<and> tc_failed c' = tc_failed c"

lemma delivered_Nil: "tc_in c' = tc_in c \<Longrightarrow> tc_read_key c' = tc_read_key c \<Longrightarrow>
    tc_failed c' = tc_failed c \<Longrightarrow> delivered ks c [] c'"
  by (simp add: delivered_def ctr_crypt_def)

lemma delivered_trans: "delivered ks c E c1 \<Longrightarrow> delivered ks c1 F c2 \<Longrightarrow> delivered ks c (E @ F) c2"
  by (simp add: delivered_def ctr_crypt_append)

lemma delivered_in_u: "delivered ks (c\<lparr>tc_in_u := u\<rparr>) E c' = delivered ks c E c'"
  by (simp add: delivered_def)

text \<open>
  The reader of a connection with keys: every segment the socket delivers is appended to \<open>in_u\<close> and
  the reading loop is run; a negative result ends it.
\<close>

fun read_segments :: "keystream \<Rightarrow> (nat \<Rightarrow> bool) \<Rightarrow> tconn \<Rightarrow> bytes list \<Rightarrow> tconn option" where
  "read_segments ks mem c [] = Some c"
| "read_segments ks mem c (seg # segs) =
     do {
       (r, c') \<leftarrow> decrypt_input ks mem (c\<lparr>tc_in_u := tc_in_u c @ seg\<rparr>);
       (if r < 0 then Some c' else read_segments ks mem c' segs)
     }"

text \<open>
  The contract of a framed upstream: a relation between a connection, the bytes still to be handled
  and the payload they carry. A run of the loop hands over a part of the payload, keeps the relation,
  and stops short of the end of the bytes only when it cannot go on without the next segment.
\<close>

locale upstream =
  fixes pending :: "tconn \<Rightarrow> bytes \<Rightarrow> bytes \<Rightarrow> bool"
  assumes run: "\<And>mem c rest D ks. (\<And>n. mem n) \<Longrightarrow> pending c (tc_in_u c @ rest) D \<Longrightarrow>
      \<exists>c' E D'. decrypt_input ks mem c = Some (0, c') \<and> pending c' (tc_in_u c' @ rest) D'
        \<and> D = E @ D' \<and> delivered ks c E c' \<and> (rest = [] \<longrightarrow> tc_in_u c' = [])"
    and pending_in_u: "\<And>c u W D. pending (c\<lparr>tc_in_u := u\<rparr>) W D = pending c W D"
    and pending_done: "\<And>c D. pending c [] D \<Longrightarrow> D = []"
begin

lemma read_all:
  assumes mem: "\<And>n. mem n"
  shows "pending c (tc_in_u c @ concat segs) D \<Longrightarrow> segs \<noteq> [] \<or> tc_in_u c = [] \<Longrightarrow>
    \<exists>c'. read_segments ks mem c segs = Some c' \<and> delivered ks c D c' \<and> tc_in_u c' = []
      \<and> pending c' [] []"
proof (induction segs arbitrary: c D)
  case Nil
  then have "tc_in_u c = []" "pending c [] D" by auto
  moreover from this have "D = []" using pending_done by blast
  ultimately show ?case by (auto intro: delivered_Nil)
next
  case (Cons seg segs)
  let ?c = "c\<lparr>tc_in_u := tc_in_u c @ seg\<rparr>"
  have "pending ?c (tc_in_u ?c @ concat segs) D"
    using Cons.prems(1) by (simp add: pending_in_u)
  from run [of mem, OF mem this, of ks] obtain c1 E D1 where
    run: "decrypt_input ks mem ?c = Some (0, c1)" and p: "pending c1 (tc_in_u c1 @ concat segs) D1"
    and D: "D = E @ D1" and d: "delivered ks ?c E c1" and fin: "concat segs = [] \<longrightarrow> tc_in_u c1 = []"
    by blast
  have "segs \<noteq> [] \<or> tc_in_u c1 = []" using fin by (cases segs) auto
  from Cons.IH [OF p this] obtain c' where "read_segments ks mem c1 segs = Some c'"
    "delivered ks c1 D1 c'" "tc_in_u c' = []" "pending c' [] []" by blast
  moreover from this(2) d have "delivered ks c D c'"
    unfolding D delivered_in_u using delivered_trans by blast
  ultimately show ?case using run by auto
qed

end

end
