(* ===== verification/Srv_Transport_Ws.thy ===== *)
theory Srv_Transport_Ws
  imports Srv_Transport
begin

unbundle bit_operations_syntax

subsection \<open>WebSocket upstream\<close>

text \<open>
  A frame the client sends: masking key and payload, as \<open>t3c_ws_frame_write\<close> encodes them.
\<close>

definition up_frame :: "bytes \<times> bytes \<Rightarrow> bytes" where
  "up_frame f = the (t3c_ws_frame_write (fst f) (snd f) True (length (snd f) + 14))"

definition up_ok :: "bytes \<times> bytes \<Rightarrow> bool" where
  "up_ok f \<longleftrightarrow> length (fst f) = 4 \<and> snd f \<noteq> [] \<and> length (snd f) < 2 ^ 31"

lemma up_frame_eq:
  "up_ok (mk, d) \<Longrightarrow> up_frame (mk, d) = client_header (length d) mk @ mask_bytes mk 0 d"
  by (simp add: up_frame_def up_ok_def client_frame_eq)

text \<open>
  The bytes \<open>W\<close> still to be handled by the connection and the payload \<open>D\<close> they carry: the rest of an
  open frame, then whole frames.
\<close>

definition ws_pending :: "tconn \<Rightarrow> bytes \<Rightarrow> bytes \<Rightarrow> bool" where
  "ws_pending c W D \<longleftrightarrow> tc_ws_active c \<and>
     (\<exists>t fs. (\<forall>f \<in> set fs. up_ok f) \<and> wc_frame_remaining (tc_ws c) = int (length t)
        \<and> W = mask_bytes (wc_mask (tc_ws c)) (wc_mask_offset (tc_ws c)) t @ concat (map up_frame fs)
        \<and> D = t @ concat (map snd fs))"

lemma decrypt_input_ws_open:
  assumes "tc_ws_active c" "tc_in_u c \<noteq> []" "0 < wc_frame_remaining (tc_ws c)"
    and "ws_read_piece ks mem c = Inr c1"
  shows "decrypt_input ks mem c = decrypt_input ks mem c1"
  using assms
  by (subst decrypt_input.simps) (simp add: decrypt_step_def decrypt_ws_step_def ws_next_frame_def)

lemma decrypt_input_ws_header:
  assumes "tc_ws_active c" "tc_in_u c \<noteq> []" "wc_frame_remaining (tc_ws c) = 0" "0 < n"
    and "ws_parse_frame_header (tc_ws c) (tc_in_u c) = Some (n, w, rest)" "wc_frame_remaining w = n"
    and "c1 = c\<lparr>tc_ws := w, tc_in_u := rest\<rparr>"
  shows "decrypt_input ks mem c = decrypt_input ks mem c1"
proof -
  have step: "decrypt_step ks mem c = Some (ws_read_piece ks mem c1)"
    using assms by (simp add: decrypt_step_def decrypt_ws_step_def ws_next_frame_def Let_def)
  show ?thesis
  proof (cases "rest = []")
    case True
    then have "ws_read_piece ks mem c1 = Inr c1"
      using ws_read_piece_rest [of c1 ks mem] assms(4,6,7) by simp
    with step assms(2) show ?thesis by (subst decrypt_input.simps) simp
  next
    case False
    have "decrypt_step ks mem c1 = Some (ws_read_piece ks mem c1)"
      using assms by (simp add: decrypt_step_def decrypt_ws_step_def ws_next_frame_def)
    with step assms(2,7) False show ?thesis
      by (subst (1 2) decrypt_input.simps) simp
  qed
qed

lemma ws_progress_open:
  assumes mem: "\<And>n. mem n" and act: "tc_ws_active c" and u: "tc_in_u c \<noteq> []" and t: "t \<noteq> []"
    and fs: "\<forall>f \<in> set fs. up_ok f" and rem: "wc_frame_remaining (tc_ws c) = int (length t)"
    and W: "tc_in_u c @ rest = mask_bytes (wc_mask (tc_ws c)) (wc_mask_offset (tc_ws c)) t
        @ concat (map up_frame fs)"
  shows "\<exists>c1 E D1. decrypt_input ks mem c = decrypt_input ks mem c1 \<and> decrypt_measure c1 < decrypt_measure c
    \<and> ws_pending c1 (tc_in_u c1 @ rest) D1 \<and> t @ concat (map snd fs) = E @ D1 \<and> delivered ks c E c1"
proof -
  let ?m = "wc_mask (tc_ws c)" and ?o = "wc_mask_offset (tc_ws c)"
  define k where "k = min (length (tc_in_u c)) (length t)"
  have k': "k = min (length (tc_in_u c)) (nat (wc_frame_remaining (tc_ws c)))" by (simp add: k_def rem)
  have pos: "0 < wc_frame_remaining (tc_ws c)" using rem t by simp
  let ?w = "(tc_ws c)\<lparr>wc_frame_remaining := wc_frame_remaining (tc_ws c) - int k,
      wc_mask_offset := (?o + k) mod 4\<rparr>"
  have take: "take k (tc_in_u c) = mask_bytes ?m ?o (take k t)"
  proof -
    have "take k (tc_in_u c) = take k (tc_in_u c @ rest)" by (simp add: k_def)
    also have "\<dots> = take k (mask_bytes ?m ?o t)" unfolding W by (simp add: k_def)
    finally show ?thesis by (simp add: mask_bytes_def)
  qed
  have drop: "drop k (tc_in_u c) @ rest = mask_bytes ?m ((?o + k) mod 4) (drop k t) @ concat (map up_frame fs)"
  proof -
    have "drop k (tc_in_u c) @ rest = drop k (tc_in_u c @ rest)" by (simp add: k_def)
    also have "\<dots> = drop k (mask_bytes ?m ?o t) @ concat (map up_frame fs)" unfolding W by (simp add: k_def)
    also have "drop k (mask_bytes ?m ?o t) = mask_bytes ?m ((?o + k) mod 4) (drop k t)"
      unfolding mask_bytes_mod by (simp add: mask_bytes_def drop_xor_stream)
    finally show ?thesis .
  qed
  define c1 where "c1 = c\<lparr>tc_ws := ?w, tc_in_u := drop k (tc_in_u c),
                 tc_in := tc_in c @ fst (ctr_crypt ks (tc_read_key c) (take k t)),
                 tc_read_key := snd (ctr_crypt ks (tc_read_key c) (take k t))\<rparr>"
  have piece: "ws_read_piece ks mem c = Inr c1"
    using ws_read_piece_pos(2) [OF pos u k' refl refl, of ks mem] mem
    by (simp add: c1_def take)
  have "ws_pending c1 (tc_in_u c1 @ rest) (drop k t @ concat (map snd fs))"
    unfolding ws_pending_def using act fs drop rem
    by (intro conjI exI [of _ "drop k t"] exI [of _ fs]) (simp_all add: c1_def k_def of_nat_diff)
  moreover have "t @ concat (map snd fs) = take k t @ drop k t @ concat (map snd fs)" by simp
  moreover have "delivered ks c (take k t) c1" by (simp add: delivered_def c1_def)
  moreover have "decrypt_measure c1 < decrypt_measure c"
    using ws_read_piece_measure [OF piece _ act] pos u by simp
  ultimately show ?thesis using decrypt_input_ws_open [OF act u pos piece] by blast
qed

lemma ws_progress_header:
  assumes act: "tc_ws_active c" and u: "tc_in_u c = client_header (length d) mk @ v"
    and fs: "\<forall>f \<in> set ((mk, d) # fs). up_ok f" and rem: "wc_frame_remaining (tc_ws c) = 0"
    and W: "tc_in_u c @ rest = concat (map up_frame ((mk, d) # fs))"
  shows "\<exists>c1. decrypt_input ks mem c = decrypt_input ks mem c1 \<and> decrypt_measure c1 < decrypt_measure c
    \<and> ws_pending c1 (tc_in_u c1 @ rest) (d @ concat (map snd fs)) \<and> delivered ks c [] c1"
proof -
  have ok: "length mk = 4" "d \<noteq> []" "length d < 2 ^ 31" using fs by (simp_all add: up_ok_def)
  define w where "w = (tc_ws c)\<lparr>wc_mask := mk, wc_mask_offset := 0, wc_frame_remaining := int (length d)\<rparr>"
  define c1 where "c1 = c\<lparr>tc_ws := w, tc_in_u := v\<rparr>"
  have ne: "tc_in_u c \<noteq> []" unfolding u by (simp add: client_header_def)
  have "ws_parse_frame_header (tc_ws c) (tc_in_u c) = Some (int (length d), w, v)"
    unfolding u w_def using ok by (intro ws_parse_client)
  then have "decrypt_input ks mem c = decrypt_input ks mem c1"
    using ok by (intro decrypt_input_ws_header [OF act ne rem _ _ _ c1_def]) (simp_all add: w_def)
  moreover have "v @ rest = mask_bytes mk 0 d @ concat (map up_frame fs)"
    using W fs unfolding u by (simp add: up_frame_eq)
  then have "ws_pending c1 (tc_in_u c1 @ rest) (d @ concat (map snd fs))"
    unfolding ws_pending_def using act fs
    by (intro conjI exI [of _ d] exI [of _ fs]) (simp_all add: c1_def w_def)
  moreover have "delivered ks c [] c1" by (rule delivered_Nil) (simp_all add: c1_def)
  moreover have "decrypt_measure c1 < decrypt_measure c"
    using act rem u by (simp add: decrypt_measure_def c1_def client_header_def)
  ultimately show ?thesis by blast
qed

lemma decrypt_ws_run:
  assumes mem: "\<And>n. mem n"
  shows "ws_pending c (tc_in_u c @ rest) D \<Longrightarrow>
    \<exists>c' E D'. decrypt_input ks mem c = Some (0, c') \<and> ws_pending c' (tc_in_u c' @ rest) D'
    \<and> D = E @ D' \<and> delivered ks c E c' \<and> (rest = [] \<longrightarrow> tc_in_u c' = [])"
proof (induction "decrypt_measure c" arbitrary: c D rule: less_induct)
  case less
  have go: ?case if "decrypt_input ks mem c = decrypt_input ks mem c1"
    "decrypt_measure c1 < decrypt_measure c" "ws_pending c1 (tc_in_u c1 @ rest) D1" "D = E @ D1"
    "delivered ks c E c1" for c1 E D1
    using less.hyps [OF that(2,3)] that(1,4,5) delivered_trans by (metis append.assoc)
  have stop: ?case if "decrypt_input ks mem c = Some (0, c)" "rest = [] \<longrightarrow> tc_in_u c = []"
    using that less.prems delivered_Nil [of c c] by (metis append_Nil)
  show ?case
  proof (cases "tc_in_u c = []")
    case True
    then show ?thesis by (intro stop) (simp_all add: decrypt_input.simps)
  next
    case u: False
    from less.prems obtain t fs where act: "tc_ws_active c" and fs: "\<forall>f \<in> set fs. up_ok f"
      and rem: "wc_frame_remaining (tc_ws c) = int (length t)"
      and W: "tc_in_u c @ rest = mask_bytes (wc_mask (tc_ws c)) (wc_mask_offset (tc_ws c)) t
        @ concat (map up_frame fs)"
      and D: "D = t @ concat (map snd fs)"
      by (auto simp: ws_pending_def)
    show ?thesis
    proof (cases "t = []")
      case False
      from ws_progress_open [of mem, OF mem act u False fs rem W, of ks]
      obtain c1 E D1 where c1: "decrypt_input ks mem c = decrypt_input ks mem c1"
        "decrypt_measure c1 < decrypt_measure c" "ws_pending c1 (tc_in_u c1 @ rest) D1"
        "t @ concat (map snd fs) = E @ D1" "delivered ks c E c1" by blast
      show ?thesis by (rule go [OF c1(1,2,3) _ c1(5)]) (simp only: D c1(4))
    next
      case True
      with W u obtain mk d fs' where fs': "fs = (mk, d) # fs'" by (cases fs) (auto simp: mask_bytes_def)
      let ?H = "client_header (length d) mk"
      have ok: "up_ok (mk, d)" "length mk = 4" "length d < 2 ^ 31"
        using fs by (simp_all add: fs' up_ok_def)
      have W': "tc_in_u c @ rest = concat (map up_frame fs)" using W True by (simp add: mask_bytes_def)
      have rem0: "wc_frame_remaining (tc_ws c) = 0" using rem True by simp
      show ?thesis
      proof (cases "prefix ?H (tc_in_u c)")
        case pre: True
        then obtain v where "tc_in_u c = ?H @ v" by (auto simp: prefix_def)
        from ws_progress_header [OF act this fs [unfolded fs'] rem0 W' [unfolded fs'], of ks mem]
        obtain c1 where c1: "decrypt_input ks mem c = decrypt_input ks mem c1"
          "decrypt_measure c1 < decrypt_measure c"
          "ws_pending c1 (tc_in_u c1 @ rest) (d @ concat (map snd fs'))" "delivered ks c [] c1" by blast
        show ?thesis by (rule go [OF c1(1,2,3) _ c1(4)]) (simp add: D True fs')
      next
        case False
        have "prefix (tc_in_u c) (?H @ mask_bytes mk 0 d @ concat (map up_frame fs'))"
          using W' ok(1) by (simp add: fs' up_frame_eq) (metis prefixI)
        from not_prefix_strict [OF this False] have "strict_prefix (tc_in_u c) ?H" .
        from ws_parse_client_partial [OF ok(3,2) this, of "tc_ws c"]
        have "decrypt_input ks mem c = Some (0, c)"
          using act rem0 u
          by (subst decrypt_input.simps)
            (simp add: decrypt_step_def decrypt_ws_step_def ws_next_frame_def)
        moreover have "rest \<noteq> []"
        proof
          assume "rest = []"
          with W' ok(1) have "tc_in_u c = ?H @ mask_bytes mk 0 d @ concat (map up_frame fs')"
            by (simp add: fs' up_frame_eq)
          with False show False by simp
        qed
        ultimately show ?thesis by (intro stop) simp_all
      qed
    qed
  qed
qed

lemma ws_pending_in_u: "ws_pending (c\<lparr>tc_in_u := u\<rparr>) W D = ws_pending c W D"
  by (simp add: ws_pending_def)

lemma ws_pending_done:
  assumes "ws_pending c [] D"
  shows "D = []"
proof -
  from assms obtain t fs where "\<forall>f \<in> set fs. up_ok f" "t = []"
    "concat (map up_frame fs) = []" "D = t @ concat (map snd fs)"
    by (auto simp: ws_pending_def mask_bytes_def xor_stream_def)
  then show ?thesis by (cases fs) (auto simp: up_frame_eq client_header_def)
qed

interpretation ws_up: upstream ws_pending
proof unfold_locales
  show "\<exists>c' E D'. decrypt_input ks mem c = Some (0, c') \<and> ws_pending c' (tc_in_u c' @ rest) D'
      \<and> D = E @ D' \<and> delivered ks c E c' \<and> (rest = [] \<longrightarrow> tc_in_u c' = [])"
    if "\<And>n. mem n" "ws_pending c (tc_in_u c @ rest) D" for mem c rest D ks
    using that by (rule decrypt_ws_run)
qed (rule ws_pending_in_u, rule ws_pending_done)

text \<open>The client's sending side: encrypt with the running context, then frame.\<close>

fun client_send :: "keystream \<Rightarrow> aes_ctx \<Rightarrow> (bytes \<times> bytes) list \<Rightarrow> (bytes \<times> bytes) list" where
  "client_send ks ctx [] = []"
| "client_send ks ctx ((mk, d) # fs) =
     (mk, fst (ctr_crypt ks ctx d)) # client_send ks (snd (ctr_crypt ks ctx d)) fs"

lemma client_send_ok: "\<forall>f \<in> set fs. up_ok f \<Longrightarrow> \<forall>f \<in> set (client_send ks ctx fs). up_ok f"
proof (induction ks ctx fs rule: client_send.induct)
  case (2 ks ctx mk d fs)
  let ?e = "fst (ctr_crypt ks ctx d)"
  have "length mk = 4" "d \<noteq> []" "length d < 2 ^ 31" using "2.prems" by (simp_all add: up_ok_def)
  moreover from this(2) have "?e \<noteq> []" using length_ctr_crypt [of ks ctx d] by (intro notI) simp
  ultimately have "up_ok (mk, ?e)" by (simp add: up_ok_def)
  with "2.IH" "2.prems" show ?case by simp
qed simp

lemma client_send_concat:
  "concat (map snd (client_send ks ctx fs)) = fst (ctr_crypt ks ctx (concat (map snd fs)))"
proof (induction ks ctx fs rule: client_send.induct)
  case (2 ks ctx mk d fs)
  then show ?case by (simp add: ctr_crypt_append)
qed (simp add: ctr_crypt_def)

text \<open>C2: end to end over WebSocket. Whatever non-empty messages the client encrypts and sends as masked
  frames, and however the network cuts them into segments, a server connection whose read context
  equals the client's write context delivers exactly the messages, in order, keeps nothing back,
  does not fail, and is ready for the next frame.\<close>

theorem ws_client_to_server:
  assumes "\<forall>f \<in> set fs. length (fst f) = 4 \<and> snd f \<noteq> [] \<and> length (snd f) < 2 ^ 31"
    and "tc_ws_active c" "wc_frame_remaining (tc_ws c) = 0" "tc_in_u c = []" "tc_read_key c = ctx"
    and "\<And>n. mem n"
    and "concat segs = concat (map up_frame (client_send ks ctx fs))"
  shows "\<exists>c'. read_segments ks mem c segs = Some c'
    \<and> tc_in c' = tc_in c @ concat (map snd fs)
    \<and> tc_in_u c' = [] \<and> wc_frame_remaining (tc_ws c') = 0 \<and> tc_failed c' = tc_failed c
    \<and> tc_read_key c' = snd (ctr_crypt ks ctx (concat (map snd fs)))"
proof -
  let ?D = "concat (map snd (client_send ks ctx fs))"
  have "\<forall>f \<in> set (client_send ks ctx fs). up_ok f"
    using assms(1) by (intro client_send_ok) (simp add: up_ok_def)
  then have "ws_pending c (tc_in_u c @ concat segs) ?D"
    unfolding ws_pending_def using assms(2-4,7)
    by (intro conjI exI [of _ "[]"] exI [of _ "client_send ks ctx fs"])
      (simp_all add: mask_bytes_def)
  from ws_up.read_all [of mem, OF assms(6) this disjI2 [OF assms(4)], of ks] obtain c' where
    c': "read_segments ks mem c segs = Some c'" "delivered ks c ?D c'" "tc_in_u c' = []"
    "ws_pending c' [] []" by blast
  from c'(4) have "wc_frame_remaining (tc_ws c') = 0"
    by (auto simp: ws_pending_def)
  moreover have "fst (ctr_crypt ks ctx ?D) = concat (map snd fs)"
    by (simp add: client_send_concat)
  moreover have "snd (ctr_crypt ks ctx ?D) = snd (ctr_crypt ks ctx (concat (map snd fs)))"
    by (rule snd_ctr_crypt_length) (simp add: client_send_concat)
  ultimately show ?thesis using c' assms(5) unfolding delivered_def by simp
qed

theorem ws_client_to_server_witness:
  "\<exists>c'. read_segments (\<lambda>_ _ _. 5) (\<lambda>_. True)
      (conn_start TRANSPORT_MODE_WS True False (aes_init [] []) (aes_init [] []))
      [[0x82], [0x82, 1, 2, 3, 4], [3, 15]] = Some c' \<and> tc_in c' = [7, 8]"
proof -
  have "client_send (\<lambda>_ _ _. 5) (aes_init [] []) [([1, 2, 3, 4], [7, 8])] = [([1, 2, 3, 4], [2, 13])]"
    by (simp add: ctr_crypt_def xor_stream_def)
  moreover have "up_frame ([1, 2, 3, 4], [2, 13]) = [0x82, 0x82, 1, 2, 3, 4, 3, 15]"
    by (simp add: up_frame_eq up_ok_def client_header_def ws_length_bytes_def mask_bytes_def xor_stream_def)
  ultimately show ?thesis
    using ws_client_to_server [where fs = "[([1, 2, 3, 4], [7, 8])]" and ks = "\<lambda>_ _ _. 5"
        and mem = "\<lambda>_. True" and ctx = "aes_init [] []" and segs = "[[0x82], [0x82, 1, 2, 3, 4], [3, 15]]"
        and c = "conn_start TRANSPORT_MODE_WS True False (aes_init [] []) (aes_init [] [])"]
    by (simp add: conn_start_def del: client_send.simps) blast
qed

end
