(* ===== verification/Srv_Transport_Http.thy ===== *)
theory Srv_Transport_Http
  imports Srv_Transport
begin

unbundle bit_operations_syntax

subsection \<open>HTTP upstream\<close>

lemma chunk_size_loop_digits:
  assumes "\<forall>d\<in>set ds. d < 16" "digits_value v ds \<le> 65535"
  shows "chunk_size_loop (map hex_char ds) v = Some (digits_value v ds)"
  using assms
proof (induction ds arbitrary: v)
  case (Cons d ds)
  have "16 * v + d \<le> 65535" using digits_value_ge [of "16 * v + d" ds] Cons.prems(2) by simp
  then have "\<not> v > (65535 - d) div 16" by (simp add: not_less less_eq_div_iff_mult_less_eq)
  with Cons show ?case by (simp add: hex_char_digit mult.commute)
qed simp

lemma chunk_size_roundtrip:
  "chunkable d \<Longrightarrow> chunk_size_loop (t3__size_to_hex (length d)) 0 = Some (length d)"
  using chunk_size_loop_digits [of "hex_digits (length d)" 0]
  by (simp add: chunkable_def size_to_hex_eq hex_digits_less hex_digits_value)

lemma find_crlf_take: "0x0D \<notin> set h \<Longrightarrow> length h + 2 \<le> n \<Longrightarrow>
    find_crlf (take n (h @ CRLF @ rest)) = Some (length h)"
  using find_crlf_here [of h "take (n - length h - 2) rest"]
  by (simp add: take_Cons' split: if_splits)

lemma chunk_header_whole:
  assumes "chunkable d"
  shows "http_stream_chunk_header_parse (t3__size_to_hex (length d) @ CRLF @ rest)
    = ChunkSize (length d) rest"
proof -
  let ?h = "t3__size_to_hex (length d)"
  note h = chunk_header [OF assms]
  let ?b = "?h @ CRLF @ rest"
  have "take (if length ?b < 18 then length ?b else 18) ?b = take 18 ?b" by simp
  moreover have "find_crlf (take 18 ?b) = Some (length ?h)"
    using h(1,5) by (intro find_crlf_take) auto
  moreover have "take (length ?h) (take 18 ?b) = ?h" using h(5) by (simp add: min_def)
  ultimately show ?thesis
    using h(3,4) chunk_size_roundtrip [OF assms]
    unfolding http_stream_chunk_header_parse_def Let_def by simp
qed

lemma chunk_header_partial:
  assumes "chunkable d" "strict_prefix p (t3__size_to_hex (length d) @ CRLF)"
  shows "http_stream_chunk_header_parse p = ChunkMore"
proof -
  let ?h = "t3__size_to_hex (length d)"
  note h = chunk_header [OF assms(1)]
  have "strict_prefix p ((?h @ [0x0D]) @ [0x0A])" using assms(2) by simp
  then have "prefix p (?h @ [0x0D])" unfolding strict_prefix_def prefix_snoc by blast
  then have "set p \<subseteq> set (?h @ [0x0D])" "length p \<le> length ?h + 1"
    using set_mono_prefix prefix_length_le by fastforce+
  then have "0x0A \<notin> set p" "length p < 18" using h by auto
  then show ?thesis by (simp add: http_stream_chunk_header_parse_def find_crlf_None Let_def)
qed

text \<open>The bytes still to be handled in each of the three states of the chunk reader, and their payload.\<close>

definition http_pending :: "tconn \<Rightarrow> bytes \<Rightarrow> bytes \<Rightarrow> bool" where
  "http_pending c W D \<longleftrightarrow>
     \<not> tc_ws_active c \<and> tc_mode c = TRANSPORT_MODE_HTTP_STREAM \<and>
     (\<exists>t ds. (\<forall>d \<in> set ds. chunkable d) \<and> tc_chunk_remaining c = length t
        \<and> D = t @ concat ds
        \<and> (tc_chunk_state c = 0 \<and> t = [] \<and> W = concat (map chunk ds)
           \<or> tc_chunk_state c = 1 \<and> t \<noteq> [] \<and> W = t @ CRLF @ concat (map chunk ds)
           \<or> tc_chunk_state c = 2 \<and> t = [] \<and> W = CRLF @ concat (map chunk ds)))"

lemma http_progress_open:
  assumes mem: "\<And>n. mem n" and mode: "\<not> tc_ws_active c" "tc_mode c = TRANSPORT_MODE_HTTP_STREAM"
    and u: "tc_in_u c \<noteq> []" and t: "t \<noteq> []" and ds: "\<forall>d \<in> set ds. chunkable d"
    and rem: "tc_chunk_remaining c = length t" and st: "tc_chunk_state c = 1"
    and W: "tc_in_u c @ rest = t @ CRLF @ concat (map chunk ds)"
  shows "\<exists>c1 E D1. decrypt_input ks mem c = decrypt_input ks mem c1 \<and> decrypt_measure c1 < decrypt_measure c
    \<and> http_pending c1 (tc_in_u c1 @ rest) D1 \<and> t @ concat ds = E @ D1 \<and> delivered ks c E c1"
proof -
  define k where "k = min (length (tc_in_u c)) (length t)"
  have k: "0 < k" using u t by (simp add: k_def)
  define c0 where "c0 = c\<lparr>tc_chunk_remaining := length t - k\<rparr>"
  define c1 where "c1 = decrypt_bytes ks k (if length t - k = 0 then c0\<lparr>tc_chunk_state := 2\<rparr> else c0)"
  have step: "decrypt_step ks mem c = Some (Inr c1)"
    using mode rem t k mem st
    by (simp add: decrypt_step_def decrypt_http_step_def http_next_chunk_def Let_def c1_def c0_def
        flip: k_def)
  have take: "take k (tc_in_u c) = take k t"
  proof -
    have "take k (tc_in_u c) = take k (tc_in_u c @ rest)" by (simp add: k_def)
    then show ?thesis unfolding W by (simp add: k_def)
  qed
  have drop: "drop k (tc_in_u c) @ rest = drop k t @ CRLF @ concat (map chunk ds)"
  proof -
    have "drop k (tc_in_u c) @ rest = drop k (tc_in_u c @ rest)" by (simp add: k_def)
    then show ?thesis unfolding W by (simp add: k_def)
  qed
  have "http_pending c1 (tc_in_u c1 @ rest) (drop k t @ concat ds)"
    unfolding http_pending_def using mode ds drop
    by (intro conjI exI [of _ "drop k t"] exI [of _ ds]) (auto simp: c1_def c0_def st)
  moreover have "delivered ks c (take k t) c1" by (simp add: delivered_def c1_def c0_def take)
  moreover have "t @ concat ds = take k t @ drop k t @ concat ds" by simp
  moreover have "decrypt_input ks mem c = decrypt_input ks mem c1"
    using step u by (subst decrypt_input.simps) simp
  ultimately show ?thesis using decrypt_step_measure [OF step u] by blast
qed

lemma decrypt_input_http_header:
  assumes mode: "\<not> tc_ws_active c" "tc_mode c = TRANSPORT_MODE_HTTP_STREAM"
    and u: "tc_in_u c \<noteq> []" and next_chunk: "http_next_chunk c = Inr c1" and "0 < tc_chunk_remaining c1"
    and mode1: "\<not> tc_ws_active c1" "tc_mode c1 = TRANSPORT_MODE_HTTP_STREAM"
  shows "decrypt_input ks mem c = decrypt_input ks mem c1"
proof -
  have next1: "http_next_chunk c1 = Inr c1" using assms(5) by (simp add: http_next_chunk_def)
  then have "decrypt_http_step ks mem c = decrypt_http_step ks mem c1"
    using next_chunk by (simp add: decrypt_http_step_def)
  then have step: "decrypt_step ks mem c = decrypt_step ks mem c1"
    using mode mode1 by (simp add: decrypt_step_def)
  show ?thesis
  proof (cases "tc_in_u c1 = []")
    case True
    then have "decrypt_step ks mem c = Some (Inr c1)"
      using step mode1 assms(5) next1 by (simp add: decrypt_step_def decrypt_http_step_def Let_def)
    with u show ?thesis by (subst decrypt_input.simps) simp
  next
    case False
    with u step show ?thesis by (subst (1 2) decrypt_input.simps) simp
  qed
qed

lemma http_next_chunk_ready:
  assumes "tc_chunk_remaining c = 0" "tc_chunk_state c = 0"
  shows "http_next_chunk c =
    (case http_stream_chunk_header_parse (tc_in_u c) of
       ChunkMore \<Rightarrow> Inl (None, c)
     | ChunkMalformed \<Rightarrow> Inl (Some (-1), c\<lparr>tc_failed := Some (-1)\<rparr>)
     | ChunkSize sz rest \<Rightarrow>
         if sz = 0 then Inl (Some 0, c\<lparr>tc_in_u := rest, tc_failed := Some 0\<rparr>)
         else Inr (c\<lparr>tc_in_u := rest, tc_chunk_remaining := sz, tc_chunk_state := 1\<rparr>))"
  using assms by (simp add: http_next_chunk_def Let_def split: chunk_header.split)

text \<open>After a chunk's CRLF the reader is where it is before a chunk.\<close>

lemma http_next_chunk_crlf:
  assumes "tc_chunk_remaining c = 0" "tc_chunk_state c = 2" "tc_in_u c = CRLF @ v"
  shows "http_next_chunk c = http_next_chunk (c\<lparr>tc_in_u := v, tc_chunk_state := 0\<rparr>)"
  using assms by (simp add: http_next_chunk_def)

text \<open>Reading the next chunk from a connection between chunks.\<close>

lemma http_next_chunk_cases:
  assumes "tc_chunk_remaining c = 0" "tc_chunk_state c = 0" "\<forall>d \<in> set ds. chunkable d"
    and W: "tc_in_u c @ rest = concat (map chunk ds)"
  shows "http_next_chunk c = Inl (None, c) \<and> (rest = [] \<longrightarrow> tc_in_u c = [])
    \<or> (\<exists>d ds' v. ds = d # ds' \<and> v @ rest = d @ CRLF @ concat (map chunk ds')
         \<and> http_next_chunk c = Inr (c\<lparr>tc_in_u := v, tc_chunk_remaining := length d, tc_chunk_state := 1\<rparr>))"
proof (cases ds)
  case Nil
  with W have "tc_in_u c = []" by simp
  with assms(1,2) show ?thesis
    by (simp add: http_next_chunk_ready http_stream_chunk_header_parse_def)
next
  case (Cons d ds')
  let ?H = "t3__size_to_hex (length d) @ CRLF"
  have d: "chunkable d" using assms(3) Cons by simp
  have W': "tc_in_u c @ rest = ?H @ d @ CRLF @ concat (map chunk ds')"
    using W Cons by (simp add: chunk_def)
  show ?thesis
  proof (cases "prefix ?H (tc_in_u c)")
    case True
    then obtain v where v: "tc_in_u c = ?H @ v" by (auto simp: prefix_def)
    have "v @ rest = d @ CRLF @ concat (map chunk ds')" using W' unfolding v by simp
    moreover have "http_stream_chunk_header_parse (tc_in_u c) = ChunkSize (length d) v"
      using chunk_header_whole [OF d, of v] by (simp add: v)
    moreover have "length d \<noteq> 0" using d by (simp add: chunkable_def)
    ultimately show ?thesis
      using Cons assms(1,2)
      by (intro disjI2 exI [of _ d] exI [of _ ds'] exI [of _ v]) (simp add: http_next_chunk_ready)
  next
    case False
    have "prefix (tc_in_u c) (?H @ d @ CRLF @ concat (map chunk ds'))"
      unfolding W' [symmetric] by simp
    from not_prefix_strict [OF this False] have "strict_prefix (tc_in_u c) ?H" .
    from chunk_header_partial [OF d this] assms(1,2)
    have "http_next_chunk c = Inl (None, c)" by (simp add: http_next_chunk_ready)
    moreover have "rest \<noteq> []" using False W' by (intro notI) simp
    ultimately show ?thesis by simp
  qed
qed

lemma http_stop:
  assumes "\<not> tc_ws_active c" "tc_mode c = TRANSPORT_MODE_HTTP_STREAM" "tc_in_u c \<noteq> []"
    "http_next_chunk c = Inl (None, c')"
  shows "decrypt_input ks mem c = Some (0, c')"
  using assms by (subst decrypt_input.simps) (simp add: decrypt_step_def decrypt_http_step_def)

text \<open>
  The part of a turn with no chunk open, on a connection that has chunks to come: it waits for more
  bytes, or a chunk is open with its data next; in both cases nothing has been delivered yet.
\<close>

definition untouched :: "tconn \<Rightarrow> tconn \<Rightarrow> bool" where
  "untouched c c' \<longleftrightarrow>
     tc_in c' = tc_in c \<and> tc_read_key c' = tc_read_key c \<and> tc_failed c' = tc_failed c"

lemma http_next_chunk_pending:
  assumes "http_pending c (tc_in_u c @ rest) D" "tc_in_u c \<noteq> []"
  shows "(\<exists>c1. http_next_chunk c = Inl (None, c1) \<and> http_pending c1 (tc_in_u c1 @ rest) D \<and> untouched c c1
            \<and> (rest = [] \<longrightarrow> tc_in_u c1 = []))
    \<or> (\<exists>c1 t ds. http_next_chunk c = Inr c1 \<and> untouched c c1 \<and> (\<forall>d \<in> set ds. chunkable d)
        \<and> \<not> tc_ws_active c1 \<and> tc_mode c1 = TRANSPORT_MODE_HTTP_STREAM
        \<and> tc_chunk_state c1 = 1 \<and> t \<noteq> [] \<and> tc_chunk_remaining c1 = length t
        \<and> tc_in_u c1 @ rest = t @ CRLF @ concat (map chunk ds) \<and> D = t @ concat ds)"
proof -
  from assms(1) obtain t ds where mode: "\<not> tc_ws_active c" "tc_mode c = TRANSPORT_MODE_HTTP_STREAM"
    and ds: "\<forall>d \<in> set ds. chunkable d" and rem: "tc_chunk_remaining c = length t"
    and D: "D = t @ concat ds"
    and st: "tc_chunk_state c = 0 \<and> t = [] \<and> tc_in_u c @ rest = concat (map chunk ds)
         \<or> tc_chunk_state c = 1 \<and> t \<noteq> [] \<and> tc_in_u c @ rest = t @ CRLF @ concat (map chunk ds)
         \<or> tc_chunk_state c = 2 \<and> t = [] \<and> tc_in_u c @ rest = CRLF @ concat (map chunk ds)"
    by (auto simp: http_pending_def)
  have header: ?thesis if c0: "c0 = c\<lparr>tc_in_u := v, tc_chunk_state := 0\<rparr>" and t: "t = []"
    and W: "v @ rest = concat (map chunk ds)" and eq: "http_next_chunk c = http_next_chunk c0" for c0 v
  proof -
    have c0': "tc_chunk_remaining c0 = 0" "tc_chunk_state c0 = 0" "tc_in_u c0 @ rest = concat (map chunk ds)"
      using c0 rem t W by simp_all
    from http_next_chunk_cases [OF c0'(1,2) ds c0'(3)] show ?thesis
    proof (elim disjE conjE exE)
      assume "http_next_chunk c0 = Inl (None, c0)" "rest = [] \<longrightarrow> tc_in_u c0 = []"
      moreover have "http_pending c0 (tc_in_u c0 @ rest) D"
        unfolding http_pending_def using mode ds D W c0' t
        by (intro conjI exI [of _ "[]"] exI [of _ ds]) (simp_all add: c0)
      moreover have "untouched c c0" by (simp add: c0 untouched_def)
      ultimately show ?thesis using eq by (intro disjI1 exI [of _ c0]) simp
    next
      fix d v' :: bytes and ds' :: "bytes list"
      let ?c1 = "c0\<lparr>tc_in_u := v', tc_chunk_remaining := length d, tc_chunk_state := 1\<rparr>"
      assume d: "ds = d # ds'" and v': "v' @ rest = d @ CRLF @ concat (map chunk ds')"
        and n: "http_next_chunk c0 = Inr ?c1"
      have "d \<noteq> []" using ds d by (simp add: chunkable_def)
      with n eq ds d v' D t mode show ?thesis
        by (intro disjI2 exI [of _ ?c1] exI [of _ d] exI [of _ ds']) (simp add: c0 untouched_def)
    qed
  qed
  from st consider (ready) "tc_chunk_state c = 0" "t = []" "tc_in_u c @ rest = concat (map chunk ds)"
    | (data) "tc_chunk_state c = 1" "t \<noteq> []" "tc_in_u c @ rest = t @ CRLF @ concat (map chunk ds)"
    | (crlf) "tc_chunk_state c = 2" "t = []" "tc_in_u c @ rest = CRLF @ concat (map chunk ds)"
    by (elim disjE conjE) assumption+
  then show ?thesis
  proof cases
    case ready
    then show ?thesis by (intro header [of c "tc_in_u c"]) simp_all
  next
    case data
    then have "http_next_chunk c = Inr c" using rem by (simp add: http_next_chunk_def)
    with data ds D rem mode show ?thesis
      by (intro disjI2 exI [of _ c] exI [of _ t] exI [of _ ds]) (simp add: untouched_def)
  next
    case crlf
    show ?thesis
    proof (cases "length (tc_in_u c) < 2")
      case True
      then have "http_next_chunk c = Inl (None, c)" using crlf rem by (simp add: http_next_chunk_def)
      moreover have "rest \<noteq> []" using True crlf(3) by (intro notI) simp
      ultimately show ?thesis using assms(1) by (intro disjI1 exI [of _ c]) (simp add: untouched_def)
    next
      case False
      then obtain x y v where "tc_in_u c = x # y # v"
        by (cases "tc_in_u c"; cases "tl (tc_in_u c)") auto
      with crlf(3) have v: "tc_in_u c = CRLF @ v" "v @ rest = concat (map chunk ds)" by auto
      with crlf rem show ?thesis
        by (intro header [OF refl crlf(2) v(2)] http_next_chunk_crlf) simp_all
    qed
  qed
qed

lemma decrypt_http_run:
  assumes mem: "\<And>n. mem n"
  shows "http_pending c (tc_in_u c @ rest) D \<Longrightarrow>
    \<exists>c' E D'. decrypt_input ks mem c = Some (0, c') \<and> http_pending c' (tc_in_u c' @ rest) D'
    \<and> D = E @ D' \<and> delivered ks c E c' \<and> (rest = [] \<longrightarrow> tc_in_u c' = [])"
proof (induction "decrypt_measure c" arbitrary: c D rule: less_induct)
  case less
  have stop: ?case if "decrypt_input ks mem c = Some (0, c1)" "http_pending c1 (tc_in_u c1 @ rest) D"
    "delivered ks c [] c1" "rest = [] \<longrightarrow> tc_in_u c1 = []" for c1
    using that by (metis append_Nil)
  have mode: "\<not> tc_ws_active c" "tc_mode c = TRANSPORT_MODE_HTTP_STREAM"
    using less.prems by (simp_all add: http_pending_def)
  show ?case
  proof (cases "tc_in_u c = []")
    case True
    with less.prems show ?thesis
      by (intro stop [of c]) (simp_all add: decrypt_input.simps delivered_Nil)
  next
    case u: False
    from http_next_chunk_pending [OF less.prems u] show ?thesis
    proof (elim disjE exE conjE)
      fix c1
      assume "http_next_chunk c = Inl (None, c1)" "http_pending c1 (tc_in_u c1 @ rest) D" "untouched c c1"
        "rest = [] \<longrightarrow> tc_in_u c1 = []"
      with http_stop [OF mode u] show ?thesis
        by (intro stop [of c1]) (simp_all add: untouched_def delivered_Nil)
    next
      fix c1 t ds
      assume n: "http_next_chunk c = Inr c1" and same: "untouched c c1" and ds: "\<forall>d \<in> set ds. chunkable d"
        and c1: "\<not> tc_ws_active c1" "tc_mode c1 = TRANSPORT_MODE_HTTP_STREAM" and st: "tc_chunk_state c1 = 1"
        and t: "t \<noteq> []" and rem: "tc_chunk_remaining c1 = length t"
        and W: "tc_in_u c1 @ rest = t @ CRLF @ concat (map chunk ds)" and D: "D = t @ concat ds"
      have eq: "decrypt_input ks mem c = decrypt_input ks mem c1"
        by (rule decrypt_input_http_header [OF mode u n _ c1]) (simp add: rem t)
      have same': "delivered ks c E c' = delivered ks c1 E c'" for E c'
        using same by (simp add: delivered_def untouched_def)
      have le: "decrypt_measure c1 \<le> decrypt_measure c"
        using http_next_chunk_measure(1) [OF n] mode c1 rem t by (auto simp: decrypt_measure_def)
      have pending: "http_pending c1 (tc_in_u c1 @ rest) D"
        unfolding http_pending_def using c1 ds rem st t W D by blast
      show ?thesis
      proof (cases "tc_in_u c1 = []")
        case True
        with eq pending same show ?thesis
          by (intro stop [of c1]) (simp_all add: decrypt_input.simps delivered_Nil untouched_def)
      next
        case False
        from http_progress_open [of mem, OF mem c1 False t ds rem st W, of ks] obtain c2 E D1 where
          c2: "decrypt_input ks mem c1 = decrypt_input ks mem c2" "decrypt_measure c2 < decrypt_measure c1"
          "http_pending c2 (tc_in_u c2 @ rest) D1" "t @ concat ds = E @ D1" "delivered ks c1 E c2" by blast
        from c2(2) le have "decrypt_measure c2 < decrypt_measure c" by simp
        from less.hyps [OF this c2(3)] obtain c' E' D' where
          "decrypt_input ks mem c2 = Some (0, c')" "http_pending c' (tc_in_u c' @ rest) D'"
          "D1 = E' @ D'" "delivered ks c2 E' c'" "rest = [] \<longrightarrow> tc_in_u c' = []" by blast
        with eq c2(1,4,5) D show ?thesis
          unfolding same' using delivered_trans [of ks c1 E c2 E' c']
          by (intro exI [of _ c'] exI [of _ "E @ E'"] exI [of _ D']) simp
      qed
    qed
  qed
qed

lemma http_pending_in_u: "http_pending (c\<lparr>tc_in_u := u\<rparr>) W D = http_pending c W D"
  by (simp add: http_pending_def)

lemma http_pending_done: "http_pending c [] D \<Longrightarrow> D = []"
proof -
  assume "http_pending c [] D"
  then obtain ds where "D = concat ds" "concat (map chunk ds) = []" by (auto simp: http_pending_def)
  then show "D = []" by (cases ds) (simp_all add: chunk_def)
qed

interpretation http_up: upstream http_pending
proof unfold_locales
  show "\<exists>c' E D'. decrypt_input ks mem c = Some (0, c') \<and> http_pending c' (tc_in_u c' @ rest) D'
      \<and> D = E @ D' \<and> delivered ks c E c' \<and> (rest = [] \<longrightarrow> tc_in_u c' = [])"
    if "\<And>n. mem n" "http_pending c (tc_in_u c @ rest) D" for mem c rest D ks
    using that by (rule decrypt_http_run)
qed (rule http_pending_in_u, rule http_pending_done)

text \<open>The client's messages, encrypted with the running context and written as chunks.\<close>

fun client_chunks :: "keystream \<Rightarrow> aes_ctx \<Rightarrow> bytes list \<Rightarrow> bytes list" where
  "client_chunks ks ctx [] = []"
| "client_chunks ks ctx (d # ds) =
     fst (ctr_crypt ks ctx d) # client_chunks ks (snd (ctr_crypt ks ctx d)) ds"

lemma client_chunks_ok: "\<forall>d \<in> set ds. chunkable d \<Longrightarrow> \<forall>d \<in> set (client_chunks ks ctx ds). chunkable d"
proof (induction ks ctx ds rule: client_chunks.induct)
  case (2 ks ctx d ds)
  have "length (fst (ctr_crypt ks ctx d)) = length d" by simp
  then have "chunkable (fst (ctr_crypt ks ctx d)) = chunkable d"
    unfolding chunkable_def by (metis length_0_conv)
  with 2 show ?case by simp
qed simp

lemma client_chunks_concat:
  "concat (client_chunks ks ctx ds) = fst (ctr_crypt ks ctx (concat ds))"
  by (induction ks ctx ds rule: client_chunks.induct) (simp_all add: ctr_crypt_append ctr_crypt_def xor_stream_append)

text \<open>C3: end to end over HTTP chunks. Whatever messages of 1 to 65535 bytes the client encrypts and
  writes with the chunk writer, and however the network cuts them into segments, a server connection
  whose read context equals the client's write context delivers exactly the messages, in order, keeps
  nothing back, does not fail, and is ready for the next chunk.\<close>

theorem http_client_to_server:
  assumes "\<forall>d \<in> set ds. d \<noteq> [] \<and> length d \<le> 65535"
    and "\<not> tc_ws_active c" "tc_mode c = TRANSPORT_MODE_HTTP_STREAM"
    and "tc_chunk_remaining c = 0" "tc_chunk_state c = 0" "tc_in_u c = []" "tc_read_key c = ctx"
    and "\<And>n. mem n"
    and "concat segs = concat (map (\<lambda>d. chunk_enc (Some d)) (client_chunks ks ctx ds))"
  shows "\<exists>c'. read_segments ks mem c segs = Some c'
    \<and> tc_in c' = tc_in c @ concat ds
    \<and> tc_in_u c' = [] \<and> tc_chunk_remaining c' = 0 \<and> tc_failed c' = tc_failed c
    \<and> tc_read_key c' = snd (ctr_crypt ks ctx (concat ds))"
proof -
  let ?ds = "client_chunks ks ctx ds" and ?D = "concat (client_chunks ks ctx ds)"
  have ok: "\<forall>d \<in> set ?ds. chunkable d"
    using assms(1) by (intro client_chunks_ok) (simp add: chunkable_def)
  then have "concat (map (\<lambda>d. chunk_enc (Some d)) ?ds) = concat (map chunk ?ds)"
    by (intro arg_cong [where f = concat] map_cong) (simp_all add: chunk_enc_simps)
  with assms(2-6,9) ok have "http_pending c (tc_in_u c @ concat segs) ?D"
    unfolding http_pending_def by (intro conjI exI [of _ "[]"] exI [of _ ?ds]) simp_all
  from http_up.read_all [of mem, OF assms(8) this disjI2 [OF assms(6)], of ks] obtain c' where
    c': "read_segments ks mem c segs = Some c'" "delivered ks c ?D c'" "tc_in_u c' = []"
    "http_pending c' [] []" by blast
  from c'(4) have "tc_chunk_remaining c' = 0" by (auto simp: http_pending_def)
  moreover have "snd (ctr_crypt ks ctx ?D) = snd (ctr_crypt ks ctx (concat ds))"
    by (rule snd_ctr_crypt_length) (simp add: client_chunks_concat)
  ultimately show ?thesis
    using c' assms(7) unfolding delivered_def by (simp add: client_chunks_concat)
qed

theorem http_client_to_server_witness:
  "\<exists>c'. read_segments (\<lambda>_ _ _. 5) (\<lambda>_. True)
      (conn_start TRANSPORT_MODE_HTTP_STREAM False False (aes_init [] []) (aes_init [] []))
      [[0x32], [0x0D, 0x0A, 2], [0x0D, 0x0D, 0x0A]] = Some c' \<and> tc_in c' = [7, 8]"
  using http_client_to_server [where ds = "[[7, 8]]" and ks = "\<lambda>_ _ _. 5" and mem = "\<lambda>_. True"
      and ctx = "aes_init [] []" and segs = "[[0x32], [0x0D, 0x0A, 2], [0x0D, 0x0D, 0x0A]]"
      and c = "conn_start TRANSPORT_MODE_HTTP_STREAM False False (aes_init [] []) (aes_init [] [])"]
  by (simp add: conn_start_def aes_init_def ctr_crypt_def xor_stream_def chunk_enc_simps chunkable_def chunk_def
      t3__size_to_hex_def size_to_hex_loop.simps hex_char_def) blast

end
