(* ===== verification/Srv_Transport_Out.thy ===== *)
theory Srv_Transport_Out
  imports Srv_Transport_Http
begin

text \<open>
  The rest of \<open>server/src/net/net-tcp-connections.c\<close>: what the writing loop puts on the wire, and the
  unwrapping of HTTP chunks before the keys are set.
\<close>

subsection \<open>What the writing loop sends\<close>

text \<open>One message on the wire, per transport.\<close>

definition out_frame :: "tconn \<Rightarrow> bytes \<Rightarrow> bytes" where
  "out_frame c d = fst (output_piece c (length d)) @ d @ (if http_mode c then CRLF else [])"

definition out_limit :: "tconn \<Rightarrow> bytes \<Rightarrow> bool" where
  "out_limit c d \<longleftrightarrow> d \<noteq> [] \<and> snd (output_piece c (length d)) = length d"

lemma output_piece_cong:
  "tc_ws_active c' = tc_ws_active c \<Longrightarrow> tc_mode c' = tc_mode c \<Longrightarrow> tc_tls c' = tc_tls c \<Longrightarrow>
   output_piece c' n = output_piece c n"
  by (simp add: output_piece_def http_mode_def)

lemma output_piece_fix: "output_piece c (snd (output_piece c n)) = output_piece c n"
  by (simp add: output_piece_def Let_def)

text \<open>The loop empties \<open>out\<close>: its content, encrypted in one run of the cipher, leaves in frames.\<close>

lemma encrypt_output_frames:
  assumes mem: "\<And>n. mem n"
  shows "\<exists>ds c'. encrypt_output ks mem c = (0, c') \<and> tc_out c' = []
    \<and> (\<forall>d \<in> set ds. out_limit c d) \<and> concat ds = fst (ctr_crypt ks (tc_write_key c) (tc_out c))
    \<and> tc_out_p c' = tc_out_p c @ concat (map (out_frame c) ds)
    \<and> tc_write_key c' = snd (ctr_crypt ks (tc_write_key c) (tc_out c)) \<and> tc_failed c' = tc_failed c"
proof (induction "length (tc_out c)" arbitrary: c rule: less_induct)
  case less
  show ?case
  proof (cases "tc_out c = []")
    case True
    then show ?thesis
      by (intro exI [of _ "[]"] exI [of _ c]) (simp add: encrypt_output.simps ctr_crypt_def)
  next
    case False
    obtain h n where p: "output_piece c (length (tc_out c)) = (h, n)" by force
    with output_piece_pos [of "length (tc_out c)" c] False have n: "0 < n" "n \<le> length (tc_out c)"
      by (simp_all add: p)
    define e where "e = fst (ctr_crypt ks (tc_write_key c) (take n (tc_out c)))"
    define key where "key = snd (ctr_crypt ks (tc_write_key c) (take n (tc_out c)))"
    define c1 where "c1 = c\<lparr>tc_out := drop n (tc_out c), tc_write_key := key,
        tc_out_p := tc_out_p c @ h @ e @ (if http_mode c then CRLF else [])\<rparr>"
    have crypt: "ctr_crypt ks (tc_write_key c) (take n (tc_out c)) = (e, key)"
      by (simp add: e_def key_def)
    have eq: "encrypt_output ks mem c = encrypt_output ks mem c1"
      using False mem
      by (subst encrypt_output.simps) (simp add: p c1_def crypt)
    have len: "length (tc_out c1) < length (tc_out c)" using n by (simp add: c1_def)
    have same: "output_piece c1 = output_piece c" "http_mode c1 = http_mode c"
      by (intro ext output_piece_cong) (simp_all add: c1_def http_mode_def)
    then have frame: "out_frame c1 = out_frame c" "out_limit c1 = out_limit c"
      by (intro ext; simp add: out_frame_def out_limit_def)+
    from less.hyps [OF len] obtain ds c' where IH: "encrypt_output ks mem c1 = (0, c')" "tc_out c' = []"
      "\<forall>d \<in> set ds. out_limit c d" "concat ds = fst (ctr_crypt ks key (drop n (tc_out c)))"
      "tc_out_p c' = tc_out_p c1 @ concat (map (out_frame c) ds)"
      "tc_write_key c' = snd (ctr_crypt ks key (drop n (tc_out c)))" "tc_failed c' = tc_failed c"
      unfolding frame by (auto simp: c1_def)
    have e: "length e = n" using n by (simp add: e_def)
    have "output_piece c (length e) = (h, n)"
      using output_piece_fix [of c "length (tc_out c)"] by (simp add: p e)
    then have "out_limit c e" "out_frame c e = h @ e @ (if http_mode c then CRLF else [])"
      using n e by (auto simp: out_limit_def out_frame_def)
    moreover have "ctr_crypt ks (tc_write_key c) (tc_out c)
        = (e @ fst (ctr_crypt ks key (drop n (tc_out c))), snd (ctr_crypt ks key (drop n (tc_out c))))"
      using ctr_crypt_append [of ks "tc_write_key c" "take n (tc_out c)" "drop n (tc_out c)"] crypt by simp
    ultimately show ?thesis
      using IH eq by (intro exI [of _ "e # ds"] exI [of _ c']) (simp add: c1_def)
  qed
qed

text \<open>The client decrypts the messages it receives with its running context.\<close>

lemma out_limit_ws: "tc_ws_active c \<Longrightarrow> out_limit c d \<Longrightarrow> d \<noteq> [] \<and> length d \<le> 16384"
  by (auto simp: out_limit_def output_piece_def Let_def split: if_splits)

lemma out_limit_http: "\<not> tc_ws_active c \<Longrightarrow> http_mode c \<Longrightarrow> out_limit c d \<Longrightarrow> d \<noteq> [] \<and> length d \<le> 16384"
  by (auto simp: out_limit_def output_piece_def Let_def split: if_splits)

text \<open>C30: over WebSocket the output of a connection arrives. The loop empties the output buffer without
  failing, and a client whose read context equals the server's write context receives, however the
  stream is cut, frames of at most 16384 bytes whose payloads decrypt to exactly what was written.\<close>

theorem ws_server_output:
  assumes "tc_ws_active c" "\<not> http_mode c" "tc_out c \<noteq> []" "tc_out_p c = []" "\<And>n. mem n"
    and "encrypt_output ks mem c = (r, c')" "concat segs = tc_out_p c'"
  shows "r = 0 \<and> tc_out c' = [] \<and> tc_failed c' = tc_failed c
    \<and> (\<exists>ds. receive ws_client_dec [] segs = (ds, [], False) \<and> (\<forall>d \<in> set ds. length d \<le> 16384)
         \<and> fst (ctr_crypt ks (tc_write_key c) (concat ds)) = tc_out c)"
proof -
  from encrypt_output_frames [of mem, OF assms(5), of ks c] assms(6) obtain ds where
    r: "r = 0" "tc_out c' = []" "tc_failed c' = tc_failed c" and ds: "\<forall>d \<in> set ds. out_limit c d"
    and cat: "concat ds = fst (ctr_crypt ks (tc_write_key c) (tc_out c))"
    and out: "tc_out_p c' = tc_out_p c @ concat (map (out_frame c) ds)" by auto
  have lim: "\<forall>d \<in> set ds. length d \<le> 16384" using ds out_limit_ws [OF assms(1)] by blast
  have fr: "map (out_frame c) ds = map ws_server_enc ds"
    using lim assms(1,2) by (intro map_cong) (auto simp: out_frame_def output_piece_def ws_server_enc_def Let_def)
  have "concat segs = ws_down.stream ds"
    unfolding assms(7) out assms(4) fr ws_down.stream_def by simp
  moreover have "ds \<noteq> []" using cat assms(3) by auto
  ultimately have "receive ws_client_dec [] segs = (ds, [], False)"
    using lim by (intro ws_down.receive_stream) (auto simp: ws_payload_ok_def)
  then show ?thesis using r lim by (simp add: cat)
qed

theorem ws_server_output_witness:
  "\<exists>ds. receive ws_client_dec [] [[0x82], [0x02, 2], [13]] = (ds, [], False)
    \<and> fst (ctr_crypt (\<lambda>_ _ _. 5) (aes_init [] []) (concat ds)) = [7, 8]"
proof -
  let ?c = "(conn_start TRANSPORT_MODE_WS True False (aes_init [] []) (aes_init [] []))\<lparr>tc_out := [7, 8]\<rparr>"
  have "encrypt_output (\<lambda>_ _ _. 5) (\<lambda>_. True) ?c
      = (0, ?c\<lparr>tc_out := [], tc_out_p := [0x82, 0x02, 2, 13], tc_write_key := \<lparr>ctx_key = [], ctx_iv = [], ctx_pos = 2\<rparr>\<rparr>)"
    by (simp add: encrypt_output.simps conn_start_def output_piece_def http_mode_def ctr_crypt_def
        xor_stream_def aes_init_def ws_write_frame_header_def ws_length_bytes_def)
  from ws_server_output [OF _ _ _ _ _ this, of "[[0x82], [0x02, 2], [13]]"] show ?thesis
    by (simp add: conn_start_def http_mode_def) blast
qed

text \<open>The same over HTTP chunks, in both HTTP modes: the chunks are what the library's chunk
  parser reads, of at most 16384 bytes, none of them the terminal chunk.\<close>

lemma http_server_output:
  assumes "\<not> tc_ws_active c" "http_mode c" "tc_out c \<noteq> []" "tc_out_p c = []" "\<And>n. mem n"
    and "encrypt_output ks mem c = (r, c')" "concat segs = tc_out_p c'"
  shows "r = 0 \<and> tc_out c' = [] \<and> tc_failed c' = tc_failed c
    \<and> (\<exists>ds. receive chunk_dec [] segs = (map Some ds, [], False) \<and> (\<forall>d \<in> set ds. length d \<le> 16384)
         \<and> fst (ctr_crypt ks (tc_write_key c) (concat ds)) = tc_out c)"
proof -
  from encrypt_output_frames [of mem, OF assms(5), of ks c] assms(6) obtain ds where
    r: "r = 0" "tc_out c' = []" "tc_failed c' = tc_failed c" and ds: "\<forall>d \<in> set ds. out_limit c d"
    and cat: "concat ds = fst (ctr_crypt ks (tc_write_key c) (tc_out c))"
    and out: "tc_out_p c' = tc_out_p c @ concat (map (out_frame c) ds)" by auto
  have lim: "\<forall>d \<in> set ds. d \<noteq> [] \<and> length d \<le> 16384" using ds out_limit_http [OF assms(1,2)] by blast
  then have ok: "\<forall>d \<in> set ds. chunkable d" by (auto simp: chunkable_def)
  have fr: "map (out_frame c) ds = map chunk_enc (map Some ds)"
    unfolding map_map using lim ok assms(1,2)
    by (intro map_cong) (auto simp: out_frame_def output_piece_def chunk_enc_simps chunk_def
        http_chunk_write_header_def Let_def)
  have "concat segs = http.stream (map Some ds)"
    unfolding assms(7) out assms(4) fr http.stream_def by simp
  moreover have "map Some ds \<noteq> []"
    using cat assms(3) by auto
  ultimately have "receive chunk_dec [] segs = (map Some ds, [], False)"
    using ok by (intro http.receive_stream) (auto simp: chunk_valid_def)
  then show ?thesis using r lim by (simp add: cat)
qed

subsection \<open>Chunks before the keys are set\<close>

text \<open>
  \<open>http_stream_unwrap_precrypto\<close> (the loop; \<open>needed\<close> counts what is missing of the session header and
  the random header, \<open>T3_PRECRYPTO_BYTES\<close> in all).
\<close>

definition T3_PRECRYPTO_BYTES :: nat where "T3_PRECRYPTO_BYTES = 68"

function unwrap_precrypto_loop :: "nat \<Rightarrow> tconn \<Rightarrow> int \<times> tconn" where
  "unwrap_precrypto_loop needed c =
     (if needed > 0 \<and> tc_in_u c \<noteq> [] then
        (case http_next_chunk c of
           Inl (None, c1) \<Rightarrow> (0, c1)
         | Inl (Some _, c1) \<Rightarrow> (-1, c1)
         | Inr c1 \<Rightarrow>
             (let to_read = min (min (length (tc_in_u c1)) (tc_chunk_remaining c1)) needed in
              if to_read = 0 then (0, c1)
              else
                (let c2 = c1\<lparr>tc_in := tc_in c1 @ take to_read (tc_in_u c1), tc_in_u := drop to_read (tc_in_u c1),
                             tc_chunk_remaining := tc_chunk_remaining c1 - to_read\<rparr>;
                     c3 = (if tc_chunk_remaining c2 = 0 then c2\<lparr>tc_chunk_state := 2\<rparr> else c2) in
                 unwrap_precrypto_loop (needed - to_read) c3)))
      else (0, c))"
  by auto
termination by (relation "measure fst") (auto simp: Let_def)

declare unwrap_precrypto_loop.simps [simp del]

definition http_stream_unwrap_precrypto :: "tconn \<Rightarrow> int \<times> tconn" where
  "http_stream_unwrap_precrypto c =
     (if length (tc_in c) \<ge> T3_PRECRYPTO_BYTES then (0, c)
      else unwrap_precrypto_loop (T3_PRECRYPTO_BYTES - length (tc_in c)) c)"

lemma unwrap_loop_run:
  "http_pending c (tc_in_u c @ rest) D \<Longrightarrow>
    \<exists>c' E D'. unwrap_precrypto_loop needed c = (0, c') \<and> http_pending c' (tc_in_u c' @ rest) D'
      \<and> D = E @ D' \<and> tc_in c' = tc_in c @ E \<and> tc_failed c' = tc_failed c \<and> length E \<le> needed
      \<and> (rest = [] \<longrightarrow> length E = needed \<or> tc_in_u c' = [])"
proof (induction needed arbitrary: c D rule: less_induct)
  case (less needed)
  have stop: ?case if "unwrap_precrypto_loop needed c = (0, c1)" "http_pending c1 (tc_in_u c1 @ rest) D"
    "untouched c c1" "rest = [] \<longrightarrow> 0 = needed \<or> tc_in_u c1 = []" for c1
    using that by (intro exI [of _ c1] exI [of _ "[]"] exI [of _ D]) (auto simp: untouched_def)
  show ?case
  proof (cases "needed > 0 \<and> tc_in_u c \<noteq> []")
    case False
    with less.prems show ?thesis
      by (intro stop [of c]) (auto simp: unwrap_precrypto_loop.simps untouched_def)
  next
    case True
    then have go: "needed > 0" "tc_in_u c \<noteq> []" by simp_all
    from http_next_chunk_pending [OF less.prems go(2)] show ?thesis
    proof (elim disjE exE conjE)
      fix c1
      assume "http_next_chunk c = Inl (None, c1)" "http_pending c1 (tc_in_u c1 @ rest) D" "untouched c c1"
        "rest = [] \<longrightarrow> tc_in_u c1 = []"
      with go show ?thesis by (intro stop [of c1]) (simp_all add: unwrap_precrypto_loop.simps [of needed])
    next
      fix c1 t ds
      assume n: "http_next_chunk c = Inr c1" and same: "untouched c c1" and ds: "\<forall>d \<in> set ds. chunkable d"
        and c1: "\<not> tc_ws_active c1" "tc_mode c1 = TRANSPORT_MODE_HTTP_STREAM" and st: "tc_chunk_state c1 = 1"
        and t: "t \<noteq> []" and rem: "tc_chunk_remaining c1 = length t"
        and W: "tc_in_u c1 @ rest = t @ CRLF @ concat (map chunk ds)" and D: "D = t @ concat ds"
      define k where "k = min (min (length (tc_in_u c1)) (length t)) needed"
      define c2 where "c2 = c1\<lparr>tc_in := tc_in c1 @ take k (tc_in_u c1), tc_in_u := drop k (tc_in_u c1),
                             tc_chunk_remaining := length t - k\<rparr>"
      define c3 where "c3 = (if length t - k = 0 then c2\<lparr>tc_chunk_state := 2\<rparr> else c2)"
      have eq: "unwrap_precrypto_loop needed c =
          (if k = 0 then (0, c1) else unwrap_precrypto_loop (needed - k) c3)"
        using n go
        by (subst unwrap_precrypto_loop.simps) (simp add: Let_def c2_def c3_def rem flip: k_def)
      have pending: "http_pending c1 (tc_in_u c1 @ rest) D"
        unfolding http_pending_def using c1 ds rem st t W D by blast
      show ?thesis
      proof (cases "k = 0")
        case True
        then have "tc_in_u c1 = []" using go t by (auto simp: k_def min_def split: if_splits)
        with True eq pending same show ?thesis by (intro stop [of c1]) simp_all
      next
        case False
        have k: "k \<le> length (tc_in_u c1)" "k \<le> length t" "k \<le> needed" by (simp_all add: k_def)
        have take: "take k (tc_in_u c1) = take k t"
          using arg_cong [OF W, of "take k"] k by simp
        have drop: "drop k (tc_in_u c1) @ rest = drop k t @ CRLF @ concat (map chunk ds)"
          using arg_cong [OF W, of "drop k"] k by simp
        have "http_pending c3 (tc_in_u c3 @ rest) (drop k t @ concat ds)"
          unfolding http_pending_def using c1 ds drop st
          by (intro conjI exI [of _ "drop k t"] exI [of _ ds]) (auto simp: c3_def c2_def)
        from less.IH [OF _ this, of "needed - k"] False go obtain c' E D' where
          IH: "unwrap_precrypto_loop (needed - k) c3 = (0, c')" "http_pending c' (tc_in_u c' @ rest) D'"
          "drop k t @ concat ds = E @ D'" "tc_in c' = tc_in c3 @ E" "tc_failed c' = tc_failed c3"
          "length E \<le> needed - k" "rest = [] \<longrightarrow> length E = needed - k \<or> tc_in_u c' = []"
          by auto
        have "tc_in c3 = tc_in c @ take k t" "tc_failed c3 = tc_failed c"
          using same by (simp_all add: c3_def c2_def untouched_def take)
        moreover have "D = (take k t @ E) @ D'" using IH(3) D by (metis append.assoc append_take_drop_id)
        ultimately show ?thesis
          using IH False k eq
          by (intro exI [of _ c'] exI [of _ "take k t @ E"] exI [of _ D']) auto
      qed
    qed
  qed
qed

lemma unwrap_run:
  assumes "http_pending c (tc_in_u c @ rest) D" "length (tc_in c) \<le> 68"
  shows "\<exists>c' E D'. http_stream_unwrap_precrypto c = (0, c') \<and> http_pending c' (tc_in_u c' @ rest) D'
      \<and> D = E @ D' \<and> tc_in c' = tc_in c @ E \<and> tc_failed c' = tc_failed c \<and> length (tc_in c') \<le> 68
      \<and> (rest = [] \<longrightarrow> length (tc_in c') = 68 \<or> tc_in_u c' = [])"
proof (cases "length (tc_in c) \<ge> 68")
  case True
  with assms show ?thesis
    by (intro exI [of _ c] exI [of _ "[]"] exI [of _ D])
      (simp add: http_stream_unwrap_precrypto_def T3_PRECRYPTO_BYTES_def)
next
  case False
  from unwrap_loop_run [OF assms(1), of "68 - length (tc_in c)"] obtain c' E D' where
    r: "unwrap_precrypto_loop (68 - length (tc_in c)) c = (0, c')" "http_pending c' (tc_in_u c' @ rest) D'"
    "D = E @ D'" "tc_in c' = tc_in c @ E" "tc_failed c' = tc_failed c" "length E \<le> 68 - length (tc_in c)"
    "rest = [] \<longrightarrow> length E = 68 - length (tc_in c) \<or> tc_in_u c' = []" by blast
  with False show ?thesis
    by (intro exI [of _ c'] exI [of _ E] exI [of _ D'])
      (auto simp: http_stream_unwrap_precrypto_def T3_PRECRYPTO_BYTES_def)
qed

text \<open>Reading leaves the writing side alone, and takes from the raw input only.\<close>

definition same_output :: "tconn \<Rightarrow> tconn \<Rightarrow> bool" where
  "same_output c c' \<longleftrightarrow> tc_write_key c' = tc_write_key c \<and> tc_out c' = tc_out c \<and> tc_out_p c' = tc_out_p c
     \<and> tc_ws_active c' = tc_ws_active c \<and> tc_mode c' = tc_mode c \<and> length (tc_in_u c') \<le> length (tc_in_u c)"

lemma same_output_trans: "same_output c c1 \<Longrightarrow> same_output c1 c2 \<Longrightarrow> same_output c c2"
  by (simp add: same_output_def)

lemma next_chunk_output:
  "http_next_chunk c = Inl (x, c1) \<Longrightarrow> same_output c c1" "http_next_chunk c = Inr c1 \<Longrightarrow> same_output c c1"
  by (auto simp: same_output_def http_next_chunk_def Let_def dest!: chunk_header_rest
      split: if_splits chunk_header.splits sum.splits)

lemma unwrap_loop_output:
  "unwrap_precrypto_loop needed c = (r, c1) \<Longrightarrow> same_output c c1"
proof (induction needed arbitrary: c rule: less_induct)
  case (less needed)
  show ?case
  proof (cases "needed > 0 \<and> tc_in_u c \<noteq> []")
    case True
    consider x c2 where "http_next_chunk c = Inl (x, c2)" | c2 where "http_next_chunk c = Inr c2"
      by (cases "http_next_chunk c") auto
    then show ?thesis
    proof cases
      case 1
      with True less.prems next_chunk_output(1) [OF 1] show ?thesis
        by (auto simp: unwrap_precrypto_loop.simps [of needed] split: option.splits)
    next
      case 2
      define k where "k = min (min (length (tc_in_u c2)) (tc_chunk_remaining c2)) needed"
      define c3 where "c3 = c2\<lparr>tc_in := tc_in c2 @ take k (tc_in_u c2), tc_in_u := drop k (tc_in_u c2),
                             tc_chunk_remaining := tc_chunk_remaining c2 - k\<rparr>"
      define c4 where "c4 = (if tc_chunk_remaining c3 = 0 then c3\<lparr>tc_chunk_state := 2\<rparr> else c3)"
      have run: "unwrap_precrypto_loop needed c = (if k = 0 then (0, c2) else unwrap_precrypto_loop (needed - k) c4)"
        using True by (subst unwrap_precrypto_loop.simps) (simp add: 2 Let_def flip: k_def c3_def c4_def)
      have "same_output c2 c4" by (simp add: c4_def c3_def same_output_def)
      with next_chunk_output(2) [OF 2] have "same_output c c4" by (rule same_output_trans)
      with run less.prems less.IH [of "needed - k" c4] next_chunk_output(2) [OF 2] True same_output_trans
      show ?thesis by (auto split: if_splits)
    qed
  qed (use less.prems in \<open>auto simp: unwrap_precrypto_loop.simps [of needed c] same_output_def\<close>)
qed

lemma unwrap_output: "http_stream_unwrap_precrypto c = (r, c1) \<Longrightarrow> same_output c c1"
  by (auto simp: http_stream_unwrap_precrypto_def same_output_def split: if_splits
      dest: unwrap_loop_output [unfolded same_output_def])

end
