(* ===== verification/Srv_Connection.thy ===== *)
theory Srv_Connection
  imports Srv_Transport_Out
begin

text \<open>
  The connection level of \<open>server/src/net/net-tcp-connections.c\<close>: the block-cipher transport and the
  reader and writer every connection type shares. The methods of the connection type
  (\<open>c->type->...\<close>) are the functions of a record \<open>conn_type\<close>; the job system's signals and the
  C_WANTWR flag, which only wake threads up, are left out. The skip counter is an \<open>int\<close> that wraps around
  (the server is compiled with \<open>-fwrapv\<close>); the lengths of buffers are exact.
\<close>

subsection \<open>The block-cipher transport\<close>

text \<open>
  \<open>cbc\<close> is the block cipher in its mode, on a whole number of blocks. The result is the number of
  bytes missing to the next block.
\<close>

type_synonym block_cipher = "aes_ctx \<Rightarrow> bytes \<Rightarrow> bytes \<times> aes_ctx"

definition cpu_tcp_aes_crypto_encrypt_output :: "block_cipher \<Rightarrow> (nat \<Rightarrow> bool) \<Rightarrow> tconn \<Rightarrow> int \<times> tconn" where
  "cpu_tcp_aes_crypto_encrypt_output cbc mem c =
     (let l = length (tc_out c) div 16 * 16;
          (enc, key) = cbc (tc_write_key c) (take l (tc_out c));
          c1 = (if l = 0 then c
                else c\<lparr>tc_out := drop l (tc_out c), tc_out_p := tc_out_p c @ enc, tc_write_key := key\<rparr>) in
      if l \<noteq> 0 \<and> \<not> mem l then (-1, c\<lparr>tc_failed := Some (-1)\<rparr>)
      else ((- int (length (tc_out c1))) mod 16, c1))"

definition cpu_tcp_aes_crypto_decrypt_input :: "block_cipher \<Rightarrow> (nat \<Rightarrow> bool) \<Rightarrow> tconn \<Rightarrow> int \<times> tconn" where
  "cpu_tcp_aes_crypto_decrypt_input cbc mem c =
     (let l = length (tc_in_u c) div 16 * 16;
          (dec, key) = cbc (tc_read_key c) (take l (tc_in_u c));
          c1 = (if l = 0 then c
                else c\<lparr>tc_in_u := drop l (tc_in_u c), tc_in := tc_in c @ dec, tc_read_key := key\<rparr>) in
      if l \<noteq> 0 \<and> \<not> mem l then (-1, c\<lparr>tc_failed := Some (-1)\<rparr>)
      else ((- int (length (tc_in_u c1))) mod 16, c1))"

definition cpu_tcp_aes_crypto_needed_output_bytes :: "tconn \<Rightarrow> int" where
  "cpu_tcp_aes_crypto_needed_output_bytes c = (- int (length (tc_out c))) mod 16"

subsection \<open>State and methods\<close>

datatype conn_status = conn_none | conn_connecting | conn_working | conn_error | conn_listen
  | conn_write_close | conn_total_states

text \<open>
  The fields of \<open>connection_info\<close> beside those of the transport. \<open>sc_net_failed\<close> stands for C_FAILED and
  C_NET_FAILED, which other threads set; C_ERROR is set by \<open>fail_connection\<close> alone, that is when
  \<open>tc_failed\<close> is. \<open>sc_packets\<close> is the socket's \<open>out_packet_queue\<close>.
\<close>

record sconn =
  sc_conn :: tconn
  sc_crypto :: bool
  sc_status :: conn_status
  sc_net_failed :: bool
  sc_stopread :: bool
  sc_stopwrite :: bool
  sc_skip :: int
  sc_in_queue :: "bytes list"
  sc_out_queue :: "bytes list"
  sc_io :: bool
  sc_packets :: "bytes list"

record conn_type =
  ct_write_packet :: "sconn \<Rightarrow> bytes \<Rightarrow> sconn"
  ct_flush :: "sconn \<Rightarrow> sconn"
  ct_encrypt :: "(tconn \<Rightarrow> int \<times> tconn) option"
  ct_decrypt :: "tconn \<Rightarrow> (int \<times> tconn) option"
  ct_data_received :: "(sconn \<Rightarrow> int \<Rightarrow> sconn) option"
  ct_parse_execute :: "sconn \<Rightarrow> (int \<times> sconn) option"

subsection \<open>Writer\<close>

definition http_stream_write_terminal :: "tconn \<Rightarrow> tconn" where
  "http_stream_write_terminal c =
     (if http_mode c then c\<lparr>tc_out_p := tc_out_p c @ [0x30] @ CRLF @ CRLF\<rparr> else c)"

fun write_queue :: "(sconn \<Rightarrow> bytes \<Rightarrow> sconn) \<Rightarrow> bytes list \<Rightarrow> sconn \<Rightarrow> sconn" where
  "write_queue wp [] s = s"
| "write_queue wp (raw # q) s = write_queue wp q (wp s raw)"

definition cpu_tcp_server_writer :: "conn_type \<Rightarrow> sconn \<Rightarrow> int \<times> sconn" where
  "cpu_tcp_server_writer ct s =
     (let stop = (sc_status s = conn_write_close);
          s1 = (if stop \<and> http_mode (sc_conn s) \<and> sc_crypto s
                then s\<lparr>sc_conn := http_stream_write_terminal (sc_conn s)\<rparr> else s);
          s2 = ct_flush ct (write_queue (ct_write_packet ct) (sc_out_queue s1) (s1\<lparr>sc_out_queue := []\<rparr>));
          send = (\<lambda>raw s. (0, if raw \<noteq> [] \<and> sc_io s
                               then s\<lparr>sc_packets := sc_packets s @ [raw], sc_stopwrite := sc_stopwrite s \<or> stop\<rparr>
                               else s)) in
      case (ct_encrypt ct, sc_crypto s2) of
        (Some enc, True) \<Rightarrow>
          (let (r, c) = enc (sc_conn s2) in
           if r < 0 then (-1, s2\<lparr>sc_conn := c\<rparr>)
           else send (tc_out_p c) (s2\<lparr>sc_conn := c\<lparr>tc_out_p := []\<rparr>\<rparr>))
      | _ \<Rightarrow> send (tc_out (sc_conn s2)) (s2\<lparr>sc_conn := (sc_conn s2)\<lparr>tc_out := []\<rparr>\<rparr>))"

subsection \<open>Reader\<close>

definition NEED_MORE_BYTES :: int where "NEED_MORE_BYTES = 0x7FFFFFFF"
definition SKIP_ALL_BYTES :: int where "SKIP_ALL_BYTES = - 0x80000000"

text \<open>A value computed in \<open>int\<close>.\<close>

definition i32 :: "int \<Rightarrow> int" where
  "i32 x = (x + 2 ^ 31) mod 2 ^ 32 - 2 ^ 31"

definition conn_broken :: "sconn \<Rightarrow> bool" where
  "conn_broken s \<longleftrightarrow> sc_net_failed s \<or> tc_failed (sc_conn s) \<noteq> None"

text \<open>A parser's answer other than 0: it wants more, or that many bytes loaded or skipped first.\<close>

definition parsed :: "int \<Rightarrow> sconn \<Rightarrow> sconn" where
  "parsed res s =
     (if res \<noteq> NEED_MORE_BYTES then
        (let bytes = int (length (if sc_crypto s then tc_in (sc_conn s) else tc_in_u (sc_conn s))) in
         s\<lparr>sc_skip := i32 (if res < 0 then res - bytes else res + bytes)\<rparr>)
      else s)"

text \<open>The loop over \<open>parse_execute\<close>; it does not return when the method never stops answering 0.\<close>

partial_function (option) parse_loop :: "(sconn \<Rightarrow> (int \<times> sconn) option) \<Rightarrow> sconn \<Rightarrow> sconn option" where
  "parse_loop parse s =
     (if sc_skip s = 0 \<and> \<not> conn_broken s \<and> \<not> sc_stopread s \<and> sc_status s \<noteq> conn_error
         \<and> tc_in (sc_conn s) \<noteq> [] then
        do {
          (res, s1) \<leftarrow> parse s;
          (if res = 0 then parse_loop parse s1 else Some (parsed res s1))
        }
      else Some s)"

definition enqueue_input :: "sconn \<Rightarrow> sconn" where
  "enqueue_input s =
     (let c = sc_conn s; raw = concat (sc_in_queue s) in
      s\<lparr>sc_in_queue := [],
        sc_conn := (if sc_crypto s \<or> tc_mode c = TRANSPORT_MODE_HTTP_STREAM
                    then c\<lparr>tc_in_u := tc_in_u c @ raw\<rparr> else c\<lparr>tc_in := tc_in c @ raw\<rparr>)\<rparr>)"

definition unwrap_input :: "conn_type \<Rightarrow> sconn \<Rightarrow> (int \<times> sconn) option" where
  "unwrap_input ct s =
     (if sc_crypto s then
        do { (r, c) \<leftarrow> ct_decrypt ct (sc_conn s); Some (r, s\<lparr>sc_conn := c\<rparr>) }
      else if tc_mode (sc_conn s) = TRANSPORT_MODE_HTTP_STREAM then
        (let (r, c) = http_stream_unwrap_precrypto (sc_conn s) in Some (r, s\<lparr>sc_conn := c\<rparr>))
      else Some (0, s))"

text \<open>The skip counter: negative while bytes are to be dropped, positive while they are waited for.
  The boolean says whether parsing may go on. \<open>None\<close>: \<open>rwm_skip_data\<close> asserts that the number of bytes is
  not negative.\<close>

definition skip_input :: "nat \<Rightarrow> int \<Rightarrow> sconn \<Rightarrow> (bool \<times> sconn) option" where
  "skip_input r s0 s =
     (let r1 = (if s0 < 0 \<and> int r > i32 (- s0) then i32 (- s0) else int r) in
      if s0 < 0 then
        (if r1 < 0 then None
         else
           (let s1 = i32 (s0 + r1);
                st = s\<lparr>sc_conn := (sc_conn s)\<lparr>tc_in := drop (nat r1) (tc_in (sc_conn s))\<rparr>, sc_skip := s1\<rparr> in
            if s1 \<noteq> 0 then Some (False, st) else Some (True, st)))
      else if s0 > 0 then (if r1 \<ge> s0 then Some (True, s\<lparr>sc_skip := 0\<rparr>) else Some (False, s))
      else Some (True, s))"

datatype reader_out = Returned int sconn | Assertion_failed

definition cpu_tcp_server_reader :: "conn_type \<Rightarrow> sconn \<Rightarrow> reader_out option" where
  "cpu_tcp_server_reader ct s =
     do {
       (rc, s1) \<leftarrow> unwrap_input ct (enqueue_input s);
       (if rc < 0 then Some (Returned (-1) s1)
        else
          (let r = length (tc_in (sc_conn s1));
               skip = sc_skip s1;
               s2 = (case ct_data_received ct of None \<Rightarrow> s1 | Some f \<Rightarrow> f s1 (int r)) in
           if conn_broken s2 then Some (Returned (-1) s2)
           else if sc_stopread s2 then Some (Returned 0 s2)
           else
             (case skip_input r skip s2 of
                None \<Rightarrow> Some Assertion_failed
              | Some (False, s3) \<Rightarrow> Some (Returned 0 s3)
              | Some (True, s3) \<Rightarrow> do { s4 \<leftarrow> parse_loop (ct_parse_execute ct) s3; Some (Returned 0 s4) })))
     }"

text \<open>The runs of a connection's job, each with what the socket has delivered before it.\<close>

fun reader_runs :: "conn_type \<Rightarrow> sconn \<Rightarrow> bytes list \<Rightarrow> reader_out option" where
  "reader_runs ct s [] = Some (Returned 0 s)"
| "reader_runs ct s (seg # segs) =
     do {
       out \<leftarrow> cpu_tcp_server_reader ct (s\<lparr>sc_in_queue := sc_in_queue s @ [seg]\<rparr>);
       (case out of Assertion_failed \<Rightarrow> Some Assertion_failed | Returned rc s1 \<Rightarrow> reader_runs ct s1 segs)
     }"

subsection \<open>What reader and writer do\<close>

text \<open>The encryption method reports exactly what the padding method asks for, and keeps less than a block.\<close>

lemma block_output_needed:
  assumes "cpu_tcp_aes_crypto_encrypt_output cbc mem c = (r, c')" "0 \<le> r"
  shows "r = cpu_tcp_aes_crypto_needed_output_bytes c" "length (tc_out c') < 16"
    "cpu_tcp_aes_crypto_needed_output_bytes c' = r"
proof -
  define l where "l = length (tc_out c) div 16 * 16"
  obtain enc key where cbc: "cbc (tc_write_key c) (take l (tc_out c)) = (enc, key)" by force
  have out: "tc_out c' = drop l (tc_out c)" and r: "r = (- int (length (tc_out c'))) mod 16"
    using assms
    by (auto simp: cpu_tcp_aes_crypto_encrypt_output_def Let_def cbc simp flip: l_def split: if_splits)
  have len: "length (tc_out c') = length (tc_out c) mod 16"
    by (simp add: out l_def minus_div_mult_eq_mod)
  then show "length (tc_out c') < 16" by simp
  have "int (length (tc_out c')) = int (length (tc_out c)) mod 16" by (simp add: len zmod_int)
  then show "r = cpu_tcp_aes_crypto_needed_output_bytes c"
    unfolding r cpu_tcp_aes_crypto_needed_output_bytes_def by (simp add: mod_minus_eq)
  show "cpu_tcp_aes_crypto_needed_output_bytes c' = r"
    by (simp add: r cpu_tcp_aes_crypto_needed_output_bytes_def)
qed

lemma i32_id: "- (2 ^ 31) \<le> x \<Longrightarrow> x < 2 ^ 31 \<Longrightarrow> i32 x = x"
  by (simp add: i32_def)

text \<open>Waiting for bytes. While a positive skip count exceeds what is buffered, the reader only
  collects input: the parser is not called and the count stays.\<close>

lemma skip_input_waits: "0 < k \<Longrightarrow> int r < k \<Longrightarrow> skip_input r k s = Some (False, s)"
  by (simp add: skip_input_def Let_def)

lemma skip_input_ready: "0 \<le> k \<Longrightarrow> k \<le> int r \<Longrightarrow> sc_skip s = k \<Longrightarrow> skip_input r k s = Some (True, s\<lparr>sc_skip := 0\<rparr>)"
  by (simp add: skip_input_def Let_def)

text \<open>Dropping bytes: as long as the count fits, exactly that many.\<close>

lemma skip_input_drops:
  assumes "0 < n" "n < 2 ^ 31"
  shows "skip_input r (- int n) s =
    Some (n \<le> r, s\<lparr>sc_conn := (sc_conn s)\<lparr>tc_in := drop (min r n) (tc_in (sc_conn s))\<rparr>, sc_skip := int (min r n) - int n\<rparr>)"
proof -
  have n: "i32 (int n) = int n" using assms by (intro i32_id) auto
  have "i32 (- int n + int (min r n)) = int (min r n) - int n" using assms by (subst i32_id) auto
  then show ?thesis using assms n by (cases "n \<le> r") (auto simp: skip_input_def Let_def min_def)
qed

text \<open>The least \<open>int\<close> is its own negation: the count that is to skip everything fails the assertion.\<close>

lemma skip_input_all: "skip_input r SKIP_ALL_BYTES s = None"
  by (simp add: skip_input_def SKIP_ALL_BYTES_def i32_def)

text \<open>A parser that answers \<open>SKIP_ALL_BYTES\<close> before the keys are set leaves that count, unless raw input is
  pending, whose length makes the count wrap around to a large positive one.\<close>

lemma parsed_skip_all:
  assumes "\<not> sc_crypto s" "n = length (tc_in_u (sc_conn s))" "n < 2 ^ 31"
  shows "parsed SKIP_ALL_BYTES s = s\<lparr>sc_skip := (if n = 0 then SKIP_ALL_BYTES else 2 ^ 31 - int n)\<rparr>"
proof -
  have "i32 (SKIP_ALL_BYTES - int n) = (if n = 0 then SKIP_ALL_BYTES else 2 ^ 31 - int n)"
  proof (cases "n = 0")
    case False
    have "(SKIP_ALL_BYTES - int n + 2 ^ 31) mod 2 ^ 32 = (2 ^ 32 - int n) mod 2 ^ 32"
      by (simp add: SKIP_ALL_BYTES_def mod_minus_eq mod_diff_left_eq [of "2 ^ 32", symmetric])
    also have "\<dots> = 2 ^ 32 - int n" using False assms(3) by (intro mod_pos_pos_trivial) auto
    finally show ?thesis using False by (simp add: i32_def)
  qed (simp add: i32_def SKIP_ALL_BYTES_def)
  moreover have "SKIP_ALL_BYTES \<noteq> NEED_MORE_BYTES" "SKIP_ALL_BYTES < 0"
    by (simp_all add: SKIP_ALL_BYTES_def NEED_MORE_BYTES_def)
  ultimately show ?thesis using assms(1,2) by (simp add: parsed_def)
qed

lemma parsed_more:
  assumes "\<not> sc_crypto s" "0 < k" "k + int (length (tc_in_u (sc_conn s))) < 2 ^ 31 - 1"
  shows "parsed k s = s\<lparr>sc_skip := k + int (length (tc_in_u (sc_conn s)))\<rparr>"
proof -
  have "i32 (k + int (length (tc_in_u (sc_conn s)))) = k + int (length (tc_in_u (sc_conn s)))"
    using assms by (intro i32_id) auto
  moreover have "k \<noteq> NEED_MORE_BYTES" using assms by (simp add: NEED_MORE_BYTES_def)
  ultimately show ?thesis using assms(1,2) by (simp add: parsed_def Let_def)
qed

definition idle_conn :: "transport_mode \<Rightarrow> bool \<Rightarrow> sconn" where
  "idle_conn mode crypto =
     \<lparr>sc_conn = conn_start mode False False (aes_init [] []) (aes_init [] []), sc_crypto = crypto,
      sc_status = conn_working, sc_net_failed = False, sc_stopread = False, sc_stopwrite = False,
      sc_skip = 0, sc_in_queue = [], sc_out_queue = [], sc_io = True, sc_packets = []\<rparr>"

text \<open>A connection type that moves packets to the output and takes the input byte by byte.\<close>

definition byte_type :: "keystream \<Rightarrow> conn_type" where
  "byte_type ks =
     \<lparr>ct_write_packet = (\<lambda>s raw. s\<lparr>sc_conn := (sc_conn s)\<lparr>tc_out := tc_out (sc_conn s) @ raw\<rparr>\<rparr>),
      ct_flush = (\<lambda>s. s), ct_encrypt = Some (encrypt_output ks (\<lambda>_. True)),
      ct_decrypt = (\<lambda>c. Some (0, c)), ct_data_received = None,
      ct_parse_execute = (\<lambda>s. if tc_in (sc_conn s) = [] then Some (NEED_MORE_BYTES, s)
         else Some (0, s\<lparr>sc_conn := (sc_conn s)\<lparr>tc_in := tl (tc_in (sc_conn s))\<rparr>\<rparr>))\<rparr>"

text \<open>C32: closing an HTTP stream that still has output. The terminal chunk is put into the plain output
  before the pending output is encrypted, so on the wire it comes first: the client's chunk parser
  sees the end of the stream, and then the chunks with the last data.\<close>

theorem writer_terminal_first:
  assumes "ct_encrypt ct = Some (encrypt_output ks mem)" "ct_flush ct = (\<lambda>s. s)" "\<And>n. mem n"
    and "sc_crypto s" "sc_status s = conn_write_close" "sc_io s" "sc_out_queue s = []"
    and "\<not> tc_ws_active (sc_conn s)" "http_mode (sc_conn s)" "tc_out_p (sc_conn s) = []"
    and "cpu_tcp_server_writer ct s = (r, s')" "concat segs = last (sc_packets s')"
  shows "r = 0 \<and> sc_stopwrite s'
    \<and> (\<exists>ds. receive chunk_dec [] segs = (None # map Some ds, [], False)
         \<and> fst (ctr_crypt ks (tc_write_key (sc_conn s)) (concat ds)) = tc_out (sc_conn s))"
proof -
  let ?c = "http_stream_write_terminal (sc_conn s)"
  from encrypt_output_frames [of mem, OF assms(3), of ks ?c] obtain ds c' where
    enc: "encrypt_output ks mem ?c = (0, c')" and lim: "\<forall>d \<in> set ds. out_limit ?c d"
    and cat: "concat ds = fst (ctr_crypt ks (tc_write_key ?c) (tc_out ?c))"
    and out: "tc_out_p c' = tc_out_p ?c @ concat (map (out_frame ?c) ds)" by blast
  have c: "tc_write_key ?c = tc_write_key (sc_conn s)" "tc_out ?c = tc_out (sc_conn s)"
    "\<not> tc_ws_active ?c" "http_mode ?c" "tc_out_p ?c = chunk_enc None"
    using assms(8-10) by (simp_all add: http_stream_write_terminal_def http_mode_def chunk_enc_simps)
  from lim have lim': "\<forall>d \<in> set ds. d \<noteq> [] \<and> length d \<le> 16384" using out_limit_http [OF c(3,4)] by blast
  then have ok: "\<forall>d \<in> set ds. chunkable d" by (auto simp: chunkable_def)
  have fr: "map (out_frame ?c) ds = map chunk_enc (map Some ds)"
    unfolding map_map using lim' ok c(3,4)
    by (intro map_cong) (auto simp: out_frame_def output_piece_def chunk_enc_simps chunk_def
        http_chunk_write_header_def Let_def)
  have wire: "tc_out_p c' = concat (map chunk_enc (None # map Some ds))"
    unfolding out c(5) fr by simp
  then have "tc_out_p c' \<noteq> []" by (simp add: chunk_enc_simps)
  then have "r = 0" "sc_stopwrite s'" "last (sc_packets s') = tc_out_p c'"
    using assms(1,2,4-7,9,11) enc by (auto simp: cpu_tcp_server_writer_def Let_def)
  moreover from this(3) assms(12) wire have "concat segs = http.stream (None # map Some ds)"
    by (simp only: http.stream_def)
  then have "receive chunk_dec [] segs = (None # map Some ds, [], False)"
    using ok by (intro http.receive_stream) (auto simp: chunk_valid_def)
  ultimately show ?thesis using cat c(1,2) by auto
qed

theorem writer_terminal_first_witness:
  "\<exists>ds. receive chunk_dec [] [[0x30, 0x0D, 0x0A, 0x0D, 0x0A, 0x31], [0x0D, 0x0A, 2, 0x0D, 0x0A]]
      = (None # map Some ds, [], False)
    \<and> fst (ctr_crypt (\<lambda>_ _ _. 5) (aes_init [] []) (concat ds)) = [7]"
proof -
  let ?s0 = "(idle_conn TRANSPORT_MODE_HTTP_STREAM True)\<lparr>sc_status := conn_write_close\<rparr>"
  let ?s = "?s0\<lparr>sc_conn := (sc_conn ?s0)\<lparr>tc_out := [7]\<rparr>\<rparr>"
  obtain r s' where w: "cpu_tcp_server_writer (byte_type (\<lambda>_ _ _. 5)) ?s = (r, s')" by force
  then have "last (sc_packets s') = concat [[0x30, 0x0D, 0x0A, 0x0D, 0x0A, 0x31], [0x0D, 0x0A, 2, 0x0D, 0x0A]]"
    by (auto simp: cpu_tcp_server_writer_def byte_type_def idle_conn_def conn_start_def http_mode_def
        encrypt_output.simps output_piece_def http_stream_write_terminal_def ctr_crypt_def xor_stream_def
        aes_init_def http_chunk_write_header_def t3__size_to_hex_def size_to_hex_loop.simps hex_char_def)
  from writer_terminal_first [OF _ _ _ _ _ _ _ _ _ _ w this [symmetric], of "\<lambda>_ _ _. 5" "\<lambda>_. True"] show ?thesis
    by (simp add: byte_type_def idle_conn_def conn_start_def http_mode_def)
qed

end
