(* ===== verification/Srv_Dispatch.thy ===== *)
theory Srv_Dispatch
  imports T3_Random T3_Secret
begin

text \<open>
  The server's Type3 dispatcher, \<open>server/src/net/net-type3-dispatch.c\<close>, with the counters it keeps in
  \<open>server/src/net/net-type3-stats.c\<close>: the generator over \<open>/dev/urandom\<close>, the session that only drives
  the silent-close delay, start-up and clean-up, the decision on the first four bytes of a connection,
  and the kill switch.
\<close>

subsection \<open>Counters\<close>

text \<open>The globals of the metric set. The atomic counters are 64-bit and wrap; the three quantile
  estimates stay far from the ends of their type.\<close>

record t3_stats =
  st_connections_active :: u64
  st_type3_accept :: u64
  st_type3_silent_close :: u64
  st_type3_bad_header :: u64
  st_close_short :: u64
  st_close_unknown_cmd :: u64
  st_close_bad_version :: u64
  st_close_bad_flags :: u64
  st_close_rate_limited :: u64
  st_kill_switch_state :: int
  st_probe_p50 :: int
  st_probe_p95 :: int
  st_probe_p99 :: int

definition zero_stats :: t3_stats where
  "zero_stats = \<lparr>st_connections_active = 0, st_type3_accept = 0, st_type3_silent_close = 0,
     st_type3_bad_header = 0, st_close_short = 0, st_close_unknown_cmd = 0, st_close_bad_version = 0,
     st_close_bad_flags = 0, st_close_rate_limited = 0, st_kill_switch_state = 0,
     st_probe_p50 = 0, st_probe_p95 = 0, st_probe_p99 = 0\<rparr>"

text \<open>One successful compare-and-exchange.\<close>

definition update_histogram_bin :: "int \<Rightarrow> int \<Rightarrow> int \<Rightarrow> int \<Rightarrow> int" where
  "update_histogram_bin expected ns up_step down_step =
     (let desired = expected + (if ns > expected then up_step else - down_step);
          desired = (if desired < 0 then 0 else desired) in
      if desired > 500000000 then 500000000 else desired)"

definition type3_stats_record_probe_drop_ns :: "int \<Rightarrow> t3_stats \<Rightarrow> t3_stats" where
  "type3_stats_record_probe_drop_ns ns st =
     st\<lparr>st_probe_p50 := update_histogram_bin (st_probe_p50 st) ns 1000 1000,
        st_probe_p95 := update_histogram_bin (st_probe_p95 st) ns 19000 1000,
        st_probe_p99 := update_histogram_bin (st_probe_p99 st) ns 99000 1000\<rparr>"

subsection \<open>The generator\<close>

text \<open>
  What the operating system does, in a world \<open>'w\<close>: opening the device, and a read of at most a
  number of bytes, which fails (\<open>None\<close>) or delivers some bytes, none at the end of the file. A read
  that a signal interrupted is repeated by the loop (lines 76 to 79) and is part of the read here.
  The static descriptor is the first component of the generator's state.
\<close>

record 'w urandom =
  os_open :: "'w \<Rightarrow> bool \<times> 'w"
  os_read :: "nat \<Rightarrow> 'w \<Rightarrow> bytes option \<times> 'w"

function urandom_fill :: "'w urandom \<Rightarrow> nat \<Rightarrow> bytes \<Rightarrow> 'w \<Rightarrow> bytes option \<times> 'w" where
  "urandom_fill os len got w =
     (if length got < len then
        (case os_read os (len - length got) w of
           (None, w') \<Rightarrow> (None, w')
         | (Some bs, w') \<Rightarrow> if bs = [] then (None, w') else urandom_fill os len (got @ bs) w')
      else (Some got, w))"
  by auto
termination by (relation "measure (\<lambda>(_, len, got, _). len - length got)") (auto intro!: diff_less_mono2)

declare urandom_fill.simps [simp del]

definition dispatch_rng :: "'w urandom \<Rightarrow> (bool \<times> 'w) rng_fn" where
  "dispatch_rng os ctx len fw =
     (let (fd, w) = fw;
          (fd, w) = (if fd then (True, w) else os_open os w) in
      if \<not> fd then (None, (False, w))
      else (let (r, w') = urandom_fill os len [] w in (r, (True, w'))))"

subsection \<open>Dispatcher state\<close>

datatype kill_switch_state = KS_IDLE | KS_DRAINING | KS_HARD_CLOSED

fun ks_code :: "kill_switch_state \<Rightarrow> int" where
  "ks_code KS_IDLE = 0" | "ks_code KS_DRAINING = 1" | "ks_code KS_HARD_CLOSED = 2"

datatype type3_dispatch_outcome =
  TYPE3_DISPATCH_PASSTHROUGH | TYPE3_DISPATCH_ACCEPT | TYPE3_DISPATCH_DROP_SILENT | TYPE3_DISPATCH_BENCH

record 'w dispatcher =
  g_ks_state :: kill_switch_state
  g_ks_hard_close :: bool
  g_dispatch_secret :: "t3_secret option"
  g_dispatch_session :: "(bool \<times> 'w) t3_session option"
  g_stats :: t3_stats

text \<open>What the dispatcher sees of a connection: the unread input and the timer, as the delay in
  nanoseconds after which the connection is closed.\<close>

record dispatch_conn =
  dc_in :: bytes
  dc_timer :: "nat option"

definition boot_dispatcher :: "'w dispatcher" where
  "boot_dispatcher = \<lparr>g_ks_state = KS_IDLE, g_ks_hard_close = False, g_dispatch_secret = None,
     g_dispatch_session = None, g_stats = zero_stats\<rparr>"

subsection \<open>Start-up and clean-up\<close>

definition dummy_encoded :: bytes where
  "dummy_encoded = 0xee # replicate 16 0x00 @ [0x74]"

definition disp_cb :: "'w urandom \<Rightarrow> (bool \<times> 'w) t3_callbacks" where
  "disp_cb os = zero_callbacks\<lparr>cb_struct_size := T3_CALLBACKS_SIZE, cb_lower_send := Fn (),
     cb_lower_recv := Fn (), cb_frame_send := Fn (), cb_frame_recv := Fn (), cb_rng := Fn (dispatch_rng os),
     cb_monotonic_ns := Fn ()\<rparr>"

definition parse_ks_mode :: "bytes option \<Rightarrow> bool option" where
  "parse_ks_mode mode =
     (case mode of
        None \<Rightarrow> Some False
      | Some m \<Rightarrow> if m = ascii ''hard-close'' then Some True else if m = ascii ''drain'' then Some False else None)"

text \<open>\<open>mem\<close> says which allocations succeed: those of the secret, and the session's.\<close>

definition type3_dispatch_init ::
  "'w urandom \<Rightarrow> (nat \<Rightarrow> bool) \<times> bool \<Rightarrow> bytes option \<Rightarrow> 'w dispatcher \<Rightarrow> int \<times> 'w dispatcher" where
  "type3_dispatch_init os mem mode d =
     (case parse_ks_mode mode of
        None \<Rightarrow> (- 1, d)
      | Some hard \<Rightarrow>
          (let d = d\<lparr>g_ks_hard_close := hard\<rparr>;
               (rc, sec) = t3_secret_parse (fst mem) (Some dummy_encoded) (length dummy_encoded) True in
           if rc \<noteq> T3_OK then (0, d\<lparr>g_dispatch_secret := sec\<rparr>)
           else
             (let (rc, ses) = t3_session_new (snd mem) 1 True in
              if rc \<noteq> T3_OK then (0, d\<lparr>g_dispatch_secret := None, g_dispatch_session := ses\<rparr>)
              else
                (let (rc, ses) = t3_session_bind_callbacks ses (Some (disp_cb os)) in
                 if rc \<noteq> T3_OK then (0, d\<lparr>g_dispatch_session := None, g_dispatch_secret := None\<rparr>)
                 else (0, d\<lparr>g_dispatch_session := ses, g_dispatch_secret := sec\<rparr>)))))"

definition type3_dispatch_cleanup :: "'w dispatcher \<Rightarrow> 'w dispatcher" where
  "type3_dispatch_cleanup d = d\<lparr>g_dispatch_session := None, g_dispatch_secret := None\<rparr>"

subsection \<open>Silent close\<close>

definition sample_silent_close_delay_ns ::
  "'w dispatcher \<Rightarrow> bool \<times> 'w \<Rightarrow> (u64 \<times> (bool \<times> 'w)) option" where
  "sample_silent_close_delay_ns d w =
     (case g_dispatch_session d of
        None \<Rightarrow> Some (125000000, w)
      | Some s \<Rightarrow>
          do {
            ((rc, delay), w') \<leftarrow> t3_silent_close_delay_sample_ns (Some s) True w;
            Some (if rc = T3_OK then the delay else 125000000, w')
          })"

text \<open>The comparisons of the rounded quotients with the rounded bounds are those of the
  nanoseconds, division by a power of ten being monotone and correctly rounded.\<close>

definition type3_dispatch_silent_close :: "dispatch_conn \<Rightarrow> u64 \<Rightarrow> dispatch_conn" where
  "type3_dispatch_silent_close c delay_ns =
     (let delay = unat delay_ns;
          delay = (if delay < 50000000 then 50000000 else delay);
          delay = (if delay > 200000000 then 200000000 else delay) in
      c\<lparr>dc_timer := Some delay\<rparr>)"

subsection \<open>The decision\<close>

definition count_silent_close :: "(t3_stats \<Rightarrow> t3_stats) \<Rightarrow> u64 \<Rightarrow> t3_stats \<Rightarrow> t3_stats" where
  "count_silent_close reason delay_ns st =
     (let st = reason st in
      type3_stats_record_probe_drop_ns (sint delay_ns)
        (st\<lparr>st_type3_silent_close := st_type3_silent_close st + 1\<rparr>))"

definition close_reason :: "t3_result \<Rightarrow> t3_stats \<Rightarrow> t3_stats" where
  "close_reason rc st =
     (case rc of
        T3_ERR_UNSUPPORTED_VERSION \<Rightarrow> st\<lparr>st_close_bad_version := st_close_bad_version st + 1\<rparr>
      | T3_ERR_MALFORMED \<Rightarrow> st\<lparr>st_close_unknown_cmd := st_close_unknown_cmd st + 1\<rparr>
      | T3_ERR_INVALID_ARG \<Rightarrow> st\<lparr>st_close_short := st_close_short st + 1\<rparr>
      | _ \<Rightarrow> st\<lparr>st_close_bad_flags := st_close_bad_flags st + 1\<rparr>)"

definition drop_connection ::
  "(t3_stats \<Rightarrow> t3_stats) \<Rightarrow> 'w dispatcher \<Rightarrow> dispatch_conn \<Rightarrow> bool \<times> 'w
     \<Rightarrow> ((type3_dispatch_outcome \<times> 'w dispatcher \<times> dispatch_conn) \<times> (bool \<times> 'w)) option" where
  "drop_connection reason d c w =
     do {
       (delay_ns, w') \<leftarrow> sample_silent_close_delay_ns d w;
       Some ((TYPE3_DISPATCH_DROP_SILENT, d\<lparr>g_stats := count_silent_close reason delay_ns (g_stats d)\<rparr>,
              type3_dispatch_silent_close c delay_ns), w')
     }"

definition rate_limited :: "t3_stats \<Rightarrow> t3_stats" where
  "rate_limited st = st\<lparr>st_close_rate_limited := st_close_rate_limited st + 1\<rparr>"

definition bad_header :: "t3_result \<Rightarrow> t3_stats \<Rightarrow> t3_stats" where
  "bad_header rc st = (let st = close_reason rc st in st\<lparr>st_type3_bad_header := st_type3_bad_header st + 1\<rparr>)"

definition accept_header ::
  "bool \<Rightarrow> bool \<Rightarrow> byte \<Rightarrow> 'w dispatcher \<Rightarrow> dispatch_conn \<Rightarrow> type3_dispatch_outcome \<times> 'w dispatcher \<times> dispatch_conn" where
  "accept_header bench_build bench_enabled cmd d c =
     (let st = g_stats d;
          st = st\<lparr>st_type3_accept := st_type3_accept st + 1, st_connections_active := st_connections_active st + 1\<rparr>;
          d = d\<lparr>g_stats := st\<rparr>; c = c\<lparr>dc_in := drop 4 (dc_in c)\<rparr> in
      if bench_build \<and> cmd = T3_CMD_BENCH \<and> bench_enabled then (TYPE3_DISPATCH_BENCH, d, c)
      else if cmd = T3_CMD_BENCH then (TYPE3_DISPATCH_DROP_SILENT, d, c)
      else (TYPE3_DISPATCH_ACCEPT, d, c))"

text \<open>\<open>bench_build\<close>: compiled with \<open>TELEPROTO3_BENCH\<close>; \<open>bench_enabled\<close>: \<open>g_bench_handler_enabled\<close>.\<close>

definition type3_dispatch_on_crypto_init ::
  "bool \<Rightarrow> bool \<Rightarrow> 'w dispatcher \<Rightarrow> dispatch_conn \<Rightarrow> bool \<times> 'w
     \<Rightarrow> ((type3_dispatch_outcome \<times> 'w dispatcher \<times> dispatch_conn) \<times> (bool \<times> 'w)) option" where
  "type3_dispatch_on_crypto_init bench_build bench_enabled d c w =
     (if g_ks_state d \<noteq> KS_IDLE then drop_connection rate_limited d c w
      else if length (dc_in c) < 4 then Some ((TYPE3_DISPATCH_PASSTHROUGH, d, c), w)
      else
        (let header_buf = take 4 (dc_in c) in
         if length header_buf \<noteq> 4 then Some ((TYPE3_DISPATCH_PASSTHROUGH, d, c), w)
         else
           (case t3_header_parse (Some header_buf) True of
              (T3_OK, Some hdr) \<Rightarrow> Some (accept_header bench_build bench_enabled (hdr_command_type hdr) d c, w)
            | (rc, _) \<Rightarrow> drop_connection (bad_header rc) d c w)))"

subsection \<open>Kill switch\<close>

text \<open>\<open>present\<close>: the marker file exists.\<close>

definition type3_dispatch_kill_switch_poll :: "bool \<Rightarrow> 'w dispatcher \<Rightarrow> 'w dispatcher" where
  "type3_dispatch_kill_switch_poll present d =
     (let new_state = (if \<not> present then KS_IDLE else if g_ks_hard_close d then KS_HARD_CLOSED else KS_DRAINING);
          old_state = g_ks_state d; d = d\<lparr>g_ks_state := new_state\<rparr> in
      if new_state \<noteq> old_state then d\<lparr>g_stats := (g_stats d)\<lparr>st_kill_switch_state := ks_code new_state\<rparr>\<rparr>
      else d)"

subsection \<open>Runs\<close>

text \<open>Everything that happens to the dispatcher, in any order: (re)initialisation with any mode and any
  failing allocation, clean-up, polls of the kill switch, and decisions on connections.\<close>

inductive dispatch_step :: "'w urandom \<Rightarrow> 'w dispatcher \<Rightarrow> 'w dispatcher \<Rightarrow> bool" for os where
  init: "type3_dispatch_init os mem mode d = (rc, d') \<Longrightarrow> dispatch_step os d d'"
| cleanup: "dispatch_step os d (type3_dispatch_cleanup d)"
| poll: "dispatch_step os d (type3_dispatch_kill_switch_poll present d)"
| conn: "type3_dispatch_on_crypto_init bb be d c w = Some ((outcome, d', c'), w') \<Longrightarrow> dispatch_step os d d'"

inductive dispatch_reachable :: "'w urandom \<Rightarrow> 'w dispatcher \<Rightarrow> bool" for os where
  boot: "dispatch_reachable os boot_dispatcher"
| step: "dispatch_reachable os d \<Longrightarrow> dispatch_step os d d' \<Longrightarrow> dispatch_reachable os d'"

definition bin_ok :: "int \<Rightarrow> bool" where
  "bin_ok b \<longleftrightarrow> 0 \<le> b \<and> b \<le> 500000000"

definition stats_ok :: "kill_switch_state \<Rightarrow> t3_stats \<Rightarrow> bool" where
  "stats_ok ks st \<longleftrightarrow> st_kill_switch_state st = ks_code ks \<and> st_close_bad_flags st = 0 \<and> st_close_short st = 0
     \<and> bin_ok (st_probe_p50 st) \<and> bin_ok (st_probe_p95 st) \<and> bin_ok (st_probe_p99 st)"

lemma update_histogram_bin_ok: "bin_ok (update_histogram_bin b ns up down)"
  by (auto simp: update_histogram_bin_def bin_ok_def Let_def)

lemma count_silent_close_ok:
  assumes "stats_ok ks (reason st)"
  shows "stats_ok ks (count_silent_close reason delay st)"
  using assms
  by (simp add: stats_ok_def count_silent_close_def type3_stats_record_probe_drop_ns_def Let_def update_histogram_bin_ok)

lemma header_parse_codes:
  "t3_header_parse (Some b) True = (rc, h) \<Longrightarrow>
     rc = T3_OK \<and> h \<noteq> None \<or> rc = T3_ERR_UNSUPPORTED_VERSION \<or> rc = T3_ERR_MALFORMED"
  by (auto simp: t3_header_parse_def Let_def split: if_splits)

lemma header_accepts:
  assumes "length b = 4"
  shows "fst (t3_header_parse (Some b) True) = T3_OK \<longleftrightarrow> b = [0x01, 0x01, 0, 0] \<or> b = [0x04, 0x01, 0, 0]"
proof -
  from assms obtain a0 a1 a2 a3 where "b = [a0, a1, a2, a3]" by (rule length4E)
  then show ?thesis
    by (auto simp: t3_header_parse_def Let_def t3_cmd_known_def t3_cmd_defs flags_word_eq_0 byte_gt_1)
qed

lemma drop_connectionE:
  assumes "drop_connection reason d c w = Some ((outcome, d', c'), w')"
  obtains delay where "sample_silent_close_delay_ns d w = Some (delay, w')" "outcome = TYPE3_DISPATCH_DROP_SILENT"
    "d' = d\<lparr>g_stats := count_silent_close reason delay (g_stats d)\<rparr>" "c' = type3_dispatch_silent_close c delay"
  using assms by (auto simp: drop_connection_def Option.bind_eq_Some_conv)

lemma dummy_secret_refused: "t3_secret_parse alloc (Some dummy_encoded) (length dummy_encoded) True = (T3_ERR_MALFORMED, None)"
  by (simp add: t3_secret_parse_def dummy_encoded_def)

lemma init_no_session:
  assumes "type3_dispatch_init os mem mode d = (rc, d')"
  shows "g_dispatch_session d' = g_dispatch_session d \<and> g_ks_state d' = g_ks_state d \<and> g_stats d' = g_stats d"
  using assms by (auto simp: type3_dispatch_init_def dummy_secret_refused Let_def split: option.splits)

lemma on_crypto_init_ok:
  assumes "type3_dispatch_on_crypto_init bb be d c w = Some ((outcome, d', c'), w')" "stats_ok (g_ks_state d) (g_stats d)"
  shows "g_dispatch_session d' = g_dispatch_session d \<and> g_ks_state d' = g_ks_state d \<and> stats_ok (g_ks_state d) (g_stats d')"
proof -
  have limited: "stats_ok (g_ks_state d) (rate_limited (g_stats d))"
    using assms(2) by (simp add: stats_ok_def rate_limited_def)
  have drop: ?thesis if "drop_connection reason d c w = Some ((outcome, d', c'), w')"
    "stats_ok (g_ks_state d) (reason (g_stats d))" for reason
    using that by (auto elim!: drop_connectionE intro: count_silent_close_ok)
  consider "g_ks_state d \<noteq> KS_IDLE" | "g_ks_state d = KS_IDLE" "length (dc_in c) < 4"
    | "g_ks_state d = KS_IDLE" "4 \<le> length (dc_in c)" by linarith
  then show ?thesis
  proof cases
    case 1
    with assms(1) show ?thesis by (intro drop [of rate_limited] limited) (simp add: type3_dispatch_on_crypto_init_def)
  next
    case 2
    with assms show ?thesis by (simp add: type3_dispatch_on_crypto_init_def)
  next
    case 3
    obtain rc h where p: "t3_header_parse (Some (take 4 (dc_in c))) True = (rc, h)" by force
    show ?thesis
    proof (cases "rc = T3_OK")
      case True
      with header_parse_codes [OF p] obtain hdr where "h = Some hdr" by auto
      with True 3 assms p show ?thesis
        by (auto simp: type3_dispatch_on_crypto_init_def accept_header_def Let_def stats_ok_def split: if_splits)
    next
      case False
      with header_parse_codes [OF p] have rc: "rc = T3_ERR_UNSUPPORTED_VERSION \<or> rc = T3_ERR_MALFORMED" by simp
      then have "stats_ok (g_ks_state d) (bad_header rc (g_stats d))"
        using assms(2) by (auto simp: stats_ok_def bad_header_def close_reason_def Let_def)
      moreover have "drop_connection (bad_header rc) d c w = Some ((outcome, d', c'), w')"
        using rc 3 assms(1) p by (auto simp: type3_dispatch_on_crypto_init_def)
      ultimately show ?thesis by (intro drop)
    qed
  qed
qed

text \<open>C34: the dispatcher's invariant, over everything that can happen to it in any order. The published
  kill-switch gauge is the state that decides; the three quantile estimates stay between 0 and half a
  second; two of the five published close reasons are never counted; and the session that should drive
  the random delay never exists, since the built-in secret has a marker the parser refuses.\<close>

theorem dispatcher_invariant:
  assumes "dispatch_reachable os d"
  shows "st_kill_switch_state (g_stats d) = ks_code (g_ks_state d)
    \<and> st_close_bad_flags (g_stats d) = 0 \<and> st_close_short (g_stats d) = 0
    \<and> list_all (\<lambda>b. 0 \<le> b \<and> b \<le> 500000000) [st_probe_p50 (g_stats d), st_probe_p95 (g_stats d), st_probe_p99 (g_stats d)]
    \<and> g_dispatch_session d = None"
proof -
  have "stats_ok (g_ks_state d) (g_stats d) \<and> g_dispatch_session d = None"
    using assms
  proof induction
    case boot
    show ?case by (simp add: boot_dispatcher_def zero_stats_def stats_ok_def bin_ok_def)
  next
    case (step d d')
    from step(2) show ?case
    proof cases
      case init
      with step(3) init_no_session [OF init] show ?thesis by simp
    next
      case cleanup
      with step(3) show ?thesis by (simp add: type3_dispatch_cleanup_def)
    next
      case poll
      with step(3) show ?thesis by (auto simp: type3_dispatch_kill_switch_poll_def Let_def stats_ok_def)
    next
      case conn
      with step(3) on_crypto_init_ok [OF conn] show ?thesis by simp
    qed
  qed
  then show ?thesis by (simp add: stats_ok_def bin_ok_def)
qed

definition no_urandom :: "unit urandom" where
  "no_urandom = \<lparr>os_open = (\<lambda>w. (False, w)), os_read = (\<lambda>_ w. (None, w))\<rparr>"

theorem dispatcher_invariant_witness:
  "g_dispatch_session (type3_dispatch_kill_switch_poll True (boot_dispatcher :: unit dispatcher)) = None"
proof -
  have "dispatch_reachable no_urandom (type3_dispatch_kill_switch_poll True (boot_dispatcher :: unit dispatcher))"
    by (rule dispatch_reachable.step [OF dispatch_reachable.boot dispatch_step.poll])
  then show ?thesis using dispatcher_invariant by blast
qed

subsection \<open>Every decision\<close>

text \<open>The delay sampler works: there is no session, or one with a live generator.\<close>

definition sampler_ok :: "'w dispatcher \<Rightarrow> bool" where
  "sampler_ok d \<longleftrightarrow>
     (case g_dispatch_session d of None \<Rightarrow> True | Some s \<Rightarrow> ses_callbacks_bound s \<and> rng_live (ses_cb s))"

lemma sample_delay_ok:
  assumes "sampler_ok d"
  shows "\<exists>v w'. sample_silent_close_delay_ns d w = Some (v, w') \<and> 50000000 \<le> unat v \<and> unat v \<le> 200000000"
proof (cases "g_dispatch_session d")
  case (Some s)
  with assms have "ses_callbacks_bound s" "rng_live (ses_cb s)" by (simp_all add: sampler_ok_def)
  from silent_close_delay_ok [OF this, of w] obtain v w' where
    "t3_silent_close_delay_sample_ns (Some s) True w = Some ((T3_OK, Some v), w')" "50000000 \<le> unat v" "unat v \<le> 200000000"
    by blast
  with Some show ?thesis by (simp add: sample_silent_close_delay_ns_def)
qed (simp add: sample_silent_close_delay_ns_def)

definition dropped :: "dispatch_conn \<Rightarrow> dispatch_conn \<Rightarrow> bool" where
  "dropped c c' \<longleftrightarrow> (\<exists>t. c' = c\<lparr>dc_timer := Some t\<rparr> \<and> 50000000 \<le> t \<and> t \<le> 200000000)"

lemma drop_connection_ok:
  assumes "sampler_ok d"
  shows "\<exists>d' c' w'. drop_connection reason d c w = Some ((TYPE3_DISPATCH_DROP_SILENT, d', c'), w') \<and> dropped c c'
    \<and> st_connections_active (g_stats d') = st_connections_active (reason (g_stats d))"
proof -
  from sample_delay_ok [OF assms, of w] obtain v w' where
    v: "sample_silent_close_delay_ns d w = Some (v, w')" "50000000 \<le> unat v" "unat v \<le> 200000000" by blast
  have "dropped c (type3_dispatch_silent_close c v)"
    using v(2,3) by (auto simp: dropped_def type3_dispatch_silent_close_def Let_def)
  with v(1) show ?thesis
    by (simp add: drop_connection_def count_silent_close_def type3_stats_record_probe_drop_ns_def Let_def)
qed

lemma dispatch_refuses:
  assumes "sampler_ok d" "g_ks_state d = KS_IDLE" "4 \<le> length (dc_in c)"
    and "\<not> (take 4 (dc_in c) = [0x01, 0x01, 0, 0] \<or> take 4 (dc_in c) = [0x04, 0x01, 0, 0])"
  shows "\<exists>d' c' w'. type3_dispatch_on_crypto_init bb be d c w = Some ((TYPE3_DISPATCH_DROP_SILENT, d', c'), w')
    \<and> dropped c c' \<and> st_connections_active (g_stats d') = st_connections_active (g_stats d)"
proof -
  obtain rc h where p: "t3_header_parse (Some (take 4 (dc_in c))) True = (rc, h)" by force
  have "length (take 4 (dc_in c)) = 4" using assms(3) by simp
  with header_accepts [OF this] assms(4) p have "rc \<noteq> T3_OK" by simp
  with header_parse_codes [OF p] have rc: "rc = T3_ERR_UNSUPPORTED_VERSION \<or> rc = T3_ERR_MALFORMED" by simp
  then have active: "st_connections_active (bad_header rc (g_stats d)) = st_connections_active (g_stats d)"
    by (auto simp: bad_header_def close_reason_def Let_def)
  have "type3_dispatch_on_crypto_init bb be d c w = drop_connection (bad_header rc) d c w"
    using rc assms(2,3) p by (auto simp: type3_dispatch_on_crypto_init_def)
  with drop_connection_ok [OF assms(1), of "bad_header rc" c w] active show ?thesis by simp
qed

text \<open>C7: every decision of the dispatcher. With a working sampler the call returns. While the kill switch is
  on, every connection is dropped; with fewer than four bytes the connection is passed on untouched.
  Otherwise exactly the passthrough header is accepted, exactly the bench header goes to the bench handler
  where there is one, both with the header consumed and the connection counted as active, and anything
  else is dropped. A drop leaves the input unread and closes after 50 to 200 milliseconds, except for a
  bench header without a handler, which is dropped with no timer and stays counted as active.\<close>

theorem dispatch_decision:
  assumes "sampler_ok d"
  shows "\<exists>outcome d' c' w'. type3_dispatch_on_crypto_init bb be d c w = Some ((outcome, d', c'), w') \<and>
    (if g_ks_state d \<noteq> KS_IDLE then outcome = TYPE3_DISPATCH_DROP_SILENT \<and> dropped c c'
     else if length (dc_in c) < 4 then outcome = TYPE3_DISPATCH_PASSTHROUGH \<and> c' = c \<and> d' = d
     else if take 4 (dc_in c) = [0x01, 0x01, 0, 0] \<or> take 4 (dc_in c) = [0x04, 0x01, 0, 0] then
       outcome = (if dc_in c ! 0 = 0x01 then TYPE3_DISPATCH_ACCEPT
                  else if bb \<and> be then TYPE3_DISPATCH_BENCH else TYPE3_DISPATCH_DROP_SILENT)
       \<and> c' = c\<lparr>dc_in := drop 4 (dc_in c)\<rparr>
       \<and> st_connections_active (g_stats d') = st_connections_active (g_stats d) + 1
     else outcome = TYPE3_DISPATCH_DROP_SILENT \<and> dropped c c'
       \<and> st_connections_active (g_stats d') = st_connections_active (g_stats d))"
proof -
  consider "g_ks_state d \<noteq> KS_IDLE" | "g_ks_state d = KS_IDLE" "length (dc_in c) < 4"
    | "g_ks_state d = KS_IDLE" "4 \<le> length (dc_in c)" by linarith
  then show ?thesis
  proof cases
    case 1
    with drop_connection_ok [OF assms, of rate_limited c w] show ?thesis
      by (auto simp: type3_dispatch_on_crypto_init_def)
  next
    case 2
    then show ?thesis by (simp add: type3_dispatch_on_crypto_init_def)
  next
    case 3
    let ?h = "take 4 (dc_in c)"
    have len: "length ?h = 4" using 3 by simp
    then have first: "?h ! 0 = dc_in c ! 0" by simp
    obtain rc h where p: "t3_header_parse (Some ?h) True = (rc, h)" by force
    have iff: "rc = T3_OK \<longleftrightarrow> ?h = [0x01, 0x01, 0, 0] \<or> ?h = [0x04, 0x01, 0, 0]"
      using header_accepts [OF len] p by simp
    show ?thesis
    proof (cases "rc = T3_OK")
      case True
      with t3_header_parse_OK [OF len] p have "h = Some \<lparr>hdr_command_type = dc_in c ! 0, hdr_version = 0x01, hdr_flags = 0\<rparr>"
        by (simp add: first)
      moreover have "dc_in c ! 0 = 0x01 \<or> dc_in c ! 0 = 0x04" using iff True by (metis first nth_Cons_0)
      ultimately show ?thesis
        using True 3 p iff by (auto simp: type3_dispatch_on_crypto_init_def accept_header_def Let_def t3_cmd_defs)
    next
      case False
      with iff dispatch_refuses [OF assms 3, of bb be w] 3 show ?thesis by auto
    qed
  qed
qed

theorem dispatch_decision_witness:
  "\<exists>outcome d' c' w'. type3_dispatch_on_crypto_init False False (boot_dispatcher :: unit dispatcher)
      \<lparr>dc_in = [0x01, 0x01, 0, 0, 7], dc_timer = None\<rparr> (False, ()) = Some ((outcome, d', c'), w')
    \<and> outcome = TYPE3_DISPATCH_ACCEPT \<and> dc_in c' = [7]"
proof -
  have "sampler_ok (boot_dispatcher :: unit dispatcher)" by (simp add: sampler_ok_def boot_dispatcher_def)
  from dispatch_decision [OF this, of False False "\<lparr>dc_in = [0x01, 0x01, 0, 0, 7], dc_timer = None\<rparr>" "(False, ())"]
  show ?thesis by (auto simp: boot_dispatcher_def)
qed

end
