(* ===== verification/T3_Client_Crypto.thy ===== *)
theory T3_Client_Crypto
  imports T3_Random T3_Cipher
begin

unbundle bit_operations_syntax

text \<open>
  The client's obfuscated2 handshake, \<open>lib/src/t3_client_crypto.c\<close>. \<open>RAND_bytes\<close> is a function of an
  entropy state, \<open>SHA256\<close> and the AES keystream are parameters, and \<open>evp k\<close> says whether the
  \<open>k\<close>-th fallible OpenSSL call of the routine whose result is tested succeeds. The result of the
  encryption of the header (line 119) is not tested, and it is taken to succeed: the model does not say
  which bytes are sent after a failure, when the buffer is uninitialised. A cipher context pointer is NULL, live, or left
  pointing at freed memory.
\<close>

datatype ctx_ptr = CtxNull | CtxLive aes_ctx | CtxFreed

type_synonym sha256_fn = "bytes \<Rightarrow> bytes"

definition reserved_prefix :: "bytes \<Rightarrow> bool" where
  "reserved_prefix header \<longleftrightarrow>
     header ! 0 = 0xef
     \<or> le_nat (take 4 header) = 0x44414548
     \<or> le_nat (take 4 header) = 0x54534f50
     \<or> le_nat (take 4 header) = 0x20544547
     \<or> le_nat (take 4 header) = 0x4954504f
     \<or> le_nat (take 4 header) = 0xeeeeeeee
     \<or> le_nat (take 4 header) = 0xdddddddd
     \<or> le_nat (take 4 header) = 0xefefefef
     \<or> le_nat (take 4 (drop 4 header)) = 0x00000000"

text \<open>Storing some bytes at an offset.\<close>

definition put :: "nat \<Rightarrow> bytes \<Rightarrow> bytes \<Rightarrow> bytes" where
  "put off xs b = take off b @ xs @ drop (off + length xs) b"

lemma length_put [simp]: "off + length xs \<le> length b \<Longrightarrow> length (put off xs b) = length b"
  by (simp add: put_def)

definition stamp_header :: "u16 \<Rightarrow> bool \<Rightarrow> bytes \<Rightarrow> bytes" where
  "stamp_header dc_id tunnel header =
     put 60 (if tunnel then [0x53, 0x53] else le_bytes 2 (unat dc_id))
       (put 56 [0xdd, 0xdd, 0xdd, 0xdd] (put 0 [0x01, 0x01, 0x01, 0x00] header))"

definition gen_obfs2_init ::
  "keystream \<Rightarrow> sha256_fn \<Rightarrow> ('w \<Rightarrow> bytes option \<times> 'w) \<Rightarrow> (nat \<Rightarrow> bool) \<Rightarrow> bytes \<Rightarrow> u16 \<Rightarrow> bool
   \<Rightarrow> ctx_ptr \<Rightarrow> ctx_ptr \<Rightarrow> 'w \<Rightarrow> (((int \<times> bytes option) \<times> ctx_ptr \<times> ctx_ptr) \<times> 'w) option" where
  "gen_obfs2_init ks sha256_hash RAND_bytes evp secret dc_id tunnel encrypt_ctx decrypt_ctx w =
     do {
       (drawn, w') \<leftarrow> draw_until (\<lambda>w. Some (RAND_bytes w)) (\<lambda>h. \<not> reserved_prefix h) w;
       Some (
         (case drawn of
            None \<Rightarrow> ((-1, None), encrypt_ctx, decrypt_ctx)
          | Some raw \<Rightarrow>
              (let header = stamp_header dc_id tunnel raw;
                   write_key = sha256_hash (take 32 (drop 8 header) @ secret);
                   write_iv = take 16 (drop 40 header);
                   raw_key = map (\<lambda>i. header ! (55 - i)) [0..<32];
                   read_iv = map (\<lambda>i. header ! (23 - i)) [0..<16];
                   read_key = sha256_hash (raw_key @ secret) in
               if \<not> evp 0 \<or> \<not> evp 1 then ((-1, None), encrypt_ctx, decrypt_ctx)
               else
                 (let (encrypted, tmp) = ctr_crypt ks (aes_init write_key write_iv) header;
                      header_out = take 56 header @ drop 56 encrypted in
                  if \<not> evp 2 then ((-1, Some header_out), CtxFreed, CtxNull)
                  else if \<not> evp 3 then ((-1, Some header_out), CtxFreed, CtxFreed)
                  else ((0, Some header_out), CtxLive tmp, CtxLive (aes_init read_key read_iv))))),
         w')
     }"

definition t3c_obfs2_generate_init where
  "t3c_obfs2_generate_init ks sha rand evp secret dc_id e d w =
     gen_obfs2_init ks sha rand evp secret dc_id False e d w"

definition t3c_obfs2_generate_init_tunnel where
  "t3c_obfs2_generate_init_tunnel ks sha rand evp secret e d w =
     gen_obfs2_init ks sha rand evp secret 0 True e d w"

text \<open>
  \<open>None\<close> is a use of freed memory. \<open>update\<close> says whether \<open>EVP_CipherUpdate\<close> succeeds on so many bytes.
\<close>

definition t3c_aes_crypt ::
  "keystream \<Rightarrow> (nat \<Rightarrow> bool) \<Rightarrow> ctx_ptr option \<Rightarrow> bytes \<Rightarrow> (int \<times> bytes option \<times> ctx_ptr option) option" where
  "t3c_aes_crypt ks update ctx inp =
     (case ctx of
        None \<Rightarrow> Some (-1, None, ctx)
      | Some CtxNull \<Rightarrow> Some (-1, None, ctx)
      | Some CtxFreed \<Rightarrow> (if inp = [] then Some (-1, None, ctx) else None)
      | Some (CtxLive c) \<Rightarrow>
          if inp = [] then Some (-1, None, ctx)
          else if \<not> update (length inp) then Some (-1, None, ctx)
          else (let (out, c') = ctr_crypt ks c inp in Some (0, Some out, Some (CtxLive c'))))"

definition t3c_aes_ctx_free :: "ctx_ptr option \<Rightarrow> ctx_ptr option option" where
  "t3c_aes_ctx_free ctx =
     (case ctx of
        None \<Rightarrow> Some None
      | Some CtxNull \<Rightarrow> Some (Some CtxNull)
      | Some (CtxLive _) \<Rightarrow> Some (Some CtxNull)
      | Some CtxFreed \<Rightarrow> None)"

subsection \<open>What a generated header is\<close>

lemma length_stamp_header [simp]: "length h = 64 \<Longrightarrow> length (stamp_header dc t h) = 64"
  by (simp add: stamp_header_def)

lemma stamp_header_tail:
  "length h = 64 \<Longrightarrow> take 4 (drop 56 (stamp_header dc t h)) = [0xdd, 0xdd, 0xdd, 0xdd]"
  "length h = 64 \<Longrightarrow>
     take 2 (drop 60 (stamp_header dc t h)) = (if t then [0x53, 0x53] else le_bytes 2 (unat dc))"
  by (simp_all add: stamp_header_def put_def)

text \<open>Every generated header starts with the session header of the passthrough command, with the padding
  flag set.\<close>

lemma gen_obfs2_init_session_header:
  assumes "gen_obfs2_init ks sha rand evp secret dc t e0 d0 w = Some (((0, Some hdr), e, d), w')"
    and "\<And>w b w'. rand w = (Some b, w') \<Longrightarrow> length b = 64"
  shows "take 4 hdr = [0x01, 0x01, 0x01, 0x00]" "4 \<le> length hdr"
proof -
  from assms(1) obtain drawn where draw: "draw_until (\<lambda>w. Some (rand w)) (\<lambda>h. \<not> reserved_prefix h) w = Some (drawn, w')"
    by (auto simp: gen_obfs2_init_def Option.bind_eq_Some_conv)
  with assms(1) obtain raw where raw: "drawn = Some raw"
    by (cases drawn) (auto simp: gen_obfs2_init_def)
  have "length raw = 64" using draw_until_post(2) [OF draw [unfolded raw]] assms(2) by auto
  moreover obtain z where "hdr = take 56 (stamp_header dc t raw) @ z"
    using assms(1) by (auto simp: gen_obfs2_init_def draw raw Let_def split: if_splits prod.splits)
  ultimately show "take 4 hdr = [0x01, 0x01, 0x01, 0x00]" "4 \<le> length hdr"
    by (simp_all add: stamp_header_def put_def)
qed

text \<open>What a successful run returns, in terms of the stamped header.\<close>

lemma gen_obfs2_init_success:
  assumes "gen_obfs2_init ks sha rand evp secret dc t e0 d0 w = Some (((0, Some hdr), e, d), w')"
    and "\<And>w b w'. rand w = (Some b, w') \<Longrightarrow> length b = 64"
  obtains h where "length h = 64" "take 4 (drop 56 h) = [0xdd, 0xdd, 0xdd, 0xdd]"
    "take 2 (drop 60 h) = (if t then [0x53, 0x53] else le_bytes 2 (unat dc))"
    "hdr = take 56 h @ drop 56 (fst (ctr_crypt ks
        (aes_init (sha (take 32 (drop 8 h) @ secret)) (take 16 (drop 40 h))) h))"
    "e = CtxLive (snd (ctr_crypt ks
        (aes_init (sha (take 32 (drop 8 h) @ secret)) (take 16 (drop 40 h))) h))"
    "d = CtxLive (aes_init (sha (map (\<lambda>i. h ! (55 - i)) [0..<32] @ secret)) (map (\<lambda>i. h ! (23 - i)) [0..<16]))"
proof -
  from assms(1) obtain drawn where draw: "draw_until (\<lambda>w. Some (rand w)) (\<lambda>h. \<not> reserved_prefix h) w = Some (drawn, w')"
    by (auto simp: gen_obfs2_init_def Option.bind_eq_Some_conv)
  with assms(1) obtain raw where raw: "drawn = Some raw"
    by (cases drawn) (auto simp: gen_obfs2_init_def)
  let ?h = "stamp_header dc t raw"
  have "length raw = 64"
    using draw_until_post(2) [OF draw [unfolded raw]] assms(2) by auto
  then show thesis
    using assms(1)
    by (intro that [of ?h])
      (auto simp: gen_obfs2_init_def draw raw Let_def stamp_header_tail split: if_splits prod.splits)
qed

text \<open>With OpenSSL working, an acceptable draw is all it takes.\<close>

lemma gen_obfs2_init_ok:
  assumes "draw_until (\<lambda>w. Some (rand w)) (\<lambda>h. \<not> reserved_prefix h) w = Some (Some raw, w')" "\<And>k. evp k"
  shows "\<exists>hdr e d. gen_obfs2_init ks sha rand evp secret dc t e0 d0 w = Some (((0, Some hdr), CtxLive e, CtxLive d), w')"
  using assms by (simp add: gen_obfs2_init_def Let_def split: prod.split)

text \<open>
  When the second context cannot be set up, the first one is freed but the caller's pointer keeps its
  address: releasing the pair as on every other failure frees it twice.
\<close>

lemma gen_obfs2_init_dangling:
  assumes "draw_until (\<lambda>w. Some (rand w)) (\<lambda>h. \<not> reserved_prefix h) w = Some (Some raw, w')"
    and "evp 0" "evp 1" "\<not> evp 2"
  shows "\<exists>hdr. gen_obfs2_init ks sha rand evp secret dc t e0 d0 w = Some (((-1, hdr), CtxFreed, CtxNull), w')
    \<and> t3c_aes_ctx_free (Some CtxFreed) = None"
  using assms by (simp add: gen_obfs2_init_def Let_def t3c_aes_ctx_free_def split: prod.split)

end
