(* ===== verification/Srv_Obfs2.thy ===== *)
theory Srv_Obfs2
  imports T3_Client_Crypto
begin

unbundle bit_operations_syntax

text \<open>
  The server's side of the obfuscated2 handshake and its packet lengths,
  \<open>server/src/net/net-obfs2-parse.c\<close>, and the packet writers of
  \<open>server/src/net/net-tcp-rpc-common.c\<close>.
\<close>

subsection \<open>Handshake\<close>

definition OBFS2_TAG_PAD :: nat where "OBFS2_TAG_PAD = 0xdddddddd"
definition OBFS2_TAG_MEDIUM :: nat where "OBFS2_TAG_MEDIUM = 0xeeeeeeee"
definition OBFS2_TAG_COMPACT :: nat where "OBFS2_TAG_COMPACT = 0xefefefef"

lemmas obfs2_tags = OBFS2_TAG_PAD_def OBFS2_TAG_MEDIUM_def OBFS2_TAG_COMPACT_def

record aes_key_data =
  kd_read_key :: bytes
  kd_read_iv :: bytes
  kd_write_key :: bytes
  kd_write_iv :: bytes

record obfs2_parse_result =
  or_tag :: nat
  or_dc :: int
  or_secret_id :: nat
  or_keys :: aes_key_data

text \<open>The keys of one attempt; no secret is the mode without secrets.\<close>

definition derive_keys :: "sha256_fn \<Rightarrow> bytes \<Rightarrow> bytes option \<Rightarrow> aes_key_data" where
  "derive_keys sha256 header secret =
     (let raw_read = take 32 (drop 8 header);
          raw_write = map (\<lambda>i. header ! (55 - i)) [0..<32];
          key = (\<lambda>raw. case secret of None \<Rightarrow> raw | Some s \<Rightarrow> sha256 (raw @ s)) in
      \<lparr>kd_read_key = key raw_read, kd_read_iv = take 16 (drop 40 header),
       kd_write_key = key raw_write, kd_write_iv = map (\<lambda>i. header ! (23 - i)) [0..<16]\<rparr>)"

definition tag_accepted :: "bool \<Rightarrow> nat \<Rightarrow> bool" where
  "tag_accepted rand_pad_only tag \<longleftrightarrow>
     tag = OBFS2_TAG_PAD \<or> (tag = OBFS2_TAG_MEDIUM \<or> tag = OBFS2_TAG_COMPACT) \<and> \<not> rand_pad_only"

fun obfs2_try ::
  "keystream \<Rightarrow> sha256_fn \<Rightarrow> bytes \<Rightarrow> bool \<Rightarrow> nat \<Rightarrow> bytes option list \<Rightarrow> (obfs2_parse_result \<times> bytes) option" where
  "obfs2_try ks sha256 header rand_pad_only sid [] = None"
| "obfs2_try ks sha256 header rand_pad_only sid (secret # rest) =
     (let kd = derive_keys sha256 header secret;
          dec = fst (ctr_crypt ks (aes_init (kd_read_key kd) (kd_read_iv kd)) header);
          tag = le_nat (take 4 (drop 56 dec)) in
      if tag_accepted rand_pad_only tag then
        Some (\<lparr>or_tag = tag, or_dc = sint (word_of_nat (le_nat (take 2 (drop 60 dec))) :: u16),
               or_secret_id = sid, or_keys = kd\<rparr>, dec)
      else obfs2_try ks sha256 header rand_pad_only (sid + 1) rest)"

text \<open>The result, if any, and the header afterwards: decrypted on success, restored on failure.\<close>

definition obfs2_parse_header ::
  "keystream \<Rightarrow> sha256_fn \<Rightarrow> bytes \<Rightarrow> bytes list \<Rightarrow> bool \<Rightarrow> obfs2_parse_result option \<times> bytes" where
  "obfs2_parse_header ks sha256 header secrets rand_pad_only =
     (case obfs2_try ks sha256 header rand_pad_only 0
             (if secrets = [] then [None] else map Some secrets) of
        None \<Rightarrow> (None, header)
      | Some (r, dec) \<Rightarrow> (Some r, dec))"

lemma obfs2_try_None_at: "obfs2_try ks sha h p sid [s] = None \<longleftrightarrow> obfs2_try ks sha h p 0 [s] = None"
  by (simp add: Let_def)

lemma obfs2_try_skip:
  "\<forall>s \<in> set ss. obfs2_try ks sha h p 0 [s] = None \<Longrightarrow>
     obfs2_try ks sha h p sid (ss @ rest) = obfs2_try ks sha h p (sid + length ss) rest"
proof (induction ss arbitrary: sid)
  case (Cons s ss)
  then have "obfs2_try ks sha h p sid (s # (ss @ rest)) = obfs2_try ks sha h p (sid + 1) (ss @ rest)"
    by (simp add: Let_def split: if_splits)
  with Cons show ?case by simp
qed simp

lemma obfs2_parse_single:
  "fst (obfs2_parse_header ks sha h [s] p) = None \<longleftrightarrow> obfs2_try ks sha h p 0 [Some s] = None"
  unfolding obfs2_parse_header_def by (simp del: obfs2_try.simps split: option.splits)

text \<open>Decryption undoes the encryption of the last eight bytes.\<close>

lemma tail_decrypts:
  assumes "length h = 64"
  shows "drop 56 (fst (ctr_crypt ks c (take 56 h @ drop 56 (fst (ctr_crypt ks c h))))) = drop 56 h"
proof -
  let ?f = "ks (ctx_key c) (ctx_iv c)" and ?o = "ctx_pos c"
  have "drop 56 (xor_stream ?f ?o (take 56 h @ drop 56 (xor_stream ?f ?o h)))
      = xor_stream ?f (?o + 56) (drop 56 (take 56 h @ drop 56 (xor_stream ?f ?o h)))"
    by (rule drop_xor_stream)
  also have "drop 56 (take 56 h @ drop 56 (xor_stream ?f ?o h)) = xor_stream ?f (?o + 56) (drop 56 h)"
    using assms by (simp add: drop_xor_stream)
  finally show ?thesis by (simp add: ctr_crypt_def)
qed

text \<open>The keys come from the part of the header that is sent in the clear.\<close>

lemma derive_keys_clear:
  assumes "length h = 64" "length t = 8"
  shows "derive_keys sha (take 56 h @ t) s = derive_keys sha h s"
proof -
  have "map (\<lambda>i. (take 56 h @ t) ! (55 - i)) [0..<32] = map (\<lambda>i. h ! (55 - i)) [0..<32]"
    "map (\<lambda>i. (take 56 h @ t) ! (23 - i)) [0..<16] = map (\<lambda>i. h ! (23 - i)) [0..<16]"
    using assms by (auto simp: nth_append)
  moreover have "take 32 (drop 8 (take 56 h @ t)) = take 32 (drop 8 h)"
    "take 16 (drop 40 (take 56 h @ t)) = take 16 (drop 40 h)"
    using assms by (simp_all add: drop_take min_def)
  ultimately show ?thesis by (simp only: derive_keys_def Let_def)
qed

lemma sint_dc: "sint (word_of_nat (le_nat (le_bytes 2 (unat (dc :: u16)))) :: u16) = sint dc"
proof -
  have "unat dc < 256 ^ 2" using unsigned_less [of dc, where ?'a = nat] by simp
  then show ?thesis by simp
qed

lemma take_take_drop_drop: "take 2 (drop 60 h) = take 2 (drop 4 (drop 56 h))" for h :: bytes
  by simp

text \<open>C1: client and server agree. Whatever header the client generates with one of the server's
  secrets, the server, unless an earlier secret already yields a valid tag, recognises that secret,
  the padded tag and the data centre (or the tunnel sentinel), and both ends hold the same cipher
  contexts: the client's sending context is the server's reading context after the 64 header bytes,
  and the client's receiving context is the server's fresh writing context.\<close>

theorem obfs2_agreement:
  assumes "gen_obfs2_init ks sha rand evp secret dc tunnel e0 d0 w = Some (((0, Some hdr), e, d), w')"
    and "\<And>w b w'. rand w = (Some b, w') \<Longrightarrow> length b = 64"
    and "secrets = earlier @ secret # later"
    and "\<forall>s \<in> set earlier. fst (obfs2_parse_header ks sha hdr [s] pad_only) = None"
  shows "\<exists>r plain. obfs2_parse_header ks sha hdr secrets pad_only = (Some r, plain)
    \<and> or_tag r = OBFS2_TAG_PAD \<and> or_secret_id r = length earlier
    \<and> or_dc r = (if tunnel then 0x5353 else sint dc)
    \<and> e = CtxLive (snd (ctr_crypt ks (aes_init (kd_read_key (or_keys r)) (kd_read_iv (or_keys r))) hdr))
    \<and> d = CtxLive (aes_init (kd_write_key (or_keys r)) (kd_write_iv (or_keys r)))"
proof -
  obtain h where h: "length h = 64"
    "take 4 (drop 56 h) = [0xdd, 0xdd, 0xdd, 0xdd]"
    "take 2 (drop 60 h) = (if tunnel then [0x53, 0x53] else le_bytes 2 (unat dc))"
    and hdr: "hdr = take 56 h @ drop 56 (fst (ctr_crypt ks
        (aes_init (sha (take 32 (drop 8 h) @ secret)) (take 16 (drop 40 h))) h))"
    and e: "e = CtxLive (snd (ctr_crypt ks
        (aes_init (sha (take 32 (drop 8 h) @ secret)) (take 16 (drop 40 h))) h))"
    and d: "d = CtxLive (aes_init (sha (map (\<lambda>i. h ! (55 - i)) [0..<32] @ secret)) (map (\<lambda>i. h ! (23 - i)) [0..<16]))"
    by (rule gen_obfs2_init_success [OF assms(1,2)])
  define kd where "kd = derive_keys sha hdr (Some secret)"
  let ?c = "aes_init (kd_read_key kd) (kd_read_iv kd)"
  define dec where "dec = fst (ctr_crypt ks ?c hdr)"
  have "kd = derive_keys sha h (Some secret)"
    unfolding kd_def hdr using h(1) by (intro derive_keys_clear) simp_all
  then have kd: "kd_read_key kd = sha (take 32 (drop 8 h) @ secret)" "kd_read_iv kd = take 16 (drop 40 h)"
    "kd_write_key kd = sha (map (\<lambda>i. h ! (55 - i)) [0..<32] @ secret)"
    "kd_write_iv kd = map (\<lambda>i. h ! (23 - i)) [0..<16]"
    by (simp_all add: derive_keys_def Let_def)
  have "drop 56 dec = drop 56 h"
    unfolding dec_def using tail_decrypts [OF h(1), of ks ?c] by (simp add: kd flip: hdr)
  then have tag: "le_nat (take 4 (drop 56 dec)) = OBFS2_TAG_PAD"
    and dc: "sint (word_of_nat (le_nat (take 2 (drop 60 dec))) :: u16) = (if tunnel then 0x5353 else sint dc)"
    using h(2,3) unfolding take_take_drop_drop [of dec] take_take_drop_drop [of h]
    by (simp_all add: obfs2_tags sint_dc)
  let ?r = "\<lparr>or_tag = OBFS2_TAG_PAD, or_dc = if tunnel then 0x5353 else sint dc,
      or_secret_id = length earlier, or_keys = kd\<rparr>"
  have "\<forall>s \<in> set (map Some earlier). obfs2_try ks sha hdr pad_only 0 [s] = None"
    using assms(4) unfolding obfs2_parse_single by (simp del: obfs2_try.simps)
  from obfs2_try_skip [OF this, of 0 "Some secret # map Some later"]
  have "obfs2_parse_header ks sha hdr secrets pad_only = (Some ?r, dec)"
    using tag dc
    by (simp add: obfs2_parse_header_def assms(3) Let_def tag_accepted_def flip: kd_def dec_def)
  moreover have "snd (ctr_crypt ks ?c hdr) = snd (ctr_crypt ks ?c h)"
    using h(1) by (intro snd_ctr_crypt_length) (simp add: hdr)
  ultimately show ?thesis using e d by (simp add: kd)
qed

lemma plain_draw: "\<not> reserved_prefix (replicate 64 0x11)"
proof -
  have "take 4 (replicate 64 (0x11 :: byte)) = [0x11, 0x11, 0x11, 0x11]"
    "take 4 (drop 4 (replicate 64 (0x11 :: byte))) = [0x11, 0x11, 0x11, 0x11]"
    "replicate 64 (0x11 :: byte) ! 0 = 0x11" by code_simp+
  then show ?thesis unfolding reserved_prefix_def by simp
qed

theorem obfs2_agreement_witness:
  "\<exists>r plain hdr.
     obfs2_parse_header (\<lambda>_ _ i. word_of_nat i) (\<lambda>k. take 32 k) hdr [replicate 16 7] True = (Some r, plain)
     \<and> or_tag r = OBFS2_TAG_PAD \<and> or_dc r = -2"
proof -
  have "\<exists>r plain hdr. obfs2_parse_header ks sha hdr [s] True = (Some r, plain)
     \<and> or_tag r = OBFS2_TAG_PAD \<and> or_dc r = sint (-2 :: u16)" for ks sha s
  proof -
    obtain raw where raw: "length raw = 64" "\<not> reserved_prefix raw"
      by (rule that [OF length_replicate plain_draw])
    define rand where "rand = (\<lambda>w :: unit. (Some raw, w))"
    have "draw_until (\<lambda>w. Some (rand w)) (\<lambda>h. \<not> reserved_prefix h) () = Some (Some raw, ())"
      using raw(2) by (intro draw_until_step(3)) (simp_all add: rand_def)
    from gen_obfs2_init_ok [OF this, of "\<lambda>_. True" ks sha s "-2" False CtxNull CtxNull]
    obtain hdr e d where "gen_obfs2_init ks sha rand (\<lambda>_. True) s (-2) False CtxNull CtxNull ()
      = Some (((0, Some hdr), CtxLive e, CtxLive d), ())" by blast
    note agree = obfs2_agreement [OF this, of "[s]" "[]" "[]" True]
    have len: "length b = 64" if "rand w = (Some b, w')" for w b w' using that raw(1) by (simp add: rand_def)
    from agree [OF len] show ?thesis by (simp del: obfs2_try.simps) blast
  qed
  from this [of "\<lambda>_ _ i. word_of_nat i" "\<lambda>k. take 32 k" "replicate 16 7"] show ?thesis
    by simp
qed

subsection \<open>Packet lengths\<close>

definition RPC_F_PAD :: u32 where "RPC_F_PAD = 0x8000000"
definition RPC_F_MEDIUM :: u32 where "RPC_F_MEDIUM = 0x20000000"
definition RPC_F_COMPACT :: u32 where "RPC_F_COMPACT = 0x40000000"
definition RPC_F_QUICKACK :: u32 where "RPC_F_QUICKACK = 0x80000000"

record obfs2_frame_result =
  fr_packet_len :: int
  fr_header_bytes :: nat
  fr_quickack :: bool

text \<open>The two encodings of the length: the 32-bit value, the header size, the quick-ack bit.\<close>

definition frame_length_medium :: "u32 \<Rightarrow> (u32 \<times> nat \<times> bool) option" where
  "frame_length_medium raw4 =
     (if sint raw4 < 0 \<and> sint raw4 > -1000 then None
      else Some (raw4 AND NOT RPC_F_QUICKACK, 4, raw4 AND RPC_F_QUICKACK \<noteq> 0))"

definition frame_length_compact :: "u32 \<Rightarrow> (u32 \<times> nat \<times> bool) option" where
  "frame_length_compact raw4 =
     (let quickack = (raw4 AND 0x80 \<noteq> 0);
          packet_len = (if quickack then raw4 AND NOT 0x80 else raw4) in
      if packet_len AND 0xff = 0x7f then
        (let packet_len = drop_bit 8 packet_len in
         if sint packet_len < 0x7f then None else Some (push_bit 2 packet_len, 4, quickack))
      else Some (push_bit 2 (packet_len AND 0x7f), 1, quickack))"

definition obfs2_parse_frame_length :: "u32 \<Rightarrow> u32 \<Rightarrow> int \<Rightarrow> obfs2_frame_result option" where
  "obfs2_parse_frame_length raw4 flags max_packet_len =
     do {
       (packet_len, packet_len_bytes, quickack) \<leftarrow>
         (if flags AND RPC_F_MEDIUM \<noteq> 0 then frame_length_medium raw4 else frame_length_compact raw4);
       (if sint packet_len \<le> 0 \<or> packet_len AND 0xc0000000 \<noteq> 0 then None
        else if flags AND RPC_F_PAD = 0 \<and> packet_len AND 3 \<noteq> 0 then None
        else if max_packet_len > 0 \<and> sint packet_len > max_packet_len then None
        else Some \<lparr>fr_packet_len = sint packet_len, fr_header_bytes = packet_len_bytes, fr_quickack = quickack\<rparr>)
     }"

subsection \<open>Packet writers\<close>

text \<open>
  The part of a connection the writers use. \<open>lrand48_j\<close> and the checksum are parameters; \<open>None\<close> is a
  failed assertion.
\<close>

record rpc_conn =
  rc_flags :: u32
  rc_out_packet_num :: u32
  rc_tls_uninit :: bool
  rc_out :: bytes

definition tcp_rpc_write_packet :: "(bytes \<Rightarrow> u32) \<Rightarrow> rpc_conn \<Rightarrow> bytes \<Rightarrow> rpc_conn" where
  "tcp_rpc_write_packet crc c raw =
     (if rc_flags c AND (RPC_F_COMPACT OR RPC_F_MEDIUM) = 0 then
        (let Q = le_bytes 4 (length raw + 12) @ le_bytes 4 (unat (rc_out_packet_num c));
             r = Q @ raw in
         c\<lparr>rc_out_packet_num := rc_out_packet_num c + 1,
           rc_out := rc_out c @ r @ le_bytes 4 (unat (crc r))\<rparr>)
      else c)"

definition tcp_rpc_write_packet_compact ::
  "(bytes \<Rightarrow> u32) \<Rightarrow> u32 \<Rightarrow> u32 \<Rightarrow> rpc_conn \<Rightarrow> bytes \<Rightarrow> rpc_conn option" where
  "tcp_rpc_write_packet_compact crc x y c raw =
     (if length raw = 5 then
        (if raw ! 0 = 0xdd then Some (c\<lparr>rc_out := rc_out c @ drop 1 raw\<rparr>) else None)
      else if rc_tls_uninit c then Some (c\<lparr>rc_out := rc_out c @ raw\<rparr>)
      else if rc_flags c AND (RPC_F_COMPACT OR RPC_F_MEDIUM) = 0 then Some (tcp_rpc_write_packet crc c raw)
      else
        (let pad = rc_flags c AND RPC_F_PAD \<noteq> 0;
             raw1 = (if pad then raw @ take (unat (y AND 3)) (le_bytes 4 (unat x)) else raw);
             len = length raw1 in
         if \<not> len < 2 ^ 26 then None
         else if \<not> pad \<and> len mod 4 \<noteq> 0 then None
         else
           (let head = (if rc_flags c AND RPC_F_MEDIUM \<noteq> 0 then le_bytes 4 len
                        else if len \<le> 0x7e * 4 then le_bytes 1 (len div 4)
                        else le_bytes 4 (unat (push_bit 6 (word_of_nat len :: u32) OR 0x7f))) in
            Some (c\<lparr>rc_out := rc_out c @ head @ raw1\<rparr>))))"

subsection \<open>Lengths on the wire\<close>

lemma frame_masks: "(0xc0000000 :: u32) = push_bit 30 3" "(0x80000000 :: u32) = push_bit 31 1"
  "(3 :: u32) = mask 2" "(0x7f :: u32) = mask 7" "(0xff :: u32) = mask 8" "(0x80 :: u32) = push_bit 7 1"
  by (simp_all add: mask_eq_exp_minus_1 push_bit_eq_mult)

lemma unat_high_clear:
  assumes "x AND 0xc0000000 = (0 :: u32)"
  shows "unat x < 2 ^ 30"
proof -
  have "(NOT 0xc0000000 :: u32) = mask 30" by code_simp
  with and_not_id [OF assms] have "x AND mask 30 = x" by simp
  then have "unat x = unat x mod 2 ^ 30" using unat_and_mask [of x 30] by simp
  then show ?thesis by (metis mod_less_divisor zero_less_numeral zero_less_power)
qed

lemma frame_length_facts:
  assumes "obfs2_parse_frame_length raw4 flags max_len = Some r"
  shows "0 < fr_packet_len r" "fr_packet_len r < 2 ^ 30" "fr_header_bytes r \<in> {1, 4}"
    "max_len > 0 \<longrightarrow> fr_packet_len r \<le> max_len" "flags AND RPC_F_PAD = 0 \<longrightarrow> 4 dvd fr_packet_len r"
proof -
  from assms obtain x n q where
    e: "(if flags AND RPC_F_MEDIUM \<noteq> 0 then frame_length_medium raw4 else frame_length_compact raw4) = Some (x, n, q)"
    and x: "0 < sint x" "x AND 0xc0000000 = 0" "flags AND RPC_F_PAD = 0 \<longrightarrow> x AND 3 = 0"
      "max_len > 0 \<longrightarrow> sint x \<le> max_len"
    and r: "r = \<lparr>fr_packet_len = sint x, fr_header_bytes = n, fr_quickack = q\<rparr>"
    unfolding obfs2_parse_frame_length_def
    by (auto simp: Option.bind_eq_Some_conv not_le not_less split: if_splits)
  have u: "unat x < 2 ^ 30" by (rule unat_high_clear [OF x(2)])
  then have s: "sint x = int (unat x)" by (intro sint_small) simp
  show "0 < fr_packet_len r" "max_len > 0 \<longrightarrow> fr_packet_len r \<le> max_len" using x by (simp_all add: r)
  have "int (unat x) < int (2 ^ 30)" using u by (simp only: of_nat_less_iff)
  then have "int (unat x) < 2 ^ 30" by (simp only: of_nat_power of_nat_numeral)
  then show "fr_packet_len r < 2 ^ 30" by (simp only: r s obfs2_frame_result.simps)
  show "fr_header_bytes r \<in> {1, 4}"
    using e by (auto simp: r frame_length_medium_def frame_length_compact_def Let_def split: if_splits)
  show "flags AND RPC_F_PAD = 0 \<longrightarrow> 4 dvd fr_packet_len r"
  proof
    assume "flags AND RPC_F_PAD = 0"
    with x(3) have "x AND mask 2 = 0" by (simp add: mask_eq_exp_minus_1)
    with unat_and_mask [of x 2] have "unat x mod 4 = 0" by simp
    then have "4 dvd int (unat x)" by presburger
    then show "4 dvd fr_packet_len r" by (simp only: r s obfs2_frame_result.simps)
  qed
qed

text \<open>What the length parser lets through. A packet length it returns is positive and below
  \<open>2^30\<close>, within the configured maximum, a multiple of four unless padding was negotiated, and the
  header is one or four bytes long.\<close>

lemma frame_length_bounds:
  assumes "obfs2_parse_frame_length raw4 flags max_len = Some r"
  shows "0 < fr_packet_len r \<and> fr_packet_len r < 2 ^ 30 \<and> fr_header_bytes r \<in> {1, 4}
    \<and> (max_len > 0 \<longrightarrow> fr_packet_len r \<le> max_len) \<and> (flags AND RPC_F_PAD = 0 \<longrightarrow> 4 dvd fr_packet_len r)"
  using frame_length_facts [OF assms] by blast

lemma u32_eqI: "unat x = unat y \<Longrightarrow> x = y" for x y :: u32
  by (rule unsigned_word_eqI)

lemma unat_of_nat_u32: "n < 2 ^ 32 \<Longrightarrow> unat (word_of_nat n :: u32) = n"
  by (simp add: unat_of_nat)

lemma low_byte_and: "x AND 0x80 = (x AND mask 8) AND (0x80 :: u32)"
proof -
  have "(0x80 :: u32) = mask 8 AND 0x80" by (simp add: mask_eq_exp_minus_1)
  then show ?thesis by (metis and.assoc)
qed

lemma accept_length:
  assumes "unat x < 2 ^ 30" "0 < unat x" "flags AND RPC_F_PAD = 0 \<Longrightarrow> unat x mod 4 = 0"
    and "(if flags AND RPC_F_MEDIUM \<noteq> 0 then frame_length_medium raw4 else frame_length_compact raw4) = Some (x, n, q)"
  shows "obfs2_parse_frame_length raw4 flags 0 =
    Some \<lparr>fr_packet_len = int (unat x), fr_header_bytes = n, fr_quickack = q\<rparr>"
proof -
  have s: "sint x = int (unat x)" using assms(1) by (intro sint_small) simp
  have "x AND push_bit 30 3 = 0" by (rule and_high_zero [OF assms(1)])
  then have high: "x AND 0xc0000000 = 0" by (simp add: push_bit_eq_mult)
  have low: "x AND 3 = 0" if "flags AND RPC_F_PAD = 0"
  proof -
    have "unat (x AND mask 2) = 0" unfolding unat_and_mask using assms(3) [OF that] by simp
    then show ?thesis by (simp add: mask_eq_exp_minus_1 unat_eq_zero)
  qed
  have pos: "\<not> sint x \<le> 0" using assms(2) unfolding s by linarith
  show ?thesis
    unfolding obfs2_parse_frame_length_def assms(4) using pos high low by (simp add: s)
qed

lemma medium_length:
  assumes "n < 2 ^ 26"
  shows "frame_length_medium (word_of_nat n) = Some (word_of_nat n, 4, False)"
proof -
  have u: "unat (word_of_nat n :: u32) = n" using assms by (simp add: unat_of_nat)
  have "(word_of_nat n :: u32) AND push_bit 31 1 = 0" using assms by (intro and_high_zero) (simp add: u)
  then have z: "(word_of_nat n :: u32) AND RPC_F_QUICKACK = 0"
    by (simp add: RPC_F_QUICKACK_def push_bit_eq_mult)
  have "sint (word_of_nat n :: u32) = int n" using assms by (intro sint_of_nat_u32) simp
  then show ?thesis using z and_not_id [OF z] by (simp add: frame_length_medium_def)
qed

lemma compact_short:
  assumes "unat x mod 256 = k" "k < 0x7f"
  shows "frame_length_compact x = Some (word_of_nat (4 * k), 1, False)"
proof -
  have m: "unat (x AND mask 8) = k" using unat_and_mask [of x 8] assms(1) by simp
  have "(x AND mask 8) AND push_bit 7 1 = 0" using m assms(2) by (intro and_high_zero) simp
  then have "(x AND mask 8) AND 0x80 = 0" by (simp only: frame_masks)
  then have q: "x AND 0x80 = 0" by (simp only: low_byte_and [of x])
  have "x AND mask 8 \<noteq> 0x7f"
  proof
    assume "x AND mask 8 = 0x7f"
    with m assms(2) show False by simp
  qed
  then have f: "x AND 0xff \<noteq> 0x7f" by (simp add: mask_eq_exp_minus_1)
  have "unat x mod 256 mod 128 = unat x mod 128" by (rule mod_mod_cancel) simp
  then have "unat x mod 128 = k" using assms by simp
  then have m7: "unat (x AND mask 7) = k" using unat_and_mask [of x 7] by simp
  have m7': "x AND mask 7 = word_of_nat k"
    using m7 assms(2) by (intro u32_eqI) (simp add: unat_of_nat_u32)
  have "(word_of_nat k :: u32) * 4 = word_of_nat (4 * k)" by simp
  then have "push_bit 2 (x AND 0x7f) = word_of_nat (4 * k)"
    using m7' by (simp add: mask_eq_exp_minus_1 push_bit_eq_mult)
  with q f show ?thesis by (simp add: frame_length_compact_def Let_def)
qed

lemma compact_long:
  assumes "unat x = 256 * k + 0x7f" "0x7f \<le> k" "k < 2 ^ 24"
  shows "frame_length_compact x = Some (word_of_nat (4 * k), 4, False)"
proof -
  have m: "unat (x AND mask 8) = 0x7f" using unat_and_mask [of x 8] assms(1) by simp
  then have eq: "x AND mask 8 = 0x7f" by (intro u32_eqI) simp
  have "(x AND mask 8) AND push_bit 7 1 = 0" using m by (intro and_high_zero) simp
  then have "(x AND mask 8) AND 0x80 = 0" by (simp only: frame_masks)
  then have q: "x AND 0x80 = 0" by (simp only: low_byte_and [of x])
  have f: "x AND 0xff = 0x7f" using eq by (simp add: mask_eq_exp_minus_1)
  have d: "unat (drop_bit 8 x) = k" using unat_drop_bit8 [of x] assms(1) by simp
  then have s: "sint (drop_bit 8 x) = int k" using assms(3) sint_small [of "drop_bit 8 x"] by simp
  have "drop_bit 8 x = word_of_nat k" using d assms(3) by (intro u32_eqI) (simp add: unat_of_nat_u32)
  then have "push_bit 2 (drop_bit 8 x) = word_of_nat (4 * k)" by (simp add: push_bit_eq_mult)
  with q f s assms(2) show ?thesis by (simp add: frame_length_compact_def Let_def)
qed

lemma long_header:
  assumes "k < 2 ^ 24"
  shows "unat (push_bit 6 (word_of_nat (4 * k) :: u32) OR 0x7f) = 256 * k + 0x7f"
proof -
  have p: "push_bit 6 (word_of_nat (4 * k) :: u32) = push_bit 8 (word_of_nat k)"
    by (simp add: push_bit_eq_mult)
  have "(0x7f :: u32) AND push_bit 8 (word_of_nat k) = 0" by (intro and_high_zero) simp
  then have "push_bit 8 (word_of_nat k) AND (0x7f :: u32) = 0" by (simp only: and.commute)
  then have "push_bit 8 (word_of_nat k) OR (0x7f :: u32) = push_bit 8 (word_of_nat k) + 0x7f"
    by (rule disjunctive_add_eq_or [symmetric])
  also have "\<dots> = word_of_nat (256 * k + 0x7f)" by (simp add: push_bit_eq_mult)
  finally have eq: "push_bit 8 (word_of_nat k) OR (0x7f :: u32) = word_of_nat (256 * k + 0x7f)" .
  show ?thesis unfolding p eq using assms by (intro unat_of_nat_u32) simp
qed

lemma le_nat_head: "le_nat (b # bs) mod 256 = unat b"
  by simp

lemma le_nat_take4: "le_nat (take 4 bs) < 2 ^ 32"
proof -
  have "length (take 4 bs) \<le> 4" by simp
  then have "(256 :: nat) ^ length (take 4 bs) \<le> 256 ^ 4" by (rule power_increasing) simp
  moreover have "(256 :: nat) ^ 4 = 2 ^ 32" by simp
  ultimately show ?thesis using le_nat_less [of "take 4 bs"] by linarith
qed

text \<open>The head the writer puts before a packet of \<open>n\<close> bytes, and how the parser reads it.\<close>

lemma head_parses:
  assumes n: "0 < n" "n < 2 ^ 26" "flags AND RPC_F_PAD = 0 \<Longrightarrow> n mod 4 = 0"
    and mode: "flags AND RPC_F_PAD \<noteq> 0 \<Longrightarrow> flags AND RPC_F_MEDIUM \<noteq> 0" and body: "length body = n"
    and head: "head = (if flags AND RPC_F_MEDIUM \<noteq> 0 then le_bytes 4 n
        else if n \<le> 0x7e * 4 then le_bytes 1 (n div 4)
        else le_bytes 4 (unat (push_bit 6 (word_of_nat n :: u32) OR 0x7f)))"
  shows "obfs2_parse_frame_length (word_of_nat (le_nat (take 4 (head @ body)))) flags 0 =
    Some \<lparr>fr_packet_len = int n, fr_header_bytes = length head, fr_quickack = False\<rparr>"
proof -
  let ?raw = "word_of_nat (le_nat (take 4 (head @ body))) :: u32"
  have u: "unat (word_of_nat n :: u32) = n" using n(2) by (intro unat_of_nat_u32) simp
  have ok: ?thesis
    if "(if flags AND RPC_F_MEDIUM \<noteq> 0 then frame_length_medium ?raw else frame_length_compact ?raw)
        = Some (word_of_nat n, length head, False)"
    using accept_length [OF _ _ _ that] u n by simp
  show ?thesis
  proof (cases "flags AND RPC_F_MEDIUM \<noteq> 0")
    case True
    then have h: "head = le_bytes 4 n" by (simp add: head)
    then have "?raw = word_of_nat n" using n(2) by simp
    with True medium_length [OF n(2)] show ?thesis by (intro ok) (simp add: h)
  next
    case False
    then have "n mod 4 = 0" using mode n(3) by blast
    then obtain k where k: "n = 4 * k" by blast
    show ?thesis
    proof (cases "n \<le> 0x7e * 4")
      case True
      then have h: "head = [word_of_nat k]" using False by (simp add: head k)
      then have t: "take 4 (head @ body) = word_of_nat k # take 3 body" by simp
      have "le_nat (take 4 (head @ body)) < 2 ^ 32"
        by (rule le_nat_take4)
      then have "unat ?raw mod 256 = k"
        using True by (simp only: unat_of_nat_u32 t le_nat_head) (simp add: k unat_word_of_nat_byte)
      from compact_short [OF this] True False show ?thesis by (intro ok) (simp add: h k)
    next
      case long: False
      let ?w = "push_bit 6 (word_of_nat n :: u32) OR 0x7f"
      have h: "head = le_bytes 4 (unat ?w)" using long False by (simp add: head)
      have "?raw = ?w"
      proof -
        have "unat ?w < 256 ^ 4" using unsigned_less [of ?w, where ?'a = nat] by simp
        then have "le_nat (take 4 (head @ body)) = unat ?w" by (simp add: h)
        then show ?thesis by simp
      qed
      moreover have "unat ?w = 256 * k + 0x7f" using long_header [of k] n(2) by (simp add: k)
      ultimately have "frame_length_compact ?raw = Some (word_of_nat (4 * k), 4, False)"
        using long n(2) k by (intro compact_long) auto
      with False show ?thesis by (intro ok) (simp add: h k)
    qed
  qed
qed

text \<open>Packets the server writes are read back. In the compact and the (padded) intermediate mode
  the length parser recovers from the first four bytes of a written packet the header size and the
  packet length, without the quick-ack bit; behind the header comes the message, with fewer than four
  bytes of padding, which are added only in the padded mode.\<close>

lemma compact_packet_roundtrip:
  assumes "tcp_rpc_write_packet_compact crc x y c raw = Some c'"
    and "raw \<noteq> []" "length raw \<noteq> 5" "\<not> rc_tls_uninit c"
    and "rc_flags c AND (RPC_F_COMPACT OR RPC_F_MEDIUM) \<noteq> 0"
    and "rc_flags c AND RPC_F_PAD \<noteq> 0 \<longrightarrow> rc_flags c AND RPC_F_MEDIUM \<noteq> 0"
  shows "\<exists>r head pad. rc_out c' = rc_out c @ head @ raw @ pad
    \<and> obfs2_parse_frame_length (word_of_nat (le_nat (take 4 (head @ raw @ pad)))) (rc_flags c) 0 = Some r
    \<and> fr_header_bytes r = length head \<and> fr_packet_len r = int (length (raw @ pad)) \<and> \<not> fr_quickack r
    \<and> length pad < 4 \<and> (rc_flags c AND RPC_F_PAD = 0 \<longrightarrow> pad = [])"
proof -
  define pad where "pad = (if rc_flags c AND RPC_F_PAD \<noteq> 0 then take (unat (y AND 3)) (le_bytes 4 (unat x)) else [])"
  let ?n = "length (raw @ pad)"
  define head where "head = (if rc_flags c AND RPC_F_MEDIUM \<noteq> 0 then le_bytes 4 ?n
        else if ?n \<le> 0x7e * 4 then le_bytes 1 (?n div 4)
        else le_bytes 4 (unat (push_bit 6 (word_of_nat ?n :: u32) OR 0x7f)))"
  have raw1: "(if rc_flags c AND RPC_F_PAD \<noteq> 0 then raw @ take (unat (y AND 3)) (le_bytes 4 (unat x)) else raw) = raw @ pad"
    by (simp add: pad_def)
  have "tcp_rpc_write_packet_compact crc x y c raw =
      (if \<not> ?n < 2 ^ 26 then None
       else if \<not> rc_flags c AND RPC_F_PAD \<noteq> 0 \<and> ?n mod 4 \<noteq> 0 then None
       else Some (c\<lparr>rc_out := rc_out c @ head @ (raw @ pad)\<rparr>))"
    using assms(3-5) unfolding tcp_rpc_write_packet_compact_def raw1 Let_def head_def by simp
  with assms(1) have n: "?n < 2 ^ 26" "rc_flags c AND RPC_F_PAD = 0 \<Longrightarrow> ?n mod 4 = 0"
    and out: "rc_out c' = rc_out c @ head @ (raw @ pad)"
    by (auto split: if_splits)
  have "0 < ?n" using assms(2) by simp
  from head_parses [OF this n _ refl head_def] assms(6)
  have "obfs2_parse_frame_length (word_of_nat (le_nat (take 4 (head @ raw @ pad)))) (rc_flags c) 0 =
      Some \<lparr>fr_packet_len = int ?n, fr_header_bytes = length head, fr_quickack = False\<rparr>" by blast
  moreover have "unat (y AND 3) < 4" using unat_and_mask [of y 2] by (simp add: mask_eq_exp_minus_1)
  then have "length pad < 4" by (simp add: pad_def)
  moreover have "rc_flags c AND RPC_F_PAD = 0 \<longrightarrow> pad = []" by (simp add: pad_def)
  ultimately show ?thesis using out by (intro exI) auto
qed

end
