(* ===== verification/Srv_Precrypto.thy ===== *)
theory Srv_Precrypto
  imports Srv_Connection Srv_Dispatch Srv_Obfs2
begin

text \<open>
  The parser of an HTTP stream before its keys are set: the part of \<open>tcp_rpcs_compact_parse_execute\<close>
  (\<open>server/src/net/net-tcp-rpc-ext-server.c\<close>, lines 1808 to 1848, 1866 to 1886 and 2196 to 2266) between
  the POST request and the first packet, with the dispatcher of \<open>Srv_Dispatch\<close>, the header parser of
  \<open>Srv_Obfs2\<close>, and the reader of \<open>Srv_Connection\<close> that calls it.
\<close>

subsection \<open>The dispatcher's decision\<close>

text \<open>Outcome and remaining input, for a server without the bench build. The kill switch is the only
  part of the dispatcher's state that matters.\<close>

definition http_dispatch :: "kill_switch_state \<Rightarrow> bytes \<Rightarrow> type3_dispatch_outcome \<times> bytes" where
  "http_dispatch kill inp =
     (case type3_dispatch_on_crypto_init False False ((boot_dispatcher :: unit dispatcher)\<lparr>g_ks_state := kill\<rparr>)
             \<lparr>dc_in = inp, dc_timer = None\<rparr> (False, ()) of
        Some ((outcome, _, c), _) \<Rightarrow> (outcome, dc_in c)
      | None \<Rightarrow> (TYPE3_DISPATCH_PASSTHROUGH, inp))"

definition dispatched :: "kill_switch_state \<Rightarrow> bytes \<Rightarrow> type3_dispatch_outcome \<times> bytes" where
  "dispatched kill inp =
     (if kill \<noteq> KS_IDLE then (TYPE3_DISPATCH_DROP_SILENT, inp)
      else if length inp < 4 then (TYPE3_DISPATCH_PASSTHROUGH, inp)
      else if take 4 inp = [0x01, 0x01, 0, 0] then (TYPE3_DISPATCH_ACCEPT, drop 4 inp)
      else if take 4 inp = [0x04, 0x01, 0, 0] then (TYPE3_DISPATCH_DROP_SILENT, drop 4 inp)
      else (TYPE3_DISPATCH_DROP_SILENT, inp))"

lemma dispatch_input:
  assumes "type3_dispatch_on_crypto_init False False d c w = Some ((outcome, d', c'), w')"
  shows "(outcome, dc_in c') = dispatched (g_ks_state d) (dc_in c)"
proof -
  have drop: "outcome = TYPE3_DISPATCH_DROP_SILENT \<and> dc_in c' = dc_in c"
    if "drop_connection reason d c w = Some ((outcome, d', c'), w')" for reason
    using that by (auto elim!: drop_connectionE simp: type3_dispatch_silent_close_def Let_def)
  consider "g_ks_state d \<noteq> KS_IDLE" | "g_ks_state d = KS_IDLE" "length (dc_in c) < 4"
    | "g_ks_state d = KS_IDLE" "4 \<le> length (dc_in c)" by linarith
  then show ?thesis
  proof cases
    case 1
    with assms drop [of rate_limited] show ?thesis
      by (simp add: dispatched_def type3_dispatch_on_crypto_init_def)
  next
    case 2
    with assms show ?thesis by (simp add: dispatched_def type3_dispatch_on_crypto_init_def)
  next
    case 3
    let ?h = "take 4 (dc_in c)"
    have len: "length ?h = 4" using 3 by simp
    then have first: "?h ! 0 = dc_in c ! 0" by simp
    obtain rc h where p: "t3_header_parse (Some ?h) True = (rc, h)" by force
    have iff: "rc = T3_OK \<longleftrightarrow> ?h = [0x01, 0x01, 0, 0] \<or> ?h = [0x04, 0x01, 0, 0]"
      using header_accepts [OF len] p by simp
    show ?thesis
    proof (cases "rc = T3_OK")
      case True
      with t3_header_parse_OK [OF len] p have h: "h = Some \<lparr>hdr_command_type = dc_in c ! 0, hdr_version = 0x01, hdr_flags = 0\<rparr>"
        by (simp add: first)
      from iff True consider "?h = [0x01, 0x01, 0, 0]" "dc_in c ! 0 = 0x01"
        | "?h = [0x04, 0x01, 0, 0]" "dc_in c ! 0 = 0x04" by (metis first nth_Cons_0)
      then show ?thesis
        using True 3 p assms h
        by cases (auto simp: dispatched_def type3_dispatch_on_crypto_init_def accept_header_def Let_def t3_cmd_defs)
    next
      case False
      with header_parse_codes [OF p] have "rc = T3_ERR_UNSUPPORTED_VERSION \<or> rc = T3_ERR_MALFORMED" by simp
      then have "drop_connection (bad_header rc) d c w = Some ((outcome, d', c'), w')"
        using assms 3 p by (auto simp: type3_dispatch_on_crypto_init_def)
      with drop [of "bad_header rc"] False iff 3 show ?thesis by (simp add: dispatched_def)
    qed
  qed
qed

lemma dispatch_returns:
  assumes "sampler_ok d"
  shows "\<exists>out. type3_dispatch_on_crypto_init bb be d c w = Some out"
proof -
  consider "g_ks_state d \<noteq> KS_IDLE" | "g_ks_state d = KS_IDLE" "length (dc_in c) < 4"
    | "g_ks_state d = KS_IDLE" "4 \<le> length (dc_in c)" by linarith
  then show ?thesis
  proof cases
    case 1
    with drop_connection_ok [OF assms, of rate_limited c w] show ?thesis
      by (auto simp: type3_dispatch_on_crypto_init_def)
  next
    case 2
    then show ?thesis by (simp add: type3_dispatch_on_crypto_init_def)
  next
    case 3
    obtain rc h where p: "t3_header_parse (Some (take 4 (dc_in c))) True = (rc, h)" by force
    show ?thesis
    proof (cases "rc = T3_OK")
      case True
      with header_parse_codes [OF p] obtain hdr where "h = Some hdr" by auto
      with True 3 p show ?thesis
        by (cases "accept_header bb be (hdr_command_type hdr) d c") (simp add: type3_dispatch_on_crypto_init_def)
    next
      case False
      moreover have "length (take 4 (dc_in c)) = 4" using 3 by simp
      ultimately show ?thesis
        using dispatch_refuses [OF assms 3, of bb be w] header_accepts [of "take 4 (dc_in c)"] p by auto
    qed
  qed
qed

lemma http_dispatch_cases: "http_dispatch kill inp = dispatched kill inp"
proof -
  let ?d = "(boot_dispatcher :: unit dispatcher)\<lparr>g_ks_state := kill\<rparr>" and ?c = "\<lparr>dc_in = inp, dc_timer = None\<rparr>"
  have "sampler_ok ?d" by (simp add: sampler_ok_def boot_dispatcher_def)
  from dispatch_returns [OF this, of False False ?c "(False, ())"]
  obtain out where out: "type3_dispatch_on_crypto_init False False ?d ?c (False, ()) = Some out" by auto
  obtain outcome d' c' w' where "out = ((outcome, d', c'), w')" by (cases out) auto
  with out dispatch_input [of ?d ?c "(False, ())" outcome d' c' w'] show ?thesis
    by (simp add: http_dispatch_def boot_dispatcher_def)
qed

text \<open>Every dispatcher decides like this one.\<close>

lemma http_dispatch_any:
  "type3_dispatch_on_crypto_init False False d c w = Some ((outcome, d', c'), w') \<Longrightarrow>
     http_dispatch (g_ks_state d) (dc_in c) = (outcome, dc_in c')"
  using dispatch_input [of d c w outcome d' c' w'] by (simp add: http_dispatch_cases)

subsection \<open>The parser\<close>

text \<open>
  What the parser uses of the server: the cipher and the hash, the secrets of the slots in use, the
  kill switch, whether TLS domains are set (\<open>ext_secret_cnt > 0 && allow_only_tls\<close>); and the code it goes
  on with, which is not modelled here: \<open>he_tls\<close>, the answer to a TLS ClientHello; \<open>he_after\<close>, what follows
  the header on a connection whose keys are set (the checks of the secret, then packets or the
  connection to the data centre); \<open>he_packets\<close>, the parser of a connection with keys.
  The PROXY protocol, which is stripped at this point too, is off; neither \<open>TELEPROTO3_BENCH\<close> nor
  \<open>__ALLOW_UNOBFS__\<close> is defined. \<open>RPC_F_MEDIUM\<close> is not set before the header, so \<open>min_len\<close> is 1.
\<close>

record http_env =
  he_ks :: keystream
  he_sha :: sha256_fn
  he_mem :: "nat \<Rightarrow> bool"
  he_secrets :: "bytes list"
  he_pad_only :: bool
  he_kill :: kill_switch_state
  he_only_tls :: bool
  he_tls :: "sconn \<Rightarrow> (int \<times> sconn) option"
  he_after :: "obfs2_parse_result \<Rightarrow> sconn \<Rightarrow> (int \<times> sconn) option"
  he_packets :: "sconn \<Rightarrow> (int \<times> sconn) option"

definition client_hello :: "http_env \<Rightarrow> bytes \<Rightarrow> bool" where
  "client_hello env inp \<longleftrightarrow> he_only_tls env \<and> take 3 inp = [0x16, 0x03, 0x01] \<and> 2 \<le> sint (inp ! 3)"

text \<open>The keys are set, the context is advanced past the header, plain output is moved out of the
  cipher's way and the input behind the header is put back to be decrypted.\<close>

definition set_keys :: "keystream \<Rightarrow> obfs2_parse_result \<Rightarrow> sconn \<Rightarrow> sconn" where
  "set_keys ks r s =
     (let c = sc_conn s; kd = or_keys r;
          read_key = snd (ctr_crypt ks (aes_init (kd_read_key kd) (kd_read_iv kd)) (take 64 (tc_in c))) in
      s\<lparr>sc_crypto := True,
        sc_conn := c\<lparr>tc_read_key := read_key, tc_write_key := aes_init (kd_write_key kd) (kd_write_iv kd),
                     tc_out_p := tc_out_p c @ tc_out c, tc_out := [],
                     tc_in_u := tc_in_u c @ drop 64 (tc_in c), tc_in := []\<rparr>\<rparr>)"

definition random_header :: "http_env \<Rightarrow> sconn \<Rightarrow> (int \<times> sconn) option" where
  "random_header env s =
     (let inp = tc_in (sc_conn s) in
      case obfs2_parse_header (he_ks env) (he_sha env) (take 64 inp) (he_secrets env) (he_pad_only env) of
        (None, _) \<Rightarrow> Some (- 0x10000000, s)
      | (Some r, _) \<Rightarrow>
          do {
            (rc, c) \<leftarrow> decrypt_input (he_ks env) (he_mem env) (sc_conn (set_keys (he_ks env) r s));
            (let s1 = (set_keys (he_ks env) r s)\<lparr>sc_conn := c\<rparr> in
             if rc < 0 then Some (0, s1\<lparr>sc_conn := c\<lparr>tc_failed := Some (-1)\<rparr>\<rparr>) else he_after env r s1)
          })"

definition http_precrypto_execute :: "http_env \<Rightarrow> sconn \<Rightarrow> (int \<times> sconn) option" where
  "http_precrypto_execute env s =
     (if sc_crypto s then he_packets env s
      else if tc_in (sc_conn s) = [] then Some (NEED_MORE_BYTES, s)
      else
        (let (outcome, inp) = http_dispatch (he_kill env) (tc_in (sc_conn s));
             s1 = s\<lparr>sc_conn := (sc_conn s)\<lparr>tc_in := inp\<rparr>\<rparr>; len = length inp in
         if outcome = TYPE3_DISPATCH_DROP_SILENT then Some (SKIP_ALL_BYTES, s1)
         else if tc_failed (sc_conn s) \<noteq> None then Some (NEED_MORE_BYTES, s1)
         else if len = 0 then Some (NEED_MORE_BYTES, s1)
         else if len < 9 then Some (9 - int len, s1)
         else if client_hello env inp then he_tls env s1
         else if len < 64 then Some (64 - int len, s1)
         else random_header env s1))"

text \<open>The methods the reader calls on such a connection.\<close>

definition http_methods :: "http_env \<Rightarrow> conn_type \<Rightarrow> bool" where
  "http_methods env ct \<longleftrightarrow> ct_decrypt ct = decrypt_input (he_ks env) (he_mem env)
     \<and> ct_data_received ct = None \<and> ct_parse_execute ct = http_precrypto_execute env"

definition precrypto_conn :: "tconn \<Rightarrow> sconn \<Rightarrow> bool" where
  "precrypto_conn c s \<longleftrightarrow> sc_conn s = c \<and> \<not> sc_crypto s \<and> \<not> conn_broken s \<and> \<not> sc_stopread s
     \<and> sc_status s \<noteq> conn_error \<and> sc_skip s = 0 \<and> sc_in_queue s = []"

subsection \<open>Refused headers\<close>

lemma execute_refused:
  assumes "\<not> sc_crypto s" "4 \<le> length (tc_in (sc_conn s))"
    and "he_kill env \<noteq> KS_IDLE \<or> take 4 (tc_in (sc_conn s)) \<noteq> [0x01, 0x01, 0, 0]"
  shows "\<exists>inp. http_precrypto_execute env s = Some (SKIP_ALL_BYTES, s\<lparr>sc_conn := (sc_conn s)\<lparr>tc_in := inp\<rparr>\<rparr>)
    \<and> length inp \<le> length (tc_in (sc_conn s))"
proof -
  have ne: "tc_in (sc_conn s) \<noteq> []" using assms(2) by auto
  obtain outcome inp where d: "http_dispatch (he_kill env) (tc_in (sc_conn s)) = (outcome, inp)" by force
  then have "outcome = TYPE3_DISPATCH_DROP_SILENT" "length inp \<le> length (tc_in (sc_conn s))"
    using assms(2,3) by (auto simp: http_dispatch_cases dispatched_def split: if_splits)
  with d ne assms(1) show ?thesis
    by (intro exI [of _ inp]) (simp add: http_precrypto_execute_def)
qed

lemma parse_loop_answer:
  assumes "sc_skip s = 0" "\<not> conn_broken s" "\<not> sc_stopread s" "sc_status s \<noteq> conn_error" "tc_in (sc_conn s) \<noteq> []"
    and "parse s = Some (res, s1)" "res \<noteq> 0"
  shows "parse_loop parse s = Some (parsed res s1)"
  using assms by (subst parse_loop.simps) simp

text \<open>C31: a refused header takes the server down. On an HTTP stream without chunks the parser answers \<open>SKIP_ALL_BYTES\<close> to any first four bytes other than the session header, and
  to all of them while the kill switch is on; the reader stores that number, and on its next run, whatever has
  arrived by then and also if nothing has, the number of bytes to skip is still negative after its sign
  is changed, and the assertion in \<open>rwm_skip_data\<close> fails. Only the timer set with the refusal, which closes the
  connection after 50 to 200 milliseconds, can come first.\<close>

theorem refused_header_aborts:
  assumes "http_methods env ct" "precrypto_conn c s" "tc_mode c = TRANSPORT_MODE_HTTP_STREAM_RAW" "tc_in_u c = []"
    and "4 \<le> length (tc_in c @ seg)" "he_kill env \<noteq> KS_IDLE \<or> take 4 (tc_in c @ seg) \<noteq> [0x01, 0x01, 0, 0]"
  shows "\<exists>s'. cpu_tcp_server_reader ct (s\<lparr>sc_in_queue := [seg]\<rparr>) = Some (Returned 0 s')
    \<and> sc_skip s' = SKIP_ALL_BYTES \<and> \<not> conn_broken s'
    \<and> cpu_tcp_server_reader ct (s'\<lparr>sc_in_queue := queued\<rparr>) = Some Assertion_failed"
proof -
  let ?c = "c\<lparr>tc_in := tc_in c @ seg\<rparr>" and ?s = "s\<lparr>sc_in_queue := [], sc_conn := c\<lparr>tc_in := tc_in c @ seg\<rparr>\<rparr>"
  note ct = assms(1) [unfolded http_methods_def] and s = assms(2) [unfolded precrypto_conn_def]
  from execute_refused [of ?s env] assms(5,6) s obtain inp where
    inp: "http_precrypto_execute env ?s = Some (SKIP_ALL_BYTES, ?s\<lparr>sc_conn := ?c\<lparr>tc_in := inp\<rparr>\<rparr>)" by auto
  let ?s1 = "?s\<lparr>sc_conn := ?c\<lparr>tc_in := inp\<rparr>\<rparr>"
  have ne: "tc_in c @ seg \<noteq> []" using assms(5) by auto
  have broken: "\<not> conn_broken ?s" using s by (auto simp: conn_broken_def)
  have "parse_loop (ct_parse_execute ct) ?s = Some (parsed SKIP_ALL_BYTES ?s1)"
    using s ne broken inp ct by (intro parse_loop_answer) (simp_all add: SKIP_ALL_BYTES_def)
  also have "parsed SKIP_ALL_BYTES ?s1 = ?s1\<lparr>sc_skip := SKIP_ALL_BYTES\<rparr>"
    using s assms(4) by (subst parsed_skip_all [OF _ refl]) simp_all
  finally have "cpu_tcp_server_reader ct (s\<lparr>sc_in_queue := [seg]\<rparr>) = Some (Returned 0 (?s1\<lparr>sc_skip := SKIP_ALL_BYTES\<rparr>))"
    using s ct broken assms(3)
    by (simp add: cpu_tcp_server_reader_def enqueue_input_def unwrap_input_def skip_input_def Let_def conn_broken_def)
  moreover have "\<not> conn_broken (?s1\<lparr>sc_skip := SKIP_ALL_BYTES\<rparr>)" using broken by (simp add: conn_broken_def)
  moreover have "cpu_tcp_server_reader ct (?s1\<lparr>sc_skip := SKIP_ALL_BYTES, sc_in_queue := queued\<rparr>) = Some Assertion_failed"
    using s ct broken assms(3)
    by (simp add: cpu_tcp_server_reader_def enqueue_input_def unwrap_input_def skip_input_all conn_broken_def)
  ultimately show ?thesis by (intro exI [of _ "?s1\<lparr>sc_skip := SKIP_ALL_BYTES\<rparr>"]) simp
qed

text \<open>A server with one secret, a constant key stream, and a parser that waits after the header.\<close>

definition sample_env :: http_env where
  "sample_env = \<lparr>he_ks = (\<lambda>_ _ _. 5), he_sha = (\<lambda>_. replicate 32 0), he_mem = (\<lambda>_. True),
     he_secrets = [replicate 16 7], he_pad_only = True, he_kill = KS_IDLE, he_only_tls = False,
     he_tls = (\<lambda>_. None), he_after = (\<lambda>_ s. Some (NEED_MORE_BYTES, s)),
     he_packets = (\<lambda>s. Some (NEED_MORE_BYTES, s))\<rparr>"

definition sample_type :: conn_type where
  "sample_type = (byte_type (\<lambda>_ _ _. 5))\<lparr>ct_decrypt := decrypt_input (\<lambda>_ _ _. 5) (\<lambda>_. True),
     ct_parse_execute := http_precrypto_execute sample_env\<rparr>"

lemma sample_methods: "http_methods sample_env sample_type"
  by (simp add: http_methods_def sample_env_def sample_type_def byte_type_def)

lemma sample_conn:
  "precrypto_conn (conn_start mode False False (aes_init [] []) (aes_init [] [])) (idle_conn mode False)"
  by (simp add: precrypto_conn_def idle_conn_def conn_broken_def conn_start_def)

theorem refused_header_aborts_witness:
  "\<exists>s'. cpu_tcp_server_reader sample_type
        ((idle_conn TRANSPORT_MODE_HTTP_STREAM_RAW False)\<lparr>sc_in_queue := [[0x01, 0x02, 0, 0]]\<rparr>) = Some (Returned 0 s')
    \<and> cpu_tcp_server_reader sample_type (s'\<lparr>sc_in_queue := [[0x16]]\<rparr>) = Some Assertion_failed"
  using refused_header_aborts [OF sample_methods sample_conn, of TRANSPORT_MODE_HTTP_STREAM_RAW "[0x01, 0x02, 0, 0]" "[[0x16]]"]
  by (auto simp: conn_start_def)

subsection \<open>A header in two pieces\<close>

text \<open>The session header is gone and \<open>X\<close> is the payload after it, of which \<open>tc_in\<close> has the first part; \<open>W\<close> is
  what the socket still delivers. The connection either waits for more of \<open>X\<close> or is stuck.\<close>

definition torn :: "bytes \<Rightarrow> bytes \<Rightarrow> sconn \<Rightarrow> bool" where
  "torn X W s \<longleftrightarrow> \<not> sc_crypto s \<and> sc_in_queue s = [] \<and> length (tc_in (sc_conn s)) \<le> 68
     \<and> length (tc_in_u (sc_conn s)) + length W < 2 ^ 31 - 100
     \<and> (\<exists>D. http_pending (sc_conn s) (tc_in_u (sc_conn s) @ W) D
          \<and> (sc_skip s = SKIP_ALL_BYTES \<or> 68 < sc_skip s \<or> 0 \<le> sc_skip s \<and> tc_in (sc_conn s) @ D = X))"

lemma torn_parse:
  assumes "he_kill env = KS_IDLE" "take 4 X \<noteq> [0x01, 0x01, 0, 0]" "torn X W s" "sc_skip s = 0" "\<not> conn_broken s"
    and "tc_in (sc_conn s) \<noteq> []"
  shows "\<exists>res s1. http_precrypto_execute env s = Some (res, s1) \<and> res \<noteq> 0 \<and> torn X W (parsed res s1)"
proof -
  let ?in = "tc_in (sc_conn s)" and ?n = "length (tc_in_u (sc_conn s))"
  from assms(3,4) obtain D where D: "http_pending (sc_conn s) (tc_in_u (sc_conn s) @ W) D" "?in @ D = X"
    and crypto: "\<not> sc_crypto s" "sc_in_queue s = []" and len: "length ?in \<le> 68" "?n + length W < 2 ^ 31 - 100"
    by (auto simp: torn_def SKIP_ALL_BYTES_def)
  show ?thesis
  proof (cases "length ?in < 4")
    case True
    let ?k = "9 - int (length ?in)"
    have run: "http_precrypto_execute env s = Some (?k, s)"
      using True assms(1,5,6) crypto
      by (simp add: http_precrypto_execute_def http_dispatch_cases dispatched_def conn_broken_def)
    have "parsed ?k s = s\<lparr>sc_skip := ?k + int ?n\<rparr>"
      using True crypto len by (intro parsed_more) auto
    moreover have "0 \<le> ?k + int ?n" using True by simp
    ultimately have "torn X W (parsed ?k s)"
      unfolding torn_def using crypto len D by auto
    with run True show ?thesis by (intro exI [of _ ?k] exI [of _ s]) auto
  next
    case False
    then have "take 4 ?in = take 4 X" by (simp flip: D(2))
    with False assms(2) execute_refused [OF crypto(1), of env] obtain inp where
      run: "http_precrypto_execute env s = Some (SKIP_ALL_BYTES, s\<lparr>sc_conn := (sc_conn s)\<lparr>tc_in := inp\<rparr>\<rparr>)"
      and inp: "length inp \<le> length ?in" by auto
    let ?s1 = "s\<lparr>sc_conn := (sc_conn s)\<lparr>tc_in := inp\<rparr>\<rparr>"
    have "parsed SKIP_ALL_BYTES ?s1 = ?s1\<lparr>sc_skip := (if ?n = 0 then SKIP_ALL_BYTES else 2 ^ 31 - int ?n)\<rparr>"
      using crypto len by (intro parsed_skip_all) auto
    moreover have "http_pending ((sc_conn s)\<lparr>tc_in := inp\<rparr>) (tc_in_u (sc_conn s) @ W) D"
      using D(1) by (simp add: http_pending_def)
    moreover have "68 < (2 :: int) ^ 31 - int ?n" using len(2) by simp
    ultimately have "torn X W (parsed SKIP_ALL_BYTES ?s1)"
      unfolding torn_def using crypto len inp by auto
    with run show ?thesis by (auto simp: SKIP_ALL_BYTES_def)
  qed
qed

lemma torn_step:
  assumes "http_methods env ct" "he_kill env = KS_IDLE" "take 4 X \<noteq> [0x01, 0x01, 0, 0]" "torn X (seg @ W) s"
  shows "\<exists>out. cpu_tcp_server_reader ct (s\<lparr>sc_in_queue := sc_in_queue s @ [seg]\<rparr>) = Some out
    \<and> (out = Assertion_failed \<or> (\<exists>rc s'. out = Returned rc s' \<and> torn X W s'))"
proof -
  note ct = assms(1) [unfolded http_methods_def]
  let ?c = "(sc_conn s)\<lparr>tc_in_u := tc_in_u (sc_conn s) @ seg\<rparr>"
  from assms(4) obtain D where D: "http_pending (sc_conn s) (tc_in_u (sc_conn s) @ seg @ W) D"
    and skip: "sc_skip s = SKIP_ALL_BYTES \<or> 68 < sc_skip s \<or> 0 \<le> sc_skip s \<and> tc_in (sc_conn s) @ D = X"
    and s: "\<not> sc_crypto s" "sc_in_queue s = []" and len: "length (tc_in (sc_conn s)) \<le> 68"
    "length (tc_in_u (sc_conn s)) + length (seg @ W) < 2 ^ 31 - 100"
    by (auto simp: torn_def)
  have "http_pending ?c (tc_in_u ?c @ W) D" "length (tc_in ?c) \<le> 68"
    using D len by (simp_all add: http_pending_in_u)
  from unwrap_run [OF this] obtain c1 E D1 where
    c1: "http_stream_unwrap_precrypto ?c = (0, c1)" "http_pending c1 (tc_in_u c1 @ W) D1" "D = E @ D1"
    "tc_in c1 = tc_in (sc_conn s) @ E" "length (tc_in c1) \<le> 68" by auto
  have mode: "tc_mode (sc_conn s) = TRANSPORT_MODE_HTTP_STREAM" using D by (simp add: http_pending_def)
  define s1 where "s1 = s\<lparr>sc_in_queue := [], sc_conn := c1\<rparr>"
  have unwrap: "unwrap_input ct (enqueue_input (s\<lparr>sc_in_queue := sc_in_queue s @ [seg]\<rparr>)) = Some (0, s1)"
    using s mode c1(1) by (simp add: unwrap_input_def enqueue_input_def s1_def Let_def)
  have short: "length (tc_in_u c1) + length W < 2 ^ 31 - 100"
    using unwrap_output [OF c1(1)] len by (simp add: same_output_def)
  have torn1: "torn X W (s1\<lparr>sc_skip := k\<rparr>)"
    if "k = SKIP_ALL_BYTES \<or> 68 < k \<or> 0 \<le> k \<and> tc_in c1 @ D1 = X" for k
    unfolding torn_def using that s c1 short by (auto simp: s1_def)
  have same: "s1\<lparr>sc_skip := sc_skip s\<rparr> = s1" by (simp add: s1_def)
  have X: "tc_in c1 @ D1 = X" if "tc_in (sc_conn s) @ D = X" using that c1 by simp
  have torn: "torn X W s1" using torn1 [of "sc_skip s"] skip X by (auto simp: same)
  have fields: "sc_skip s1 = sc_skip s" "sc_conn s1 = c1" by (simp_all add: s1_def)
  have out: "cpu_tcp_server_reader ct (s\<lparr>sc_in_queue := sc_in_queue s @ [seg]\<rparr>) =
      (if conn_broken s1 then Some (Returned (-1) s1) else if sc_stopread s1 then Some (Returned 0 s1)
       else (case skip_input (length (tc_in c1)) (sc_skip s) s1 of
                None \<Rightarrow> Some Assertion_failed
              | Some (False, s3) \<Rightarrow> Some (Returned 0 s3)
              | Some (True, s3) \<Rightarrow> do { s4 \<leftarrow> parse_loop (ct_parse_execute ct) s3; Some (Returned 0 s4) }))"
    using ct by (simp add: cpu_tcp_server_reader_def unwrap fields)
  show ?thesis
  proof (cases "conn_broken s1 \<or> sc_stopread s1")
    case True
    with out torn show ?thesis by auto
  next
    case False
    from skip consider "sc_skip s = SKIP_ALL_BYTES" | "0 < sc_skip s" "int (length (tc_in c1)) < sc_skip s"
      | "0 \<le> sc_skip s" "sc_skip s \<le> int (length (tc_in c1))" "tc_in (sc_conn s) @ D = X"
      using c1(5) by fastforce
    then show ?thesis
    proof cases
      case 1
      with False show ?thesis by (simp add: out skip_input_all)
    next
      case 2
      with False torn show ?thesis by (simp add: out skip_input_waits)
    next
      case 3
      let ?s3 = "s1\<lparr>sc_skip := 0\<rparr>"
      have torn3: "torn X W ?s3" using torn1 [of 0] X [OF 3(3)] by simp
      have "\<exists>s4. parse_loop (ct_parse_execute ct) ?s3 = Some s4 \<and> torn X W s4"
      proof (cases "sc_status ?s3 \<noteq> conn_error \<and> tc_in (sc_conn ?s3) \<noteq> []")
        case True
        have nb: "\<not> conn_broken ?s3" "\<not> sc_stopread ?s3" using False by (simp_all add: conn_broken_def)
        from torn_parse [OF assms(2,3) torn3 _ nb(1)] True obtain res s4 where
          "http_precrypto_execute env ?s3 = Some (res, s4)" "res \<noteq> 0" "torn X W (parsed res s4)" by auto
        moreover from parse_loop_answer [OF _ nb, of "ct_parse_execute ct" res s4] this True ct
        have "parse_loop (ct_parse_execute ct) ?s3 = Some (parsed res s4)" by simp
        ultimately show ?thesis by blast
      qed (use torn3 in \<open>auto simp: parse_loop.simps\<close>)
      with False 3 show ?thesis by (auto simp: out skip_input_ready fields)
    qed
  qed
qed

lemma torn_runs:
  assumes "http_methods env ct" "he_kill env = KS_IDLE" "take 4 X \<noteq> [0x01, 0x01, 0, 0]"
  shows "torn X (concat segs) s \<Longrightarrow> \<exists>out. reader_runs ct s segs = Some out
    \<and> (out = Assertion_failed \<or> (\<exists>rc s'. out = Returned rc s' \<and> \<not> sc_crypto s'))"
proof (induction segs arbitrary: s)
  case Nil
  then show ?case by (simp add: torn_def)
next
  case (Cons seg segs)
  from Cons.prems have "torn X (seg @ concat segs) s" by simp
  from torn_step [OF assms this] obtain out where
    out: "cpu_tcp_server_reader ct (s\<lparr>sc_in_queue := sc_in_queue s @ [seg]\<rparr>) = Some out"
    "out = Assertion_failed \<or> (\<exists>rc s'. out = Returned rc s' \<and> torn X (concat segs) s')" by blast
  from out(2) show ?case
  proof (elim disjE exE conjE)
    assume "out = Assertion_failed"
    with out(1) show ?thesis by simp
  next
    fix rc s'
    assume "out = Returned rc s'" "torn X (concat segs) s'"
    with out(1) Cons.IH show ?thesis by simp
  qed
qed

subsection \<open>The hand-over\<close>

lemma first_run:
  assumes "http_methods env ct" "precrypto_conn c s" "tc_mode c = TRANSPORT_MODE_HTTP_STREAM"
    and "http_stream_unwrap_precrypto (c\<lparr>tc_in_u := tc_in_u c @ seg\<rparr>) = (0, c1)" "tc_failed c1 = None"
  defines "s1 \<equiv> s\<lparr>sc_in_queue := [], sc_conn := c1\<rparr>"
  shows "cpu_tcp_server_reader ct (s\<lparr>sc_in_queue := [seg]\<rparr>)
      = do { s4 \<leftarrow> parse_loop (http_precrypto_execute env) s1; Some (Returned 0 s4) }"
    and "sc_skip s1 = 0" "\<not> conn_broken s1" "\<not> sc_stopread s1" "sc_status s1 \<noteq> conn_error" "\<not> sc_crypto s1"
    "sc_in_queue s1 = []" "sc_conn s1 = c1"
proof -
  note ct = assms(1) [unfolded http_methods_def] and s = assms(2) [unfolded precrypto_conn_def]
  from s have c: "sc_conn s = c" by simp
  show s1: "sc_skip s1 = 0" "\<not> conn_broken s1" "\<not> sc_stopread s1" "sc_status s1 \<noteq> conn_error" "\<not> sc_crypto s1"
    "sc_in_queue s1 = []" "sc_conn s1 = c1"
    using s assms(5) by (simp_all add: s1_def conn_broken_def)
  have "unwrap_input ct (enqueue_input (s\<lparr>sc_in_queue := [seg]\<rparr>)) = Some (0, s1)"
    using s c assms(3,4) by (simp add: unwrap_input_def enqueue_input_def s1_def Let_def)
  then show "cpu_tcp_server_reader ct (s\<lparr>sc_in_queue := [seg]\<rparr>)
      = do { s4 \<leftarrow> parse_loop (http_precrypto_execute env) s1; Some (Returned 0 s4) }"
    using ct s1 by (simp add: cpu_tcp_server_reader_def skip_input_def Let_def)
qed

lemma http_step_output:
  "decrypt_http_step ks mem c = Inl (x, c1) \<Longrightarrow> same_output c c1"
  "decrypt_http_step ks mem c = Inr c1 \<Longrightarrow> same_output c c1"
  by (auto simp: decrypt_http_step_def Let_def decrypt_bytes_def same_output_def
      dest!: next_chunk_output split: if_splits sum.splits prod.splits)

lemma decrypt_http_output:
  "decrypt_input ks mem c = Some (x, c1) \<Longrightarrow> \<not> tc_ws_active c \<Longrightarrow> tc_mode c = TRANSPORT_MODE_HTTP_STREAM \<Longrightarrow>
    same_output c c1"
proof (induction ks mem c rule: decrypt_input.induct)
  case (1 ks mem c)
  show ?case
  proof (cases "tc_in_u c = []")
    case True
    with 1(2) show ?thesis by (simp add: decrypt_input.simps same_output_def)
  next
    case False
    have step: "decrypt_step ks mem c = Some (decrypt_http_step ks mem c)"
      using 1(3,4) by (simp add: decrypt_step_def)
    show ?thesis
    proof (cases "decrypt_http_step ks mem c")
      case (Inl out)
      with 1(2) False step http_step_output(1) show ?thesis by (simp add: decrypt_input.simps [of ks mem c])
    next
      case (Inr c2)
      have "same_output c c2" using http_step_output(2) [OF Inr] .
      moreover from this have "same_output c2 c1"
        using 1(1) [OF False step Inr] 1(2-4) False step Inr
        by (simp add: decrypt_input.simps [of ks mem c] same_output_def)
      ultimately show ?thesis by (rule same_output_trans)
    qed
  qed
qed

lemma keys_set:
  assumes "\<And>n. he_mem env n" "he_kill env = KS_IDLE" "length hdr = 64" "\<not> client_hello env hdr"
    and "obfs2_parse_header (he_ks env) (he_sha env) hdr (he_secrets env) (he_pad_only env) = (Some r, plain)"
    and "\<not> sc_crypto s" "tc_in (sc_conn s) = [0x01, 0x01, 0, 0] @ hdr" "tc_failed (sc_conn s) = None"
    and "http_pending (sc_conn s) (tc_in_u (sc_conn s) @ concat segs) rest"
  shows "\<exists>h c'. http_precrypto_execute env s = he_after env r h \<and> sc_crypto h
    \<and> tc_write_key (sc_conn h) = aes_init (kd_write_key (or_keys r)) (kd_write_iv (or_keys r))
    \<and> tc_out (sc_conn h) = [] \<and> tc_out_p (sc_conn h) = tc_out_p (sc_conn s) @ tc_out (sc_conn s)
    \<and> read_segments (he_ks env) (he_mem env) (sc_conn h) segs = Some c'
    \<and> tc_in c' = fst (ctr_crypt (he_ks env)
        (snd (ctr_crypt (he_ks env) (aes_init (kd_read_key (or_keys r)) (kd_read_iv (or_keys r))) hdr)) rest)
    \<and> tc_in_u c' = [] \<and> tc_failed c' = None"
proof -
  let ?s = "s\<lparr>sc_conn := (sc_conn s)\<lparr>tc_in := hdr\<rparr>\<rparr>"
  let ?k = "set_keys (he_ks env) r ?s"
  have ne: "hdr \<noteq> []" using assms(3) by auto
  have "take 4 (tc_in (sc_conn s)) = [0x01, 0x01, 0, 0]" "drop 4 (tc_in (sc_conn s)) = hdr"
    "4 \<le> length (tc_in (sc_conn s))" "tc_in (sc_conn s) \<noteq> []" using assms(3,7) by simp_all
  then have go: "http_precrypto_execute env s = random_header env ?s"
    using assms(2-4,6,8) ne by (simp add: http_precrypto_execute_def http_dispatch_cases dispatched_def)
  have k: "tc_in (sc_conn ?k) = []" "tc_in_u (sc_conn ?k) = tc_in_u (sc_conn s)" "tc_failed (sc_conn ?k) = None"
    "tc_write_key (sc_conn ?k) = aes_init (kd_write_key (or_keys r)) (kd_write_iv (or_keys r))"
    "tc_read_key (sc_conn ?k) = snd (ctr_crypt (he_ks env) (aes_init (kd_read_key (or_keys r)) (kd_read_iv (or_keys r))) hdr)"
    "tc_out (sc_conn ?k) = []" "tc_out_p (sc_conn ?k) = tc_out_p (sc_conn s) @ tc_out (sc_conn s)" "sc_crypto ?k"
    using assms(3,8) by (simp_all add: set_keys_def Let_def)
  have "http_pending (sc_conn ?k) (tc_in_u (sc_conn ?k) @ concat segs) rest"
    using assms(9) unfolding k by (simp add: http_pending_def set_keys_def Let_def)
  from http_up.run [of "he_mem env", OF assms(1) this, of "he_ks env"] obtain c1 E D where
    c1: "decrypt_input (he_ks env) (he_mem env) (sc_conn ?k) = Some (0, c1)" "http_pending c1 (tc_in_u c1 @ concat segs) D"
    "rest = E @ D" "delivered (he_ks env) (sc_conn ?k) E c1" "concat segs = [] \<longrightarrow> tc_in_u c1 = []" by blast
  let ?h = "?k\<lparr>sc_conn := c1\<rparr>"
  have "random_header env ?s = he_after env r ?h"
    using assms(3,5) c1(1) by (simp add: random_header_def)
  moreover have "segs \<noteq> [] \<or> tc_in_u c1 = []" using c1(5) by (cases segs) auto
  with http_up.read_all [of "he_mem env", OF assms(1) c1(2), of "he_ks env"] obtain c' where
    "read_segments (he_ks env) (he_mem env) c1 segs = Some c'" "delivered (he_ks env) c1 D c'" "tc_in_u c' = []" by blast
  moreover from this(2) c1(4) have "delivered (he_ks env) (sc_conn ?k) rest c'"
    unfolding c1(3) using delivered_trans by blast
  moreover have "same_output (sc_conn ?k) c1"
    using c1(1) assms(9) by (intro decrypt_http_output) (auto simp: http_pending_def set_keys_def Let_def)
  ultimately show ?thesis
    unfolding go using k by (intro exI [of _ ?h] exI [of _ c']) (simp add: delivered_def same_output_def)
qed

lemma accepted_short:
  assumes "he_kill env = KS_IDLE" "\<not> client_hello env hdr" "length hdr = 64" "p @ q = hdr" "q \<noteq> []"
    and "\<not> sc_crypto s" "tc_in (sc_conn s) = [0x01, 0x01, 0, 0] @ p" "tc_failed (sc_conn s) = None"
  shows "\<exists>res. http_precrypto_execute env s = Some (res, s\<lparr>sc_conn := (sc_conn s)\<lparr>tc_in := p\<rparr>\<rparr>)
    \<and> 0 < res \<and> (res = NEED_MORE_BYTES \<or> res \<le> 64)"
proof -
  have len: "length p < 64" using assms(3,5) by (cases q) (auto simp flip: assms(4))
  have "\<not> client_hello env p" if "9 \<le> length p"
  proof -
    have "take 3 p = take 3 hdr" "p ! 3 = hdr ! 3" using that by (simp_all add: nth_append flip: assms(4))
    with assms(2) show ?thesis by (simp add: client_hello_def)
  qed
  with assms(1,6-8) len have "http_precrypto_execute env s = Some (if p = [] then NEED_MORE_BYTES
      else if length p < 9 then 9 - int (length p) else 64 - int (length p), s\<lparr>sc_conn := (sc_conn s)\<lparr>tc_in := p\<rparr>\<rparr>)"
    by (simp add: http_precrypto_execute_def http_dispatch_cases dispatched_def Let_def)
  with len show ?thesis by (auto simp: NEED_MORE_BYTES_def)
qed

lemma header_torn:
  assumes "http_methods env ct" "he_kill env = KS_IDLE" "\<not> client_hello env hdr" "length hdr = 64"
    and "take 4 hdr \<noteq> [0x01, 0x01, 0, 0]" "precrypto_conn c s" "tc_mode c = TRANSPORT_MODE_HTTP_STREAM"
    and "http_stream_unwrap_precrypto (c\<lparr>tc_in_u := tc_in_u c @ seg\<rparr>) = (0, c1)" "tc_failed c1 = None"
    and "tc_in c1 = [0x01, 0x01, 0, 0] @ p" "p @ q = hdr" "q \<noteq> []"
    and "http_pending c1 (tc_in_u c1 @ concat segs) (q @ rest)"
    and "length (tc_in_u c1) + length (concat segs) < 2 ^ 31 - 100"
  shows "\<exists>out. reader_runs ct s (seg # segs) = Some out
    \<and> (out = Assertion_failed \<or> (\<exists>rc s'. out = Returned rc s' \<and> \<not> sc_crypto s'))"
proof -
  let ?s1 = "s\<lparr>sc_in_queue := [], sc_conn := c1\<rparr>"
  note run = first_run [OF assms(1,6,7,8,9)]
  have queue: "sc_in_queue s = []" using assms(6) by (simp add: precrypto_conn_def)
  from accepted_short [OF assms(2-4,11,12), of ?s1] assms(9,10) run(6) obtain res where
    exec: "http_precrypto_execute env ?s1 = Some (res, ?s1\<lparr>sc_conn := c1\<lparr>tc_in := p\<rparr>\<rparr>)"
    and res: "0 < res" "res = NEED_MORE_BYTES \<or> res \<le> 64" by auto
  let ?s2 = "?s1\<lparr>sc_conn := c1\<lparr>tc_in := p\<rparr>\<rparr>" and ?n = "length (tc_in_u c1)"
  have "parse_loop (http_precrypto_execute env) ?s1 = Some (parsed res ?s2)"
    using run(2-5) exec res assms(10) by (intro parse_loop_answer) simp_all
  then have first: "cpu_tcp_server_reader ct (s\<lparr>sc_in_queue := sc_in_queue s @ [seg]\<rparr>) = Some (Returned 0 (parsed res ?s2))"
    using run(1) queue by simp
  have "\<exists>k\<ge>0. parsed res ?s2 = ?s2\<lparr>sc_skip := k\<rparr>"
  proof (cases "res = NEED_MORE_BYTES")
    case True
    have "?s2 = ?s2\<lparr>sc_skip := 0\<rparr>" using run(2) by simp
    with True show ?thesis by (intro exI [of _ 0]) (simp add: parsed_def)
  next
    case False
    with res have "parsed res ?s2 = ?s2\<lparr>sc_skip := res + int ?n\<rparr>"
      using run(6) assms(14) parsed_more [of ?s2 res] by simp
    with res(1) show ?thesis by (intro exI [of _ "res + int ?n"]) simp
  qed
  then obtain k where k: "0 \<le> k" "parsed res ?s2 = ?s2\<lparr>sc_skip := k\<rparr>" by blast
  have "length p \<le> 68" using assms(4,11) by auto
  moreover have "http_pending (c1\<lparr>tc_in := p\<rparr>) (tc_in_u c1 @ concat segs) (q @ rest)"
    using assms(13) by (simp add: http_pending_def)
  moreover have "p @ q @ rest = hdr @ rest" by (simp flip: assms(11))
  ultimately have "torn (hdr @ rest) (concat segs) (parsed res ?s2)"
    unfolding torn_def k(2) using k(1) run(6) assms(14) by auto
  moreover have "take 4 (hdr @ rest) \<noteq> [0x01, 0x01, 0, 0]" using assms(4,5) by simp
  ultimately obtain out where "reader_runs ct (parsed res ?s2) segs = Some out"
    "out = Assertion_failed \<or> (\<exists>rc s'. out = Returned rc s' \<and> \<not> sc_crypto s')"
    using torn_runs [OF assms(1,2)] by blast
  with first show ?thesis by simp
qed

lemma split_at_header:
  assumes "E @ D = [0x01, 0x01, 0, 0] @ hdr @ rest" "length hdr = 64" "4 \<le> length E" "length E < 68"
  shows "\<exists>p q. E = [0x01, 0x01, 0, 0] @ p \<and> p @ q = hdr \<and> q \<noteq> [] \<and> D = q @ rest"
proof -
  have "take 4 E = [0x01, 0x01, 0, 0]" using arg_cong [OF assms(1), of "take 4"] assms(3) by simp
  then have p: "E = [0x01, 0x01, 0, 0] @ drop 4 E" by (metis append_take_drop_id)
  then have "drop 4 E @ D = hdr @ rest" using assms(1) by (metis append.assoc same_append_eq)
  then show ?thesis
    using p assms(2,4) append_take_drop_id [of "length (drop 4 E)" hdr]
    by (intro exI [of _ "drop 4 E"] exI [of _ "drop (length (drop 4 E)) hdr"])
      (simp add: append_eq_append_conv_if split: if_splits)
qed

text \<open>The run that has both headers.\<close>

lemma whole_header:
  assumes "http_methods env ct" "precrypto_conn c s" "tc_mode c = TRANSPORT_MODE_HTTP_STREAM"
    and "http_stream_unwrap_precrypto (c\<lparr>tc_in_u := tc_in_u c @ seg\<rparr>) = (0, c1)" "tc_failed c1 = None"
    and "\<And>n. he_mem env n" "he_kill env = KS_IDLE" "length hdr = 64" "\<not> client_hello env hdr"
    and "obfs2_parse_header (he_ks env) (he_sha env) hdr (he_secrets env) (he_pad_only env) = (Some r, plain)"
    and "tc_in c1 = [0x01, 0x01, 0, 0] @ hdr" "http_pending c1 (tc_in_u c1 @ concat segs) rest"
  shows "\<exists>h c'. cpu_tcp_server_reader ct (s\<lparr>sc_in_queue := [seg]\<rparr>) =
            do { (res, s1) \<leftarrow> he_after env r h;
                 s2 \<leftarrow> (if res = 0 then parse_loop (ct_parse_execute ct) s1 else Some (parsed res s1));
                 Some (Returned 0 s2) }
          \<and> sc_crypto h \<and> tc_out (sc_conn h) = [] \<and> tc_out_p (sc_conn h) = tc_out_p c @ tc_out c
          \<and> tc_write_key (sc_conn h) = aes_init (kd_write_key (or_keys r)) (kd_write_iv (or_keys r))
          \<and> read_segments (he_ks env) (he_mem env) (sc_conn h) segs = Some c'
          \<and> tc_in c' = fst (ctr_crypt (he_ks env)
               (snd (ctr_crypt (he_ks env) (aes_init (kd_read_key (or_keys r)) (kd_read_iv (or_keys r))) hdr)) rest)
          \<and> tc_in_u c' = [] \<and> tc_failed c' = None"
proof -
  note run = first_run [OF assms(1-5)]
  let ?s1 = "s\<lparr>sc_in_queue := [], sc_conn := c1\<rparr>"
  have "tc_out_p c1 @ tc_out c1 = tc_out_p c @ tc_out c"
    using unwrap_output [OF assms(4)] by (simp add: same_output_def)
  then obtain h c' where h: "http_precrypto_execute env ?s1 = he_after env r h" "sc_crypto h"
      "tc_write_key (sc_conn h) = aes_init (kd_write_key (or_keys r)) (kd_write_iv (or_keys r))"
      "tc_out (sc_conn h) = []" "tc_out_p (sc_conn h) = tc_out_p c @ tc_out c"
      "read_segments (he_ks env) (he_mem env) (sc_conn h) segs = Some c'"
      "tc_in c' = fst (ctr_crypt (he_ks env)
        (snd (ctr_crypt (he_ks env) (aes_init (kd_read_key (or_keys r)) (kd_read_iv (or_keys r))) hdr)) rest)"
      "tc_in_u c' = []" "tc_failed c' = None"
    using keys_set [of env, OF assms(6-10) run(6), of segs rest] assms(5,11,12) run(8) by auto
  have "parse_loop (http_precrypto_execute env) ?s1 =
        do { (res, s1) \<leftarrow> he_after env r h;
             (if res = 0 then parse_loop (http_precrypto_execute env) s1 else Some (parsed res s1)) }"
    using run(2-5) assms(11) by (subst parse_loop.simps) (simp add: h(1))
  with run(1) assms(1) have "cpu_tcp_server_reader ct (s\<lparr>sc_in_queue := [seg]\<rparr>) =
            do { (res, s1) \<leftarrow> he_after env r h;
                 s2 \<leftarrow> (if res = 0 then parse_loop (ct_parse_execute ct) s1 else Some (parsed res s1));
                 Some (Returned 0 s2) }"
    by (cases "he_after env r h") (auto simp: http_methods_def)
  with h show ?thesis by blast
qed

text \<open>C29: the hand-over of an HTTP stream to the cipher. The first run of the reader unwraps at most the 68 bytes
  of session header and random header. When they are all there (as they are if everything has arrived), the same run sets
  the keys, and reading on, however the rest is cut into segments and chunks, decrypts exactly the payload behind them;
  output waiting in the plain leaves before anything encrypted. When the session header is there but the random
  header is not complete, the connection is lost: the next call gives the start of the random header to the
  dispatcher, which refuses it unless it happens to look like a session header, so that whatever arrives and however
  it is cut the keys are never set, or the server stops at a failed assertion.\<close>

theorem http_handover:
  assumes "\<forall>d \<in> set ds. d \<noteq> [] \<and> length d \<le> 65535" "concat ds = [0x01, 0x01, 0, 0] @ hdr @ rest" "length hdr = 64"
    and "obfs2_parse_header (he_ks env) (he_sha env) hdr (he_secrets env) (he_pad_only env) = (Some r, plain)"
    and "http_methods env ct" "he_kill env = KS_IDLE" "\<And>n. he_mem env n" "\<not> client_hello env hdr"
    and "c = conn_start TRANSPORT_MODE_HTTP_STREAM False False rk wk" "precrypto_conn (c\<lparr>tc_out := reply\<rparr>) s"
    and "concat (seg # segs) = concat (map (\<lambda>d. chunk_enc (Some d)) ds)" "length (concat (seg # segs)) < 2 ^ 31 - 100"
  shows "\<exists>c1. http_stream_unwrap_precrypto (c\<lparr>tc_out := reply, tc_in_u := seg\<rparr>) = (0, c1)
    \<and> prefix (tc_in c1) (take 68 (concat ds)) \<and> (segs = [] \<longrightarrow> length (tc_in c1) = 68)
    \<and> (length (tc_in c1) = 68 \<longrightarrow>
        (\<exists>h c'. cpu_tcp_server_reader ct (s\<lparr>sc_in_queue := [seg]\<rparr>) =
            do { (res, s1) \<leftarrow> he_after env r h;
                 s2 \<leftarrow> (if res = 0 then parse_loop (ct_parse_execute ct) s1 else Some (parsed res s1));
                 Some (Returned 0 s2) }
          \<and> sc_crypto h \<and> tc_out (sc_conn h) = [] \<and> tc_out_p (sc_conn h) = reply
          \<and> tc_write_key (sc_conn h) = aes_init (kd_write_key (or_keys r)) (kd_write_iv (or_keys r))
          \<and> read_segments (he_ks env) (he_mem env) (sc_conn h) segs = Some c'
          \<and> tc_in c' = fst (ctr_crypt (he_ks env)
               (snd (ctr_crypt (he_ks env) (aes_init (kd_read_key (or_keys r)) (kd_read_iv (or_keys r))) hdr)) rest)
          \<and> tc_in_u c' = [] \<and> tc_failed c' = None))
    \<and> (4 \<le> length (tc_in c1) \<and> length (tc_in c1) < 68 \<and> take 4 hdr \<noteq> [0x01, 0x01, 0, 0] \<longrightarrow>
        (\<exists>out. reader_runs ct s (seg # segs) = Some out
          \<and> (out = Assertion_failed \<or> (\<exists>rc s'. out = Returned rc s' \<and> \<not> sc_crypto s'))))"
proof -
  let ?c = "c\<lparr>tc_out := reply, tc_in_u := seg\<rparr>" and ?b = "c\<lparr>tc_out := reply\<rparr>"
  have ok: "\<forall>d \<in> set ds. chunkable d" using assms(1) by (simp add: chunkable_def)
  then have "concat (map (\<lambda>d. chunk_enc (Some d)) ds) = concat (map chunk ds)"
    by (intro arg_cong [where f = concat] map_cong) (simp_all add: chunk_enc_simps)
  with assms(11) have wire: "seg @ concat segs = concat (map chunk ds)" by simp
  have "http_pending ?c (tc_in_u ?c @ concat segs) (concat ds)" "length (tc_in ?c) \<le> 68"
    unfolding http_pending_def using wire assms(9) ok
    by (auto simp: conn_start_def intro!: exI [of _ "[]"] exI [of _ ds])
  from unwrap_run [OF this] obtain c1 E D where
    c1: "http_stream_unwrap_precrypto ?c = (0, c1)" "http_pending c1 (tc_in_u c1 @ concat segs) D" "concat ds = E @ D"
    "tc_in c1 = tc_in ?c @ E" "tc_failed c1 = tc_failed ?c" "length (tc_in c1) \<le> 68"
    "concat segs = [] \<longrightarrow> length (tc_in c1) = 68 \<or> tc_in_u c1 = []" by blast
  have start: "tc_in c1 = E" "tc_failed c1 = None" using c1 assms(9) by (simp_all add: conn_start_def)
  have b: "tc_mode ?b = TRANSPORT_MODE_HTTP_STREAM" "?b\<lparr>tc_in_u := tc_in_u ?b @ seg\<rparr> = ?c"
    using assms(9) by (simp_all add: conn_start_def)
  note c1' = c1(1) [folded b(2)]
  have whole: "length (tc_in c1) = 68" if "segs = []"
  proof (rule ccontr)
    assume "length (tc_in c1) \<noteq> 68"
    with that c1(2,7) have "http_pending c1 [] D" by simp
    then have "D = []" by (rule http_pending_done)
    with c1(3,6) start(1) assms(2,3) \<open>length (tc_in c1) \<noteq> 68\<close> show False by (auto dest: arg_cong [where f = length])
  qed
  have "prefix (tc_in c1) (take 68 (concat ds))"
    using c1(3,6) start(1) by simp
  moreover have "\<exists>h c'. cpu_tcp_server_reader ct (s\<lparr>sc_in_queue := [seg]\<rparr>) =
            do { (res, s1) \<leftarrow> he_after env r h;
                 s2 \<leftarrow> (if res = 0 then parse_loop (ct_parse_execute ct) s1 else Some (parsed res s1));
                 Some (Returned 0 s2) }
          \<and> sc_crypto h \<and> tc_out (sc_conn h) = [] \<and> tc_out_p (sc_conn h) = reply
          \<and> tc_write_key (sc_conn h) = aes_init (kd_write_key (or_keys r)) (kd_write_iv (or_keys r))
          \<and> read_segments (he_ks env) (he_mem env) (sc_conn h) segs = Some c'
          \<and> tc_in c' = fst (ctr_crypt (he_ks env)
               (snd (ctr_crypt (he_ks env) (aes_init (kd_read_key (or_keys r)) (kd_read_iv (or_keys r))) hdr)) rest)
          \<and> tc_in_u c' = [] \<and> tc_failed c' = None" if len: "length (tc_in c1) = 68"
  proof -
    have "E @ D = ([0x01, 0x01, 0, 0] @ hdr) @ rest" using c1(3) assms(2) by simp
    moreover have "length E = length ([0x01, 0x01, 0, 0] @ hdr)" using len start(1) assms(3) by simp
    ultimately have cut: "tc_in c1 = [0x01, 0x01, 0, 0] @ hdr" "D = rest"
      using start(1) append_eq_append_conv [of E "[0x01, 0x01, 0, 0] @ hdr" D rest] by blast+
    with whole_header [OF assms(5,10) b(1) c1' start(2) assms(7,6,3,8,4)] c1(2) assms(9) show ?thesis
      by (simp add: conn_start_def)
  qed
  moreover have "\<exists>out. reader_runs ct s (seg # segs) = Some out
          \<and> (out = Assertion_failed \<or> (\<exists>rc s'. out = Returned rc s' \<and> \<not> sc_crypto s'))"
    if len: "4 \<le> length (tc_in c1)" "length (tc_in c1) < 68" and hdr: "take 4 hdr \<noteq> [0x01, 0x01, 0, 0]"
  proof -
    from split_at_header [of E D hdr rest] c1(3) assms(2,3) len start(1) obtain p q where
      "tc_in c1 = [0x01, 0x01, 0, 0] @ p" "p @ q = hdr" "q \<noteq> []" "D = q @ rest" by auto
    then show ?thesis
      using header_torn [OF assms(5,6,8,3) hdr assms(10) b(1) c1' start(2)] c1(2) assms(12) unwrap_output [OF c1(1)]
      by (simp add: same_output_def)
  qed
  ultimately show ?thesis using c1(1) whole by blast
qed

theorem http_handover_witness:
  "\<exists>s'. cpu_tcp_server_reader sample_type ((idle_conn TRANSPORT_MODE_HTTP_STREAM False)\<lparr>sc_in_queue :=
          [[0x34, 0x36, 0x0D, 0x0A, 0x01, 0x01, 0, 0] @ (replicate 56 7 @ replicate 4 0xd8 @ replicate 4 7) @ [2, 13, 0x0D, 0x0A]]\<rparr>)
        = Some (Returned 0 s')
     \<and> sc_crypto s' \<and> tc_in (sc_conn s') = [7, 8]"
proof -
  define hdr :: bytes where "hdr = replicate 56 7 @ replicate 4 0xd8 @ replicate 4 7"
  have len: "length hdr = 64" by (simp add: hdr_def)
  have "replicate 4 x = [x, x, x, x]" for x :: byte by (simp add: numeral_eq_Suc)
  then have tail: "drop 56 hdr = [0xd8, 0xd8, 0xd8, 0xd8, 7, 7, 7, 7]" by (simp add: hdr_def)
  have "le_nat (take 4 (drop 56 (fst (ctr_crypt (\<lambda>_ _ _. 5) (aes_init k iv) hdr)))) = OBFS2_TAG_PAD" for k iv
    unfolding ctr_crypt_def fst_conv drop_xor_stream tail by (simp add: xor_stream_def obfs2_tags)
  then obtain r plain where "obfs2_parse_header (\<lambda>_ _ _. 5) (\<lambda>_. replicate 32 0) hdr [replicate 16 7] True = (Some r, plain)"
    by (simp add: obfs2_parse_header_def Let_def tag_accepted_def)
  then have parse: "obfs2_parse_header (he_ks sample_env) (he_sha sample_env) hdr (he_secrets sample_env) (he_pad_only sample_env) = (Some r, plain)"
    by (simp add: sample_env_def)
  have wire: "concat ([[0x34, 0x36, 0x0D, 0x0A, 0x01, 0x01, 0, 0] @ hdr @ [2, 13, 0x0D, 0x0A]])
      = concat (map (\<lambda>d. chunk_enc (Some d)) [[0x01, 0x01, 0, 0] @ hdr @ [2, 13]])"
    by (simp add: chunk_enc_simps chunkable_def chunk_def t3__size_to_hex_def size_to_hex_loop.simps
        hex_char_def len)
  have key: "fst (ctr_crypt (he_ks sample_env) ctx [2, 13]) = [7, 8]" for ctx
    by (simp add: sample_env_def ctr_crypt_def xor_stream_def)
  have env: "he_after sample_env = (\<lambda>_ s. Some (NEED_MORE_BYTES, s))" "he_kill sample_env = KS_IDLE"
    "he_mem sample_env n" "\<not> client_hello sample_env hdr" for n
    by (simp_all add: sample_env_def client_hello_def)
  let ?c = "conn_start TRANSPORT_MODE_HTTP_STREAM False False (aes_init [] []) (aes_init [] [])"
  let ?seg = "[0x34, 0x36, 0x0D, 0x0A, 0x01, 0x01, 0, 0] @ hdr @ [2, 13, 0x0D, 0x0A]"
  have conn: "precrypto_conn (?c\<lparr>tc_out := []\<rparr>) (idle_conn TRANSPORT_MODE_HTTP_STREAM False)"
    using sample_conn [of TRANSPORT_MODE_HTTP_STREAM] by (simp add: conn_start_def)
  have ds: "\<forall>d \<in> set [[0x01, 0x01, 0, 0] @ hdr @ [2, 13]]. d \<noteq> [] \<and> length d \<le> 65535"
    "concat [[0x01, 0x01, 0, 0] @ hdr @ [2, 13]] = [0x01, 0x01, 0, 0] @ hdr @ [2, 13]"
    "length (concat [?seg]) < 2 ^ 31 - 100" by (simp_all add: len)
  from http_handover [OF ds(1,2) len parse sample_methods env(2,3,4) refl conn wire ds(3)] obtain h c' where
    "cpu_tcp_server_reader sample_type ((idle_conn TRANSPORT_MODE_HTTP_STREAM False)\<lparr>sc_in_queue := [?seg]\<rparr>) =
       do { (res, s1) \<leftarrow> he_after sample_env r h;
            s2 \<leftarrow> (if res = 0 then parse_loop (ct_parse_execute sample_type) s1 else Some (parsed res s1));
            Some (Returned 0 s2) }"
    and h: "sc_crypto h" "read_segments (he_ks sample_env) (he_mem sample_env) (sc_conn h) [] = Some c'" "tc_in c' = [7, 8]"
    unfolding key by blast
  then have "cpu_tcp_server_reader sample_type ((idle_conn TRANSPORT_MODE_HTTP_STREAM False)\<lparr>sc_in_queue := [?seg]\<rparr>)
      = Some (Returned 0 h)"
    by (simp add: env(1) parsed_def NEED_MORE_BYTES_def)
  with h show ?thesis unfolding hdr_def by auto
qed

end
