(* ===== verification/T3_Ring.thy ===== *)
theory T3_Ring
  imports T3_Prelude
begin

text \<open>
  The byte queue of the client transport, \<open>ring_*\<close> of \<open>lib/src/t3_client_stream.c\<close>: a buffer with a
  read and a write position, compacted on demand. The buffer is NULL when its allocation failed or
  after it was freed. An append returns \<open>None\<close> when it would write outside the buffer.
\<close>

record ring_buf =
  rb_data :: "bytes option"
  rb_head :: nat
  rb_tail :: nat
  rb_cap :: nat

definition RING_CAP :: nat where
  "RING_CAP = 8 * 1024 * 1024"

text \<open>\<open>fresh\<close> is what \<open>malloc\<close> returned, with its undetermined contents.\<close>

definition ring_init :: "bytes option \<Rightarrow> ring_buf" where
  "ring_init fresh = \<lparr>rb_data = fresh, rb_head = 0, rb_tail = 0, rb_cap = RING_CAP\<rparr>"

definition ring_free :: "ring_buf \<Rightarrow> ring_buf" where
  "ring_free r = r\<lparr>rb_data := None\<rparr>"

definition ring_used :: "ring_buf \<Rightarrow> nat" where
  "ring_used r = sz_sub (rb_tail r) (rb_head r)"

definition ring_avail :: "ring_buf \<Rightarrow> nat" where
  "ring_avail r = sz_sub (rb_cap r) (ring_used r)"

definition ring_compact :: "ring_buf \<Rightarrow> ring_buf option" where
  "ring_compact r =
     (if rb_head r > 0 \<and> ring_used r > 0 then
        do {
          data \<leftarrow> rb_data r;
          moved \<leftarrow> rd_range data (rb_head r) (ring_used r);
          Some (r\<lparr>rb_data := Some (moved @ drop (ring_used r) data),
                  rb_tail := sz_sub (rb_tail r) (rb_head r), rb_head := 0\<rparr>)
        }
      else if ring_used r = 0 then Some (r\<lparr>rb_head := 0, rb_tail := 0\<rparr>)
      else Some r)"

text \<open>The copy into the buffer.\<close>

definition ring_store :: "ring_buf \<Rightarrow> bytes \<Rightarrow> ring_buf option" where
  "ring_store r d =
     do {
       data \<leftarrow> rb_data r;
       (if rb_tail r + length d \<le> length data
        then Some (r\<lparr>rb_data := Some (take (rb_tail r) data @ d @ drop (rb_tail r + length d) data),
                     rb_tail := sz_add (rb_tail r) (length d)\<rparr>)
        else None)
     }"

definition ring_append :: "ring_buf \<Rightarrow> bytes \<Rightarrow> (int \<times> ring_buf) option" where
  "ring_append r d =
     (if ring_avail r < length d then
        do {
          r1 \<leftarrow> ring_compact r;
          (if ring_avail r1 < length d then Some (-1, r1)
           else do { r2 \<leftarrow> ring_store r1 d; Some (0, r2) })
        }
      else do { r2 \<leftarrow> ring_store r d; Some (0, r2) })"

text \<open>The unread part, \<open>ring_read_ptr\<close>; \<open>None\<close> when it is not inside the buffer.\<close>

definition ring_read_ptr :: "ring_buf \<Rightarrow> bytes option" where
  "ring_read_ptr r =
     (if ring_used r = 0 then Some [] else do { data \<leftarrow> rb_data r; rd_range data (rb_head r) (ring_used r) })"

definition ring_consume :: "ring_buf \<Rightarrow> nat \<Rightarrow> ring_buf" where
  "ring_consume r n =
     (let r1 = r\<lparr>rb_head := sz_add (rb_head r) n\<rparr> in
      if rb_head r1 \<ge> rb_tail r1 then r1\<lparr>rb_head := 0, rb_tail := 0\<rparr> else r1)"

subsection \<open>The ring as a queue\<close>

text \<open>Appending several pieces, all of which must fit.\<close>

fun append_all :: "('q \<Rightarrow> bytes \<Rightarrow> (int \<times> 'q) option) \<Rightarrow> 'q \<Rightarrow> bytes list \<Rightarrow> 'q option" where
  "append_all f q [] = Some q"
| "append_all f q (d # ds) =
     (case f q d of Some (rc, q') \<Rightarrow> if rc = 0 then append_all f q' ds else None | None \<Rightarrow> None)"

text \<open>What the clients of a byte queue rely on: \<open>room\<close> is how much can certainly be appended.\<close>

locale byte_queue =
  fixes inv :: "'q \<Rightarrow> bool" and contents :: "'q \<Rightarrow> bytes" and room :: "'q \<Rightarrow> nat"
    and append_fn :: "'q \<Rightarrow> bytes \<Rightarrow> (int \<times> 'q) option" and consume_fn :: "'q \<Rightarrow> nat \<Rightarrow> 'q"
  assumes append_fits: "inv q \<Longrightarrow> length d \<le> room q \<Longrightarrow>
      \<exists>q'. append_fn q d = Some (0, q') \<and> inv q' \<and> contents q' = contents q @ d \<and> room q' = room q - length d"
    and append_result: "inv q \<Longrightarrow> append_fn q d = Some (rc, q') \<Longrightarrow>
      inv q' \<and> (rc = 0 \<and> contents q' = contents q @ d \<or> rc = -1 \<and> contents q' = contents q)"
    and consume_drops: "inv q \<Longrightarrow> n \<le> length (contents q) \<Longrightarrow>
      inv (consume_fn q n) \<and> contents (consume_fn q n) = drop n (contents q) \<and> room q \<le> room (consume_fn q n)"
begin

text \<open>Appending piece by piece is appending at once.\<close>

lemma append_all_fits:
  "inv q \<Longrightarrow> length (concat ds) \<le> room q \<Longrightarrow>
    \<exists>q'. append_all append_fn q ds = Some q' \<and> inv q' \<and> contents q' = contents q @ concat ds"
proof (induction ds arbitrary: q)
  case (Cons d ds)
  then obtain q1 where "append_fn q d = Some (0, q1)" "inv q1" "contents q1 = contents q @ d"
    "room q1 = room q - length d" using append_fits [of q d] by auto
  moreover from this(4) Cons.prems(2) have "length (concat ds) \<le> room q1" by simp
  moreover from Cons.IH [OF \<open>inv q1\<close> this] obtain q' where
    "append_all append_fn q1 ds = Some q'" "inv q'" "contents q' = contents q1 @ concat ds" by blast
  ultimately show ?case by auto
qed simp

text \<open>What went in comes out, in order, in any two pieces.\<close>

lemma append_consume:
  assumes "inv q" "length d \<le> room q" "n \<le> length (contents q)"
  shows "\<exists>q'. append_fn q d = Some (0, q') \<and> contents (consume_fn q' n) = drop n (contents q) @ d"
proof -
  from append_fits [OF assms(1,2)] obtain q' where q': "append_fn q d = Some (0, q')" "inv q'"
    "contents q' = contents q @ d" by blast
  moreover have "contents (consume_fn q' n) = drop n (contents q')"
    using consume_drops [OF q'(2), of n] assms(3) q'(3) by simp
  ultimately show ?thesis using assms(3) by simp
qed

end

definition ring_wf :: "ring_buf \<Rightarrow> bool" where
  "ring_wf r \<longleftrightarrow>
     rb_head r \<le> rb_tail r \<and> rb_tail r \<le> rb_cap r \<and> rb_cap r < 2 ^ 63
     \<and> (case rb_data r of None \<Rightarrow> False | Some data \<Rightarrow> length data = rb_cap r)"

definition ring_contents :: "ring_buf \<Rightarrow> bytes" where
  "ring_contents r = take (rb_tail r - rb_head r) (drop (rb_head r) (the (rb_data r)))"

definition ring_room :: "ring_buf \<Rightarrow> nat" where
  "ring_room r = rb_cap r - rb_tail r"

lemma ring_wfE:
  assumes "ring_wf r"
  obtains data where "rb_data r = Some data" "length data = rb_cap r" "rb_head r \<le> rb_tail r"
    "rb_tail r \<le> rb_cap r" "rb_cap r < 2 ^ 63"
  using assms by (auto simp: ring_wf_def split: option.splits)

lemma ring_used_eq: "ring_wf r \<Longrightarrow> ring_used r = length (ring_contents r)"
  by (elim ring_wfE) (simp add: ring_used_def ring_contents_def)

lemma ring_used_diff: "ring_wf r \<Longrightarrow> ring_used r = rb_tail r - rb_head r"
  by (elim ring_wfE) (simp add: ring_used_def)

lemma ring_avail_eq: "ring_wf r \<Longrightarrow> ring_avail r = rb_cap r - ring_used r"
  unfolding ring_avail_def by (rule sz_sub_eq) (elim ring_wfE, simp add: ring_used_def)

lemma ring_read_ptr_eq: "ring_wf r \<Longrightarrow> ring_read_ptr r = Some (ring_contents r)"
  by (elim ring_wfE) (auto simp: ring_read_ptr_def ring_used_def ring_contents_def)

lemma ring_store_ok:
  assumes "ring_wf r" "rb_tail r + length d \<le> rb_cap r"
  shows "\<exists>r'. ring_store r d = Some r' \<and> ring_wf r' \<and> ring_contents r' = ring_contents r @ d
    \<and> ring_room r' = ring_room r - length d"
proof -
  from assms(1) obtain data where r: "rb_data r = Some data" "length data = rb_cap r"
    "rb_head r \<le> rb_tail r" "rb_tail r \<le> rb_cap r" "rb_cap r < 2 ^ 63" by (rule ring_wfE)
  let ?data = "take (rb_tail r) data @ d @ drop (rb_tail r + length d) data"
  have add: "sz_add (rb_tail r) (length d) = rb_tail r + length d" using assms(2) r(5) by simp
  have "take (rb_tail r + length d - rb_head r) (drop (rb_head r) ?data)
      = take (rb_tail r - rb_head r) (drop (rb_head r) data) @ d"
  proof -
    have "drop (rb_head r) ?data = drop (rb_head r) (take (rb_tail r) data) @ d @ drop (rb_tail r + length d) data"
      using r by simp
    moreover have "length (drop (rb_head r) (take (rb_tail r) data)) = rb_tail r - rb_head r" using r by simp
    ultimately show ?thesis using r(3) by (simp add: drop_take)
  qed
  then show ?thesis
    using assms(2) r add
    by (simp add: ring_store_def ring_wf_def ring_contents_def ring_room_def)
qed

lemma ring_compact_ok:
  assumes "ring_wf r"
  shows "\<exists>r'. ring_compact r = Some r' \<and> ring_wf r' \<and> ring_contents r' = ring_contents r
    \<and> rb_head r' = 0 \<and> rb_tail r' = ring_used r \<and> rb_cap r' = rb_cap r"
proof -
  from assms obtain data where r: "rb_data r = Some data" "length data = rb_cap r"
    "rb_head r \<le> rb_tail r" "rb_tail r \<le> rb_cap r" "rb_cap r < 2 ^ 63" by (rule ring_wfE)
  then show ?thesis
    by (auto simp: ring_compact_def ring_used_def ring_wf_def ring_contents_def)
qed

lemma ring_append_fits:
  assumes "ring_wf r" "length d \<le> ring_room r"
  shows "\<exists>r'. ring_append r d = Some (0, r') \<and> ring_wf r' \<and> ring_contents r' = ring_contents r @ d
    \<and> ring_room r' = ring_room r - length d"
proof -
  have fit: "rb_tail r + length d \<le> rb_cap r"
    using assms by (auto simp: ring_room_def elim: ring_wfE)
  then have "\<not> ring_avail r < length d"
    using ring_avail_eq [OF assms(1)] ring_used_diff [OF assms(1)] by simp
  with ring_store_ok [OF assms(1) fit] show ?thesis by (auto simp: ring_append_def)
qed

lemma ring_append_result:
  assumes "ring_wf r" "ring_append r d = Some (rc, r')"
  shows "ring_wf r' \<and> (rc = 0 \<and> ring_contents r' = ring_contents r @ d \<or> rc = -1 \<and> ring_contents r' = ring_contents r)"
proof -
  have store: "rb_tail q + length d \<le> rb_cap q" if "ring_wf q" "ring_store q d = Some q'" for q q'
    using that by (auto simp: ring_store_def elim!: ring_wfE split: if_splits)
  have sound: "ring_wf q' \<and> ring_contents q' = ring_contents q @ d" if "ring_wf q" "ring_store q d = Some q'" for q q'
    using ring_store_ok [OF that(1) store [OF that]] that(2) by auto
  obtain c where "ring_compact r = Some c" "ring_wf c" "ring_contents c = ring_contents r"
    using ring_compact_ok [OF assms(1)] by blast
  with assms sound show ?thesis
    by (auto simp: ring_append_def Option.bind_eq_Some_conv split: if_splits)
qed

lemma ring_consume_drops:
  assumes "ring_wf r" "n \<le> length (ring_contents r)"
  shows "ring_wf (ring_consume r n) \<and> ring_contents (ring_consume r n) = drop n (ring_contents r)
    \<and> ring_room r \<le> ring_room (ring_consume r n)"
proof -
  from assms(1) obtain data where r: "rb_data r = Some data" "length data = rb_cap r"
    "rb_head r \<le> rb_tail r" "rb_tail r \<le> rb_cap r" "rb_cap r < 2 ^ 63" by (rule ring_wfE)
  have n: "rb_head r + n \<le> rb_tail r"
    using assms(2) ring_used_eq [OF assms(1)] ring_used_diff [OF assms(1)] r(3) by simp
  then have "sz_add (rb_head r) n = rb_head r + n" using r by (intro sz_add_eq) simp
  with n r show ?thesis
    by (auto simp: ring_consume_def Let_def ring_wf_def ring_contents_def ring_room_def drop_take add.commute)
qed

interpretation ring: byte_queue ring_wf ring_contents ring_room ring_append ring_consume
  by unfold_locales (rule ring_append_fits, assumption+, rule ring_append_result, assumption+,
      rule ring_consume_drops, assumption+)

text \<open>The ring is a queue while the write position has room. Bytes appended piece by piece, in total
  no more than the space behind the write position, are appended to the contents unchanged and in
  order, and the ring stays well-formed.\<close>

lemma ring_append_all:
  assumes "ring_wf r" "length (concat ds) \<le> ring_room r"
  shows "\<exists>r'. append_all ring_append r ds = Some r' \<and> ring_wf r' \<and> ring_contents r' = ring_contents r @ concat ds"
  using assms by (rule ring.append_all_fits)

text \<open>C33: the append is unsafe exactly when it skips the compaction it needs. On a well-formed ring it
  writes outside the buffer if and only if the bytes fit into the unused space but not behind the
  write position, since it then compares with the total unused space and does not compact.\<close>

theorem ring_append_overflow_iff:
  assumes "ring_wf r"
  shows "ring_append r d = None \<longleftrightarrow>
    length (ring_contents r) + length d \<le> rb_cap r \<and> rb_cap r < rb_tail r + length d"
proof -
  from assms obtain data where r: "rb_data r = Some data" "length data = rb_cap r"
    "rb_head r \<le> rb_tail r" "rb_tail r \<le> rb_cap r" "rb_cap r < 2 ^ 63" by (rule ring_wfE)
  obtain c where c: "ring_compact r = Some c" "ring_wf c" "rb_tail c = ring_used r" "rb_cap c = rb_cap r"
    "ring_contents c = ring_contents r"
    using ring_compact_ok [OF assms] by blast
  have used: "ring_used r = length (ring_contents r)" "ring_used c = ring_used r"
    using ring_used_eq assms c by simp_all
  have small: "ring_used r \<le> rb_cap r" using r by (simp add: ring_used_def)
  show ?thesis
  proof (cases "ring_avail r < length d")
    case True
    then have "ring_avail c < length d" using ring_avail_eq assms c used by simp
    then have "ring_append r d \<noteq> None" using True c(1) by (simp add: ring_append_def)
    with True show ?thesis using ring_avail_eq [OF assms] used small by auto
  next
    case False
    then show ?thesis
      using r ring_avail_eq [OF assms] used small by (auto simp: ring_append_def ring_store_def split: if_splits)
  qed
qed

definition example_ring :: ring_buf where
  "example_ring = \<lparr>rb_data = Some [1, 2, 3, 4], rb_head = 2, rb_tail = 3, rb_cap = 4\<rparr>"

lemma example_ring_wf: "ring_wf example_ring"
  by (simp add: example_ring_def ring_wf_def)

theorem ring_append_overflow_iff_witness: "ring_append example_ring [8, 9] = None"
  using ring_append_overflow_iff [OF example_ring_wf, of "[8, 9]"]
  by (simp add: example_ring_def ring_contents_def)

end
