(* ===== verification/T3_Libc.thy ===== *)
theory T3_Libc
  imports T3_Prelude
begin

text \<open>
  The routines of the C library that read numbers and addresses from text: \<open>atoi\<close>, \<open>strtol\<close> in base
  ten, and, as parameters, the two address families of \<open>inet_pton\<close>.
\<close>

definition is_space :: "byte \<Rightarrow> bool" where
  "is_space b \<longleftrightarrow> b = 0x20 \<or> 0x09 \<le> b \<and> b \<le> 0x0D"

definition is_digit :: "byte \<Rightarrow> bool" where
  "is_digit b \<longleftrightarrow> 0x30 \<le> b \<and> b \<le> 0x39"

fun atoi_digits :: "bytes \<Rightarrow> nat \<Rightarrow> nat" where
  "atoi_digits [] n = n"
| "atoi_digits (b # bs) n = (if 0x30 \<le> b \<and> b \<le> 0x39 then atoi_digits bs (10 * n + unat (b - 0x30)) else n)"

text \<open>White space and a sign in front of the digits: whether the number is negative, and the digits.\<close>

definition number_start :: "bytes \<Rightarrow> bool \<times> bytes" where
  "number_start s =
     (case dropWhile is_space s of
        [] \<Rightarrow> (False, [])
      | b # r \<Rightarrow> if b = 0x2D then (True, r) else if b = 0x2B then (False, r) else (False, b # r))"

text \<open>\<open>atoi\<close>; a value outside \<open>int\<close> is undefined in C and \<open>None\<close> here.\<close>

definition atoi :: "bytes \<Rightarrow> int option" where
  "atoi s =
     (let (neg, u) = number_start s;
          v = (if neg then - int (atoi_digits u 0) else int (atoi_digits u 0)) in
      if - (2 ^ 31) \<le> v \<and> v < 2 ^ 31 then Some v else None)"

text \<open>\<open>strtol (s, &end, 10)\<close> on a 64-bit \<open>long\<close>: the value, saturated, and the text from \<open>end\<close> on,
  which is the whole text when there is no digit.\<close>

definition strtol :: "bytes \<Rightarrow> int \<times> bytes" where
  "strtol s =
     (let (neg, u) = number_start s;
          v = (if neg then - int (atoi_digits u 0) else int (atoi_digits u 0)) in
      if takeWhile is_digit u = [] then (0, s)
      else (max (- (2 ^ 63)) (min (2 ^ 63 - 1) v), dropWhile is_digit u))"

text \<open>The conversion of a \<open>long\<close> to \<open>int\<close>.\<close>

definition long_to_int :: "int \<Rightarrow> int" where
  "long_to_int v = sint (word_of_int v :: u32)"

text \<open>\<open>inet_pton\<close>: the IPv4 address in host byte order and the sixteen bytes of the IPv6 address, when
  the text is one.\<close>

record inet =
  pton4 :: "bytes \<Rightarrow> u32 option"
  pton6 :: "bytes \<Rightarrow> bytes option"

end
