(* ===== verification/T3_Client_Stream.thy ===== *)
theory T3_Client_Stream
  imports T3_Ring T3_Client_Crypto T3_Client_WS T3_Http_Stream T3_Libc
begin

unbundle bit_operations_syntax

text \<open>
  The client transport, \<open>lib/src/t3_client_stream.c\<close>: endpoint URLs, the connection state machine,
  deframing, decryption and reassembly of incoming data, and the framing of outgoing messages.

  The TLS layer, the socket and OpenSSL's generator are the functions of a record \<open>host_io\<close> over a
  state \<open>'w\<close> of the outside world. \<open>None\<close> is an access outside a buffer or through a dangling pointer,
  or a loop that does not end. Error texts (\<open>last_error\<close>) are left out.
\<close>

subsection \<open>Endpoint URLs\<close>

datatype t3c_mode = T3C_MODE_WS | T3C_MODE_HTTP

text \<open>The last colon, as the loop from the end finds it.\<close>

definition last_colon :: "bytes \<Rightarrow> nat option" where
  "last_colon hp = (case memchr 0x3A (rev hp) of None \<Rightarrow> None | Some i \<Rightarrow> Some (length hp - 1 - i))"

record endpoint =
  ep_mode :: t3c_mode
  ep_sni_host :: bytes
  ep_host_port :: bytes
  ep_path :: bytes
  ep_port :: int

text \<open>
  \<open>parse_endpoint\<close>: \<open>Some None\<close> is -1. The copies are taken to succeed. The port text runs to the end
  of the URL, where \<open>atoi\<close> stops at the first character that is not a digit.
\<close>

definition parse_endpoint :: "bytes \<Rightarrow> endpoint option option" where
  "parse_endpoint url =
     (let scheme = (if starts_with (ascii ''https://'') url then Some (T3C_MODE_HTTP, drop 8 url)
                    else if starts_with (ascii ''wss://'') url then Some (T3C_MODE_WS, drop 6 url)
                    else None) in
      case scheme of
        None \<Rightarrow> Some None
      | Some (mode, p) \<Rightarrow>
          (let slash = memchr 0x2F p;
               hp_len = (case slash of None \<Rightarrow> length p | Some i \<Rightarrow> i);
               host_port = take hp_len p;
               path = (case slash of None \<Rightarrow> [0x2F] | Some i \<Rightarrow> drop i p) in
           case last_colon host_port of
             Some colon \<Rightarrow>
               do {
                 port \<leftarrow> atoi (drop (colon + 1) p);
                 Some (Some \<lparr>ep_mode = mode, ep_sni_host = take colon p, ep_host_port = host_port,
                             ep_path = path, ep_port = port\<rparr>)
               }
           | None \<Rightarrow>
               Some (Some \<lparr>ep_mode = mode, ep_sni_host = host_port, ep_host_port = host_port,
                           ep_path = path, ep_port = 443\<rparr>)))"

subsection \<open>State\<close>

datatype t3_client_state = T3_CLIENT_STATE_CONNECTING | T3_CLIENT_STATE_TLS | T3_CLIENT_STATE_HANDSHAKE
  | T3_CLIENT_STATE_READY | T3_CLIENT_STATE_ERROR | T3_CLIENT_STATE_CLOSED

record t3_client_stream =
  cs_state :: t3_client_state
  cs_mode :: t3c_mode
  cs_tls_connected :: bool
  cs_encrypt_ctx :: ctx_ptr
  cs_decrypt_ctx :: ctx_ptr
  cs_secret :: bytes
  cs_dc_id :: u16
  cs_host :: bytes
  cs_path :: bytes
  cs_in :: ring_buf
  cs_out :: ring_buf
  cs_reasm :: ring_buf
  cs_plain :: ring_buf
  cs_ws_upgrade_sent :: bool
  cs_ws_upgrade_done :: bool
  cs_ws_key :: bytes
  cs_http_headers_sent :: bool
  cs_http_response_done :: bool
  cs_obfs2_sent :: bool
  cs_tunnel_mode :: bool

datatype ssl_read = SrData bytes | SrWant | SrFail
datatype ssl_write = SwSent nat | SwWant | SwFail
datatype tls_result = TlsDone | TlsWant | TlsFail
datatype poll_result = PollNotYet | PollReady int

text \<open>
  \<open>io_rand n\<close> is \<open>RAND_bytes\<close>: whether it reports success, and what the buffer holds afterwards.
  \<open>io_mem\<close> says whether an allocation of so many bytes succeeds.
\<close>

record 'w host_io =
  io_read :: "'w \<Rightarrow> ssl_read \<times> 'w"
  io_write :: "bytes \<Rightarrow> 'w \<Rightarrow> ssl_write \<times> 'w"
  io_handshake :: "'w \<Rightarrow> tls_result \<times> 'w"
  io_poll :: "'w \<Rightarrow> poll_result \<times> 'w"
  io_rand :: "nat \<Rightarrow> 'w \<Rightarrow> (bool \<times> bytes) \<times> 'w"
  io_mem :: "nat \<Rightarrow> bool"
  io_evp :: "nat \<Rightarrow> bool"
  io_update :: "nat \<Rightarrow> bool"
  io_ks :: keystream
  io_sha :: sha256_fn

subsection \<open>TLS reads and writes\<close>

definition pump_tls_handshake :: "'w host_io \<Rightarrow> t3_client_stream \<Rightarrow> 'w \<Rightarrow> (int \<times> t3_client_stream) \<times> 'w" where
  "pump_tls_handshake io s w =
     (let (r, w1) = io_handshake io w in
      ((case r of
          TlsDone \<Rightarrow> (0, s\<lparr>cs_tls_connected := True, cs_state := T3_CLIENT_STATE_HANDSHAKE\<rparr>)
        | TlsWant \<Rightarrow> (1, s)
        | TlsFail \<Rightarrow> (-1, s\<lparr>cs_state := T3_CLIENT_STATE_ERROR\<rparr>)), w1))"

partial_function (option) ssl_flush_out :: "'w host_io \<Rightarrow> ring_buf \<Rightarrow> 'w \<Rightarrow> ((int \<times> ring_buf) \<times> 'w) option" where
  "ssl_flush_out io r w =
     (if ring_used r > 0 then
        do {
          ptr \<leftarrow> ring_read_ptr r;
          (let (res, w1) = io_write io (take 16384 ptr) w in
           case res of
             SwSent n \<Rightarrow> ssl_flush_out io (ring_consume r n) w1
           | SwWant \<Rightarrow> Some ((0, r), w1)
           | SwFail \<Rightarrow> Some ((-1, r), w1))
        }
      else Some ((0, r), w))"

text \<open>The result of the append is not looked at.\<close>

partial_function (option) ssl_read_in :: "'w host_io \<Rightarrow> ring_buf \<Rightarrow> 'w \<Rightarrow> ((int \<times> ring_buf) \<times> 'w) option" where
  "ssl_read_in io r w =
     (let (res, w1) = io_read io w in
      case res of
        SrData d \<Rightarrow> do { (_, r1) \<leftarrow> ring_append r d; ssl_read_in io r1 w1 }
      | SrWant \<Rightarrow> Some ((0, r), w1)
      | SrFail \<Rightarrow> Some ((-1, r), w1))"

definition flush_stream :: "'w host_io \<Rightarrow> t3_client_stream \<Rightarrow> 'w \<Rightarrow> (t3_client_stream \<times> 'w) option" where
  "flush_stream io s w = do { ((_, r), w1) \<leftarrow> ssl_flush_out io (cs_out s) w; Some (s\<lparr>cs_out := r\<rparr>, w1) }"

definition fill_stream :: "'w host_io \<Rightarrow> t3_client_stream \<Rightarrow> 'w \<Rightarrow> (t3_client_stream \<times> 'w) option" where
  "fill_stream io s w = do { ((_, r), w1) \<leftarrow> ssl_read_in io (cs_in s) w; Some (s\<lparr>cs_in := r\<rparr>, w1) }"

text \<open>Queueing output; the return value is ignored everywhere.\<close>

definition queue_out :: "t3_client_stream \<Rightarrow> bytes \<Rightarrow> t3_client_stream option" where
  "queue_out s d = do { (_, r) \<leftarrow> ring_append (cs_out s) d; Some (s\<lparr>cs_out := r\<rparr>) }"

subsection \<open>Handshake\<close>

definition post_headers_text :: "bytes \<Rightarrow> bytes \<Rightarrow> bytes" where
  "post_headers_text path host =
     ascii ''POST '' @ path @ ascii '' HTTP/1.1'' @ CRLF
     @ ascii ''Host: '' @ host @ CRLF
     @ ascii ''Content-Type: application/octet-stream'' @ CRLF
     @ ascii ''Transfer-Encoding: chunked'' @ CRLF
     @ ascii ''Connection: keep-alive'' @ CRLF
     @ CRLF"

definition send_http_post_headers :: "t3_client_stream \<Rightarrow> (int \<times> t3_client_stream) option" where
  "send_http_post_headers s =
     (let hdrs = post_headers_text (cs_path s) (cs_host s) in
      if length hdrs \<ge> 1024 then Some (-1, s)
      else do { s1 \<leftarrow> queue_out s hdrs; Some (0, s1) })"

definition gen_init ::
  "'w host_io \<Rightarrow> t3_client_stream \<Rightarrow> 'w \<Rightarrow> (((int \<times> bytes option) \<times> ctx_ptr \<times> ctx_ptr) \<times> 'w) option" where
  "gen_init io s w =
     (let rand = (\<lambda>w. let ((ok, b), w') = io_rand io 64 w in (if ok then Some b else None, w')) in
      if cs_tunnel_mode s
      then t3c_obfs2_generate_init_tunnel (io_ks io) (io_sha io) rand (io_evp io) (cs_secret s)
             (cs_encrypt_ctx s) (cs_decrypt_ctx s) w
      else t3c_obfs2_generate_init (io_ks io) (io_sha io) rand (io_evp io) (cs_secret s) (cs_dc_id s)
             (cs_encrypt_ctx s) (cs_decrypt_ctx s) w)"

definition frame_init :: "'w host_io \<Rightarrow> t3c_mode \<Rightarrow> bytes \<Rightarrow> 'w \<Rightarrow> bytes option \<times> 'w" where
  "frame_init io mode header w =
     (case mode of
        T3C_MODE_WS \<Rightarrow>
          (let ((_, mask_key), w') = io_rand io 4 w in (t3c_ws_frame_write mask_key header True 128, w'))
      | T3C_MODE_HTTP \<Rightarrow>
          (let (rc, c) = t3_http_chunk_write True 128 (Some header) 64 in (if rc = T3_OK then c else None, w)))"

definition send_obfs2_init :: "'w host_io \<Rightarrow> t3_client_stream \<Rightarrow> 'w \<Rightarrow> ((int \<times> t3_client_stream) \<times> 'w) option" where
  "send_obfs2_init io s w =
     do {
       (((gen_rc, header), e, d), w1) \<leftarrow> gen_init io s w;
       (let s1 = s\<lparr>cs_encrypt_ctx := e, cs_decrypt_ctx := d\<rparr> in
        case header of
          None \<Rightarrow> Some ((-1, s1), w1)
        | Some h \<Rightarrow>
            if gen_rc \<noteq> 0 then Some ((-1, s1), w1)
            else
              (case frame_init io (cs_mode s1) h w1 of
                 (None, w2) \<Rightarrow> Some ((-1, s1), w2)
               | (Some f, w2) \<Rightarrow>
                   do { s2 \<leftarrow> queue_out s1 f; Some ((0, s2\<lparr>cs_obfs2_sent := True\<rparr>), w2) }))
     }"

text \<open>The scan for the end of a header block: the offset behind it.\<close>

fun header_end :: "bytes \<Rightarrow> nat option" where
  "header_end (a # b # c # d # rest) =
     (if a = 0x0D \<and> b = 0x0A \<and> c = 0x0D \<and> d = 0x0A then Some 4
      else map_option Suc (header_end (b # c # d # rest)))"
| "header_end _ = None"

definition handle_ws_upgrade :: "'w host_io \<Rightarrow> t3_client_stream \<Rightarrow> 'w \<Rightarrow> ((int \<times> t3_client_stream) \<times> 'w) option" where
  "handle_ws_upgrade io s w =
     (if \<not> cs_ws_upgrade_sent s then
        (let ((_, nonce), w1) = io_rand io 16 w in
         case t3c_ws_upgrade_request nonce (Some (cs_host s)) (Some (cs_path s)) True 1024 of
           None \<Rightarrow> Some ((-1, s), w1)
         | Some (req, key) \<Rightarrow>
             do {
               s1 \<leftarrow> queue_out (s\<lparr>cs_ws_key := key\<rparr>) req;
               Some ((1, s1\<lparr>cs_ws_upgrade_sent := True\<rparr>), w1)
             })
      else
        do {
          ptr \<leftarrow> ring_read_ptr (cs_in s);
          (if length ptr < 12 then Some ((1, s), w)
           else
             (case header_end ptr of
                None \<Rightarrow> if length ptr > 4096 then Some ((-1, s), w) else Some ((1, s), w)
              | Some e \<Rightarrow>
                  if take 12 ptr \<noteq> ascii ''HTTP/1.1 101'' then Some ((-1, s), w)
                  else Some ((0, s\<lparr>cs_in := ring_consume (cs_in s) e, cs_ws_upgrade_done := True\<rparr>), w)))
        })"

subsection \<open>Incoming data\<close>

text \<open>
  Taking one frame or chunk off the raw bytes. \<open>RawData\<close> has the payload (\<open>None\<close> when it is not inside
  the buffer), its announced length and the number of bytes consumed; a terminal chunk is only
  consumed.
\<close>

datatype raw_item = RawMore | RawBad | RawSkip nat | RawData "bytes option" nat nat

definition next_raw :: "t3c_mode \<Rightarrow> bytes \<Rightarrow> raw_item option" where
  "next_raw mode ptr =
     (case mode of
        T3C_MODE_WS \<Rightarrow>
          do {
            r \<leftarrow> t3c_ws_frame_read (Some ptr) True;
            (case r of
               WsMore \<Rightarrow> Some RawMore
             | WsError \<Rightarrow> Some RawBad
             | WsFrame off len consumed \<Rightarrow> Some (RawData (rd_range ptr off len) len consumed))
          }
      | T3C_MODE_HTTP \<Rightarrow>
          do {
            (rc, out) \<leftarrow> t3_http_chunk_parse (Some ptr) True;
            (if rc = T3_ERR_BUF_TOO_SMALL then Some RawMore
             else if rc \<noteq> T3_OK then Some RawBad
             else
               (case out of
                  Some (Some d, consumed) \<Rightarrow> Some (RawData (Some d) (length d) consumed)
                | Some (None, consumed) \<Rightarrow> Some (RawSkip consumed)
                | None \<Rightarrow> None))
          })"

text \<open>
  One payload to the decrypted stream. \<open>Inl\<close> ends the loop: with -1 when there is no memory or the
  cipher refuses, with 0 when the stream is full, by then with the cipher advanced.
\<close>

definition decrypt_payload ::
  "'w host_io \<Rightarrow> t3_client_stream \<Rightarrow> bytes option \<Rightarrow> nat \<Rightarrow> (int \<times> t3_client_stream + t3_client_stream) option" where
  "decrypt_payload io s data len =
     (if \<not> io_mem io len then Some (Inl (-1, s))
      else do {
        payload \<leftarrow> data;
        (rc, dec, ctx) \<leftarrow> t3c_aes_crypt (io_ks io) (io_update io) (Some (cs_decrypt_ctx s)) payload;
        (case (dec, ctx) of
           (Some d, Some c) \<Rightarrow>
             if rc \<noteq> 0 then Some (Inl (-1, s))
             else do {
               (full, r) \<leftarrow> ring_append (cs_reasm s) d;
               (let s1 = s\<lparr>cs_decrypt_ctx := c, cs_reasm := r\<rparr> in
                if full \<noteq> 0 then Some (Inl (0, s1)) else Some (Inr s1))
             }
         | _ \<Rightarrow> Some (Inl (-1, s)))
      })"

text \<open>The first loop of \<open>process_incoming\<close>: frames to the decrypted stream; -1 returns from it.\<close>

partial_function (option) deframe_loop :: "'w host_io \<Rightarrow> t3_client_stream \<Rightarrow> (int \<times> t3_client_stream) option" where
  "deframe_loop io s =
     do {
       ptr \<leftarrow> ring_read_ptr (cs_in s);
       (if ptr = [] then Some (0, s)
        else do {
          item \<leftarrow> next_raw (cs_mode s) ptr;
          (case item of
             RawMore \<Rightarrow> Some (0, s)
           | RawBad \<Rightarrow> Some (-1, s)
           | RawSkip n \<Rightarrow> deframe_loop io (s\<lparr>cs_in := ring_consume (cs_in s) n\<rparr>)
           | RawData data len n \<Rightarrow>
               do {
                 r \<leftarrow> decrypt_payload io s data len;
                 (case r of
                    Inl out \<Rightarrow> Some out
                  | Inr s1 \<Rightarrow> deframe_loop io (s1\<lparr>cs_in := ring_consume (cs_in s1) n\<rparr>))
               })
        })
     }"

text \<open>The length prefix of a packet, little-endian and without its quick-ack bit.\<close>

definition wire_len :: "bytes \<Rightarrow> nat" where
  "wire_len b = le_nat (take 4 b) mod 2 ^ 31"

text \<open>The second loop: whole packets, length prefix included, to the caller's queue.\<close>

partial_function (option) packet_loop :: "t3_client_stream \<Rightarrow> (int \<times> t3_client_stream) option" where
  "packet_loop s =
     do {
       rptr \<leftarrow> ring_read_ptr (cs_reasm s);
       (if length rptr < 4 then Some (0, s)
        else
          (let wire_length = wire_len rptr in
           if wire_length < 4 \<or> wire_length > 2 ^ 22 then
             (if rptr ! 0 = T3_PADDING_MARKER
              then packet_loop (s\<lparr>cs_reasm := ring_consume (cs_reasm s) 1\<rparr>)
              else Some (-1, s))
           else if length rptr < 4 + wire_length then Some (0, s)
           else do {
             (full, r) \<leftarrow> ring_append (cs_plain s) (take (4 + wire_length) rptr);
             (let s1 = s\<lparr>cs_plain := r\<rparr> in
              if full \<noteq> 0 then Some (0, s1)
              else packet_loop (s1\<lparr>cs_reasm := ring_consume (cs_reasm s1) (4 + wire_length)\<rparr>))
           }))
     }"

definition process_incoming :: "'w host_io \<Rightarrow> t3_client_stream \<Rightarrow> (int \<times> t3_client_stream) option" where
  "process_incoming io s =
     do { (rc, s1) \<leftarrow> deframe_loop io s; (if rc < 0 then Some (-1, s1) else packet_loop s1) }"

subsection \<open>The state machine\<close>

text \<open>The four parts of \<open>t3_client_pump\<close>. \<open>Inl\<close> returns the code, \<open>Inr\<close> falls through to the next part.\<close>

type_synonym 'w pump_part = "((t3_result \<times> t3_client_stream + t3_client_stream) \<times> 'w) option"

definition pump_connecting :: "'w host_io \<Rightarrow> t3_client_stream \<Rightarrow> 'w \<Rightarrow> 'w pump_part" where
  "pump_connecting io s w =
     (if cs_state s = T3_CLIENT_STATE_CONNECTING then
        (let (r, w1) = io_poll io w in
         case r of
           PollNotYet \<Rightarrow> Some (Inl (T3_ERR_BUF_TOO_SMALL, s), w1)
         | PollReady err \<Rightarrow>
             if err \<noteq> 0 then Some (Inl (T3_ERR_INTERNAL, s\<lparr>cs_state := T3_CLIENT_STATE_ERROR\<rparr>), w1)
             else Some (Inr (s\<lparr>cs_state := T3_CLIENT_STATE_TLS\<rparr>), w1))
      else Some (Inr s, w))"

definition pump_tls :: "'w host_io \<Rightarrow> t3_client_stream \<Rightarrow> 'w \<Rightarrow> 'w pump_part" where
  "pump_tls io s w =
     (if cs_state s = T3_CLIENT_STATE_TLS then
        (let ((rc, s1), w1) = pump_tls_handshake io s w in
         if rc \<noteq> 0 then Some (Inl (if rc < 0 then T3_ERR_INTERNAL else T3_ERR_BUF_TOO_SMALL, s1), w1)
         else Some (Inr s1, w1))
      else Some (Inr s, w))"

text \<open>Waiting for the HTTP response headers, which may be missing.\<close>

definition pump_http_response :: "'w host_io \<Rightarrow> t3_client_stream \<Rightarrow> 'w \<Rightarrow> 'w pump_part" where
  "pump_http_response io s w =
     (if cs_mode s = T3C_MODE_HTTP \<and> \<not> cs_http_response_done s then
        do {
          (s1, w1) \<leftarrow> flush_stream io s w;
          (s2, w2) \<leftarrow> fill_stream io s1 w1;
          ptr \<leftarrow> ring_read_ptr (cs_in s2);
          (if ptr = [] then Some (Inl (T3_ERR_BUF_TOO_SMALL, s2), w2)
           else if length ptr \<ge> 4 \<and> take 4 ptr = ascii ''HTTP'' then
             (case header_end ptr of
                None \<Rightarrow>
                  if length ptr > 8192
                  then Some (Inl (T3_ERR_INTERNAL, s2\<lparr>cs_state := T3_CLIENT_STATE_ERROR\<rparr>), w2)
                  else Some (Inl (T3_ERR_BUF_TOO_SMALL, s2), w2)
              | Some e \<Rightarrow>
                  Some (Inr (s2\<lparr>cs_in := ring_consume (cs_in s2) e, cs_http_response_done := True\<rparr>), w2))
           else Some (Inr (s2\<lparr>cs_http_response_done := True\<rparr>), w2))
        }
      else Some (Inr s, w))"

text \<open>The headers of the transport: the WebSocket upgrade, or the POST request.\<close>

definition pump_headers :: "'w host_io \<Rightarrow> t3_client_stream \<Rightarrow> 'w \<Rightarrow> 'w pump_part" where
  "pump_headers io s w =
     (case cs_mode s of
        T3C_MODE_WS \<Rightarrow>
          if \<not> cs_ws_upgrade_done s then
            do {
              ((rc, s1), w1) \<leftarrow> handle_ws_upgrade io s w;
              (if rc \<noteq> 0 then
                 do {
                   (s2, w2) \<leftarrow> flush_stream io s1 w1;
                   (s3, w3) \<leftarrow> fill_stream io s2 w2;
                   Some (Inl (if rc < 0 then T3_ERR_INTERNAL else T3_ERR_BUF_TOO_SMALL, s3), w3)
                 }
               else Some (Inr s1, w1))
            }
          else Some (Inr s, w)
      | T3C_MODE_HTTP \<Rightarrow>
          if \<not> cs_http_headers_sent s then
            do { (_, s1) \<leftarrow> send_http_post_headers s; Some (Inr (s1\<lparr>cs_http_headers_sent := True\<rparr>), w) }
          else Some (Inr s, w))"

definition and_then :: "'w pump_part \<Rightarrow> (t3_client_stream \<Rightarrow> 'w \<Rightarrow> 'w pump_part) \<Rightarrow> 'w pump_part" where
  "and_then p f = do { (r, w) \<leftarrow> p; (case r of Inl out \<Rightarrow> Some (Inl out, w) | Inr s \<Rightarrow> f s w) }"

definition pump_init :: "'w host_io \<Rightarrow> t3_client_stream \<Rightarrow> 'w \<Rightarrow> 'w pump_part" where
  "pump_init io s w =
     (if \<not> cs_obfs2_sent s then
        do {
          ((rc, s1), w1) \<leftarrow> send_obfs2_init io s w;
          (if rc \<noteq> 0 then Some (Inl (T3_ERR_INTERNAL, s1\<lparr>cs_state := T3_CLIENT_STATE_ERROR\<rparr>), w1)
           else Some (Inr s1, w1))
        }
      else Some (Inr s, w))"

definition pump_handshake :: "'w host_io \<Rightarrow> t3_client_stream \<Rightarrow> 'w \<Rightarrow> 'w pump_part" where
  "pump_handshake io s w =
     (if cs_state s = T3_CLIENT_STATE_HANDSHAKE then
        and_then (and_then (and_then (pump_headers io s w) (pump_init io))
          (\<lambda>s w. do { (s1, w1) \<leftarrow> flush_stream io s w; pump_http_response io s1 w1 }))
          (\<lambda>s w. Some (Inr (s\<lparr>cs_state := T3_CLIENT_STATE_READY\<rparr>), w))
      else Some (Inr s, w))"

text \<open>The result of \<open>process_incoming\<close> is ignored.\<close>

definition pump_ready :: "'w host_io \<Rightarrow> t3_client_stream \<Rightarrow> 'w \<Rightarrow> 'w pump_part" where
  "pump_ready io s w =
     (if cs_state s = T3_CLIENT_STATE_READY then
        do {
          (s1, w1) \<leftarrow> fill_stream io s w;
          (_, s2) \<leftarrow> process_incoming io s1;
          (s3, w2) \<leftarrow> flush_stream io s2 w1;
          Some (Inr s3, w2)
        }
      else Some (Inr s, w))"

definition t3_client_pump ::
  "'w host_io \<Rightarrow> t3_client_stream option \<Rightarrow> 'w \<Rightarrow> ((t3_result \<times> t3_client_stream option) \<times> 'w) option" where
  "t3_client_pump io st w =
     (case st of
        None \<Rightarrow> Some ((T3_ERR_INVALID_ARG, None), w)
      | Some s \<Rightarrow>
          if cs_state s = T3_CLIENT_STATE_ERROR then Some ((T3_ERR_INTERNAL, Some s), w)
          else if cs_state s = T3_CLIENT_STATE_CLOSED then Some ((T3_ERR_INVALID_ARG, Some s), w)
          else
            do {
              (r, w1) \<leftarrow> and_then (and_then (and_then (pump_connecting io s w) (pump_tls io)) (pump_handshake io))
                           (pump_ready io);
              (case r of
                 Inl (rc, s1) \<Rightarrow> Some ((rc, Some s1), w1)
               | Inr s1 \<Rightarrow> Some ((T3_OK, Some s1), w1))
            })"

subsection \<open>Messages\<close>

text \<open>The transport frame of encrypted bytes.\<close>

definition frame_out :: "'w host_io \<Rightarrow> t3c_mode \<Rightarrow> bytes \<Rightarrow> 'w \<Rightarrow> bytes option \<times> 'w" where
  "frame_out io mode encrypted w =
     (case mode of
        T3C_MODE_WS \<Rightarrow>
          if \<not> io_mem io (length encrypted + 14) then (None, w)
          else
            (let ((_, mask_key), w1) = io_rand io 4 w in
             (t3c_ws_frame_write mask_key encrypted True (length encrypted + 14), w1))
      | T3C_MODE_HTTP \<Rightarrow>
          if \<not> io_mem io (length encrypted + 32) then (None, w)
          else
            (let (rc, c) = t3_http_chunk_write True (length encrypted + 32) (Some encrypted) (length encrypted) in
             (if rc = T3_OK then c else None, w)))"

definition draw_padding :: "'w host_io \<Rightarrow> nat \<Rightarrow> 'w \<Rightarrow> bytes \<times> 'w" where
  "draw_padding io padding_len w =
     (if padding_len > 0 then (let ((_, b), w') = io_rand io padding_len w in (b, w')) else ([], w))"

definition t3_client_write ::
  "'w host_io \<Rightarrow> t3_client_stream option \<Rightarrow> bytes option \<Rightarrow> 'w \<Rightarrow> ((t3_result \<times> t3_client_stream option) \<times> 'w) option" where
  "t3_client_write io st plaintext w =
     (case (st, plaintext) of
        (Some s, Some p) \<Rightarrow>
          if p = [] then Some ((T3_ERR_INVALID_ARG, st), w)
          else if cs_state s \<noteq> T3_CLIENT_STATE_READY then Some ((T3_ERR_INVALID_ARG, st), w)
          else
            (let ((ok, r), w1) = io_rand io 1 w;
                 padding_len = (if ok then unat (r ! 0 AND 0x0F) else 0);
                 frame_len = 4 + length p + padding_len in
             if \<not> io_mem io frame_len then Some ((T3_ERR_INTERNAL, st), w1)
             else
               (let (pad, w2) = draw_padding io padding_len w1;
                    framed = le_bytes 4 (length p + padding_len) @ p @ pad in
                if \<not> io_mem io frame_len then Some ((T3_ERR_INTERNAL, st), w2)
                else do {
                  (rc, enc, ctx) \<leftarrow> t3c_aes_crypt (io_ks io) (io_update io) (Some (cs_encrypt_ctx s)) framed;
                  (case (enc, ctx) of
                     (Some encrypted, Some c) \<Rightarrow>
                       (let s1 = s\<lparr>cs_encrypt_ctx := c\<rparr>;
                            (frame, w3) = frame_out io (cs_mode s1) encrypted w2 in
                        case frame of
                          None \<Rightarrow> Some ((T3_ERR_INTERNAL, Some s1), w3)
                        | Some f \<Rightarrow>
                            do {
                              s2 \<leftarrow> queue_out s1 f;
                              (s3, w4) \<leftarrow> flush_stream io s2 w3;
                              Some ((T3_OK, Some s3), w4)
                            })
                   | _ \<Rightarrow> Some ((T3_ERR_INTERNAL, st), w2))
                }))
      | _ \<Rightarrow> Some ((T3_ERR_INVALID_ARG, st), w))"

text \<open>The code, the bytes written to \<open>out_buf\<close> (whose number is \<open>*out_len\<close>) and the stream.\<close>

definition t3_client_read ::
  "t3_client_stream option \<Rightarrow> bool \<Rightarrow> nat \<Rightarrow> (t3_result \<times> bytes option \<times> t3_client_stream option) option" where
  "t3_client_read st out_ok out_cap =
     (case st of
        None \<Rightarrow> Some (T3_ERR_INVALID_ARG, None, st)
      | Some s \<Rightarrow>
          if \<not> out_ok then Some (T3_ERR_INVALID_ARG, None, st)
          else if cs_state s \<noteq> T3_CLIENT_STATE_READY then Some (T3_ERR_INVALID_ARG, None, st)
          else
            do {
              ptr \<leftarrow> ring_read_ptr (cs_plain s);
              (if length ptr < 4 then Some (T3_ERR_BUF_TOO_SMALL, Some [], st)
               else
                 (let msg_len = wire_len ptr in
                  if length ptr < 4 + msg_len then Some (T3_ERR_BUF_TOO_SMALL, Some [], st)
                  else if msg_len > out_cap then Some (T3_ERR_BUF_TOO_SMALL, Some [], st)
                  else
                    Some (T3_OK, Some (take msg_len (drop 4 ptr)),
                          Some (s\<lparr>cs_plain := ring_consume (cs_plain s) (4 + msg_len)\<rparr>))))
            })"

definition t3_client_get_state :: "t3_client_stream option \<Rightarrow> t3_client_state" where
  "t3_client_get_state st = (case st of None \<Rightarrow> T3_CLIENT_STATE_ERROR | Some s \<Rightarrow> cs_state s)"

text \<open>What \<open>t3_client_destroy\<close> leaves of the structure before freeing it; \<open>None\<close> is a double free.\<close>

definition t3_client_destroy :: "t3_client_stream option \<Rightarrow> t3_client_stream option option" where
  "t3_client_destroy st =
     (case st of
        None \<Rightarrow> Some None
      | Some s \<Rightarrow>
          do {
            e \<leftarrow> t3c_aes_ctx_free (Some (cs_encrypt_ctx s));
            d \<leftarrow> t3c_aes_ctx_free (Some (cs_decrypt_ctx s));
            Some (Some (s\<lparr>cs_encrypt_ctx := the e, cs_decrypt_ctx := the d,
              cs_in := ring_free (cs_in s), cs_out := ring_free (cs_out s),
              cs_reasm := ring_free (cs_reasm s), cs_plain := ring_free (cs_plain s),
              cs_state := T3_CLIENT_STATE_CLOSED\<rparr>))
          })"

subsection \<open>Creation\<close>

text \<open>
  \<open>ok k\<close> says whether the structure (0), the TLS context (1) and the TLS connection (2) could be
  allocated; \<open>bufs k\<close> is what \<open>malloc\<close> returned for the \<open>k\<close>-th ring, which is not checked; \<open>connect\<close> is
  \<open>nb_connect\<close>. The outer \<open>None\<close> is undefined behaviour in the URL's port.
\<close>

definition t3_client_create ::
  "(nat \<Rightarrow> bool) \<Rightarrow> (nat \<Rightarrow> bytes option) \<Rightarrow> (bytes \<Rightarrow> int \<Rightarrow> bool) \<Rightarrow> bytes option \<Rightarrow> bytes option \<Rightarrow> u16 \<Rightarrow> bool
   \<Rightarrow> (t3_result \<times> t3_client_stream option) option" where
  "t3_client_create ok bufs connect endpoint_url secret dc_id out_ok =
     (case (endpoint_url, secret) of
        (Some url, Some key) \<Rightarrow>
          if \<not> out_ok then Some (T3_ERR_INVALID_ARG, None)
          else if \<not> ok 0 then Some (T3_ERR_INTERNAL, None)
          else
            do {
              e \<leftarrow> parse_endpoint url;
              (case e of
                 None \<Rightarrow> Some (T3_ERR_INVALID_ARG, None)
               | Some ep \<Rightarrow>
                   if \<not> connect (ep_sni_host ep) (ep_port ep) then Some (T3_ERR_INTERNAL, None)
                   else if \<not> ok 1 \<or> \<not> ok 2 then Some (T3_ERR_INTERNAL, None)
                   else Some (T3_OK, Some
                     \<lparr>cs_state = T3_CLIENT_STATE_CONNECTING, cs_mode = ep_mode ep, cs_tls_connected = False,
                      cs_encrypt_ctx = CtxNull, cs_decrypt_ctx = CtxNull, cs_secret = take 16 key,
                      cs_dc_id = dc_id, cs_host = ep_host_port ep, cs_path = ep_path ep,
                      cs_in = ring_init (bufs 0), cs_out = ring_init (bufs 1),
                      cs_reasm = ring_init (bufs 2), cs_plain = ring_init (bufs 3),
                      cs_ws_upgrade_sent = False, cs_ws_upgrade_done = False, cs_ws_key = replicate 24 0,
                      cs_http_headers_sent = False, cs_http_response_done = False,
                      cs_obfs2_sent = False, cs_tunnel_mode = False\<rparr>))
            }
      | _ \<Rightarrow> Some (T3_ERR_INVALID_ARG, None))"

definition t3_client_create_tunnel ::
  "(nat \<Rightarrow> bool) \<Rightarrow> (nat \<Rightarrow> bytes option) \<Rightarrow> (bytes \<Rightarrow> int \<Rightarrow> bool) \<Rightarrow> bytes option \<Rightarrow> bytes option \<Rightarrow> bool
   \<Rightarrow> (t3_result \<times> t3_client_stream option) option" where
  "t3_client_create_tunnel ok bufs connect endpoint_url secret out_ok =
     do {
       (rc, st) \<leftarrow> t3_client_create ok bufs connect endpoint_url secret 0 out_ok;
       Some (rc, if rc = T3_OK then map_option (\<lambda>s. s\<lparr>cs_tunnel_mode := True\<rparr>) st else st)
     }"

end
