(* ===== verification/T3_Client_Pump.thy ===== *)
theory T3_Client_Pump
  imports T3_Client_Stream
begin

text \<open>
  Invariants of the client transport: every operation keeps the four rings well-formed, and the state
  machine of \<open>t3_client_pump\<close> moves as its return code says.
\<close>

definition stream_wf :: "t3_client_stream \<Rightarrow> bool" where
  "stream_wf s \<longleftrightarrow> ring_wf (cs_in s) \<and> ring_wf (cs_out s) \<and> ring_wf (cs_reasm s) \<and> ring_wf (cs_plain s)"

text \<open>What every step below the state machine keeps.\<close>

definition keeps :: "t3_client_stream \<Rightarrow> t3_client_stream \<Rightarrow> bool" where
  "keeps s s' \<longleftrightarrow> cs_state s' = cs_state s \<and> cs_mode s' = cs_mode s \<and> (stream_wf s \<longrightarrow> stream_wf s')"

lemma keeps_refl [simp]: "keeps s s"
  by (simp add: keeps_def)

lemma keeps_trans: "keeps s t \<Longrightarrow> keeps t u \<Longrightarrow> keeps s u"
  by (simp add: keeps_def)

text \<open>\<open>SSL_write\<close> never reports more bytes than it was given.\<close>

definition io_sane :: "'w host_io \<Rightarrow> bool" where
  "io_sane io \<longleftrightarrow> (\<forall>d w n w'. io_write io d w = (SwSent n, w') \<longrightarrow> 0 < n \<and> n \<le> length d)"

lemma append_wf: "ring_append r d = Some (rc, r') \<Longrightarrow> ring_wf r \<Longrightarrow> ring_wf r'"
  using ring.append_result by blast

lemma consume_wf: "n \<le> length (ring_contents r) \<Longrightarrow> ring_wf r \<Longrightarrow> ring_wf (ring_consume r n)"
  using ring.consume_drops by blast

lemma flush_wf:
  assumes "ssl_flush_out io r w = Some ((rc, r'), w')" "io_sane io" "ring_wf r"
  shows "ring_wf r'"
proof -
  have "io_sane io \<and> ring_wf r \<longrightarrow> ring_wf (snd (fst y))"
    if "ssl_flush_out io r w = Some y" for io :: "'w host_io" and r w y
    using that
  proof (rule ssl_flush_out.raw_induct [rotated], intro impI)
    fix f :: "'w host_io \<Rightarrow> ring_buf \<Rightarrow> 'w \<Rightarrow> ((int \<times> ring_buf) \<times> 'w) option" and io r w y
    assume IH: "\<And>io r w y. f io r w = Some y \<Longrightarrow> io_sane io \<and> ring_wf r \<longrightarrow> ring_wf (snd (fst y))"
      and eq: "(if ring_used r > 0 then
          do { ptr \<leftarrow> ring_read_ptr r;
            (let (res, w1) = io_write io (take 16384 ptr) w in
             case res of SwSent n \<Rightarrow> f io (ring_consume r n) w1
             | SwWant \<Rightarrow> Some ((0, r), w1) | SwFail \<Rightarrow> Some ((-1, r), w1)) }
          else Some ((0, r), w)) = Some y"
      and wf: "io_sane io \<and> ring_wf r"
    show "ring_wf (snd (fst y))"
    proof (cases "ring_used r > 0")
      case True
      obtain res w1 where res: "io_write io (take 16384 (ring_contents r)) w = (res, w1)" by force
      show ?thesis
      proof (cases res)
        case (SwSent n)
        then have "n \<le> length (ring_contents r)" using wf res by (force simp: io_sane_def)
        then have "ring_wf (ring_consume r n)" using wf consume_wf by blast
        then show ?thesis using eq IH wf True res SwSent by (auto simp: ring_read_ptr_eq)
      qed (use eq wf True res in \<open>auto simp: ring_read_ptr_eq\<close>)
    qed (use eq wf in auto)
  qed
  from this [OF assms(1)] assms(2,3) show ?thesis by simp
qed

lemma read_in_wf:
  assumes "ssl_read_in io r w = Some ((rc, r'), w')" "ring_wf r"
  shows "ring_wf r'"
proof -
  have "ring_wf r \<longrightarrow> ring_wf (snd (fst y))"
    if "ssl_read_in io r w = Some y" for io :: "'w host_io" and r w y
    using that
  proof (rule ssl_read_in.raw_induct [rotated], intro impI)
    fix f :: "'w host_io \<Rightarrow> ring_buf \<Rightarrow> 'w \<Rightarrow> ((int \<times> ring_buf) \<times> 'w) option" and io r w y
    assume IH: "\<And>io r w y. f io r w = Some y \<Longrightarrow> ring_wf r \<longrightarrow> ring_wf (snd (fst y))"
      and eq: "(let (res, w1) = io_read io w in
          case res of SrData d \<Rightarrow> do { (_, r1) \<leftarrow> ring_append r d; f io r1 w1 }
          | SrWant \<Rightarrow> Some ((0, r), w1) | SrFail \<Rightarrow> Some ((-1, r), w1)) = Some y"
      and wf: "ring_wf r"
    obtain res w1 where res: "io_read io w = (res, w1)" by force
    show "ring_wf (snd (fst y))"
    proof (cases res)
      case (SrData d)
      with eq res obtain rc r1 where "ring_append r d = Some (rc, r1)" "f io r1 w1 = Some y"
        by (auto simp: Option.bind_eq_Some_conv)
      with wf IH append_wf show ?thesis by blast
    qed (use eq res wf in auto)
  qed
  from this [OF assms(1)] assms(2) show ?thesis by simp
qed

lemma flush_stream_keeps: "flush_stream io s w = Some (s', w') \<Longrightarrow> io_sane io \<Longrightarrow> keeps s s'"
  by (auto simp: flush_stream_def keeps_def stream_wf_def Option.bind_eq_Some_conv dest: flush_wf)

lemma fill_stream_keeps: "fill_stream io s w = Some (s', w') \<Longrightarrow> keeps s s'"
  by (auto simp: fill_stream_def keeps_def stream_wf_def Option.bind_eq_Some_conv dest: read_in_wf)

lemma queue_out_keeps: "queue_out s d = Some s' \<Longrightarrow> keeps s s'"
  by (auto simp: queue_out_def keeps_def stream_wf_def Option.bind_eq_Some_conv dest: append_wf)

lemma http_headers_keeps: "send_http_post_headers s = Some (rc, s') \<Longrightarrow> keeps s s'"
  by (auto simp: send_http_post_headers_def Let_def Option.bind_eq_Some_conv dest: queue_out_keeps
      split: if_splits)

lemma obfs2_init_keeps:
  assumes "send_obfs2_init io s w = Some ((rc, s'), w')"
  shows "keeps s s'"
proof -
  from assms obtain gen_rc header e d w1 where g: "gen_init io s w = Some (((gen_rc, header), e, d), w1)"
    by (auto simp: send_obfs2_init_def Option.bind_eq_Some_conv)
  define s1 where "s1 = s\<lparr>cs_encrypt_ctx := e, cs_decrypt_ctx := d\<rparr>"
  have s1: "keeps s s1" by (simp add: s1_def keeps_def stream_wf_def)
  have sent: "keeps t (t\<lparr>cs_obfs2_sent := b\<rparr>)" for t b by (simp add: keeps_def stream_wf_def)
  from assms g have "s' = s1 \<or> (\<exists>f s2. queue_out s1 f = Some s2 \<and> s' = s2\<lparr>cs_obfs2_sent := True\<rparr>)"
    unfolding send_obfs2_init_def
    by (auto simp: Let_def Option.bind_eq_Some_conv simp flip: s1_def split: option.splits if_splits prod.splits)
  with s1 sent show ?thesis using queue_out_keeps keeps_trans by blast
qed

lemma header_end_le: "header_end b = Some e \<Longrightarrow> e \<le> length b"
  by (induction b arbitrary: e rule: header_end.induct) (auto split: if_splits)

lemma ws_upgrade_keeps: "handle_ws_upgrade io s w = Some ((rc, s'), w') \<Longrightarrow> keeps s s'"
proof (cases "cs_ws_upgrade_sent s")
  case False
  assume h: "handle_ws_upgrade io s w = Some ((rc, s'), w')"
  have k: "keeps s (s\<lparr>cs_ws_key := k\<rparr>)" "keeps t (t\<lparr>cs_ws_upgrade_sent := True\<rparr>)" for k t
    by (simp_all add: keeps_def stream_wf_def)
  from h False show ?thesis
    by (auto simp: handle_ws_upgrade_def Let_def Option.bind_eq_Some_conv split: option.splits prod.splits
        dest!: queue_out_keeps intro!: keeps_trans [OF k(1)] keeps_trans [OF _ k(2)])
next
  case True
  assume h: "handle_ws_upgrade io s w = Some ((rc, s'), w')"
  have "keeps s (s\<lparr>cs_in := ring_consume (cs_in s) e, cs_ws_upgrade_done := True\<rparr>)"
    if "ring_read_ptr (cs_in s) = Some ptr" "header_end ptr = Some e" for e ptr
    using that header_end_le [of ptr e]
    by (auto simp: keeps_def stream_wf_def ring_read_ptr_eq intro!: consume_wf)
  with h True show ?thesis
    by (auto simp: handle_ws_upgrade_def Option.bind_eq_Some_conv split: option.splits if_splits)
qed

text \<open>A frame never claims more bytes than there are.\<close>

lemma chunk_parse_consumed:
  "t3_http_chunk_parse (Some b) True = Some (rc, Some (out, n)) \<Longrightarrow> n \<le> length b"
  by (auto simp: t3_http_chunk_parse_def chunk_finish_def Let_def Option.bind_eq_Some_conv
      split: if_splits option.splits)

lemma ws_read_consumed: "t3c_ws_frame_read (Some b) True = Some (WsFrame off len n) \<Longrightarrow> n \<le> length b"
  by (auto simp: t3c_ws_frame_read_def Let_def Option.bind_eq_Some_conv split: if_splits option.splits)

lemma next_raw_consumed:
  assumes "next_raw mode b = Some (RawSkip n) \<or> next_raw mode b = Some (RawData d len n)"
  shows "n \<le> length b"
proof (cases mode)
  case T3C_MODE_WS
  with assms obtain off where "t3c_ws_frame_read (Some b) True = Some (WsFrame off len n)"
    by (cases "t3c_ws_frame_read (Some b) True"; cases "the (t3c_ws_frame_read (Some b) True)")
      (auto simp: next_raw_def)
  then show ?thesis by (rule ws_read_consumed)
next
  case T3C_MODE_HTTP
  with assms obtain rc out where "t3_http_chunk_parse (Some b) True = Some (rc, Some (out, n))"
    by (cases "t3_http_chunk_parse (Some b) True") (auto simp: next_raw_def split: if_splits option.splits)
  then show ?thesis by (rule chunk_parse_consumed)
qed

lemma consume_in_keeps:
  assumes "ring_read_ptr (cs_in s) = Some ptr" "n \<le> length ptr"
  shows "keeps s (s\<lparr>cs_in := ring_consume (cs_in s) n\<rparr>)"
  using assms by (auto simp: keeps_def stream_wf_def ring_read_ptr_eq intro!: consume_wf)

lemma consume_reasm_keeps:
  assumes "ring_read_ptr (cs_reasm s) = Some ptr" "n \<le> length ptr"
  shows "keeps s (s\<lparr>cs_reasm := ring_consume (cs_reasm s) n\<rparr>)"
  using assms by (auto simp: keeps_def stream_wf_def ring_read_ptr_eq intro!: consume_wf)

lemma decrypt_payload_keeps:
  assumes "decrypt_payload io s data len = Some r"
  shows "case r of Inl (rc, s') \<Rightarrow> keeps s s' | Inr s' \<Rightarrow> keeps s s' \<and> cs_in s' = cs_in s"
proof -
  have app: "keeps s (s\<lparr>cs_decrypt_ctx := c, cs_reasm := q\<rparr>)"
    if "ring_append (cs_reasm s) d = Some (full, q)" for c d full q
    using that by (auto simp: keeps_def stream_wf_def dest: append_wf)
  show ?thesis
  proof (cases "io_mem io len")
    case True
    with assms obtain payload rc dec ctx where "data = Some payload"
      "t3c_aes_crypt (io_ks io) (io_update io) (Some (cs_decrypt_ctx s)) payload = Some (rc, dec, ctx)"
      by (auto simp: decrypt_payload_def Option.bind_eq_Some_conv)
    with assms True app show ?thesis
      by (cases dec; cases ctx; cases "rc = 0")
        (auto simp: decrypt_payload_def Option.bind_eq_Some_conv Let_def split: if_splits)
  qed (use assms in \<open>auto simp: decrypt_payload_def\<close>)
qed

lemma deframe_keeps:
  assumes "deframe_loop io s = Some (rc, s')"
  shows "keeps s s'"
proof -
  have "keeps s (snd y)" if "deframe_loop io s = Some y" for io :: "'w host_io" and s y
    using that
  proof (rule deframe_loop.raw_induct [rotated])
    fix f :: "'w host_io \<Rightarrow> t3_client_stream \<Rightarrow> (int \<times> t3_client_stream) option" and io s y
    assume IH: "\<And>io s y. f io s = Some y \<Longrightarrow> keeps s (snd y)"
      and eq: "do {
       ptr \<leftarrow> ring_read_ptr (cs_in s);
       (if ptr = [] then Some (0, s)
        else do {
          item \<leftarrow> next_raw (cs_mode s) ptr;
          (case item of
             RawMore \<Rightarrow> Some (0, s)
           | RawBad \<Rightarrow> Some (-1, s)
           | RawSkip n \<Rightarrow> f io (s\<lparr>cs_in := ring_consume (cs_in s) n\<rparr>)
           | RawData data len n \<Rightarrow>
               do {
                 r \<leftarrow> decrypt_payload io s data len;
                 (case r of
                    Inl out \<Rightarrow> Some out
                  | Inr s1 \<Rightarrow> f io (s1\<lparr>cs_in := ring_consume (cs_in s1) n\<rparr>))
               })
        })
     } = Some y"
    from eq obtain ptr where ptr: "ring_read_ptr (cs_in s) = Some ptr" by (auto simp: Option.bind_eq_Some_conv)
    have go: "keeps s (snd y)" if "keeps s s1" "cs_in s1 = cs_in s" "n \<le> length ptr"
      "f io (s1\<lparr>cs_in := ring_consume (cs_in s1) n\<rparr>) = Some y" for s1 n
      using IH [OF that(4)] consume_in_keeps [of s1 ptr n] that(1-3) ptr keeps_trans by metis
    show "keeps s (snd y)"
    proof (cases "ptr = []")
      case False
      with eq ptr obtain item where item: "next_raw (cs_mode s) ptr = Some item"
        by (auto simp: Option.bind_eq_Some_conv)
      show ?thesis
      proof (cases item)
        case (RawSkip n)
        with eq ptr False item have "f io (s\<lparr>cs_in := ring_consume (cs_in s) n\<rparr>) = Some y" by simp
        with go [OF keeps_refl refl] next_raw_consumed item RawSkip show ?thesis by blast
      next
        case (RawData data len n)
        have n: "n \<le> length ptr" using next_raw_consumed item RawData by blast
        from eq ptr False item RawData obtain r where r: "decrypt_payload io s data len = Some r"
          and y: "(case r of Inl out \<Rightarrow> Some out | Inr s1 \<Rightarrow> f io (s1\<lparr>cs_in := ring_consume (cs_in s1) n\<rparr>)) = Some y"
          by (auto simp: Option.bind_eq_Some_conv)
        from decrypt_payload_keeps [OF r] y go [OF _ _ n] show ?thesis
          by (cases r) (auto split: prod.splits)
      qed (use eq ptr False item in auto)
    qed (use eq ptr in auto)
  qed
  from this [OF assms] show ?thesis by simp
qed

lemma packet_keeps:
  assumes "packet_loop s = Some (rc, s')"
  shows "keeps s s'"
proof -
  have "keeps s (snd y)" if "packet_loop s = Some y" for s y
    using that
  proof (rule packet_loop.raw_induct [rotated])
    fix f :: "t3_client_stream \<Rightarrow> (int \<times> t3_client_stream) option" and s y
    assume IH: "\<And>s y. f s = Some y \<Longrightarrow> keeps s (snd y)"
      and eq: "do {
       rptr \<leftarrow> ring_read_ptr (cs_reasm s);
       (if length rptr < 4 then Some (0, s)
        else
          (let wire_length = wire_len rptr in
           if wire_length < 4 \<or> wire_length > 2 ^ 22 then
             (if rptr ! 0 = T3_PADDING_MARKER
              then f (s\<lparr>cs_reasm := ring_consume (cs_reasm s) 1\<rparr>)
              else Some (-1, s))
           else if length rptr < 4 + wire_length then Some (0, s)
           else do {
             (full, r) \<leftarrow> ring_append (cs_plain s) (take (4 + wire_length) rptr);
             (let s1 = s\<lparr>cs_plain := r\<rparr> in
              if full \<noteq> 0 then Some (0, s1)
              else f (s1\<lparr>cs_reasm := ring_consume (cs_reasm s1) (4 + wire_length)\<rparr>))
           }))
     } = Some y"
    from eq obtain rptr where ptr: "ring_read_ptr (cs_reasm s) = Some rptr"
      by (auto simp: Option.bind_eq_Some_conv)
    have go: "keeps s (snd y)" if "keeps s s1" "cs_reasm s1 = cs_reasm s" "n \<le> length rptr"
      "f (s1\<lparr>cs_reasm := ring_consume (cs_reasm s1) n\<rparr>) = Some y" for s1 n
      using IH [OF that(4)] consume_reasm_keeps [of s1 rptr n] that(1-3) ptr keeps_trans by metis
    have app: "keeps s (s\<lparr>cs_plain := q\<rparr>)" if "ring_append (cs_plain s) d = Some (full, q)" for d full q
      using that by (auto simp: keeps_def stream_wf_def dest: append_wf)
    define n where "n = wire_len rptr"
    consider "length rptr < 4" | "4 \<le> length rptr" "n < 4 \<or> n > 2 ^ 22"
      | "4 \<le> length rptr" "\<not> (n < 4 \<or> n > 2 ^ 22)" "length rptr < 4 + n"
      | "\<not> (n < 4 \<or> n > 2 ^ 22)" "4 + n \<le> length rptr" by linarith
    then show "keeps s (snd y)"
    proof cases
      case 2
      with eq ptr go [of s 1] show ?thesis by (auto simp: Let_def simp flip: n_def split: if_splits)
    next
      case 4
      with eq ptr obtain full q where "ring_append (cs_plain s) (take (4 + n) rptr) = Some (full, q)"
        "(if full \<noteq> 0 then Some (0, s\<lparr>cs_plain := q\<rparr>)
          else f (s\<lparr>cs_plain := q, cs_reasm := ring_consume (cs_reasm (s\<lparr>cs_plain := q\<rparr>)) (4 + n)\<rparr>)) = Some y"
        by (auto simp: Let_def Option.bind_eq_Some_conv simp flip: n_def)
      with app go [of "s\<lparr>cs_plain := q\<rparr>" "4 + n"] 4 show ?thesis by (auto split: if_splits)
    qed (use eq ptr in \<open>auto simp: Let_def simp flip: n_def\<close>)
  qed
  from this [OF assms] show ?thesis by simp
qed

lemma process_incoming_keeps: "process_incoming io s = Some (rc, s') \<Longrightarrow> keeps s s'"
  by (auto simp: process_incoming_def Option.bind_eq_Some_conv split: if_splits
      dest!: deframe_keeps packet_keeps intro: keeps_trans)

subsection \<open>The state machine\<close>

text \<open>A part of the pump: what it keeps of the rings, and where it goes.\<close>

definition part_ok :: "t3_client_stream \<Rightarrow> (t3_result \<times> t3_client_stream + t3_client_stream) \<Rightarrow> bool" where
  "part_ok s r \<longleftrightarrow>
     (case r of
        Inl (rc, s') \<Rightarrow> (stream_wf s \<longrightarrow> stream_wf s') \<and> cs_mode s' = cs_mode s
          \<and> (rc = T3_ERR_BUF_TOO_SMALL \<and> cs_state s' = cs_state s
             \<or> rc = T3_ERR_INTERNAL \<and> cs_state s' = T3_CLIENT_STATE_ERROR
             \<or> rc = T3_ERR_INTERNAL \<and> cs_state s' = cs_state s \<and> cs_state s = T3_CLIENT_STATE_HANDSHAKE
                 \<and> cs_mode s = T3C_MODE_WS)
      | Inr s' \<Rightarrow> (stream_wf s \<longrightarrow> stream_wf s') \<and> cs_mode s' = cs_mode s)"

lemma keeps_part: "keeps s s' \<Longrightarrow> part_ok s (Inr s')"
  by (simp add: keeps_def part_ok_def)

lemma keeps_part_more: "keeps s s' \<Longrightarrow> part_ok s (Inl (T3_ERR_BUF_TOO_SMALL, s'))"
  by (simp add: keeps_def part_ok_def)

lemma keeps_part_error: "keeps s s' \<Longrightarrow> part_ok s (Inl (T3_ERR_INTERNAL, s'\<lparr>cs_state := T3_CLIENT_STATE_ERROR\<rparr>))"
  by (simp add: keeps_def part_ok_def stream_wf_def)

lemma part_ok_keeps: "keeps s t \<Longrightarrow> part_ok t r \<Longrightarrow> part_ok s r"
  by (cases r) (auto simp: keeps_def part_ok_def)

abbreviation part_keeps :: "t3_client_stream \<Rightarrow> (t3_result \<times> t3_client_stream + t3_client_stream) \<Rightarrow> bool" where
  "part_keeps s r \<equiv> part_ok s r \<and> (\<forall>s'. r = Inr s' \<longrightarrow> keeps s s')"

lemma pump_http_response_ok:
  assumes "pump_http_response io s w = Some (r, w')" "io_sane io"
  shows "part_keeps s r"
proof (cases "cs_mode s = T3C_MODE_HTTP \<and> \<not> cs_http_response_done s")
  case True
  with assms(1) obtain s1 w1 s2 ptr where f: "flush_stream io s w = Some (s1, w1)" "fill_stream io s1 w1 = Some (s2, w')"
    and ptr: "ring_read_ptr (cs_in s2) = Some ptr"
    by (auto simp: pump_http_response_def Option.bind_eq_Some_conv split: if_splits option.splits)
  have k: "keeps s s2" using flush_stream_keeps [OF f(1) assms(2)] fill_stream_keeps [OF f(2)] keeps_trans by blast
  have fin: "keeps t (t\<lparr>cs_http_response_done := True\<rparr>)" for t by (simp add: keeps_def stream_wf_def)
  have cons: "keeps s (s2\<lparr>cs_in := ring_consume (cs_in s2) e, cs_http_response_done := True\<rparr>)"
    if "header_end ptr = Some e" for e
    using consume_in_keeps [OF ptr header_end_le [OF that]] k fin keeps_trans by blast
  from assms(1) True f ptr show ?thesis
    using k keeps_trans [OF k fin] cons
    by (auto simp: pump_http_response_def keeps_part keeps_part_more keeps_part_error
        split: if_splits option.splits)
qed (use assms in \<open>auto simp: pump_http_response_def keeps_part\<close>)

lemma pump_headers_ok:
  assumes "pump_headers io s w = Some (r, w')" "io_sane io" "cs_state s = T3_CLIENT_STATE_HANDSHAKE"
  shows "part_keeps s r"
proof (cases "cs_mode s")
  case T3C_MODE_WS
  show ?thesis
  proof (cases "cs_ws_upgrade_done s")
    case False
    with T3C_MODE_WS assms(1) obtain rc s1 w1 where h: "handle_ws_upgrade io s w = Some ((rc, s1), w1)"
      by (auto simp: pump_headers_def Option.bind_eq_Some_conv)
    from ws_upgrade_keeps [OF h] have k: "keeps s s1" .
    show ?thesis
    proof (cases "rc = 0")
      case True
      with h k False T3C_MODE_WS assms(1) show ?thesis by (auto simp: pump_headers_def keeps_part)
    next
      case rc: False
      with h False T3C_MODE_WS assms(1) obtain s2 w2 s3 where
        f: "flush_stream io s1 w1 = Some (s2, w2)" "fill_stream io s2 w2 = Some (s3, w')"
        and r: "r = Inl (if rc < 0 then T3_ERR_INTERNAL else T3_ERR_BUF_TOO_SMALL, s3)"
        by (auto simp: pump_headers_def Option.bind_eq_Some_conv)
      have "keeps s s3"
        using k flush_stream_keeps [OF f(1) assms(2)] fill_stream_keeps [OF f(2)] keeps_trans by blast
      then show ?thesis using T3C_MODE_WS assms(3) by (auto simp: r part_ok_def keeps_def)
    qed
  qed (use T3C_MODE_WS assms in \<open>auto simp: pump_headers_def keeps_part\<close>)
next
  case T3C_MODE_HTTP
  have sent: "keeps t (t\<lparr>cs_http_headers_sent := True\<rparr>)" for t by (simp add: keeps_def stream_wf_def)
  from T3C_MODE_HTTP assms(1) have "\<exists>s'. r = Inr s' \<and> keeps s s'"
    by (auto simp: pump_headers_def Option.bind_eq_Some_conv split: if_splits dest!: http_headers_keeps
        intro: keeps_trans sent)
  then show ?thesis by (auto simp: keeps_part)
qed

lemma pump_init_ok:
  assumes "pump_init io s w = Some (r, w')"
  shows "part_keeps s r"
  using assms
  by (auto simp: pump_init_def Option.bind_eq_Some_conv keeps_part keeps_part_error split: if_splits
      dest!: obfs2_init_keeps)

lemma and_thenE:
  assumes "and_then p f = Some (r, w')"
  obtains (stop) out where "p = Some (Inl out, w')" "r = Inl out"
  | (go) s w where "p = Some (Inr s, w)" "f s w = Some (r, w')"
  using assms by (cases p) (auto simp: and_then_def split: sum.splits)

lemma and_then_keeps:
  assumes "and_then p f = Some (r, w')"
    and p: "\<And>r w. p = Some (r, w) \<Longrightarrow> part_keeps s r"
    and f: "\<And>t w r w'. keeps s t \<Longrightarrow> f t w = Some (r, w') \<Longrightarrow> part_keeps t r"
  shows "part_keeps s r"
  using assms(1)
proof (cases rule: and_thenE)
  case (stop out)
  with p show ?thesis by blast
next
  case (go t w)
  then have "keeps s t" using p by auto
  with f [OF this go(2)] show ?thesis using part_ok_keeps keeps_trans by auto
qed

lemma pump_handshake_ok:
  assumes "pump_handshake io s w = Some (r, w')" "io_sane io" "cs_state s = T3_CLIENT_STATE_HANDSHAKE"
  shows "part_ok s r \<and> (\<forall>s'. r = Inr s' \<longrightarrow> cs_state s' = T3_CLIENT_STATE_READY)"
proof -
  let ?p = "and_then (and_then (pump_headers io s w) (pump_init io))
        (\<lambda>s w. do { (s1, w1) \<leftarrow> flush_stream io s w; pump_http_response io s1 w1 })"
  have p: "part_keeps s q" if "?p = Some (q, v)" for q v
    using that
  proof (rule and_then_keeps)
    show "part_keeps s q" if "and_then (pump_headers io s w) (pump_init io) = Some (q, v)" for q v
      using that by (rule and_then_keeps) (erule pump_headers_ok [OF _ assms(2,3)], erule pump_init_ok)
    show "part_keeps t q"
      if h: "do { (s1, w1) \<leftarrow> flush_stream io t u; pump_http_response io s1 w1 } = Some (q, v)" for t u q v
    proof -
      from h obtain s1 w1 where f: "flush_stream io t u = Some (s1, w1)" "pump_http_response io s1 w1 = Some (q, v)"
        by (auto simp: Option.bind_eq_Some_conv)
      from pump_http_response_ok [OF f(2) assms(2)] flush_stream_keeps [OF f(1) assms(2)] show ?thesis
        using part_ok_keeps keeps_trans by blast
    qed
  qed
  from assms(1,3) have "and_then ?p (\<lambda>s w. Some (Inr (s\<lparr>cs_state := T3_CLIENT_STATE_READY\<rparr>), w)) = Some (r, w')"
    by (simp add: pump_handshake_def)
  then show ?thesis
  proof (cases rule: and_thenE)
    case (stop out)
    with p show ?thesis by auto
  next
    case (go t u)
    with p have "keeps s t" by auto
    with go(2) show ?thesis by (auto simp: part_ok_def keeps_def stream_wf_def)
  qed
qed

text \<open>How far a connection has come.\<close>

fun stage :: "t3_client_state \<Rightarrow> nat" where
  "stage T3_CLIENT_STATE_CONNECTING = 0"
| "stage T3_CLIENT_STATE_TLS = 1"
| "stage T3_CLIENT_STATE_HANDSHAKE = 2"
| "stage T3_CLIENT_STATE_READY = 3"
| "stage T3_CLIENT_STATE_ERROR = 4"
| "stage T3_CLIENT_STATE_CLOSED = 5"

definition live :: "t3_client_state \<Rightarrow> bool" where
  "live st \<longleftrightarrow> st \<noteq> T3_CLIENT_STATE_ERROR \<and> st \<noteq> T3_CLIENT_STATE_CLOSED"

text \<open>The outcome of a pump from \<open>s\<close>, or of its parts up to some point.\<close>

definition pump_outcome :: "t3_client_stream \<Rightarrow> (t3_result \<times> t3_client_stream + t3_client_stream) \<Rightarrow> bool" where
  "pump_outcome s r \<longleftrightarrow>
     (case r of
        Inl (rc, s') \<Rightarrow> stream_wf s' \<and> cs_mode s' = cs_mode s
          \<and> stage (cs_state s) \<le> 2 \<and> stage (cs_state s) \<le> stage (cs_state s')
          \<and> (rc = T3_ERR_BUF_TOO_SMALL \<and> stage (cs_state s') \<le> 2
             \<or> rc = T3_ERR_INTERNAL \<and> cs_state s' = T3_CLIENT_STATE_ERROR
             \<or> rc = T3_ERR_INTERNAL \<and> cs_state s' = T3_CLIENT_STATE_HANDSHAKE \<and> cs_mode s = T3C_MODE_WS)
      | Inr s' \<Rightarrow> stream_wf s' \<and> cs_mode s' = cs_mode s \<and> live (cs_state s')
          \<and> stage (cs_state s) \<le> stage (cs_state s'))"

lemma part_outcome:
  assumes "part_ok t r" "pump_outcome s (Inr t)" "cs_state t \<noteq> T3_CLIENT_STATE_READY"
    and "\<And>s'. r = Inr s' \<Longrightarrow> live (cs_state s') \<and> stage (cs_state t) \<le> stage (cs_state s')"
  shows "pump_outcome s r"
proof (cases r)
  case (Inl out)
  have "stage (cs_state t) \<le> 2"
    using assms(2,3) by (cases "cs_state t") (auto simp: pump_outcome_def live_def)
  then show ?thesis
    using assms(1,2) Inl by (auto simp: pump_outcome_def part_ok_def)
qed (use assms in \<open>auto simp: pump_outcome_def part_ok_def\<close>)

lemma pump_connecting_ok:
  "pump_connecting io s w = Some (r, w') \<Longrightarrow> cs_state s = T3_CLIENT_STATE_CONNECTING \<Longrightarrow>
     part_ok s r \<and> (\<forall>s'. r = Inr s' \<longrightarrow> cs_state s' = T3_CLIENT_STATE_TLS)"
  by (cases "io_poll io w"; cases "fst (io_poll io w)")
    (auto simp: pump_connecting_def part_ok_def stream_wf_def split: if_splits)

lemma pump_tls_ok:
  "pump_tls io s w = Some (r, w') \<Longrightarrow> cs_state s = T3_CLIENT_STATE_TLS \<Longrightarrow>
     part_ok s r \<and> (\<forall>s'. r = Inr s' \<longrightarrow> cs_state s' = T3_CLIENT_STATE_HANDSHAKE)"
  by (cases "io_handshake io w"; cases "fst (io_handshake io w)")
    (auto simp: pump_tls_def pump_tls_handshake_def part_ok_def stream_wf_def split: if_splits)

lemma pump_ready_ok:
  assumes "pump_ready io s w = Some (r, w')" "cs_state s = T3_CLIENT_STATE_READY" "io_sane io"
  shows "\<exists>s'. r = Inr s' \<and> keeps s s'"
proof -
  from assms(1,2) obtain s1 w1 rc s2 s3 where "fill_stream io s w = Some (s1, w1)"
    "process_incoming io s1 = Some (rc, s2)" "flush_stream io s2 w1 = Some (s3, w')" "r = Inr s3"
    by (auto simp: pump_ready_def Option.bind_eq_Some_conv)
  then show ?thesis
    using fill_stream_keeps process_incoming_keeps flush_stream_keeps [OF _ assms(3)] keeps_trans by metis
qed

lemma and_then_outcome:
  assumes "and_then p f = Some (r, w')"
    and "\<And>q v. p = Some (q, v) \<Longrightarrow> pump_outcome s q"
    and "\<And>t w. p = Some (Inr t, w) \<Longrightarrow> pump_outcome s (Inr t) \<Longrightarrow> f t w = Some (r, w') \<Longrightarrow> pump_outcome s r"
  shows "pump_outcome s r"
  using assms by (elim and_thenE) auto

text \<open>Up to the ready state: each part runs in its own state and hands over to the next.\<close>

lemma pump_parts_outcome:
  assumes "and_then (and_then (pump_connecting io s w) (pump_tls io)) (pump_handshake io) = Some (r, w')"
    and io: "io_sane io" and wf: "stream_wf s" and "live (cs_state s)"
  shows "pump_outcome s r \<and> (\<forall>t. r = Inr t \<longrightarrow> cs_state t = T3_CLIENT_STATE_READY)"
proof -
  have start: "pump_outcome s (Inr s)" using wf assms(4) by (simp add: pump_outcome_def)
  have 1: "pump_outcome s q \<and> (\<forall>t. q = Inr t \<longrightarrow> cs_state t \<noteq> T3_CLIENT_STATE_CONNECTING)"
    if "pump_connecting io s w = Some (q, v)" for q v
  proof (cases "cs_state s = T3_CLIENT_STATE_CONNECTING")
    case True
    with pump_connecting_ok [OF that] show ?thesis
      by (auto intro!: part_outcome [OF _ start] simp: live_def)
  qed (use that start in \<open>auto simp: pump_connecting_def\<close>)
  have 2: "pump_outcome s q \<and> (\<forall>t. q = Inr t \<longrightarrow> stage (cs_state t) \<ge> 2)"
    if "pump_tls io t u = Some (q, v)" "pump_outcome s (Inr t)" "cs_state t \<noteq> T3_CLIENT_STATE_CONNECTING" for t u q v
  proof (cases "cs_state t = T3_CLIENT_STATE_TLS")
    case True
    with pump_tls_ok [OF that(1)] that(2) show ?thesis
      by (auto intro!: part_outcome [of t] simp: live_def)
  next
    case False
    with that show ?thesis by (cases "cs_state t") (auto simp: pump_tls_def pump_outcome_def)
  qed
  have 3: "pump_outcome s q \<and> (\<forall>t. q = Inr t \<longrightarrow> cs_state t = T3_CLIENT_STATE_READY)"
    if "pump_handshake io t u = Some (q, v)" "pump_outcome s (Inr t)" "stage (cs_state t) \<ge> 2" for t u q v
  proof (cases "cs_state t = T3_CLIENT_STATE_HANDSHAKE")
    case True
    with pump_handshake_ok [OF that(1) io] that(2) show ?thesis
      by (auto intro!: part_outcome [of t] simp: live_def)
  next
    case False
    with that show ?thesis by (cases "cs_state t") (auto simp: pump_handshake_def pump_outcome_def live_def)
  qed
  from assms(1) show ?thesis
  proof (cases rule: and_thenE)
    case (stop out)
    from stop(1) have "pump_outcome s (Inl out)"
      by (rule and_then_outcome) (use 1 2 in blast)+
    with stop(2) show ?thesis by simp
  next
    case (go t u)
    from go(1) obtain t0 u0 where "pump_connecting io s w = Some (Inr t0, u0)" "pump_tls io t0 u0 = Some (Inr t, u)"
      by (auto elim: and_thenE)
    with 1 2 have "pump_outcome s (Inr t)" "stage (cs_state t) \<ge> 2" by blast+
    with 3 go(2) show ?thesis by blast
  qed
qed

text \<open>C8: the client's state machine. On a stream with well-formed rings every pump that returns keeps
  the rings well-formed and the mode, and moves the state only forward in the order connecting, TLS,
  handshake, ready, error, closed; a ready stream stays ready. Its code tells the state: OK exactly
  when the stream is ready, \<open>BUF_TOO_SMALL\<close> while it is connecting, in TLS or in the handshake,
  \<open>INTERNAL\<close> when it has failed, in which case the state is ERROR, except after a refused WebSocket
  upgrade, where it is still HANDSHAKE, and \<open>INVALID_ARG\<close> when it is closed. A failed or closed
  stream is not touched.\<close>

theorem pump_state_machine:
  assumes "io_sane io" "stream_wf s"
    and "t3_client_pump io (Some s) w = Some ((rc, st), w')"
  shows "\<exists>s'. st = Some s' \<and> stream_wf s' \<and> cs_mode s' = cs_mode s
    \<and> stage (cs_state s) \<le> stage (cs_state s')
    \<and> (cs_state s = T3_CLIENT_STATE_READY \<longrightarrow> cs_state s' = T3_CLIENT_STATE_READY)
    \<and> (\<not> live (cs_state s) \<longrightarrow> s' = s \<and> w' = w)
    \<and> (rc = T3_OK \<and> cs_state s' = T3_CLIENT_STATE_READY
       \<or> rc = T3_ERR_BUF_TOO_SMALL \<and> stage (cs_state s') \<le> 2
       \<or> rc = T3_ERR_INTERNAL \<and> cs_state s' = T3_CLIENT_STATE_ERROR
       \<or> rc = T3_ERR_INTERNAL \<and> cs_state s' = T3_CLIENT_STATE_HANDSHAKE \<and> cs_mode s = T3C_MODE_WS
       \<or> rc = T3_ERR_INVALID_ARG \<and> cs_state s' = T3_CLIENT_STATE_CLOSED)"
proof (cases "live (cs_state s)")
  case True
  let ?p = "and_then (and_then (pump_connecting io s w) (pump_tls io)) (pump_handshake io)"
  from True assms(3) obtain r v where p: "and_then ?p (pump_ready io) = Some (r, v)"
    and q: "(case r of Inl (rc, s1) \<Rightarrow> Some ((rc, Some s1), v) | Inr s1 \<Rightarrow> Some ((T3_OK, Some s1), v)) = Some ((rc, st), w')"
    by (auto simp: t3_client_pump_def live_def Option.bind_eq_Some_conv)
  from q have "v = w'" and st: "(rc, st) = (case r of Inl (rc, s1) \<Rightarrow> (rc, Some s1) | Inr s1 \<Rightarrow> (T3_OK, Some s1))"
    by (cases r; auto)+
  with p have "and_then ?p (pump_ready io) = Some (r, w')" by simp
  then show ?thesis
  proof (cases rule: and_thenE)
    case (stop out)
    from pump_parts_outcome [OF stop(1) assms(1,2) True] stop(2) st True show ?thesis
      by (auto simp: pump_outcome_def split: prod.splits)
  next
    case (go t u)
    from pump_parts_outcome [OF go(1) assms(1,2) True]
    have t: "cs_state t = T3_CLIENT_STATE_READY" "stream_wf t" "cs_mode t = cs_mode s"
      "stage (cs_state s) \<le> stage (cs_state t)"
      by (auto simp: pump_outcome_def)
    from pump_ready_ok [OF go(2) t(1) assms(1)] obtain s' where "r = Inr s'" "keeps t s'" by blast
    with t st True show ?thesis by (auto simp: keeps_def)
  qed
next
  case False
  with assms(2,3) show ?thesis by (auto simp: t3_client_pump_def live_def split: if_splits)
qed

text \<open>A world in which nothing arrives and everything can be sent.\<close>

definition quiet_io :: "unit host_io" where
  "quiet_io =
     \<lparr>io_read = (\<lambda>w. (SrWant, w)), io_write = (\<lambda>d w. if d = [] then (SwWant, w) else (SwSent (length d), w)),
      io_handshake = (\<lambda>w. (TlsDone, w)), io_poll = (\<lambda>w. (PollReady 0, w)),
      io_rand = (\<lambda>n w. ((True, replicate n 0x11), w)), io_mem = (\<lambda>_. True), io_evp = (\<lambda>_. True),
      io_update = (\<lambda>_. True), io_ks = (\<lambda>_ _ _. 0), io_sha = (\<lambda>_. [])\<rparr>"

definition small_ring :: ring_buf where
  "small_ring = \<lparr>rb_data = Some (replicate 8 0), rb_head = 0, rb_tail = 0, rb_cap = 8\<rparr>"

definition ready_stream :: "t3c_mode \<Rightarrow> t3_client_stream" where
  "ready_stream mode =
     \<lparr>cs_state = T3_CLIENT_STATE_READY, cs_mode = mode, cs_tls_connected = True,
      cs_encrypt_ctx = CtxNull, cs_decrypt_ctx = CtxNull, cs_secret = replicate 16 0, cs_dc_id = 2,
      cs_host = [], cs_path = [0x2F], cs_in = small_ring, cs_out = small_ring, cs_reasm = small_ring,
      cs_plain = small_ring, cs_ws_upgrade_sent = True, cs_ws_upgrade_done = True, cs_ws_key = [],
      cs_http_headers_sent = True, cs_http_response_done = True, cs_obfs2_sent = True, cs_tunnel_mode = False\<rparr>"

lemma quiet_sane: "io_sane quiet_io"
  by (auto simp: io_sane_def quiet_io_def split: if_splits)

theorem pump_state_machine_witness:
  "\<exists>rc s' w'. t3_client_pump quiet_io (Some (ready_stream T3C_MODE_WS)) () = Some ((rc, Some s'), w')
     \<and> stream_wf s' \<and> cs_state s' = T3_CLIENT_STATE_READY"
proof -
  let ?s = "ready_stream T3C_MODE_WS"
  have empty: "ring_read_ptr small_ring = Some []" "ring_used small_ring = 0"
    by (simp_all add: ring_read_ptr_def ring_used_def small_ring_def)
  have io: "ssl_read_in quiet_io small_ring () = Some ((0, small_ring), ())"
    "ssl_flush_out quiet_io small_ring () = Some ((0, small_ring), ())"
    using empty by (subst ssl_read_in.simps ssl_flush_out.simps; simp add: quiet_io_def)+
  have "t3_client_pump quiet_io (Some ?s) () = Some ((T3_OK, Some ?s), ())"
    using empty io
    by (simp add: t3_client_pump_def and_then_def pump_connecting_def pump_tls_def pump_handshake_def
        pump_ready_def ready_stream_def fill_stream_def flush_stream_def process_incoming_def
        deframe_loop.simps packet_loop.simps)
  moreover have "stream_wf ?s" "cs_state ?s = T3_CLIENT_STATE_READY"
    by (simp_all add: ready_stream_def stream_wf_def small_ring_def ring_wf_def)
  ultimately show ?thesis using pump_state_machine [OF quiet_sane] by blast
qed

end
