(* ===== verification/T3_Client_Receive.thy ===== *)
theory T3_Client_Receive
  imports T3_Client_Pump Srv_Websocket
begin

text \<open>
  What the client does with what a server sends: from transport frames over the decrypted stream to
  whole messages, \<open>process_incoming\<close> and \<open>t3_client_read\<close>.
\<close>

subsection \<open>Transport frames\<close>

definition server_item :: "t3c_mode \<Rightarrow> bytes \<Rightarrow> bytes" where
  "server_item mode d =
     (case mode of T3C_MODE_WS \<Rightarrow> ws_server_enc d | T3C_MODE_HTTP \<Rightarrow> chunk_enc (Some d))"

definition item_ok :: "t3c_mode \<Rightarrow> bytes \<Rightarrow> bool" where
  "item_ok mode d \<longleftrightarrow> d \<noteq> [] \<and> (case mode of T3C_MODE_WS \<Rightarrow> length d < 2 ^ 31 | T3C_MODE_HTTP \<Rightarrow> length d \<le> 65535)"

lemma item_ok_ws: "item_ok T3C_MODE_WS d \<Longrightarrow> ws_payload_ok d"
  and item_ok_http: "item_ok T3C_MODE_HTTP d \<Longrightarrow> chunk_valid (Some d)"
  by (simp_all add: item_ok_def ws_payload_ok_def chunk_valid_def chunkable_def)

lemma server_item_nonempty: "item_ok mode d \<Longrightarrow> server_item mode d \<noteq> []"
  using item_ok_ws item_ok_http ws_down.enc_nonempty http.enc_nonempty
  by (cases mode) (auto simp: server_item_def)

lemma next_raw_item:
  assumes "item_ok mode d"
  shows "next_raw mode (server_item mode d @ rest) = Some (RawData (Some d) (length d) (length (server_item mode d)))"
proof (cases mode)
  case T3C_MODE_WS
  then have n: "length d < 2 ^ 31" using assms by (simp add: item_ok_def)
  from ws_client_read [OF n, of "d @ rest"] show ?thesis
    by (simp add: T3C_MODE_WS next_raw_def server_item_def ws_server_enc_def Let_def)
next
  case T3C_MODE_HTTP
  then have "chunk_dec (chunk_enc (Some d) @ rest) = Frame (Some d) (length (chunk_enc (Some d)))"
    using assms item_ok_http http.dec_enc by blast
  then have "t3_http_chunk_parse (Some (chunk_enc (Some d) @ rest)) True
      = Some (T3_OK, Some (Some d, length (chunk_enc (Some d))))"
    by (auto simp: chunk_dec_def split: option.splits prod.splits if_splits)
  then show ?thesis by (simp add: T3C_MODE_HTTP next_raw_def server_item_def)
qed

lemma next_raw_partial:
  assumes "item_ok mode d" "strict_prefix p (server_item mode d)"
  shows "next_raw mode p = Some RawMore"
proof (cases mode)
  case T3C_MODE_WS
  then have "ws_client_dec p = More"
    using assms by (intro ws_down.dec_prefix [OF item_ok_ws]) (simp_all add: server_item_def)
  then have "t3c_ws_frame_read (Some p) True = Some WsMore"
    by (auto simp: ws_client_dec_def split: option.splits ws_read.splits)
  then show ?thesis by (simp add: T3C_MODE_WS next_raw_def)
next
  case T3C_MODE_HTTP
  then have "chunk_dec p = More"
    using assms by (intro http.dec_prefix [OF item_ok_http]) (simp_all add: server_item_def)
  then have "t3_http_chunk_parse (Some p) True = Some (T3_ERR_BUF_TOO_SMALL, None)"
    by (auto simp: chunk_dec_def split: option.splits prod.splits if_splits)
  then show ?thesis by (simp add: T3C_MODE_HTTP next_raw_def)
qed

text \<open>An incomplete item at the end of the raw bytes.\<close>

definition item_part :: "t3c_mode \<Rightarrow> bytes \<Rightarrow> bool" where
  "item_part mode p \<longleftrightarrow> p = [] \<or> (\<exists>d. item_ok mode d \<and> strict_prefix p (server_item mode d))"

definition io_works :: "'w host_io \<Rightarrow> bool" where
  "io_works io \<longleftrightarrow> (\<forall>n. io_mem io n \<and> io_update io n)"

lemma decrypt_payload_ok:
  assumes "io_works io" "cs_decrypt_ctx s = CtxLive c" "d \<noteq> []" "ring_wf (cs_reasm s)"
    "length d \<le> ring_room (cs_reasm s)"
  shows "\<exists>r. decrypt_payload io s (Some d) (length d)
      = Some (Inr (s\<lparr>cs_decrypt_ctx := CtxLive (snd (ctr_crypt (io_ks io) c d)), cs_reasm := r\<rparr>))
    \<and> ring_wf r \<and> ring_contents r = ring_contents (cs_reasm s) @ fst (ctr_crypt (io_ks io) c d)
    \<and> ring_room r = ring_room (cs_reasm s) - length d"
proof -
  let ?e = "fst (ctr_crypt (io_ks io) c d)"
  from ring.append_fits [OF assms(4), of ?e] assms(5) obtain r where
    "ring_append (cs_reasm s) ?e = Some (0, r)" "ring_wf r" "ring_contents r = ring_contents (cs_reasm s) @ ?e"
    "ring_room r = ring_room (cs_reasm s) - length d" by auto
  moreover obtain e k where "ctr_crypt (io_ks io) c d = (e, k)" by force
  ultimately show ?thesis
    using assms(1-3) by (intro exI [of _ r]) (simp add: decrypt_payload_def t3c_aes_crypt_def io_works_def)
qed

lemma deframe_items:
  "stream_wf s \<Longrightarrow> cs_decrypt_ctx s = CtxLive c \<Longrightarrow> \<forall>d \<in> set ds. item_ok (cs_mode s) d \<Longrightarrow>
   ring_contents (cs_in s) = concat (map (server_item (cs_mode s)) ds) @ p \<Longrightarrow> item_part (cs_mode s) p \<Longrightarrow>
   length (concat ds) \<le> ring_room (cs_reasm s) \<Longrightarrow> io_works io \<Longrightarrow>
   \<exists>i r. deframe_loop io s =
       Some (0, s\<lparr>cs_in := i, cs_reasm := r, cs_decrypt_ctx := CtxLive (snd (ctr_crypt (io_ks io) c (concat ds)))\<rparr>)
     \<and> ring_wf i \<and> ring_contents i = p
     \<and> ring_wf r \<and> ring_contents r = ring_contents (cs_reasm s) @ fst (ctr_crypt (io_ks io) c (concat ds))"
proof (induction ds arbitrary: s c)
  case Nil
  then have ptr: "ring_read_ptr (cs_in s) = Some p" by (simp add: stream_wf_def ring_read_ptr_eq)
  have "deframe_loop io s = Some (0, s)"
  proof (cases "p = []")
    case False
    with Nil.prems(5) have "next_raw (cs_mode s) p = Some RawMore"
      using next_raw_partial by (auto simp: item_part_def)
    with ptr False show ?thesis by (simp add: deframe_loop.simps [of io s])
  qed (simp add: deframe_loop.simps [of io s] ptr)
  with Nil.prems(1,2,4) show ?case
    by (intro exI [of _ "cs_in s"] exI [of _ "cs_reasm s"]) (simp add: stream_wf_def ctr_crypt_def)
next
  case (Cons d ds)
  let ?item = "server_item (cs_mode s) d" and ?ks = "io_ks io"
  let ?rest = "concat (map (server_item (cs_mode s)) ds) @ p"
  have d: "item_ok (cs_mode s) d" using Cons.prems(3) by simp
  have ptr: "ring_read_ptr (cs_in s) = Some (?item @ ?rest)"
    using Cons.prems(1,4) by (simp add: stream_wf_def ring_read_ptr_eq)
  have ne: "?item @ ?rest \<noteq> []" "d \<noteq> []" using server_item_nonempty [OF d] d by (simp_all add: item_ok_def)
  have wf: "ring_wf (cs_in s)" "ring_wf (cs_reasm s)" using Cons.prems(1) by (simp_all add: stream_wf_def)
  from decrypt_payload_ok [OF Cons.prems(7,2) ne(2) wf(2)] Cons.prems(6) obtain r where
    dp: "decrypt_payload io s (Some d) (length d) = Some (Inr (s\<lparr>cs_decrypt_ctx := CtxLive (snd (ctr_crypt ?ks c d)), cs_reasm := r\<rparr>))"
    and r: "ring_wf r" "ring_contents r = ring_contents (cs_reasm s) @ fst (ctr_crypt ?ks c d)"
      "ring_room r = ring_room (cs_reasm s) - length d" by auto
  define s1 where "s1 = s\<lparr>cs_decrypt_ctx := CtxLive (snd (ctr_crypt ?ks c d)), cs_reasm := r,
      cs_in := ring_consume (cs_in s) (length ?item)\<rparr>"
  have step: "deframe_loop io s = deframe_loop io s1"
    unfolding deframe_loop.simps [of io s] ptr bind.bind_lunit next_raw_item [OF d]
    by (simp add: s1_def dp server_item_nonempty [OF d])
  have cons: "ring_wf (cs_in s1)" "ring_contents (cs_in s1) = ?rest"
    using ring.consume_drops [OF wf(1), of "length ?item"] Cons.prems(4) by (simp_all add: s1_def)
  have "stream_wf s1" using Cons.prems(1) cons r by (simp add: stream_wf_def s1_def)
  moreover have "cs_decrypt_ctx s1 = CtxLive (snd (ctr_crypt ?ks c d))" "cs_mode s1 = cs_mode s"
    "length (concat ds) \<le> ring_room (cs_reasm s1)"
    using Cons.prems(6) r by (simp_all add: s1_def)
  ultimately obtain i r' where IH: "deframe_loop io s1 =
       Some (0, s1\<lparr>cs_in := i, cs_reasm := r',
          cs_decrypt_ctx := CtxLive (snd (ctr_crypt ?ks (snd (ctr_crypt ?ks c d)) (concat ds)))\<rparr>)"
    "ring_wf i" "ring_contents i = p" "ring_wf r'"
    "ring_contents r' = ring_contents (cs_reasm s1) @ fst (ctr_crypt ?ks (snd (ctr_crypt ?ks c d)) (concat ds))"
    using Cons.IH [of s1 "snd (ctr_crypt ?ks c d)"] Cons.prems(3,5,7) cons(2) by auto
  then show ?case
    using step r(2) by (intro exI [of _ i] exI [of _ r']) (simp add: s1_def ctr_crypt_append)
qed

subsection \<open>Packets\<close>

definition packet :: "bytes \<Rightarrow> bytes" where
  "packet m = le_bytes 4 (length m) @ m"

definition packet_ok :: "bytes \<Rightarrow> bool" where
  "packet_ok m \<longleftrightarrow> 4 \<le> length m \<and> length m \<le> 2 ^ 22"

lemma wire_len_packet: "packet_ok m \<Longrightarrow> wire_len (packet m @ rest) = length m"
  by (simp add: wire_len_def packet_def packet_ok_def)

lemma length_packet: "length (packet m) = 4 + length m"
  by (simp add: packet_def)

lemma wire_len_prefix: "packet_ok m \<Longrightarrow> prefix q (packet m) \<Longrightarrow> 4 \<le> length q \<Longrightarrow> wire_len q = length m"
proof -
  assume m: "packet_ok m" and "prefix q (packet m)" "4 \<le> length q"
  then obtain z where "packet m = q @ z" by (auto simp: prefix_def)
  with \<open>4 \<le> length q\<close> have "take 4 q = take 4 (packet m)" by simp
  then show "wire_len q = length m"
    using wire_len_packet [OF m, of "[]"] by (simp add: wire_len_def)
qed

text \<open>An incomplete packet at the end of the decrypted stream.\<close>

definition packet_part :: "bytes \<Rightarrow> bool" where
  "packet_part q \<longleftrightarrow> q = [] \<or> (\<exists>m. packet_ok m \<and> strict_prefix q (packet m))"

lemma packet_part_stops:
  assumes "ring_read_ptr (cs_reasm s) = Some q" "packet_part q"
  shows "packet_loop s = Some (0, s)"
proof (cases "length q < 4")
  case False
  with assms(2) obtain m where m: "packet_ok m" "strict_prefix q (packet m)" by (auto simp: packet_part_def)
  then have "wire_len q = length m" "length q < 4 + length m"
    using wire_len_prefix [of m q] False prefix_length_less [OF m(2)]
    by (auto simp: strict_prefix_def length_packet)
  with assms(1) False m(1) show ?thesis
    by (subst packet_loop.simps) (simp add: packet_ok_def)
qed (use assms in \<open>simp add: packet_loop.simps [of s]\<close>)

lemma packet_loop_items:
  "stream_wf s \<Longrightarrow> \<forall>m \<in> set ms. packet_ok m \<Longrightarrow>
   ring_contents (cs_reasm s) = concat (map packet ms) @ q \<Longrightarrow> packet_part q \<Longrightarrow>
   length (concat (map packet ms)) \<le> ring_room (cs_plain s) \<Longrightarrow>
   \<exists>r p. packet_loop s = Some (0, s\<lparr>cs_reasm := r, cs_plain := p\<rparr>)
     \<and> ring_wf r \<and> ring_contents r = q
     \<and> ring_wf p \<and> ring_contents p = ring_contents (cs_plain s) @ concat (map packet ms)"
proof (induction ms arbitrary: s)
  case Nil
  then have "packet_loop s = Some (0, s)"
    by (intro packet_part_stops) (auto simp: stream_wf_def ring_read_ptr_eq)
  with Nil.prems(1,3) show ?case
    by (intro exI [of _ "cs_reasm s"] exI [of _ "cs_plain s"]) (simp add: stream_wf_def)
next
  case (Cons m ms)
  let ?rest = "concat (map packet ms) @ q"
  have m: "packet_ok m" "\<not> (length m < 4 \<or> length m > 2 ^ 22)" using Cons.prems(2) by (simp_all add: packet_ok_def)
  have ptr: "ring_read_ptr (cs_reasm s) = Some (packet m @ ?rest)"
    using Cons.prems(1,3) by (simp add: stream_wf_def ring_read_ptr_eq)
  have wf: "ring_wf (cs_reasm s)" "ring_wf (cs_plain s)" using Cons.prems(1) by (simp_all add: stream_wf_def)
  from ring.append_fits [OF wf(2), of "packet m"] Cons.prems(5) obtain p where
    p: "ring_append (cs_plain s) (packet m) = Some (0, p)" "ring_wf p"
      "ring_contents p = ring_contents (cs_plain s) @ packet m" "ring_room p = ring_room (cs_plain s) - length (packet m)"
    by auto
  define s1 where "s1 = s\<lparr>cs_plain := p, cs_reasm := ring_consume (cs_reasm s) (4 + length m)\<rparr>"
  have take: "take (4 + length m) (packet m @ ?rest) = packet m" by (simp flip: length_packet)
  have step: "packet_loop s = packet_loop s1"
    unfolding packet_loop.simps [of s] ptr bind.bind_lunit wire_len_packet [OF m(1)] take Let_def
    using m(2) by (simp add: length_packet p(1) s1_def)
  have cons: "ring_wf (cs_reasm s1)" "ring_contents (cs_reasm s1) = ?rest"
    using ring.consume_drops [OF wf(1), of "4 + length m"] Cons.prems(3)
    by (simp_all add: s1_def flip: length_packet)
  have "stream_wf s1" "length (concat (map packet ms)) \<le> ring_room (cs_plain s1)"
    using Cons.prems(1,5) cons p by (simp_all add: stream_wf_def s1_def)
  from Cons.IH [OF this(1) _ cons(2) Cons.prems(4) this(2)] Cons.prems(2) obtain r p' where
    "packet_loop s1 = Some (0, s1\<lparr>cs_reasm := r, cs_plain := p'\<rparr>)" "ring_wf r" "ring_contents r = q"
    "ring_wf p'" "ring_contents p' = ring_contents (cs_plain s1) @ concat (map packet ms)" by auto
  then show ?case
    using step p(3) by (intro exI [of _ r] exI [of _ p']) (simp add: s1_def)
qed

subsection \<open>Messages\<close>

text \<open>A caller with a large enough buffer that reads until there is nothing more.\<close>

fun read_messages :: "nat \<Rightarrow> t3_client_stream \<Rightarrow> (bytes list \<times> t3_client_stream) option" where
  "read_messages 0 s = Some ([], s)"
| "read_messages (Suc n) s =
     (case t3_client_read (Some s) True (2 ^ 22) of
        Some (T3_OK, Some m, Some s') \<Rightarrow>
          do { (ms, s'') \<leftarrow> read_messages n s'; Some (m # ms, s'') }
      | Some (_, _, _) \<Rightarrow> Some ([], s)
      | None \<Rightarrow> None)"

lemma client_read_one:
  assumes "stream_wf s" "cs_state s = T3_CLIENT_STATE_READY" "packet_ok m"
    and "ring_contents (cs_plain s) = packet m @ rest"
  shows "\<exists>p. t3_client_read (Some s) True (2 ^ 22) = Some (T3_OK, Some m, Some (s\<lparr>cs_plain := p\<rparr>))
    \<and> ring_wf p \<and> ring_contents p = rest"
proof -
  have wf: "ring_wf (cs_plain s)" using assms(1) by (simp add: stream_wf_def)
  have ptr: "ring_read_ptr (cs_plain s) = Some (packet m @ rest)" using wf assms(4) by (simp add: ring_read_ptr_eq)
  have "t3_client_read (Some s) True (2 ^ 22)
      = Some (T3_OK, Some m, Some (s\<lparr>cs_plain := ring_consume (cs_plain s) (4 + length m)\<rparr>))"
    using assms(2,3) by (simp add: t3_client_read_def ptr wire_len_packet length_packet Let_def)
      (simp add: packet_def packet_ok_def)
  moreover have "ring_wf (ring_consume (cs_plain s) (4 + length m))
      \<and> ring_contents (ring_consume (cs_plain s) (4 + length m)) = rest"
    using ring.consume_drops [OF wf, of "4 + length m"] assms(4) by (simp flip: length_packet)
  ultimately show ?thesis by blast
qed

lemma read_messages_all:
  "stream_wf s \<Longrightarrow> cs_state s = T3_CLIENT_STATE_READY \<Longrightarrow> \<forall>m \<in> set ms. packet_ok m \<Longrightarrow>
   ring_contents (cs_plain s) = concat (map packet ms) \<Longrightarrow>
   \<exists>s'. read_messages (Suc (length ms)) s = Some (ms, s')"
proof (induction ms arbitrary: s)
  case Nil
  then have "ring_read_ptr (cs_plain s) = Some []" by (simp add: stream_wf_def ring_read_ptr_eq)
  with Nil.prems(2) show ?case by (simp add: t3_client_read_def)
next
  case (Cons m ms)
  from client_read_one [OF Cons.prems(1,2), of m] Cons.prems(3,4) obtain p where
    p: "t3_client_read (Some s) True (2 ^ 22) = Some (T3_OK, Some m, Some (s\<lparr>cs_plain := p\<rparr>))"
      "ring_wf p" "ring_contents p = concat (map packet ms)" by auto
  have "stream_wf (s\<lparr>cs_plain := p\<rparr>)" using Cons.prems(1) p(2) by (simp add: stream_wf_def)
  from Cons.IH [OF this] Cons.prems(2,3) p(3) obtain s' where
    "read_messages (Suc (length ms)) (s\<lparr>cs_plain := p\<rparr>) = Some (ms, s')" by auto
  with p(1) show ?case by (subst read_messages.simps) simp
qed

text \<open>C4: messages arrive whole and in order. Let the raw bytes a ready client has received be frames (or
  chunks) whose payloads together are the encryption of some packets, followed by a part of a further
  frame, with room in its queues. Then processing succeeds, keeps exactly that part, and the caller
  reads exactly the messages, one per call, and then is told that there is nothing more.\<close>

theorem client_receives:
  assumes "stream_wf s" "cs_state s = T3_CLIENT_STATE_READY" "cs_decrypt_ctx s = CtxLive c" "io_works io"
    and "\<forall>m \<in> set ms. 4 \<le> length m \<and> length m \<le> 2 ^ 22"
    and "\<forall>d \<in> set ds. item_ok (cs_mode s) d"
    and "concat ds = fst (ctr_crypt (io_ks io) c (concat (map packet ms)))"
    and "ring_contents (cs_in s) = concat (map (server_item (cs_mode s)) ds) @ p" "item_part (cs_mode s) p"
    and "ring_contents (cs_reasm s) = []" "ring_contents (cs_plain s) = []"
    and "length (concat ds) \<le> ring_room (cs_reasm s)" "length (concat ds) \<le> ring_room (cs_plain s)"
  shows "\<exists>s' s''. process_incoming io s = Some (0, s') \<and> stream_wf s'
    \<and> ring_contents (cs_in s') = p \<and> ring_contents (cs_reasm s') = []
    \<and> read_messages (Suc (length ms)) s' = Some (ms, s'')"
proof -
  have ms: "\<forall>m \<in> set ms. packet_ok m" using assms(5) by (simp add: packet_ok_def)
  have plain: "fst (ctr_crypt (io_ks io) c (concat ds)) = concat (map packet ms)" by (simp add: assms(7))
  from deframe_items [OF assms(1,3,6,8,9,12,4)] obtain i r where
    d: "deframe_loop io s =
       Some (0, s\<lparr>cs_in := i, cs_reasm := r, cs_decrypt_ctx := CtxLive (snd (ctr_crypt (io_ks io) c (concat ds)))\<rparr>)"
      "ring_wf i" "ring_contents i = p" "ring_wf r" "ring_contents r = concat (map packet ms)"
    unfolding plain assms(10) by auto
  define s1 where "s1 = s\<lparr>cs_in := i, cs_reasm := r, cs_decrypt_ctx := CtxLive (snd (ctr_crypt (io_ks io) c (concat ds)))\<rparr>"
  have "stream_wf s1" using assms(1) d by (simp add: stream_wf_def s1_def)
  moreover have "ring_contents (cs_reasm s1) = concat (map packet ms) @ []" using d by (simp add: s1_def)
  moreover have "packet_part []" by (simp add: packet_part_def)
  moreover have "length (concat (map packet ms)) \<le> ring_room (cs_plain s1)"
    using assms(13) length_ctr_crypt [of "io_ks io" c "concat (map packet ms)"] unfolding assms(7) s1_def by simp
  ultimately obtain r' pl where l: "packet_loop s1 = Some (0, s1\<lparr>cs_reasm := r', cs_plain := pl\<rparr>)"
    "ring_wf r'" "ring_contents r' = []" "ring_wf pl" "ring_contents pl = concat (map packet ms)"
    using packet_loop_items [OF _ ms, of s1 "[]"] assms(11) by (auto simp: s1_def)
  define s' where "s' = s1\<lparr>cs_reasm := r', cs_plain := pl\<rparr>"
  have s': "stream_wf s'" "cs_state s' = T3_CLIENT_STATE_READY" "ring_contents (cs_plain s') = concat (map packet ms)"
    using assms(1,2) d l by (simp_all add: s'_def s1_def stream_wf_def)
  from read_messages_all [OF s'(1,2) ms s'(3)] obtain s'' where "read_messages (Suc (length ms)) s' = Some (ms, s'')"
    by blast
  moreover have "process_incoming io s = Some (0, s')"
    using d(1) l(1) by (simp add: process_incoming_def s'_def flip: s1_def)
  moreover have "ring_contents (cs_in s') = p" "ring_contents (cs_reasm s') = []"
    using d l by (simp_all add: s'_def s1_def)
  ultimately show ?thesis using s'(1) by blast
qed

definition received_stream :: t3_client_stream where
  "received_stream = (ready_stream T3C_MODE_WS)\<lparr>cs_decrypt_ctx := CtxLive (aes_init [] []),
     cs_in := \<lparr>rb_data = Some [0x82, 8, 4, 0, 0, 0, 1, 2, 3, 4, 0x82], rb_head = 0, rb_tail = 11, rb_cap = 11\<rparr>\<rparr>"

theorem client_receives_witness:
  "\<exists>s' s''. process_incoming quiet_io received_stream = Some (0, s') \<and> stream_wf s'
    \<and> ring_contents (cs_in s') = [0x82] \<and> ring_contents (cs_reasm s') = []
    \<and> read_messages (Suc (length [[1, 2, 3, 4 :: byte]])) s' = Some ([[1, 2, 3, 4]], s'')"
proof (rule client_receives [where c = "aes_init [] []" and ds = "[[4, 0, 0, 0, 1, 2, 3, 4]]"])
  show "stream_wf received_stream"
    by (simp add: received_stream_def ready_stream_def stream_wf_def ring_wf_def small_ring_def)
  show "cs_state received_stream = T3_CLIENT_STATE_READY"
    "cs_decrypt_ctx received_stream = CtxLive (aes_init [] [])" "io_works quiet_io"
    by (simp_all add: received_stream_def ready_stream_def io_works_def quiet_io_def)
  show "\<forall>d \<in> set [[4, 0, 0, 0, 1, 2, 3, 4]]. item_ok (cs_mode received_stream) d"
    by (simp add: received_stream_def ready_stream_def item_ok_def)
  show "concat [[4, 0, 0, 0, 1, 2, 3, 4]] = fst (ctr_crypt (io_ks quiet_io) (aes_init [] []) (concat (map packet [[1, 2, 3, 4]])))"
  proof -
    have "packet [1, 2, 3, 4] = [4, 0, 0, 0, 1, 2, 3, 4]" by code_simp
    moreover have "xor_stream (\<lambda>_. 0) n b = b" for n b by (rule nth_equalityI) simp_all
    ultimately show ?thesis by (simp add: quiet_io_def ctr_crypt_def)
  qed
  show "ring_contents (cs_in received_stream) =
      concat (map (server_item (cs_mode received_stream)) [[4, 0, 0, 0, 1, 2, 3, 4]]) @ [0x82]"
    by (simp add: received_stream_def ready_stream_def ring_contents_def server_item_def ws_server_enc_def
        ws_write_frame_header_def ws_length_bytes_def)
  have "strict_prefix [0x82] (ws_server_enc [1])"
    by (simp add: ws_server_enc_def ws_write_frame_header_def strict_prefix_def)
  then show "item_part (cs_mode received_stream) [0x82]"
    unfolding item_part_def
    by (intro disjI2 exI [of _ "[1]"])
      (simp add: received_stream_def ready_stream_def item_ok_def server_item_def)
qed (simp_all add: received_stream_def ready_stream_def small_ring_def ring_contents_def ring_room_def)

subsection \<open>Sending\<close>

text \<open>What the client puts on the wire for one encrypted buffer.\<close>

definition client_frame :: "t3c_mode \<Rightarrow> bytes \<Rightarrow> bytes \<Rightarrow> bytes" where
  "client_frame mode mask_key d =
     (case mode of
        T3C_MODE_WS \<Rightarrow> client_header (length d) mask_key @ mask_bytes mask_key 0 d
      | T3C_MODE_HTTP \<Rightarrow> t3__size_to_hex (length d) @ CRLF @ d @ CRLF)"

text \<open>The generator fills buffers of any size; the socket takes nothing at the moment.\<close>

definition io_blocked :: "'w host_io \<Rightarrow> bool" where
  "io_blocked io \<longleftrightarrow> io_works io \<and> (\<forall>d w. io_write io d w = (SwWant, w))
     \<and> (\<forall>n w ok b w'. io_rand io n w = ((ok, b), w') \<longrightarrow> length b = n)"

lemma flush_blocked:
  assumes "io_blocked io" "ring_wf r"
  shows "ssl_flush_out io r w = Some ((0, r), w)"
  using assms by (subst ssl_flush_out.simps) (simp add: io_blocked_def ring_read_ptr_eq)

lemma http_chunk_write_ok:
  assumes "d \<noteq> []" "length d < 2 ^ 63"
  shows "t3_http_chunk_write True (length d + 32) (Some d) (length d)
    = (T3_OK, Some (t3__size_to_hex (length d) @ CRLF @ d @ CRLF))"
proof -
  have "length (t3__size_to_hex (length d)) \<le> 16"
    using length_hex_digits [of "length d" 16] assms by (simp add: size_to_hex_eq)
  with assms show ?thesis by (simp add: t3_http_chunk_write_def Let_def)
qed

lemma ws_frame_write_ok:
  assumes "length d < 2 ^ 63"
  shows "t3c_ws_frame_write mk d True (length d + 14) = Some (client_header (length d) mk @ mask_bytes mk 0 d)"
  using assms by (simp add: t3c_ws_frame_write_def client_header_def Let_def)

lemma frame_out_ok:
  assumes "io_blocked io" "d \<noteq> []" "length d < 2 ^ 63"
  shows "\<exists>mk w'. frame_out io mode d w = (Some (client_frame mode mk d), w') \<and> length mk = 4"
proof -
  obtain ok mk w' where r: "io_rand io 4 w = ((ok, mk), w')" by (metis surj_pair)
  then have "length mk = 4" using assms(1) unfolding io_blocked_def by blast
  then show ?thesis
    using assms(1) r ws_frame_write_ok [OF assms(3), of mk] http_chunk_write_ok [OF assms(2,3)]
    by (cases mode) (auto simp: frame_out_def client_frame_def io_blocked_def io_works_def intro: exI [of _ mk])
qed

lemma length_client_frame:
  assumes "length mk = 4" "d \<noteq> []" "length d < 2 ^ 63"
  shows "length (client_frame mode mk d) \<le> length d + 20"
  using assms length_hex_digits [of "length d" 16]
  by (cases mode) (auto simp: client_frame_def client_header_def length_ws_length_bytes size_to_hex_eq)

lemma padding_drawn:
  assumes "io_blocked io"
  obtains pad w' where "draw_padding io k w = (pad, w')" "length pad = k"
proof (cases "k > 0")
  case True
  obtain ok b w' where r: "io_rand io k w = ((ok, b), w')" by (metis surj_pair)
  then have "length b = k" using assms unfolding io_blocked_def by blast
  with True r show ?thesis by (intro that [of b w']) (simp_all add: draw_padding_def)
qed (simp add: that draw_padding_def)

text \<open>A message the caller writes leaves as one frame: its length prefix, the message and up to
  fifteen bytes of padding, encrypted with the stream's running context and framed for the transport,
  behind what was queued before. When the socket takes nothing, all of it is in the output queue.\<close>

lemma client_writes:
  assumes "io_blocked io" "stream_wf s" "cs_state s = T3_CLIENT_STATE_READY" "cs_encrypt_ctx s = CtxLive c"
    and "msg \<noteq> []" "length msg + 64 \<le> ring_room (cs_out s)"
  shows "\<exists>pad mk s' w'. t3_client_write io (Some s) (Some msg) w = Some ((T3_OK, Some s'), w')
    \<and> length pad < 16 \<and> length mk = 4 \<and> stream_wf s'
    \<and> cs_encrypt_ctx s' = CtxLive (snd (ctr_crypt (io_ks io) c (packet (msg @ pad))))
    \<and> ring_contents (cs_out s') = ring_contents (cs_out s)
        @ client_frame (cs_mode s) mk (fst (ctr_crypt (io_ks io) c (packet (msg @ pad))))"
proof -
  obtain ok r w1 where r: "io_rand io 1 w = ((ok, r), w1)" by (metis surj_pair)
  define k where "k = (if ok then unat (r ! 0 AND 0x0F) else 0)"
  have k: "k < 16"
  proof -
    have "r ! 0 AND mask 4 = take_bit 4 (r ! 0)" by (simp only: take_bit_eq_mask)
    then have "unat (r ! 0 AND 0x0F) = take_bit 4 (unat (r ! 0))"
      by (simp add: mask_eq_exp_minus_1 unsigned_take_bit_eq)
    then show ?thesis by (simp add: k_def take_bit_eq_mod)
  qed
  from padding_drawn [OF assms(1)] obtain pad w2 where
    pad: "draw_padding io k w1 = (pad, w2)" "length pad = k" by blast
  obtain e c' where e: "ctr_crypt (io_ks io) c (packet (msg @ pad)) = (e, c')" by force
  then have len: "length e = 4 + length msg + k"
    using length_ctr_crypt [of "io_ks io" c "packet (msg @ pad)"] by (simp add: length_packet pad(2))
  have ring: "ring_wf (cs_out s)" using assms(2) by (simp add: stream_wf_def)
  then have room: "ring_room (cs_out s) < 2 ^ 63" by (auto simp: ring_room_def elim: ring_wfE)
  have elen: "length e < 2 ^ 63" "e \<noteq> []" using len room assms(6) k by auto
  from frame_out_ok [OF assms(1) elen(2,1), of "cs_mode s" w2] obtain mk w3 where
    f: "frame_out io (cs_mode s) e w2 = (Some (client_frame (cs_mode s) mk e), w3)" "length mk = 4" by blast
  have "length (client_frame (cs_mode s) mk e) \<le> ring_room (cs_out s)"
    using length_client_frame [OF f(2) elen(2,1), of "cs_mode s"] len k assms(6) by simp
  from ring.append_fits [OF ring this] obtain q where
    q: "ring_append (cs_out s) (client_frame (cs_mode s) mk e) = Some (0, q)" "ring_wf q"
      "ring_contents q = ring_contents (cs_out s) @ client_frame (cs_mode s) mk e" by blast
  have works: "io_mem io n" "io_update io n" for n using assms(1) by (simp_all add: io_blocked_def io_works_def)
  have "packet (msg @ pad) \<noteq> []" using length_packet [of "msg @ pad"] by auto
  then have crypt: "t3c_aes_crypt (io_ks io) (io_update io) (Some (CtxLive c)) (packet (msg @ pad))
      = Some (0, Some e, Some (CtxLive c'))"
    using works e by (simp add: t3c_aes_crypt_def)
  have framed: "le_bytes 4 (length msg + k) @ msg @ pad = packet (msg @ pad)" by (simp add: packet_def pad(2))
  have "t3_client_write io (Some s) (Some msg) w =
      Some ((T3_OK, Some (s\<lparr>cs_encrypt_ctx := CtxLive c', cs_out := q\<rparr>)), w3)"
    using assms(3,5) works
    by (simp add: t3_client_write_def r [unfolded One_nat_def] pad(1) framed assms(4) crypt f(1) queue_out_def q(1) flush_stream_def
        flush_blocked [OF assms(1) q(2)] flip: k_def)
  moreover have "stream_wf (s\<lparr>cs_encrypt_ctx := CtxLive c', cs_out := q\<rparr>)"
    using assms(2) q(2) by (simp add: stream_wf_def)
  ultimately show ?thesis using k pad(2) f(2) q(3) e
    by (intro exI [of _ pad] exI [of _ mk]) auto
qed

definition blocked_io :: "unit host_io" where
  "blocked_io = quiet_io\<lparr>io_write := (\<lambda>_ w. (SwWant, w))\<rparr>"

definition writing_stream :: t3_client_stream where
  "writing_stream = (ready_stream T3C_MODE_HTTP)\<lparr>cs_encrypt_ctx := CtxLive (aes_init [] []),
     cs_out := \<lparr>rb_data = Some (replicate 100 0), rb_head = 0, rb_tail = 0, rb_cap = 100\<rparr>\<rparr>"

end
