(* ===== verification/Srv_Proxy_Protocol.thy ===== *)
theory Srv_Proxy_Protocol
  imports T3_Libc
begin

text \<open>
  The parser of the PROXY protocol headers a load balancer puts in front of a connection,
  \<open>server/src/net/net-proxy-protocol.c\<close>: the text form (version 1) and the binary form (version 2). The
  input queue is a list of bytes; the result struct is passed through and the header is removed from
  the queue on success.
\<close>

definition AF_INET :: int where "AF_INET = 2"
definition AF_INET6 :: int where "AF_INET6 = 10"

record proxy_protocol_result =
  pp_family :: int
  pp_src_ip :: u32
  pp_src_ipv6 :: bytes
  pp_src_port :: u16

definition zero_result :: proxy_protocol_result where
  "zero_result = \<lparr>pp_family = 0, pp_src_ip = 0, pp_src_ipv6 = replicate 16 0, pp_src_port = 0\<rparr>"

definition pp2_signature :: bytes where
  "pp2_signature = [0x0d, 0x0a, 0x0d, 0x0a, 0x00, 0x0d, 0x0a, 0x51, 0x55, 0x49, 0x54, 0x0a]"

text \<open>The code, the result struct and the queue; \<open>None\<close> when the port overflows in \<open>atoi\<close>.\<close>

type_synonym pp_out = "(int \<times> proxy_protocol_result \<times> bytes) option"

subsection \<open>Version 1\<close>

text \<open>The source address goes to the result before the rest of the line is looked at.\<close>

definition v1_source :: "inet \<Rightarrow> bool \<Rightarrow> bytes \<Rightarrow> proxy_protocol_result \<Rightarrow> proxy_protocol_result option" where
  "v1_source inet six src out =
     (if six then map_option (\<lambda>a. out\<lparr>pp_src_ipv6 := a\<rparr>) (pton6 inet src)
      else map_option (\<lambda>a. out\<lparr>pp_src_ip := a\<rparr>) (pton4 inet src))"

definition v1_addresses ::
  "inet \<Rightarrow> bool \<Rightarrow> bytes \<Rightarrow> nat \<Rightarrow> bytes \<Rightarrow> proxy_protocol_result \<Rightarrow> pp_out" where
  "v1_addresses inet six p header_len inp out =
     (case memchr 0x20 p of
        None \<Rightarrow> Some (- 1, out, inp)
      | Some i \<Rightarrow>
          (let out1 = out\<lparr>pp_family := (if six then AF_INET6 else AF_INET)\<rparr> in
           case v1_source inet six (take i p) out1 of
             None \<Rightarrow> Some (- 1, out1, inp)
           | Some out2 \<Rightarrow>
               (let p1 = drop (Suc i) p in
                case memchr 0x20 p1 of
                  None \<Rightarrow> Some (- 1, out2, inp)
                | Some j \<Rightarrow>
                    (let p2 = drop (Suc j) p1 in
                     case memchr 0x20 p2 of
                       None \<Rightarrow> Some (- 1, out2, inp)
                     | Some k \<Rightarrow>
                         do {
                           port \<leftarrow> atoi (take k p2);
                           Some (int header_len, out2\<lparr>pp_src_port := word_of_int port\<rparr>, drop header_len inp)
                         }))))"

text \<open>The line behind \<open>PROXY\<close> up to the carriage return, as the C string the code makes of it.\<close>

definition v1_line :: "inet \<Rightarrow> bytes \<Rightarrow> nat \<Rightarrow> bytes \<Rightarrow> pp_out" where
  "v1_line inet p header_len inp =
     (if starts_with (ascii ''UNKNOWN'') p then Some (int header_len, zero_result, drop header_len inp)
      else if starts_with (ascii ''TCP4 '') p then v1_addresses inet False (drop 5 p) header_len inp zero_result
      else if starts_with (ascii ''TCP6 '') p then v1_addresses inet True (drop 5 p) header_len inp zero_result
      else Some (- 1, zero_result, inp))"

definition parse_v1 :: "inet \<Rightarrow> bytes \<Rightarrow> proxy_protocol_result \<Rightarrow> pp_out" where
  "parse_v1 inet inp out =
     (if length inp < 15 then Some (0, out, inp)
      else
        (let buf = take 108 inp in
         case strstr [0x0D, 0x0A] (drop 6 buf) of
           None \<Rightarrow> Some (if length buf \<ge> 108 then - 1 else 0, out, inp)
         | Some i \<Rightarrow> v1_line inet (cstr (take i (drop 6 buf))) (6 + i + 2) inp))"

subsection \<open>Version 2\<close>

definition v2_addresses :: "bytes \<Rightarrow> nat \<Rightarrow> nat \<Rightarrow> proxy_protocol_result" where
  "v2_addresses inp fam addr_len =
     (if fam = 1 \<and> addr_len \<ge> 12 then
        zero_result\<lparr>pp_family := AF_INET, pp_src_ip := word_of_nat (be_nat (take 4 (drop 16 inp))),
          pp_src_port := word_of_nat (be_nat (take 2 (drop 24 inp)))\<rparr>
      else if fam = 2 \<and> addr_len \<ge> 36 then
        zero_result\<lparr>pp_family := AF_INET6, pp_src_ipv6 := take 16 (drop 16 inp),
          pp_src_port := word_of_nat (be_nat (take 2 (drop 48 inp)))\<rparr>
      else zero_result)"

definition parse_v2 :: "bytes \<Rightarrow> proxy_protocol_result \<Rightarrow> int \<times> proxy_protocol_result \<times> bytes" where
  "parse_v2 inp out =
     (if length inp < 16 then (0, out, inp)
      else
        (let ver_cmd = unat (inp ! 12); version = ver_cmd div 16 mod 16; command = ver_cmd mod 16 in
         if version \<noteq> 2 then (- 1, out, inp)
         else if command > 1 then (- 1, out, inp)
         else
           (let fam = unat (inp ! 13) div 16 mod 16;
                addr_len = unat (inp ! 14) * 256 + unat (inp ! 15);
                total_len = 16 + addr_len in
            if length inp < total_len then (0, out, inp)
            else if command = 0 then (int total_len, zero_result, drop total_len inp)
            else (int total_len, v2_addresses inp fam addr_len, drop total_len inp))))"

definition proxy_protocol_parse :: "inet \<Rightarrow> bytes \<Rightarrow> proxy_protocol_result \<Rightarrow> pp_out" where
  "proxy_protocol_parse inet inp out =
     (if length inp < 6 then Some (0, out, inp)
      else
        (let peek = take 12 inp in
         if take 6 peek = ascii ''PROXY '' then parse_v1 inet inp out
         else if length peek \<ge> 12 \<and> peek = pp2_signature then Some (parse_v2 inp out)
         else if length peek < 12 then Some (0, out, inp)
         else Some (- 1, out, inp)))"

subsection \<open>The headers of the protocol\<close>

datatype pp_header =
    PP1_Unknown bytes
  | PP1_Tcp bool bytes bytes bytes bytes
  | PP2_Local nat bytes
  | PP2_Inet nat u32 u32 u16 u16 bytes
  | PP2_Inet6 nat bytes bytes u16 u16 bytes
  | PP2_Other nat bytes

definition pp2_enc :: "nat \<Rightarrow> nat \<Rightarrow> bytes \<Rightarrow> bytes" where
  "pp2_enc cmd fam_proto addrs =
     pp2_signature @ [word_of_nat (32 + cmd), word_of_nat fam_proto] @ be_bytes 2 (length addrs) @ addrs"

definition pp1_enc :: "bytes \<Rightarrow> bytes" where
  "pp1_enc line = ascii ''PROXY '' @ line @ [0x0D, 0x0A]"

fun pp_enc :: "pp_header \<Rightarrow> bytes" where
  "pp_enc (PP1_Unknown junk) = pp1_enc (ascii ''UNKNOWN'' @ junk)"
| "pp_enc (PP1_Tcp six src dst sport dport) =
     pp1_enc (ascii (if six then ''TCP6 '' else ''TCP4 '') @ src @ [0x20] @ dst @ [0x20] @ sport @ [0x20] @ dport)"
| "pp_enc (PP2_Local fam_proto tlv) = pp2_enc 0 fam_proto tlv"
| "pp_enc (PP2_Inet proto src dst sport dport tlv) =
     pp2_enc 1 (16 + proto) (be_bytes 4 (unat src) @ be_bytes 4 (unat dst) @ be_bytes 2 (unat sport)
       @ be_bytes 2 (unat dport) @ tlv)"
| "pp_enc (PP2_Inet6 proto src dst sport dport tlv) =
     pp2_enc 1 (32 + proto) (src @ dst @ be_bytes 2 (unat sport) @ be_bytes 2 (unat dport) @ tlv)"
| "pp_enc (PP2_Other fam_proto addrs) = pp2_enc 1 fam_proto addrs"

definition no_sep :: "bytes \<Rightarrow> bool" where
  "no_sep b \<longleftrightarrow> 0x20 \<notin> set b \<and> 0x0D \<notin> set b \<and> 0 \<notin> set b"

text \<open>Version 1 lines fit the 107 bytes of the specification, version 2 addresses a 16-bit length. A proxied
  connection of another family than IPv4 or IPv6 (unspecified, or Unix sockets) has an address block of
  any content.\<close>

fun pp_valid :: "inet \<Rightarrow> pp_header \<Rightarrow> bool" where
  "pp_valid inet (PP1_Unknown junk) \<longleftrightarrow> 0x0D \<notin> set junk \<and> length junk \<le> 92"
| "pp_valid inet (PP1_Tcp six src dst sport dport) \<longleftrightarrow>
     list_all no_sep [src, dst, sport, dport] \<and> length (src @ dst @ sport @ dport) \<le> 91
     \<and> (if six then pton6 inet src \<noteq> None else pton4 inet src \<noteq> None) \<and> atoi sport \<noteq> None"
| "pp_valid inet (PP2_Local fam_proto tlv) \<longleftrightarrow> fam_proto < 256 \<and> length tlv < 65536"
| "pp_valid inet (PP2_Inet proto src dst sport dport tlv) \<longleftrightarrow> proto < 16 \<and> length tlv + 12 < 65536"
| "pp_valid inet (PP2_Inet6 proto src dst sport dport tlv) \<longleftrightarrow>
     proto < 16 \<and> length src = 16 \<and> length dst = 16 \<and> length tlv + 36 < 65536"
| "pp_valid inet (PP2_Other fam_proto addrs) \<longleftrightarrow>
     fam_proto < 256 \<and> fam_proto div 16 \<noteq> 1 \<and> fam_proto div 16 \<noteq> 2 \<and> length addrs < 65536"

fun pp_client :: "inet \<Rightarrow> pp_header \<Rightarrow> proxy_protocol_result" where
  "pp_client inet (PP1_Unknown junk) = zero_result"
| "pp_client inet (PP1_Tcp six src dst sport dport) =
     (if six then zero_result\<lparr>pp_family := AF_INET6, pp_src_ipv6 := the (pton6 inet src),
                             pp_src_port := word_of_int (the (atoi sport))\<rparr>
      else zero_result\<lparr>pp_family := AF_INET, pp_src_ip := the (pton4 inet src),
                             pp_src_port := word_of_int (the (atoi sport))\<rparr>)"
| "pp_client inet (PP2_Local fam_proto tlv) = zero_result"
| "pp_client inet (PP2_Inet proto src dst sport dport tlv) =
     zero_result\<lparr>pp_family := AF_INET, pp_src_ip := src, pp_src_port := sport\<rparr>"
| "pp_client inet (PP2_Inet6 proto src dst sport dport tlv) =
     zero_result\<lparr>pp_family := AF_INET6, pp_src_ipv6 := src, pp_src_port := sport\<rparr>"
| "pp_client inet (PP2_Other fam_proto addrs) = zero_result"

subsection \<open>Version 1 headers are read\<close>

lemma strstr_crlf: "0x0D \<notin> set line \<Longrightarrow> strstr [0x0D, 0x0A] (line @ 0x0D # 0x0A # rest) = Some (length line)"
proof (rule strstr_eqI)
  assume "0x0D \<notin> set line"
  then show "\<not> starts_with [0x0D, 0x0A] (drop j (line @ 0x0D # 0x0A # rest))" if "j < length line" for j
    using that by (auto simp: Cons_nth_drop_Suc [symmetric] dest: nth_mem)
qed simp

lemma strstr_crlf_part:
  assumes "0x0D \<notin> set line" "strict_prefix q (line @ [0x0D, 0x0A])"
  shows "strstr [0x0D, 0x0A] q = None"
proof (cases "strstr [0x0D, 0x0A] q")
  case (Some i)
  then have i: "i + 2 \<le> length q" "starts_with [0x0D, 0x0A] (drop i q)" using strstr_SomeD by fastforce+
  then have q: "q ! i = 0x0D" by (auto simp: starts_with_def Cons_nth_drop_Suc [symmetric])
  have "length q < length line + 2" using prefix_length_less [OF assms(2)] by simp
  with i have "i < length line" by simp
  obtain z where "line @ [0x0D, 0x0A] = q @ z" using assms(2) by (auto simp: strict_prefix_def prefix_def)
  then have "(line @ [0x0D, 0x0A]) ! i = (q @ z) ! i" by simp
  with i(1) \<open>i < length line\<close> have "line ! i = q ! i" by (simp add: nth_append)
  with q \<open>i < length line\<close> nth_mem [of i line] assms(1) show ?thesis by simp
qed simp

lemma length_pp1_enc: "length (pp1_enc line) = length line + 8"
  by (simp add: pp1_enc_def)

lemma pp1_whole:
  assumes "0x0D \<notin> set line" "7 \<le> length line" "length line \<le> 99"
  shows "proxy_protocol_parse inet (pp1_enc line @ rest) out
    = v1_line inet (cstr line) (length line + 8) (pp1_enc line @ rest)"
proof -
  have "take 108 (pp1_enc line @ rest) = pp1_enc line @ take (100 - length line) rest"
    using assms(3) by (simp add: length_pp1_enc)
  then have buf: "drop 6 (take 108 (pp1_enc line @ rest)) = line @ 0x0D # 0x0A # take (100 - length line) rest"
    by (simp add: pp1_enc_def)
  have len: "\<not> length (pp1_enc line @ rest) < 15" using assms(2) by (simp add: length_pp1_enc)
  have "parse_v1 inet (pp1_enc line @ rest) out = v1_line inet (cstr line) (length line + 8) (pp1_enc line @ rest)"
    unfolding parse_v1_def Let_def buf strstr_crlf [OF assms(1)] using len by (simp add: add.commute)
  moreover have "take 6 (take 12 (pp1_enc line @ rest)) = ascii ''PROXY ''" by (simp add: pp1_enc_def)
  ultimately show ?thesis using len by (simp add: proxy_protocol_parse_def Let_def del: take_take)
qed

lemma pp1_part:
  assumes "0x0D \<notin> set line" "length line \<le> 99" "strict_prefix p (pp1_enc line)"
  shows "proxy_protocol_parse inet p out = Some (0, out, p)"
proof (cases "length p < 6")
  case False
  obtain z where z: "pp1_enc line = p @ z" "z \<noteq> []" using assms(3) by (auto simp: strict_prefix_def prefix_def)
  have hd: "take 6 p = ascii ''PROXY ''"
    using arg_cong [OF z(1), of "take 6"] False by (simp add: pp1_enc_def)
  have "drop 6 p @ z = line @ [0x0D, 0x0A]"
    using arg_cong [OF z(1), of "drop 6"] False by (simp add: pp1_enc_def)
  then have "strict_prefix (drop 6 p) (line @ [0x0D, 0x0A])" using z(2) by (metis prefixI prefix_order.less_le self_append_conv)
  from strstr_crlf_part [OF assms(1) this] have "strstr [0x0D, 0x0A] (drop 6 p) = None" .
  moreover have "length p < 107" using prefix_length_less [OF assms(3)] assms(2) by (simp add: length_pp1_enc)
  ultimately have "parse_v1 inet p out = Some (0, out, p)" by (simp add: parse_v1_def Let_def)
  with False hd show ?thesis by (simp add: proxy_protocol_parse_def Let_def min_def)
qed (simp add: proxy_protocol_parse_def)

lemma v1_addresses_ok:
  assumes "list_all no_sep [src, dst, sport, dport]" "atoi sport = Some port"
    and "v1_source inet six src (zero_result\<lparr>pp_family := if six then AF_INET6 else AF_INET\<rparr>) = Some out"
  shows "v1_addresses inet six (src @ 0x20 # dst @ 0x20 # sport @ 0x20 # dport) n inp zero_result
    = Some (int n, out\<lparr>pp_src_port := word_of_int port\<rparr>, drop n inp)"
  using assms by (simp add: v1_addresses_def no_sep_def Let_def)

lemma v1_line_ok:
  assumes "list_all no_sep [src, dst, sport, dport]" "atoi sport = Some port"
    and "v1_source inet six src (zero_result\<lparr>pp_family := if six then AF_INET6 else AF_INET\<rparr>) = Some out"
  shows "v1_line inet (ascii (if six then ''TCP6 '' else ''TCP4 '') @ src @ 0x20 # dst @ 0x20 # sport @ 0x20 # dport) n inp
    = Some (int n, out\<lparr>pp_src_port := word_of_int port\<rparr>, drop n inp)"
  using v1_addresses_ok [OF assms] by (cases six) (simp_all add: v1_line_def)

subsection \<open>Version 2 headers are read\<close>

lemma length_pp2_enc: "length (pp2_enc cmd fp addrs) = 16 + length addrs"
  by (simp add: pp2_enc_def pp2_signature_def)

lemma pp2_enc_bytes:
  "pp2_enc cmd fp addrs ! 12 = word_of_nat (32 + cmd)" "pp2_enc cmd fp addrs ! 13 = word_of_nat fp"
  "pp2_enc cmd fp addrs ! 14 = word_of_nat (length addrs div 256)" "pp2_enc cmd fp addrs ! 15 = word_of_nat (length addrs)"
  "take 12 (pp2_enc cmd fp addrs) = pp2_signature" "drop 16 (pp2_enc cmd fp addrs) = addrs"
  by (simp_all add: pp2_enc_def pp2_signature_def be_bytes_numerals)

lemma be_word32 [simp]: "word_of_nat (be_nat (be_bytes 4 (unat x))) = x" for x :: u32
  using unsigned_less [of x, where 'a = nat] by simp

lemma be_word16 [simp]: "word_of_nat (be_nat (be_bytes 2 (unat x))) = x" for x :: u16
  using unsigned_less [of x, where 'a = nat] by simp

lemma drop16: "drop (16 + n) (pp2_enc cmd fp addrs @ rest) = drop n (addrs @ rest)"
proof -
  have "drop 16 (pp2_enc cmd fp addrs @ rest) = addrs @ rest" by (simp add: length_pp2_enc pp2_enc_bytes)
  then show ?thesis by (metis add.commute drop_drop)
qed

lemma drop_addrs:
  "drop 16 (pp2_enc cmd fp addrs @ rest) = addrs @ rest"
  "drop 24 (pp2_enc cmd fp addrs @ rest) = drop 8 (addrs @ rest)"
  "drop 48 (pp2_enc cmd fp addrs @ rest) = drop 32 (addrs @ rest)"
  using drop16 [of 0 cmd fp addrs rest] drop16 [of 8 cmd fp addrs rest] drop16 [of 32 cmd fp addrs rest]
  by (simp_all del: drop_append)

lemma pp2_header:
  assumes "cmd \<le> 1" "fp < 256" "length addrs < 65536" "prefix p (pp2_enc cmd fp addrs @ rest)" "16 \<le> length p"
  shows "unat (p ! 12) = 32 + cmd" "unat (p ! 13) = fp" "unat (p ! 14) * 256 + unat (p ! 15) = length addrs"
    "take 12 p = pp2_signature"
proof -
  obtain z where z: "p @ z = pp2_enc cmd fp addrs @ rest" using assms(4) by (auto simp: prefix_def)
  have same: "p ! i = pp2_enc cmd fp addrs ! i" if "i < 16" for i
    using arg_cong [OF z, of "\<lambda>l. l ! i"] that assms(5) by (simp add: nth_append length_pp2_enc)
  show "unat (p ! 12) = 32 + cmd" "unat (p ! 13) = fp"
    using assms(1,2) by (simp_all add: same pp2_enc_bytes unat_word_of_nat_byte del: of_nat_add)
  have "unat (p ! 14) = length addrs div 256" "unat (p ! 15) = length addrs mod 256"
    using assms(3) by (simp_all add: same pp2_enc_bytes unat_of_nat unat_word_of_nat_byte)
  then show "unat (p ! 14) * 256 + unat (p ! 15) = length addrs" by simp
  show "take 12 p = pp2_signature"
    using arg_cong [OF z, of "take 12"] assms(5) pp2_enc_bytes(5) [of cmd fp addrs] by (simp add: length_pp2_enc)
qed

lemma pp2_whole:
  assumes "cmd \<le> 1" "fp < 256" "length addrs < 65536"
  shows "proxy_protocol_parse inet (pp2_enc cmd fp addrs @ rest) out
    = Some (int (16 + length addrs),
        if cmd = 0 then zero_result else v2_addresses (pp2_enc cmd fp addrs @ rest) (fp div 16) (length addrs), rest)"
proof -
  let ?p = "pp2_enc cmd fp addrs @ rest"
  have len: "16 + length addrs \<le> length ?p" "drop (16 + length addrs) ?p = rest" by (simp_all add: length_pp2_enc)
  have h: "unat (?p ! 12) = 32 + cmd" "unat (?p ! 13) = fp" "unat (?p ! 14) * 256 + unat (?p ! 15) = length addrs"
    "take 12 ?p = pp2_signature"
    using pp2_header [OF assms, of ?p rest] len(1) by auto
  have cmd: "(32 + cmd) div 16 mod 16 = 2" "(32 + cmd) mod 16 = cmd" using assms(1) by (auto simp: le_Suc_eq)
  have fp: "fp div 16 mod 16 = fp div 16" using assms(2) by simp
  have "parse_v2 ?p out = (int (16 + length addrs),
        if cmd = 0 then zero_result else v2_addresses ?p (fp div 16) (length addrs), rest)"
    unfolding parse_v2_def Let_def h cmd fp len(2) using assms(1) len(1) by simp
  moreover have "take 6 pp2_signature \<noteq> ascii ''PROXY ''" "length pp2_signature = 12"
    by (simp_all add: pp2_signature_def)
  ultimately show ?thesis
    unfolding proxy_protocol_parse_def Let_def h(4) using len(1) by simp
qed

lemma pp2_part:
  assumes "cmd \<le> 1" "fp < 256" "length addrs < 65536" "strict_prefix p (pp2_enc cmd fp addrs)"
  shows "proxy_protocol_parse inet p out = Some (0, out, p)"
proof -
  obtain z where z: "pp2_enc cmd fp addrs = p @ z" using assms(4) by (auto simp: strict_prefix_def prefix_def)
  have "take 12 p = take (min (length p) 12) (pp2_enc cmd fp addrs)" unfolding z by (simp add: min_def)
  also have "\<dots> = take (length p) pp2_signature"
    unfolding pp2_enc_bytes(5) [of cmd fp addrs, symmetric] take_take ..
  finally have sig: "take 12 p = take (length p) pp2_signature" .
  have "p \<noteq> [] \<Longrightarrow> take 6 (take 12 p) \<noteq> ascii ''PROXY ''"
    unfolding sig by (cases p) (simp_all add: pp2_signature_def)
  moreover have "parse_v2 p out = (0, out, p)"
  proof (cases "length p < 16")
    case False
    then have p: "16 \<le> length p" by simp
    have "length p < 16 + length addrs" using prefix_length_less [OF assms(4)] by (simp add: length_pp2_enc)
    moreover have "prefix p (pp2_enc cmd fp addrs @ [])" using z by simp
    note h = pp2_header [OF assms(1-3) this p]
    have "(32 + cmd) div 16 mod 16 = 2" "\<not> (32 + cmd) mod 16 > 1" using assms(1) by (auto simp: le_Suc_eq)
    ultimately show ?thesis unfolding parse_v2_def Let_def h using False by simp
  qed (simp add: parse_v2_def)
  moreover have "length p \<ge> 12 \<Longrightarrow> take 12 p = pp2_signature" unfolding sig by (simp add: pp2_signature_def)
  ultimately show ?thesis by (cases "p = []") (auto simp: proxy_protocol_parse_def Let_def simp del: take_take)
qed

subsection \<open>The parser and the protocol\<close>

text \<open>C25: the parser reads the PROXY protocol. On every valid header, in text or binary form and with any
  bytes behind it, it removes exactly the header and gives the client address and port the header names,
  which are none for the text form UNKNOWN, the binary command LOCAL and a proxied connection of another
  family than IPv4 and IPv6 (unspecified, Unix sockets or reserved values); on every proper beginning of
  a header it asks for more and changes nothing.\<close>

theorem proxy_header_parsed:
  assumes "pp_valid inet h"
  shows "proxy_protocol_parse inet (pp_enc h @ rest) out = Some (int (length (pp_enc h)), pp_client inet h, rest)
    \<and> (strict_prefix p (pp_enc h) \<longrightarrow> proxy_protocol_parse inet p out = Some (0, out, p))"
proof (cases h)
    case (PP1_Unknown junk)
    let ?l = "ascii ''UNKNOWN'' @ junk"
    have l: "0x0D \<notin> set ?l" "7 \<le> length ?l" "length ?l \<le> 99" using assms PP1_Unknown by simp_all
    have "starts_with (ascii ''UNKNOWN'') (cstr ?l)" by (simp add: cstr_def)
    then have "v1_line inet (cstr ?l) n inp = Some (int n, zero_result, drop n inp)" for n inp
      by (simp add: v1_line_def)
    then show ?thesis
      using PP1_Unknown pp1_whole [OF l, of inet rest out] pp1_part [OF l(1,3), of p inet out] by (simp add: length_pp1_enc)
  next
    case (PP1_Tcp six src dst sport dport)
    let ?l = "ascii (if six then ''TCP6 '' else ''TCP4 '') @ src @ 0x20 # dst @ 0x20 # sport @ 0x20 # dport"
    have v: "list_all no_sep [src, dst, sport, dport]" using assms PP1_Tcp by simp
    obtain port where port: "atoi sport = Some port" using assms PP1_Tcp by auto
    have l: "0x0D \<notin> set ?l" "0 \<notin> set ?l" "7 \<le> length ?l" "length ?l \<le> 99"
      using assms PP1_Tcp by (auto simp: no_sep_def)
    have "pp_client inet h = (the (v1_source inet six src (zero_result\<lparr>pp_family := if six then AF_INET6 else AF_INET\<rparr>)))
        \<lparr>pp_src_port := word_of_int port\<rparr>"
      and "v1_source inet six src (zero_result\<lparr>pp_family := if six then AF_INET6 else AF_INET\<rparr>) \<noteq> None"
      using assms PP1_Tcp port by (auto simp: v1_source_def split: if_splits)
    then have "v1_line inet ?l n inp = Some (int n, pp_client inet h, drop n inp)" for n inp
      using v1_line_ok [OF v port] by force
    with PP1_Tcp pp1_whole [OF l(1,3,4), of inet rest out] pp1_part [OF l(1,4), of p inet out] show ?thesis
      by (simp add: length_pp1_enc cstr_id [OF l(2)])
  next
    case (PP2_Local fp tlv)
    then show ?thesis using assms pp2_whole [of 0 fp tlv inet rest out] pp2_part [of 0 fp tlv p inet out]
      by (simp add: length_pp2_enc)
  next
    case (PP2_Inet proto src dst sport dport tlv)
    let ?a = "be_bytes 4 (unat src) @ be_bytes 4 (unat dst) @ be_bytes 2 (unat sport) @ be_bytes 2 (unat dport) @ tlv"
    have "v2_addresses (pp2_enc 1 (16 + proto) ?a @ rest) 1 (length ?a) = pp_client inet h"
      using PP2_Inet unfolding v2_addresses_def drop_addrs by simp
    moreover have "(16 + proto) div 16 = 1" using PP2_Inet assms by auto
    ultimately show ?thesis
      using PP2_Inet assms pp2_whole [of 1 "16 + proto" ?a inet rest out] pp2_part [of 1 "16 + proto" ?a p inet out]
      by (simp add: length_pp2_enc)
  next
    case (PP2_Inet6 proto src dst sport dport tlv)
    let ?a = "src @ dst @ be_bytes 2 (unat sport) @ be_bytes 2 (unat dport) @ tlv"
    have "v2_addresses (pp2_enc 1 (32 + proto) ?a @ rest) 2 (length ?a) = pp_client inet h"
      using PP2_Inet6 assms unfolding v2_addresses_def drop_addrs
      by (simp add: AF_INET6_def)
    moreover have "(32 + proto) div 16 = 2" using PP2_Inet6 assms by auto
    ultimately show ?thesis
      using PP2_Inet6 assms pp2_whole [of 1 "32 + proto" ?a inet rest out] pp2_part [of 1 "32 + proto" ?a p inet out]
      by (simp add: length_pp2_enc)
  next
    case (PP2_Other fp addrs)
    have "v2_addresses (pp2_enc 1 fp addrs @ rest) (fp div 16) (length addrs) = zero_result"
      using PP2_Other assms by (simp add: v2_addresses_def)
    then show ?thesis
      using PP2_Other assms pp2_whole [of 1 fp addrs inet rest out] pp2_part [of 1 fp addrs p inet out]
      by (simp add: length_pp2_enc)
qed


definition loopback_inet :: inet where
  "loopback_inet = \<lparr>pton4 = (\<lambda>s. if s = ascii ''127.0.0.1'' then Some 0x7F000001 else None), pton6 = (\<lambda>_. None)\<rparr>"

theorem proxy_header_parsed_witness:
  "proxy_protocol_parse loopback_inet (pp_enc (PP1_Tcp False (ascii ''127.0.0.1'') (ascii ''10.0.0.1'') (ascii ''80'') (ascii ''443'')) @ [7]) zero_result
     = Some (38, zero_result\<lparr>pp_family := 2, pp_src_ip := 0x7F000001, pp_src_port := 80\<rparr>, [7])"
proof -
  let ?h = "PP1_Tcp False (ascii ''127.0.0.1'') (ascii ''10.0.0.1'') (ascii ''80'') (ascii ''443'')"
  have port: "atoi (ascii ''80'') = Some 80" by code_simp
  have sep: "list_all no_sep [ascii ''127.0.0.1'', ascii ''10.0.0.1'', ascii ''80'', ascii ''443'']" by code_simp
  have "pp_valid loopback_inet ?h" using port sep by (simp add: loopback_inet_def)
  from proxy_header_parsed [OF this, of "[7]" zero_result "[]"] show ?thesis
    using port by (simp add: loopback_inet_def AF_INET_def pp1_enc_def)
qed

end
