(* ===== verification/Srv_Tls_Parse.thy ===== *)
theory Srv_Tls_Parse
  imports T3_Prelude
begin

text \<open>
  The TLS parsers of the server, \<open>server/src/net/net-tls-parse.c\<close>: the upstream server's reply that the
  fake handshake imitates, the server name and the cipher suites of a client's hello. All reads are
  checked: \<open>None\<close> would be a read (or a write of a record size) outside the buffers. The lengths stay far
  from the end of \<open>int\<close>: a position exceeds the buffer by at most a 16-bit length.
\<close>

definition tls_read_length :: "bytes \<Rightarrow> nat \<Rightarrow> (nat \<times> nat) option" where
  "tls_read_length data pos =
     do { a \<leftarrow> rd data pos; b \<leftarrow> rd data (pos + 1); Some (unat a * 256 + unat b, pos + 2) }"

lemma tls_read_length_in: "pos + 1 < length d \<Longrightarrow> tls_read_length d pos = Some (unat (d ! pos) * 256 + unat (d ! (pos + 1)), pos + 2)"
  by (simp add: tls_read_length_def)

lemma tls_read_length_pos: "tls_read_length d pos = Some (v, p) \<Longrightarrow> p = pos + 2"
  by (auto simp: tls_read_length_def Option.bind_eq_Some_conv)

subsection \<open>The server's reply\<close>

definition MAX_ENCRYPTED_RECORDS :: nat where "MAX_ENCRYPTED_RECORDS = 8"

record hello_out =
  ho_reversed :: bool
  ho_sizes :: "nat list"
  ho_count :: nat

definition EXPECT_STR :: "bytes \<Rightarrow> nat \<Rightarrow> bytes \<Rightarrow> bool option" where
  "EXPECT_STR response pos str = map_option (\<lambda>b. b = str) (rd_range response pos (length str))"

text \<open>The loop over the extensions: the end position and the sum of their numbers, or a refusal.\<close>

function extension_loop :: "bytes \<Rightarrow> nat \<Rightarrow> nat \<Rightarrow> nat \<Rightarrow> hello_out \<Rightarrow> ((nat \<times> nat) option \<times> hello_out) option" where
  "extension_loop response server_hello_length pos ext_sum out =
     (if pos < 5 + server_hello_length - 4 then
        do {
          (extension_id, pos1) \<leftarrow> tls_read_length response pos;
          (if extension_id \<noteq> 0x33 \<and> extension_id \<noteq> 0x2b then Some (None, out)
           else do {
             (extension_length, pos2) \<leftarrow> tls_read_length response pos1;
             (let out1 = (if pos1 = 83 then out\<lparr>ho_reversed := (extension_id = 0x2b)\<rparr> else out) in
              if pos2 + extension_length > 5 + server_hello_length then Some (None, out1)
              else if extension_length \<noteq> (if extension_id = 0x33 then 36 else 2) then Some (None, out1)
              else extension_loop response server_hello_length (pos2 + extension_length) (ext_sum + extension_id) out1)
           })
        }
      else Some (Some (pos, ext_sum), out))"
  by auto
termination
  by (relation "measure (\<lambda>(_, n, pos, _). 5 + n - pos)") (auto dest!: tls_read_length_pos)

declare extension_loop.simps [simp del]

text \<open>The loop over the encrypted records behind the reply.\<close>

function record_loop :: "bytes \<Rightarrow> nat \<Rightarrow> hello_out \<Rightarrow> hello_out option" where
  "record_loop response pos out =
     (if pos + 5 \<le> length response then
        do {
          app \<leftarrow> EXPECT_STR response pos [0x17, 0x03, 0x03];
          (if \<not> app then Some out
           else do {
             (rec_len, pos1) \<leftarrow> tls_read_length response (pos + 3);
             (if rec_len = 0 \<or> pos1 + rec_len > length response then Some out
              else if ho_count out < MAX_ENCRYPTED_RECORDS \<and> ho_count out \<ge> length (ho_sizes out) then None
              else
                (let sizes = (if ho_count out < MAX_ENCRYPTED_RECORDS then (ho_sizes out)[ho_count out := rec_len]
                              else ho_sizes out) in
                 record_loop response (pos1 + rec_len) (out\<lparr>ho_sizes := sizes, ho_count := ho_count out + 1\<rparr>)))
           })
        }
      else Some out)"
  by auto
termination
  by (relation "measure (\<lambda>(response, pos, _). length response - pos)") (auto dest!: tls_read_length_pos)

declare record_loop.simps [simp del]

definition hello_retry_random :: bytes where
  "hello_retry_random =
     [0xcf, 0x21, 0xad, 0x74, 0xe5, 0x9a, 0x61, 0x11, 0xbe, 0x1d, 0x8c, 0x02, 0x1e, 0x65, 0xb8, 0x91,
      0xc2, 0xa2, 0x11, 0x16, 0x7a, 0xbb, 0x8c, 0x5e, 0x07, 0x9e, 0x09, 0xe2, 0xc8, 0xa8, 0x33, 0x9c]"

text \<open>The checks in front of the extensions: the length of the hello and of its extensions.\<close>

definition hello_start :: "bytes \<Rightarrow> (nat \<times> nat) option option" where
  "hello_start response =
     (if 3 > length response then Some None
      else do {
        ok \<leftarrow> EXPECT_STR response 0 [0x16, 0x03, 0x03];
        (if \<not> ok then Some None
         else if 3 + 2 > length response then Some None
         else do {
           (server_hello_length, pos) \<leftarrow> tls_read_length response 3;
           (if server_hello_length \<le> 39 then Some None
            else if pos + server_hello_length > length response then Some None
            else Some (Some (server_hello_length, pos)))
         })
      })"

definition hello_body :: "bytes \<Rightarrow> bytes \<Rightarrow> nat \<Rightarrow> bool option" where
  "hello_body response request_session_id server_hello_length =
     do {
       ok1 \<leftarrow> EXPECT_STR response 5 [0x02, 0x00];
       (if \<not> ok1 then Some False else do {
       ok2 \<leftarrow> EXPECT_STR response 9 [0x03, 0x03];
       (if \<not> ok2 then Some False else do {
       retry \<leftarrow> EXPECT_STR response 11 hello_retry_random;
       (if retry then Some False else do {
       b43 \<leftarrow> rd response 43;
       (if b43 = 0x00 then Some False else do {
       ok3 \<leftarrow> EXPECT_STR response 43 [0x20];
       (if \<not> ok3 then Some False
        else if server_hello_length \<le> 75 then Some False
        else do {
          same \<leftarrow> EXPECT_STR response 44 request_session_id;
          (if \<not> same then Some False else EXPECT_STR response 76 [0x13, 0x01, 0x00])
        }) }) }) }) })
     }"

text \<open>The checks behind the extensions.\<close>

definition finish_hello :: "bytes \<Rightarrow> nat \<Rightarrow> (nat \<times> nat) option \<Rightarrow> hello_out \<Rightarrow> (int \<times> hello_out) option" where
  "finish_hello response server_hello_length exts out =
     (case exts of
        None \<Rightarrow> Some (0, out)
      | Some (pos, ext_sum) \<Rightarrow>
          if ext_sum \<noteq> 0x33 + 0x2b then Some (0, out)
          else if pos \<noteq> 5 + server_hello_length then Some (0, out)
          else if pos + 6 > length response then Some (0, out)
          else do {
            ccs \<leftarrow> EXPECT_STR response pos [0x14, 0x03, 0x03, 0x00, 0x01, 0x01];
            (if \<not> ccs then Some (0, out)
             else do {
               out \<leftarrow> record_loop response (pos + 6) (out\<lparr>ho_count := 0\<rparr>);
               Some (if ho_count out = 0 then 0 else 1, out)
             })
          })"

definition tls_check_server_hello :: "bytes \<Rightarrow> bytes \<Rightarrow> hello_out \<Rightarrow> (int \<times> hello_out) option" where
  "tls_check_server_hello response request_session_id out =
     do {
       start \<leftarrow> hello_start response;
       (case start of
          None \<Rightarrow> Some (0, out)
        | Some (server_hello_length, pos) \<Rightarrow>
            do {
              ok \<leftarrow> hello_body response request_session_id server_hello_length;
              (if \<not> ok then Some (0, out)
               else do {
                 (extensions_length, pos) \<leftarrow> tls_read_length response (pos + 74);
                 (if extensions_length + 76 \<noteq> server_hello_length then Some (0, out)
                  else do {
                    (exts, out) \<leftarrow> extension_loop response server_hello_length pos 0 out;
                    finish_hello response server_hello_length exts out
                  })
               })
            })
     }"

subsection \<open>The client's hello\<close>

text \<open>The server name: the length and the domain, \<open>-1\<close> without one.\<close>

definition sni_name :: "bytes \<Rightarrow> nat \<Rightarrow> nat \<Rightarrow> nat \<Rightarrow> (int \<times> bytes option) option" where
  "sni_name client_hello pos extension_length max_domain_len =
     (if pos + 5 > length client_hello then Some (- 1, None)
      else do {
        (inner_length, pos) \<leftarrow> tls_read_length client_hello pos;
        (if int inner_length \<noteq> int extension_length - 2 then Some (- 1, None)
         else do {
           name_type \<leftarrow> rd client_hello pos;
           (if name_type \<noteq> 0 then Some (- 1, None)
            else do {
              (domain_length, pos) \<leftarrow> tls_read_length client_hello (pos + 1);
              (if int domain_length \<noteq> int extension_length - 5 then Some (- 1, None)
               else do {
                 name \<leftarrow> rd_range client_hello pos domain_length;
                 (if 0 \<in> set name then Some (- 1, None)
                  else if domain_length \<ge> max_domain_len \<or> domain_length \<le> 0 then Some (- 1, None)
                  else Some (int domain_length, Some name))
               })
            })
         })
      })"

function sni_loop :: "bytes \<Rightarrow> nat \<Rightarrow> nat \<Rightarrow> (int \<times> bytes option) option" where
  "sni_loop client_hello max_domain_len pos =
     (if pos + 4 > length client_hello then Some (- 1, None)
      else do {
        (extension_id, pos1) \<leftarrow> tls_read_length client_hello pos;
        (extension_length, pos2) \<leftarrow> tls_read_length client_hello pos1;
        (if pos2 + extension_length > length client_hello then Some (- 1, None)
         else if extension_id = 0 then sni_name client_hello pos2 extension_length max_domain_len
         else sni_loop client_hello max_domain_len (pos2 + extension_length))
      })"
  by auto
termination
  by (relation "measure (\<lambda>(client_hello, _, pos). length client_hello - pos)") (auto dest!: tls_read_length_pos)

declare sni_loop.simps [simp del]

definition tls_parse_sni :: "bytes \<Rightarrow> nat \<Rightarrow> (int \<times> bytes option) option" where
  "tls_parse_sni client_hello max_domain_len =
     (let pos = 11 + 32 + 1 + 32 in
      if pos + 2 > length client_hello then Some (- 1, None)
      else do {
        (cipher_suites_length, pos) \<leftarrow> tls_read_length client_hello pos;
        (if pos + (cipher_suites_length + 4) > length client_hello then Some (- 1, None)
         else sni_loop client_hello max_domain_len (pos + (cipher_suites_length + 4)))
      })"

text \<open>The GREASE suites are skipped: the position and the bytes that are left of the suites.\<close>

function grease_loop :: "bytes \<Rightarrow> nat \<Rightarrow> nat \<Rightarrow> (nat \<times> nat) option" where
  "grease_loop client_hello cipher_suites_length pos =
     (if cipher_suites_length \<ge> 2 then
        do {
          a \<leftarrow> rd client_hello pos;
          (if unat a mod 16 \<noteq> 10 then Some (cipher_suites_length, pos)
           else do {
             b \<leftarrow> rd client_hello (pos + 1);
             (if unat b mod 16 \<noteq> 10 then Some (cipher_suites_length, pos)
              else grease_loop client_hello (cipher_suites_length - 2) (pos + 2))
           })
        }
      else Some (cipher_suites_length, pos))"
  by auto
termination by (relation "measure (\<lambda>(_, n, _). n)") auto

declare grease_loop.simps [simp del]

definition tls_parse_client_hello_ciphers :: "bytes \<Rightarrow> (int \<times> byte option) option" where
  "tls_parse_client_hello_ciphers client_hello =
     (if 76 + 2 > length client_hello then Some (- 1, None)
      else do {
        (cipher_suites_length, pos) \<leftarrow> tls_read_length client_hello 76;
        (if pos + cipher_suites_length > length client_hello then Some (- 1, None)
         else do {
           (n, pos) \<leftarrow> grease_loop client_hello cipher_suites_length pos;
           (if n \<le> 1 then Some (- 1, None)
            else do {
              a \<leftarrow> rd client_hello pos;
              (if a \<noteq> 0x13 then Some (- 1, None)
               else do {
                 b \<leftarrow> rd client_hello (pos + 1);
                 (if b < 0x01 \<or> b > 0x03 then Some (- 1, None) else Some (0, Some b))
               })
            })
         })
      })"

subsection \<open>No parser leaves its buffers\<close>

lemma EXPECT_STR_in: "pos + length str \<le> length r \<Longrightarrow> EXPECT_STR r pos str = Some (take (length str) (drop pos r) = str)"
  by (simp add: EXPECT_STR_def)

lemma extension_loop_safe:
  "5 + n \<le> length r \<Longrightarrow> \<exists>res out'. extension_loop r n pos s out = Some (res, out') \<and> ho_sizes out' = ho_sizes out"
proof (induction r n pos s out rule: extension_loop.induct)
  case (1 r n pos s out)
  show ?case
  proof (cases "pos < 5 + n - 4")
    case True
    let ?id = "unat (r ! pos) * 256 + unat (r ! (pos + 1))"
    let ?l = "unat (r ! (pos + 2)) * 256 + unat (r ! (pos + 2 + 1))"
    have id: "tls_read_length r pos = Some (?id, pos + 2)" and l: "tls_read_length r (pos + 2) = Some (?l, pos + 2 + 2)"
      using True 1(2) by (intro tls_read_length_in; simp)+
    define out1 where "out1 = (if pos + 2 = 83 then out\<lparr>ho_reversed := (?id = 0x2b)\<rparr> else out)"
    have "ho_sizes out1 = ho_sizes out" by (simp add: out1_def)
    moreover have "\<exists>res out'. extension_loop r n (pos + 2 + 2 + ?l) (s + ?id) out1 = Some (res, out') \<and> ho_sizes out' = ho_sizes out1"
      if "?id = 0x33 \<or> ?id = 0x2b" "\<not> pos + 2 + 2 + ?l > 5 + n" "?l = (if ?id = 0x33 then 36 else 2)"
      using 1(1) [OF True id refl _ l refl, folded out1_def] that 1(2) out1_def by blast
    ultimately show ?thesis
      using True unfolding extension_loop.simps [of r n pos] id l Let_def out1_def [symmetric] bind.bind_lunit prod.case
      by (cases "?id = 0x33 \<or> ?id = 0x2b"; cases "pos + 2 + 2 + ?l > 5 + n"; cases "?l = (if ?id = 0x33 then 36 else 2)")
        (simp_all add: if_split)
  qed (simp add: extension_loop.simps [of r n pos])
qed

lemma record_loop_safe: "MAX_ENCRYPTED_RECORDS \<le> length (ho_sizes out) \<Longrightarrow> record_loop r pos out \<noteq> None"
proof (induction r pos out rule: record_loop.induct)
  case (1 r pos out)
  show ?case
  proof (cases "pos + 5 \<le> length r")
    case True
    let ?l = "unat (r ! (pos + 3)) * 256 + unat (r ! (pos + 3 + 1))"
    have l: "tls_read_length r (pos + 3) = Some (?l, pos + 3 + 2)" using True by (intro tls_read_length_in) simp
    have e: "EXPECT_STR r pos [0x17, 0x03, 0x03] = Some (take 3 (drop pos r) = [0x17, 0x03, 0x03])"
      using True by (simp add: EXPECT_STR_in numeral_3_eq_3)
    let ?sizes = "if ho_count out < MAX_ENCRYPTED_RECORDS then (ho_sizes out)[ho_count out := ?l] else ho_sizes out"
    have "record_loop r (pos + 3 + 2 + ?l) (out\<lparr>ho_sizes := ?sizes, ho_count := ho_count out + 1\<rparr>) \<noteq> None"
      if "take 3 (drop pos r) = [0x17, 0x03, 0x03]" "\<not> (?l = 0 \<or> pos + 3 + 2 + ?l > length r)"
      using 1(1) [OF True e _ l refl that(2) _ refl] that(1) 1(2) by simp
    then show ?thesis
      using True 1(2) unfolding record_loop.simps [of r pos] e l Let_def bind.bind_lunit prod.case by auto
  qed (simp add: record_loop.simps [of r pos])
qed

lemma sni_name_safe:
  assumes "pos + n \<le> length r"
  shows "sni_name r pos n m \<noteq> None"
proof (cases "pos + 5 > length r")
  case False
  let ?i = "unat (r ! pos) * 256 + unat (r ! (pos + 1))"
  have i: "tls_read_length r pos = Some (?i, pos + 2)" and t: "rd r (pos + 2) = Some (r ! (pos + 2))"
    using False by (intro tls_read_length_in rd_in; simp)+
  obtain k where d: "tls_read_length r (pos + 2 + 1) = Some (k, pos + 2 + 1 + 2)"
    using tls_read_length_in [of "pos + 2 + 1" r] False by auto
  have "rd_range r (pos + 2 + 1 + 2) k = Some (take k (drop (pos + 2 + 1 + 2) r))" if "int k = int n - 5"
    using that assms by (intro rd_range_in) linarith
  then show ?thesis
    unfolding sni_name_def i t d bind.bind_lunit prod.case by (simp del: not_None_eq)
qed (simp add: sni_name_def)

lemma sni_loop_safe: "sni_loop r m pos \<noteq> None"
proof (induction r m pos rule: sni_loop.induct)
  case (1 r m pos)
  show ?case
  proof (cases "pos + 4 > length r")
    case False
    let ?id = "unat (r ! pos) * 256 + unat (r ! (pos + 1))"
    let ?l = "unat (r ! (pos + 2)) * 256 + unat (r ! (pos + 2 + 1))"
    have id: "tls_read_length r pos = Some (?id, pos + 2)" and l: "tls_read_length r (pos + 2) = Some (?l, pos + 2 + 2)"
      using False by (intro tls_read_length_in; simp)+
    have "sni_loop r m (pos + 2 + 2 + ?l) \<noteq> None"
      if "\<not> pos + 2 + 2 + ?l > length r" "?id \<noteq> 0" using 1 [OF False id refl l refl that] .
    moreover have "sni_name r (pos + 2 + 2) ?l m \<noteq> None" if "\<not> pos + 2 + 2 + ?l > length r"
      using that by (intro sni_name_safe) simp
    ultimately show ?thesis
      using False unfolding sni_loop.simps [of r m pos] id l bind.bind_lunit prod.case
      by (simp del: not_None_eq)
  qed (simp add: sni_loop.simps [of r m pos])
qed

lemma grease_loop_safe:
  "pos + n \<le> length r \<Longrightarrow> \<exists>n' pos'. grease_loop r n pos = Some (n', pos') \<and> pos' + n' \<le> length r"
proof (induction r n pos rule: grease_loop.induct)
  case (1 r n pos)
  show ?case
  proof (cases "n \<ge> 2")
    case True
    with 1(2) have rd: "rd r pos = Some (r ! pos)" "rd r (pos + 1) = Some (r ! (pos + 1))" by simp_all
    have "\<exists>n' pos'. grease_loop r (n - 2) (pos + 2) = Some (n', pos') \<and> pos' + n' \<le> length r"
      if "\<not> unat (r ! pos) mod 16 \<noteq> 10" "\<not> unat (r ! (pos + 1)) mod 16 \<noteq> 10"
      using 1(1) [OF True rd(1) that(1) rd(2) that(2)] 1(2) True by simp
    with True 1(2) show ?thesis unfolding grease_loop.simps [of r n pos] rd bind.bind_lunit by simp
  qed (use 1(2) in \<open>simp add: grease_loop.simps [of r n pos]\<close>)
qed

lemma ciphers_safe: "tls_parse_client_hello_ciphers r \<noteq> None"
proof (cases "76 + 2 > length r")
  case False
  then obtain n where n: "tls_read_length r 76 = Some (n, 78)" by (simp add: tls_read_length_in)
  show ?thesis
  proof (cases "78 + n > length r")
    case False
    then have "78 + n \<le> length r" by simp
    from grease_loop_safe [OF this] obtain n' pos' where
      g: "grease_loop r n 78 = Some (n', pos')" "pos' + n' \<le> length r" by blast
    then have "\<not> n' \<le> 1 \<Longrightarrow> rd r pos' = Some (r ! pos') \<and> rd r (pos' + 1) = Some (r ! (pos' + 1))" by simp
    with n g(1) show ?thesis by (simp add: tls_parse_client_hello_ciphers_def del: not_None_eq)
  qed (use n in \<open>simp add: tls_parse_client_hello_ciphers_def\<close>)
qed (simp add: tls_parse_client_hello_ciphers_def)

lemma hello_start_safe:
  "\<exists>res. hello_start r = Some res \<and> (\<forall>n pos. res = Some (n, pos) \<longrightarrow> pos = 5 \<and> 40 \<le> n \<and> 5 + n \<le> length r)"
  by (auto simp: hello_start_def EXPECT_STR_in tls_read_length_in)

lemma hello_body_safe:
  assumes "40 \<le> n" "5 + n \<le> length r" "length sid = 32"
  shows "\<exists>ok. hello_body r sid n = Some ok \<and> (ok \<longrightarrow> n > 75)"
  using assms by (auto simp: hello_body_def EXPECT_STR_in hello_retry_random_def)

lemma server_hello_safe:
  assumes "length sid = 32" "MAX_ENCRYPTED_RECORDS \<le> length (ho_sizes out)"
  shows "tls_check_server_hello r sid out \<noteq> None"
proof -
  obtain res where res: "hello_start r = Some res"
    "\<And>n pos. res = Some (n, pos) \<Longrightarrow> pos = 5 \<and> 40 \<le> n \<and> 5 + n \<le> length r"
    using hello_start_safe by blast
  show ?thesis
  proof (cases res)
    case (Some np)
    obtain n pos where np: "np = (n, pos)" by force
    then have n: "pos = 5" "40 \<le> n" "5 + n \<le> length r" using res(2) [of n pos] Some by simp_all
    from hello_body_safe [OF n(2,3) assms(1)] obtain ok where b: "hello_body r sid n = Some ok" "ok \<longrightarrow> n > 75" by blast
    show ?thesis
    proof (cases ok)
      case True
      with b n have l: "tls_read_length r (5 + 74) = Some (unat (r ! 79) * 256 + unat (r ! 80), 81)"
        by (simp add: tls_read_length_in)
      from extension_loop_safe [OF n(3), of 81 0 out] obtain ex out1 where
        x: "extension_loop r n 81 0 out = Some (ex, out1)" "ho_sizes out1 = ho_sizes out" by blast
      have "\<forall>q. \<exists>o1. record_loop r q (out1\<lparr>ho_count := 0\<rparr>) = Some o1"
        using record_loop_safe [of "out1\<lparr>ho_count := 0\<rparr>" r] x(2) assms(2) by simp
      from choice [OF this] obtain rl where "\<And>q. record_loop r q (out1\<lparr>ho_count := 0\<rparr>) = Some (rl q)" by blast
      then have "finish_hello r n ex out1 \<noteq> None"
        by (simp add: finish_hello_def EXPECT_STR_in split: option.split prod.split del: not_None_eq)
      then show ?thesis
        using True x(1) res(1) Some np n(1) b(1) l by (simp add: tls_check_server_hello_def del: not_None_eq)
    qed (use res(1) Some np b n in \<open>simp add: tls_check_server_hello_def\<close>)
  qed (use res(1) in \<open>simp add: tls_check_server_hello_def\<close>)
qed

text \<open>C10: the TLS parsers are memory-safe and return. Whatever an upstream server or a client sends, no
  parser reads outside the received bytes, and the record sizes stay in their array.\<close>

theorem tls_parsers_safe:
  assumes "length sid = 32" "MAX_ENCRYPTED_RECORDS \<le> length (ho_sizes out)"
  shows "tls_check_server_hello r sid out \<noteq> None \<and> tls_parse_sni r m \<noteq> None \<and> tls_parse_client_hello_ciphers r \<noteq> None"
proof (intro conjI)
  show "tls_check_server_hello r sid out \<noteq> None" by (rule server_hello_safe [OF assms])
  show "tls_parse_sni r m \<noteq> None"
    by (simp add: tls_parse_sni_def tls_read_length_in sni_loop_safe del: not_None_eq)
  show "tls_parse_client_hello_ciphers r \<noteq> None" by (rule ciphers_safe)
qed

theorem tls_parsers_safe_witness:
  "tls_check_server_hello [0x16, 0x03, 0x03] (replicate 32 0) \<lparr>ho_reversed = False, ho_sizes = replicate 8 0, ho_count = 0\<rparr> \<noteq> None
   \<and> tls_parse_sni [0x16, 0x03, 0x03] 256 \<noteq> None \<and> tls_parse_client_hello_ciphers [0x16, 0x03, 0x03] \<noteq> None"
  by (rule tls_parsers_safe) (simp_all add: MAX_ENCRYPTED_RECORDS_def)

subsection \<open>What the parsers read\<close>

lemma read_be2: "n < 65536 \<Longrightarrow> length pre = pos \<Longrightarrow> tls_read_length (pre @ be_bytes 2 n @ post) pos = Some (n, pos + 2)"
  by (auto simp: tls_read_length_in be_bytes_numerals nth_append unat_of_nat)

definition ext_enc :: "nat \<times> bytes \<Rightarrow> bytes" where
  "ext_enc e = be_bytes 2 (fst e) @ be_bytes 2 (length (snd e)) @ snd e"

definition ext_ok :: "nat \<times> bytes \<Rightarrow> bool" where
  "ext_ok e \<longleftrightarrow> fst e < 65536 \<and> length (snd e) < 65536"

lemma length_ext_enc [simp]: "length (ext_enc e) = 4 + length (snd e)"
  by (simp add: ext_enc_def)

lemma ext_reads:
  assumes "ext_ok e" "length pre = pos"
  shows "tls_read_length (pre @ ext_enc e @ post) pos = Some (fst e, pos + 2)"
    "tls_read_length (pre @ ext_enc e @ post) (pos + 2) = Some (length (snd e), pos + 2 + 2)"
proof -
  have "pre @ ext_enc e @ post = (pre @ be_bytes 2 (fst e)) @ be_bytes 2 (length (snd e)) @ snd e @ post"
    by (simp add: ext_enc_def)
  then show "tls_read_length (pre @ ext_enc e @ post) (pos + 2) = Some (length (snd e), pos + 2 + 2)"
    using assms by (simp only:) (rule read_be2, simp_all add: ext_ok_def)
  have "pre @ ext_enc e @ post = pre @ be_bytes 2 (fst e) @ be_bytes 2 (length (snd e)) @ snd e @ post"
    by (simp add: ext_enc_def)
  then show "tls_read_length (pre @ ext_enc e @ post) pos = Some (fst e, pos + 2)"
    using assms by (simp only:) (rule read_be2, simp_all add: ext_ok_def)
qed

definition sni_body :: "bytes \<Rightarrow> bytes" where
  "sni_body dn = be_bytes 2 (length dn + 3) @ [0] @ be_bytes 2 (length dn) @ dn"

lemma length_sni_body [simp]: "length (sni_body dn) = length dn + 5"
  by (simp add: sni_body_def)

lemma sni_name_reads:
  assumes "length dn + 3 < 65536" "0 \<notin> set dn" "dn \<noteq> []" "length dn < m" "length pre = pos"
  shows "sni_name (pre @ sni_body dn @ post) pos (length (sni_body dn)) m = Some (int (length dn), Some dn)"
proof -
  let ?h = "pre @ sni_body dn @ post"
  have "?h = pre @ be_bytes 2 (length dn + 3) @ [0] @ be_bytes 2 (length dn) @ dn @ post" by (simp add: sni_body_def)
  then have i: "tls_read_length ?h pos = Some (length dn + 3, pos + 2)"
    using assms by (simp only:) (rule read_be2, simp_all)
  have t: "rd ?h (pos + 2) = Some 0" using assms(5) by (simp add: sni_body_def nth_append)
  have "?h = (pre @ be_bytes 2 (length dn + 3) @ [0]) @ be_bytes 2 (length dn) @ dn @ post" by (simp add: sni_body_def)
  then have d: "tls_read_length ?h (pos + 2 + 1) = Some (length dn, pos + 2 + 1 + 2)"
    using assms by (simp only:) (rule read_be2, simp_all)
  have r: "rd_range ?h (pos + 2 + 1 + 2) (length dn) = Some dn" using assms(5) by (simp add: sni_body_def rd_range_def)
  have "\<not> pos + 5 > length ?h" using assms(5) by simp
  then show ?thesis
    using assms(2-4) unfolding sni_name_def i t d r bind.bind_lunit prod.case length_sni_body by simp
qed

lemma sni_loop_reads:
  assumes "list_all (\<lambda>e. ext_ok e \<and> fst e \<noteq> 0) exts" "length dn + 5 < 65536" "0 \<notin> set dn" "dn \<noteq> []" "length dn < m"
  shows "length pre = pos \<Longrightarrow>
    sni_loop (pre @ concat (map ext_enc exts) @ ext_enc (0, sni_body dn) @ post) m pos = Some (int (length dn), Some dn)"
  using assms(1)
proof (induction exts arbitrary: pre pos)
  case Nil
  let ?h = "pre @ ext_enc (0, sni_body dn) @ post"
  have "?h = (pre @ be_bytes 2 0 @ be_bytes 2 (length (sni_body dn))) @ sni_body dn @ post" by (simp add: ext_enc_def)
  then have n: "sni_name ?h (pos + 2 + 2) (length (sni_body dn)) m = Some (int (length dn), Some dn)"
    using assms(2-5) Nil.prems(1) by (simp only:) (rule sni_name_reads, simp_all)
  have "ext_ok (0, sni_body dn)" using assms(2) by (simp add: ext_ok_def)
  note r = ext_reads [OF this Nil.prems(1), of post, unfolded fst_conv snd_conv]
  have "sni_loop ?h m pos = Some (int (length dn), Some dn)"
    using Nil.prems(1) unfolding sni_loop.simps [of ?h m pos] r bind.bind_lunit prod.case n by simp
  then show ?case by simp
next
  case (Cons e exts)
  let ?rest = "concat (map ext_enc exts) @ ext_enc (0, sni_body dn) @ post"
  let ?h = "pre @ ext_enc e @ ?rest"
  have e: "ext_ok e" "fst e \<noteq> 0" using Cons.prems(2) by simp_all
  note r = ext_reads [OF e(1) Cons.prems(1), of ?rest]
  have step: "sni_loop ?h m pos = sni_loop ((pre @ ext_enc e) @ ?rest) m (pos + 2 + 2 + length (snd e))"
    using Cons.prems(1) e(2) unfolding sni_loop.simps [of ?h m pos] r bind.bind_lunit prod.case by simp
  have "length (pre @ ext_enc e) = pos + 2 + 2 + length (snd e)" using Cons.prems(1) by simp
  from step Cons.IH [OF this] Cons.prems(2) show ?case by simp
qed

text \<open>The server name is found. In a client hello with any cipher suites and any other extensions in
  front, the name in the server-name extension is what the parser returns, whatever follows it, provided
  it has no NUL, is not empty and fits the caller's buffer.\<close>

lemma tls_sni_found:
  assumes "length fixed = 76" "length suites < 65536" "length compression = 4"
    and "list_all (\<lambda>e. ext_ok e \<and> fst e \<noteq> 0) exts"
    and "length dn + 5 < 65536" "0 \<notin> set dn" "dn \<noteq> []" "length dn < m"
  shows "tls_parse_sni (fixed @ be_bytes 2 (length suites) @ suites @ compression
      @ concat (map ext_enc exts) @ ext_enc (0, sni_body dn) @ post) m = Some (int (length dn), Some dn)"
proof -
  let ?rest = "concat (map ext_enc exts) @ ext_enc (0, sni_body dn) @ post"
  let ?pre = "fixed @ be_bytes 2 (length suites) @ suites @ compression"
  have "tls_read_length (fixed @ be_bytes 2 (length suites) @ suites @ compression @ ?rest) 76 = Some (length suites, 76 + 2)"
    using assms(1,2) by (intro read_be2)
  moreover have "sni_loop (?pre @ ?rest) m (78 + (length suites + 4)) = Some (int (length dn), Some dn)"
    using assms by (intro sni_loop_reads) simp_all
  ultimately show ?thesis using assms(1,3) by (simp add: tls_parse_sni_def)
qed

subsection \<open>The reply that is accepted\<close>

definition app_record :: "bytes \<Rightarrow> bytes" where
  "app_record b = [0x17, 0x03, 0x03] @ be_bytes 2 (length b) @ b"

definition change_cipher_spec :: bytes where
  "change_cipher_spec = [0x14, 0x03, 0x03, 0x00, 0x01, 0x01]"

text \<open>A TLS 1.3 server hello that mirrors the session id and has the key share and the supported
  versions as its extensions, in either order.\<close>

definition server_hello :: "bytes \<Rightarrow> bytes \<Rightarrow> bool \<Rightarrow> bytes \<Rightarrow> bytes \<Rightarrow> bytes" where
  "server_hello random sid reversed ks sv =
     [0x16, 0x03, 0x03] @ be_bytes 2 122 @ [0x02, 0x00] @ be_bytes 2 118 @ [0x03, 0x03] @ random @ [0x20] @ sid
       @ [0x13, 0x01, 0x00] @ be_bytes 2 46
       @ (if reversed then ext_enc (0x2b, sv) @ ext_enc (0x33, ks) else ext_enc (0x33, ks) @ ext_enc (0x2b, sv))"

lemma record_loop_reads:
  assumes "length tail < 5"
  shows "length pre = pos \<Longrightarrow> list_all (\<lambda>b. b \<noteq> [] \<and> length b < 65536) bs \<Longrightarrow> MAX_ENCRYPTED_RECORDS \<le> length (ho_sizes out) \<Longrightarrow>
    \<exists>sizes. record_loop (pre @ concat (map app_record bs) @ tail) pos out
        = Some (out\<lparr>ho_sizes := sizes, ho_count := ho_count out + length bs\<rparr>)
      \<and> length sizes = length (ho_sizes out)
      \<and> take 8 sizes = take 8 (take (ho_count out) (ho_sizes out) @ map length bs @ drop (ho_count out + length bs) (ho_sizes out))"
proof (induction bs arbitrary: pre pos out)
  case Nil
  then show ?case using assms
    by (intro exI [of _ "ho_sizes out"]) (simp add: record_loop.simps [of _ pos])
next
  case (Cons b bs)
  let ?rest = "concat (map app_record bs) @ tail"
  let ?r = "pre @ app_record b @ ?rest"
  let ?c = "ho_count out"
  define out1 where "out1 = out\<lparr>ho_sizes := (if ?c < MAX_ENCRYPTED_RECORDS then (ho_sizes out)[?c := length b] else ho_sizes out),
      ho_count := ?c + 1\<rparr>"
  have "?r = (pre @ [0x17, 0x03, 0x03]) @ be_bytes 2 (length b) @ b @ ?rest" by (simp add: app_record_def)
  then have l: "tls_read_length ?r (pos + 3) = Some (length b, pos + 3 + 2)"
    using Cons.prems(1,2) by (simp only:) (rule read_be2, simp_all)
  have e: "EXPECT_STR ?r pos [0x17, 0x03, 0x03] = Some True"
    using Cons.prems(1) by (simp add: EXPECT_STR_in app_record_def)
  have fits: "\<not> (?c < MAX_ENCRYPTED_RECORDS \<and> ?c \<ge> length (ho_sizes out))" using Cons.prems(3) by linarith
  have step: "record_loop ?r pos out = record_loop ((pre @ app_record b) @ ?rest) (pos + 3 + 2 + length b) out1"
    using Cons.prems(1,2) fits unfolding record_loop.simps [of ?r pos] e l bind.bind_lunit prod.case Let_def
    by (auto simp: out1_def app_record_def)
  have "length (pre @ app_record b) = pos + 3 + 2 + length b" using Cons.prems(1) by (simp add: app_record_def)
  moreover have "MAX_ENCRYPTED_RECORDS \<le> length (ho_sizes out1)" using Cons.prems(3) by (simp add: out1_def)
  ultimately obtain sizes where s: "record_loop ((pre @ app_record b) @ ?rest) (pos + 3 + 2 + length b) out1
        = Some (out1\<lparr>ho_sizes := sizes, ho_count := ho_count out1 + length bs\<rparr>)"
      "length sizes = length (ho_sizes out1)"
      "take 8 sizes = take 8 (take (?c + 1) (ho_sizes out1) @ map length bs @ drop (?c + 1 + length bs) (ho_sizes out1))"
    using Cons.IH [of "pre @ app_record b" "pos + 3 + 2 + length b" out1] Cons.prems(2) by (auto simp: out1_def)
  have "take 8 (take (?c + 1) (ho_sizes out1) @ map length bs @ drop (?c + 1 + length bs) (ho_sizes out1))
      = take 8 (take ?c (ho_sizes out) @ map length (b # bs) @ drop (?c + length (b # bs)) (ho_sizes out))"
  proof (cases "?c < MAX_ENCRYPTED_RECORDS")
    case True
    then have "?c < length (ho_sizes out)" using Cons.prems(3) by simp
    with True show ?thesis by (simp add: out1_def take_Suc_conv_app_nth)
  next
    case False
    then show ?thesis using Cons.prems(3) by (simp add: out1_def MAX_ENCRYPTED_RECORDS_def)
  qed
  with s(3) have "take 8 sizes = take 8 (take ?c (ho_sizes out) @ map length (b # bs) @ drop (?c + length (b # bs)) (ho_sizes out))"
    by simp
  moreover have "record_loop (pre @ concat (map app_record (b # bs)) @ tail) pos out
      = Some (out\<lparr>ho_sizes := sizes, ho_count := ?c + length (b # bs)\<rparr>)"
    using s(1) step by (simp add: out1_def)
  moreover have "length sizes = length (ho_sizes out)" using s(2) by (simp add: out1_def)
  ultimately show ?case by blast
qed

lemma extension_step:
  assumes "ext_ok (i, b)" "i = 0x33 \<and> length b = 36 \<or> i = 0x2b \<and> length b = 2" "length pre = pos"
    and "pos + 4 + length b \<le> 5 + n"
  shows "extension_loop (pre @ ext_enc (i, b) @ post) n pos s out
    = extension_loop (pre @ ext_enc (i, b) @ post) n (pos + 4 + length b) (s + i)
        (if pos = 81 then out\<lparr>ho_reversed := (i = 0x2b)\<rparr> else out)"
proof -
  note r = ext_reads [OF assms(1,3), of post, unfolded fst_conv snd_conv]
  have c: "(pos < 5 + n - 4) = True" "(pos + 4 + length b > 5 + n) = False" "(pos + 2 = 83) = (pos = 81)"
    "(i \<noteq> 0x33 \<and> i \<noteq> 0x2b) = False" "(length b \<noteq> (if i = 0x33 then 36 else 2)) = False"
    "pos + 2 + 2 + length b = pos + 4 + length b"
    using assms(2,4) by auto
  show ?thesis
    unfolding extension_loop.simps [of "pre @ ext_enc (i, b) @ post" n pos] r bind.bind_lunit prod.case Let_def
      c if_True if_False ..
qed

lemma extensions_read:
  assumes "length pre = 81" "length ks = 36" "length sv = 2"
  shows "extension_loop (pre @ (if reversed then ext_enc (0x2b, sv) @ ext_enc (0x33, ks) else ext_enc (0x33, ks) @ ext_enc (0x2b, sv)) @ post)
      122 81 0 out = Some (Some (127, 0x33 + 0x2b), out\<lparr>ho_reversed := reversed\<rparr>)"
proof -
  have two: "extension_loop (pre @ ext_enc e @ ext_enc f @ post) 122 81 0 out
      = Some (Some (127, fst e + fst f), out\<lparr>ho_reversed := (fst e = 0x2b)\<rparr>)"
    if "e = (0x33, ks) \<and> f = (0x2b, sv) \<or> e = (0x2b, sv) \<and> f = (0x33, ks)" for e f
  proof -
    have len: "81 + 4 + length (snd e) \<noteq> 81" "81 + 4 + length (snd e) + 4 + length (snd f) = 127"
      "length (pre @ ext_enc e) = 81 + 4 + length (snd e)" using that assms by auto
    have ok: "ext_ok (fst e, snd e)" "ext_ok (fst f, snd f)" using that assms by (auto simp: ext_ok_def)
    have "extension_loop (pre @ ext_enc e @ ext_enc f @ post) 122 81 0 out
        = extension_loop (pre @ ext_enc e @ ext_enc f @ post) 122 (81 + 4 + length (snd e)) (0 + fst e) (out\<lparr>ho_reversed := (fst e = 0x2b)\<rparr>)"
      using extension_step [OF ok(1) _ assms(1), of 122 "ext_enc f @ post" 0 out] that assms by auto
    also have "\<dots> = extension_loop (pre @ ext_enc e @ ext_enc f @ post) 122 127 (0 + fst e + fst f) (out\<lparr>ho_reversed := (fst e = 0x2b)\<rparr>)"
      using extension_step [OF ok(2) _ len(3), of 122 post "0 + fst e" "out\<lparr>ho_reversed := (fst e = 0x2b)\<rparr>"] that assms len(1,2) by auto
    finally show ?thesis by (simp add: extension_loop.simps [of _ 122 127])
  qed
  from two [of "(0x33, ks)" "(0x2b, sv)"] two [of "(0x2b, sv)" "(0x33, ks)"] show ?thesis by simp
qed

lemma EXPECT_at:
  "take n (drop pos r) = x \<Longrightarrow> length x = n \<Longrightarrow> length str = n \<Longrightarrow> pos + n \<le> length r \<Longrightarrow> EXPECT_STR r pos str = Some (x = str)"
  by (auto simp: EXPECT_STR_in)

lemma hello_starts:
  assumes "length random = 32" "length sid = 32" "length ks = 36" "length sv = 2"
  shows "hello_start (server_hello random sid reversed ks sv @ post) = Some (Some (122, 5))"
proof -
  let ?h = "server_hello random sid reversed ks sv"
  have l: "length ?h = 127" using assms by (simp add: server_hello_def)
  have "?h ! 3 = 0" "?h ! 4 = 122" by (simp_all add: server_hello_def be_bytes_numerals)
  then have "tls_read_length (?h @ post) 3 = Some (122, 5)" using l by (simp add: tls_read_length_in nth_append)
  moreover have "EXPECT_STR (?h @ post) 0 [0x16, 0x03, 0x03] = Some True"
    using l by (subst EXPECT_at [where n = 3 and x = "[0x16, 0x03, 0x03]"]) (simp_all add: server_hello_def)
  ultimately show ?thesis using l by (simp add: hello_start_def)
qed

lemma hello_bodies:
  assumes "length random = 32" "length sid = 32" "length ks = 36" "length sv = 2" "random \<noteq> hello_retry_random"
  shows "hello_body (server_hello random sid reversed ks sv @ post) sid 122 = Some True"
proof -
  let ?r = "server_hello random sid reversed ks sv @ post"
  have l: "length ?r \<ge> 127" using assms by (simp add: server_hello_def)
  have p: "take 32 (drop 11 ?r) = random" "take 32 (drop 44 ?r) = sid" "?r ! 43 = 0x20"
    "take 2 (drop 5 ?r) = [0x02, 0x00]" "take 2 (drop 9 ?r) = [0x03, 0x03]" "take 1 (drop 43 ?r) = [0x20]"
    "take 3 (drop 76 ?r) = [0x13, 0x01, 0x00]"
    using assms by (simp_all add: server_hello_def be_bytes_numerals nth_append)
  have "EXPECT_STR ?r 5 [0x02, 0x00] = Some True" "EXPECT_STR ?r 9 [0x03, 0x03] = Some True"
    "EXPECT_STR ?r 43 [0x20] = Some True" "EXPECT_STR ?r 76 [0x13, 0x01, 0x00] = Some True"
    "EXPECT_STR ?r 44 sid = Some True" "EXPECT_STR ?r 11 hello_retry_random = Some False" "rd ?r 43 = Some 0x20"
    using l assms(1,2,5) EXPECT_at [OF p(1)] EXPECT_at [OF p(2)] EXPECT_at [OF p(4)] EXPECT_at [OF p(5)]
      EXPECT_at [OF p(6)] EXPECT_at [OF p(7)] rd_in [of 43 ?r] p(3)
    by (simp_all add: hello_retry_random_def)
  then show ?thesis by (simp add: hello_body_def)
qed

text \<open>A well-behaved TLS 1.3 reply is accepted. A server hello that mirrors the session id and is not a
  retry request, with its two extensions in either order, followed by the dummy cipher change and at least
  one application record, is accepted; the order of the extensions, the number of records and the sizes of
  the first eight are what the server sent.\<close>

lemma tls_reply_accepted:
  assumes "length random = 32" "length sid = 32" "length ks = 36" "length sv = 2" "random \<noteq> hello_retry_random"
    and "bs \<noteq> []" "list_all (\<lambda>b. b \<noteq> [] \<and> length b < 65536) bs" "length tail < 5" "length (ho_sizes out) = 8"
  shows "\<exists>out'. tls_check_server_hello (server_hello random sid reversed ks sv @ change_cipher_spec
        @ concat (map app_record bs) @ tail) sid out = Some (1, out')
    \<and> ho_reversed out' = reversed \<and> ho_count out' = length bs
    \<and> take (length bs) (ho_sizes out') = take 8 (map length bs)"
proof -
  let ?h = "server_hello random sid reversed ks sv" and ?recs = "concat (map app_record bs)"
  let ?r = "?h @ change_cipher_spec @ ?recs @ tail"
  have l: "length ?h = 127" "length (?h @ change_cipher_spec) = 133"
    using assms by (simp_all add: server_hello_def change_cipher_spec_def)
  have "?h ! 79 = 0" "?h ! 80 = 46" using assms by (simp_all add: server_hello_def be_bytes_numerals nth_append)
  then have x: "tls_read_length ?r 79 = Some (46, 81)" using l by (simp add: tls_read_length_in nth_append)
  let ?exts = "if reversed then ext_enc (0x2b, sv) @ ext_enc (0x33, ks) else ext_enc (0x33, ks) @ ext_enc (0x2b, sv)"
  have split: "?r = take 81 ?h @ ?exts @ change_cipher_spec @ ?recs @ tail"
    using assms(1,2) by (simp add: server_hello_def be_bytes_numerals)
  have e: "extension_loop ?r 122 81 0 out = Some (Some (127, 0x33 + 0x2b), out\<lparr>ho_reversed := reversed\<rparr>)"
    unfolding split by (rule extensions_read) (use l assms(3,4) in simp_all)
  have c: "EXPECT_STR ?r 127 [0x14, 0x03, 0x03, 0x00, 0x01, 0x01] = Some True"
    using l by (subst EXPECT_at [where n = 6 and x = "[0x14, 0x03, 0x03, 0x00, 0x01, 0x01]"])
      (simp_all add: change_cipher_spec_def)
  obtain sizes where s: "record_loop ((?h @ change_cipher_spec) @ ?recs @ tail) 133 (out\<lparr>ho_reversed := reversed, ho_count := 0\<rparr>)
      = Some (out\<lparr>ho_reversed := reversed, ho_sizes := sizes, ho_count := length bs\<rparr>)"
      "length sizes = 8" "take 8 sizes = take 8 (map length bs @ drop (length bs) (ho_sizes out))"
    using record_loop_reads [OF assms(8) l(2) assms(7), of "out\<lparr>ho_reversed := reversed, ho_count := 0\<rparr>"] assms(9)
    by (auto simp: MAX_ENCRYPTED_RECORDS_def)
  have "tls_check_server_hello ?r sid out = Some (1, out\<lparr>ho_reversed := reversed, ho_sizes := sizes, ho_count := length bs\<rparr>)"
    unfolding tls_check_server_hello_def hello_starts [OF assms(1-4)]
    using x e c s(1) assms(6) l by (simp add: finish_hello_def hello_bodies [OF assms(1-5)])
  moreover have "take (length bs) sizes = take 8 (map length bs)"
    using s(2,3) by (cases "length bs \<le> 8") simp_all
  ultimately show ?thesis by (intro exI) auto
qed

definition empty_out :: hello_out where
  "empty_out = \<lparr>ho_reversed = True, ho_sizes = replicate 8 0, ho_count = 0\<rparr>"

end
