(* ===== verification/Srv_Ip_Acl.thy ===== *)
theory Srv_Ip_Acl
  imports T3_Libc
begin

unbundle bit_operations_syntax

text \<open>
  The address filter of the server, \<open>server/src/net/net-ip-acl.c\<close>: networks in CIDR notation, the
  block and allow lists with their files, and the networks that may read the statistics. \<open>inet_pton\<close>
  and the file system are parameters.
\<close>

subsection \<open>Data\<close>

text \<open>The tagged union of an address: the family is the constructor.\<close>

datatype ip_addr = V4 u32 | V6 bytes

record ip_acl_rule =
  rule_addr :: ip_addr
  rule_prefix_len :: int

record ip_acl =
  acl_rules :: "ip_acl_rule list"
  acl_capacity :: nat

definition acl_count :: "ip_acl \<Rightarrow> nat" where
  "acl_count acl = length (acl_rules acl)"

record acl_state =
  current_blocklist :: "ip_acl option"
  current_allowlist :: "ip_acl option"
  stats_allowlist :: "ip_acl option"
  blocklist_file :: "bytes option"
  allowlist_file :: "bytes option"

definition ip_acl_set_blocklist_file :: "bytes \<Rightarrow> acl_state \<Rightarrow> acl_state" where
  "ip_acl_set_blocklist_file path st = st\<lparr>blocklist_file := Some path\<rparr>"

definition ip_acl_set_allowlist_file :: "bytes \<Rightarrow> acl_state \<Rightarrow> acl_state" where
  "ip_acl_set_allowlist_file path st = st\<lparr>allowlist_file := Some path\<rparr>"

definition ip_acl_alloc :: ip_acl where
  "ip_acl_alloc = \<lparr>acl_rules = [], acl_capacity = 0\<rparr>"

text \<open>\<open>mem\<close>: the reallocation to that many rules succeeds; \<open>None\<close> is -1.\<close>

definition ip_acl_add_rule :: "(nat \<Rightarrow> bool) \<Rightarrow> ip_acl \<Rightarrow> ip_acl_rule \<Rightarrow> ip_acl option" where
  "ip_acl_add_rule mem acl rule =
     (if acl_count acl \<ge> acl_capacity acl then
        (let new_cap = (if acl_capacity acl \<noteq> 0 then acl_capacity acl * 2 else 16) in
         if \<not> mem new_cap then None
         else Some (acl\<lparr>acl_rules := acl_rules acl @ [rule], acl_capacity := new_cap\<rparr>))
      else Some (acl\<lparr>acl_rules := acl_rules acl @ [rule]\<rparr>))"

subsection \<open>Networks\<close>

definition mask_v4 :: "u32 \<Rightarrow> int \<Rightarrow> u32" where
  "mask_v4 addr prefix_len =
     (if prefix_len \<le> 0 then 0
      else if prefix_len \<ge> 32 then addr
      else addr AND push_bit (nat (32 - prefix_len)) 0xFFFFFFFF)"

text \<open>What is kept of byte \<open>i\<close>, and the loop over the sixteen bytes.\<close>

definition byte_mask :: "int \<Rightarrow> byte" where
  "byte_mask bits = (if bits \<ge> 8 then 0xFF else if bits > 0 then push_bit (nat (8 - bits)) 0xFF else 0)"

definition mask_byte :: "int \<Rightarrow> byte \<Rightarrow> byte" where
  "mask_byte bits b = (if bits \<ge> 8 then b else if bits > 0 then b AND push_bit (nat (8 - bits)) 0xFF else 0)"

fun mask_v6_from :: "nat \<Rightarrow> bytes \<Rightarrow> int \<Rightarrow> bytes" where
  "mask_v6_from i [] prefix_len = []"
| "mask_v6_from i (b # bs) prefix_len = mask_byte (prefix_len - int i * 8) b # mask_v6_from (Suc i) bs prefix_len"

definition mask_v6 :: "bytes \<Rightarrow> int \<Rightarrow> bytes" where
  "mask_v6 addr prefix_len = mask_v6_from 0 addr prefix_len"

text \<open>The address in front of the slash, and the prefix length when there is one: \<open>None\<close> when the number
  is followed by anything but white space.\<close>

definition cidr_parts :: "bytes \<Rightarrow> (bytes \<times> int option) option" where
  "cidr_parts s =
     (case memchr 0x2F s of
        None \<Rightarrow> Some (s, None)
      | Some i \<Rightarrow>
          (let (v, rest) = strtol (drop (Suc i) s) in
           if rest \<noteq> [] \<and> \<not> is_space (hd rest) then None else Some (take i s, Some (long_to_int v))))"

definition ip_acl_parse_cidr :: "inet \<Rightarrow> bytes \<Rightarrow> ip_acl_rule option" where
  "ip_acl_parse_cidr inet s =
     (case cidr_parts s of
        None \<Rightarrow> None
      | Some (text, explicit) \<Rightarrow>
          (case pton4 inet text of
             Some a \<Rightarrow>
               (let p = (case explicit of None \<Rightarrow> 32 | Some p \<Rightarrow> p) in
                if p < 0 \<or> p > 32 then None else Some \<lparr>rule_addr = V4 (mask_v4 a p), rule_prefix_len = p\<rparr>)
           | None \<Rightarrow>
               (case pton6 inet text of
                  Some a \<Rightarrow>
                    (let p = (case explicit of None \<Rightarrow> 128 | Some p \<Rightarrow> p) in
                     if p < 0 \<or> p > 128 then None else Some \<lparr>rule_addr = V6 (mask_v6 a p), rule_prefix_len = p\<rparr>)
                | None \<Rightarrow> None)))"

definition match_v4 :: "ip_acl_rule \<Rightarrow> u32 \<Rightarrow> bool" where
  "match_v4 rule ip =
     (case rule_addr rule of V4 a \<Rightarrow> mask_v4 ip (rule_prefix_len rule) = a | V6 _ \<Rightarrow> False)"

fun match_v6_from :: "nat \<Rightarrow> int \<Rightarrow> bytes \<Rightarrow> bytes \<Rightarrow> bool" where
  "match_v6_from i prefix_len (x # xs) (a # as) =
     (if x AND byte_mask (prefix_len - int i * 8) \<noteq> a then False else match_v6_from (Suc i) prefix_len xs as)"
| "match_v6_from i prefix_len _ _ = True"

definition match_v6 :: "ip_acl_rule \<Rightarrow> bytes \<Rightarrow> bool" where
  "match_v6 rule ipv6 =
     (case rule_addr rule of V6 a \<Rightarrow> match_v6_from 0 (rule_prefix_len rule) ipv6 a | V4 _ \<Rightarrow> False)"

definition acl_contains_v4 :: "ip_acl option \<Rightarrow> u32 \<Rightarrow> bool" where
  "acl_contains_v4 acl ip = (case acl of None \<Rightarrow> False | Some a \<Rightarrow> list_ex (\<lambda>r. match_v4 r ip) (acl_rules a))"

definition acl_contains_v6 :: "ip_acl option \<Rightarrow> bytes \<Rightarrow> bool" where
  "acl_contains_v6 acl ip = (case acl of None \<Rightarrow> False | Some a \<Rightarrow> list_ex (\<lambda>r. match_v6 r ip) (acl_rules a))"

subsection \<open>Decisions\<close>

definition v4mapped_prefix :: bytes where
  "v4mapped_prefix = replicate 10 0 @ [0xFF, 0xFF]"

definition v6_to_v4_mapped :: "bytes \<Rightarrow> u32" where
  "v6_to_v4_mapped ipv6 = (if take 12 ipv6 = v4mapped_prefix then be_word (take 4 (drop 12 ipv6)) else 0)"

definition nonempty :: "ip_acl option \<Rightarrow> bool" where
  "nonempty acl = (case acl of None \<Rightarrow> False | Some a \<Rightarrow> acl_count a > 0)"

definition ip_acl_check_v4 :: "acl_state \<Rightarrow> u32 \<Rightarrow> bool" where
  "ip_acl_check_v4 st ip =
     (if nonempty (current_allowlist st) then acl_contains_v4 (current_allowlist st) ip
      else if nonempty (current_blocklist st) then \<not> acl_contains_v4 (current_blocklist st) ip
      else True)"

definition ip_acl_check_v6 :: "acl_state \<Rightarrow> bytes \<Rightarrow> bool" where
  "ip_acl_check_v6 st ipv6 =
     (let v4 = v6_to_v4_mapped ipv6 in
      if nonempty (current_allowlist st) then
        (if acl_contains_v6 (current_allowlist st) ipv6 then True
         else if v4 \<noteq> 0 \<and> acl_contains_v4 (current_allowlist st) v4 then True else False)
      else if nonempty (current_blocklist st) then
        (if acl_contains_v6 (current_blocklist st) ipv6 then False
         else if v4 \<noteq> 0 \<and> acl_contains_v4 (current_blocklist st) v4 then False else True)
      else True)"

definition ip_acl_check_stats_v4 :: "acl_state \<Rightarrow> u32 \<Rightarrow> bool" where
  "ip_acl_check_stats_v4 st ip = acl_contains_v4 (stats_allowlist st) ip"

subsection \<open>Loading\<close>

definition trim :: "bytes \<Rightarrow> bytes" where
  "trim s = rev (dropWhile is_space (rev (dropWhile is_space s)))"

text \<open>What successive calls of \<open>fgets\<close> with a buffer of 256 bytes deliver: up to and with a newline, and
  at most 255 bytes.\<close>

definition fgets_piece :: "bytes \<Rightarrow> nat" where
  "fgets_piece f = min 255 (case memchr 0x0A f of None \<Rightarrow> length f | Some i \<Rightarrow> Suc i)"

function fgets_lines :: "bytes \<Rightarrow> bytes list" where
  "fgets_lines f = (if f = [] then [] else take (fgets_piece f) f # fgets_lines (drop (fgets_piece f) f))"
  by auto
termination
  by (relation "measure length") (auto simp: fgets_piece_def split: option.splits)

declare fgets_lines.simps [simp del]

text \<open>\<open>None\<close>: out of memory.\<close>

fun load_lines :: "inet \<Rightarrow> (nat \<Rightarrow> bool) \<Rightarrow> ip_acl \<Rightarrow> bytes list \<Rightarrow> ip_acl option" where
  "load_lines inet mem acl [] = Some acl"
| "load_lines inet mem acl (line # ls) =
     (let s = trim (cstr line) in
      if s = [] \<or> hd s = 0x23 then load_lines inet mem acl ls
      else (case ip_acl_parse_cidr inet s of
              None \<Rightarrow> load_lines inet mem acl ls
            | Some rule \<Rightarrow>
                (case ip_acl_add_rule mem acl rule of
                   None \<Rightarrow> None
                 | Some acl' \<Rightarrow> load_lines inet mem acl' ls)))"

text \<open>\<open>fs\<close>: the contents of the files that can be opened; \<open>mem 0\<close>: the list itself is allocated.\<close>

definition ip_acl_load :: "inet \<Rightarrow> (nat \<Rightarrow> bool) \<Rightarrow> (bytes \<Rightarrow> bytes option) \<Rightarrow> bytes \<Rightarrow> ip_acl option" where
  "ip_acl_load inet mem fs filename =
     (case fs filename of
        None \<Rightarrow> None
      | Some f \<Rightarrow> if \<not> mem 0 then None else load_lines inet mem ip_acl_alloc (fgets_lines f))"

definition reload_list :: "ip_acl option \<Rightarrow> ip_acl option \<Rightarrow> ip_acl option option" where
  "reload_list new_list old_list =
     (case new_list of
        Some a \<Rightarrow> Some (Some a)
      | None \<Rightarrow> (case old_list of None \<Rightarrow> None | Some a \<Rightarrow> Some (Some a)))"

definition ip_acl_reload :: "inet \<Rightarrow> (nat \<Rightarrow> bool) \<Rightarrow> (bytes \<Rightarrow> bytes option) \<Rightarrow> acl_state \<Rightarrow> int \<times> acl_state" where
  "ip_acl_reload inet mem fs st =
     (if blocklist_file st = None \<and> allowlist_file st = None then (0, st)
      else
        (case (case blocklist_file st of
                 None \<Rightarrow> Some st
               | Some bf \<Rightarrow> map_option (\<lambda>l. st\<lparr>current_blocklist := l\<rparr>)
                              (reload_list (ip_acl_load inet mem fs bf) (current_blocklist st))) of
           None \<Rightarrow> (- 1, st)
         | Some st1 \<Rightarrow>
             (case (case allowlist_file st1 of
                      None \<Rightarrow> Some st1
                    | Some af \<Rightarrow> map_option (\<lambda>l. st1\<lparr>current_allowlist := l\<rparr>)
                                   (reload_list (ip_acl_load inet mem fs af) (current_allowlist st1))) of
                None \<Rightarrow> (- 1, st1)
              | Some st2 \<Rightarrow> (0, st2))))"

definition ip_acl_blocklist_count :: "acl_state \<Rightarrow> nat" where
  "ip_acl_blocklist_count st = (case current_blocklist st of None \<Rightarrow> 0 | Some a \<Rightarrow> acl_count a)"

definition ip_acl_allowlist_count :: "acl_state \<Rightarrow> nat" where
  "ip_acl_allowlist_count st = (case current_allowlist st of None \<Rightarrow> 0 | Some a \<Rightarrow> acl_count a)"

definition ip_acl_add_stats_net :: "inet \<Rightarrow> (nat \<Rightarrow> bool) \<Rightarrow> bytes \<Rightarrow> acl_state \<Rightarrow> int \<times> acl_state" where
  "ip_acl_add_stats_net inet mem cidr st =
     (if cidr = [] \<or> length cidr \<ge> 256 then (- 1, st)
      else
        (let s = trim cidr in
         if s = [] then (- 1, st)
         else
           (case ip_acl_parse_cidr inet s of
              None \<Rightarrow> (- 1, st)
            | Some rule \<Rightarrow>
                if stats_allowlist st = None \<and> \<not> mem 0 then (- 1, st)
                else
                  (let acl = (case stats_allowlist st of None \<Rightarrow> ip_acl_alloc | Some a \<Rightarrow> a) in
                   case ip_acl_add_rule mem acl rule of
                     None \<Rightarrow> (- 1, st\<lparr>stats_allowlist := Some acl\<rparr>)
                   | Some acl' \<Rightarrow> (0, st\<lparr>stats_allowlist := Some acl'\<rparr>)))))"

subsection \<open>Networks as bit prefixes\<close>

definition wbits :: "'a :: len word \<Rightarrow> bool list" where
  "wbits w = map (bit w) (rev [0..<LENGTH('a)])"

fun addr_bits :: "ip_addr \<Rightarrow> bool list" where
  "addr_bits (V4 a) = wbits a"
| "addr_bits (V6 b) = concat (map wbits b)"

fun same_family :: "ip_addr \<Rightarrow> ip_addr \<Rightarrow> bool" where
  "same_family (V4 _) (V4 _) = True" | "same_family (V6 _) (V6 _) = True" | "same_family _ _ = False"

text \<open>The address is in the network: it has the family and the first bits of the network's address.\<close>

definition in_net :: "ip_addr \<times> nat \<Rightarrow> ip_addr \<Rightarrow> bool" where
  "in_net net a \<longleftrightarrow> same_family (fst net) a \<and> take (snd net) (addr_bits (fst net)) = take (snd net) (addr_bits a)"

lemma masked_eq:
  fixes a b :: "'a :: len word"
  assumes "k \<le> LENGTH('a)"
  shows "a AND push_bit (LENGTH('a) - k) (- 1) = b AND push_bit (LENGTH('a) - k) (- 1) \<longleftrightarrow> take k (wbits a) = take k (wbits b)"
proof -
  have "take k (rev [0..<LENGTH('a)]) = rev [LENGTH('a) - k..<LENGTH('a)]"
    by (simp add: take_rev)
  then have "take k (wbits a) = take k (wbits b) \<longleftrightarrow> (\<forall>i. LENGTH('a) - k \<le> i \<and> i < LENGTH('a) \<longrightarrow> bit a i = bit b i)"
    by (auto simp: wbits_def take_map)
  also have "\<dots> \<longleftrightarrow> a AND push_bit (LENGTH('a) - k) (- 1) = b AND push_bit (LENGTH('a) - k) (- 1)"
    by (auto simp: bit_eq_iff bit_and_iff bit_push_bit_iff bit_simps dest: bit_imp_le_length)
  finally show ?thesis ..
qed

lemma shifted_out: "push_bit LENGTH('a) (w :: 'a :: len word) = 0"
  by (rule bit_eqI) (simp add: bit_push_bit_iff)

lemma mask_v4_eq:
  assumes "n \<le> 32"
  shows "mask_v4 a (int n) = a AND push_bit (32 - n) (- 1)"
proof -
  have ones: "(0xFFFFFFFF :: u32) = - 1" by simp
  have out: "push_bit 32 (- 1 :: u32) = 0" using shifted_out [of "- 1 :: u32"] by (simp only: len_num1 len_bit0) simp
  consider "n = 0" | "n = 32" | "0 < n" "n < 32" using assms by linarith
  then show ?thesis
  proof cases
    case 1
    then show ?thesis unfolding 1 diff_zero out by (simp add: mask_v4_def)
  next
    case 3
    then have "(int n \<le> 0) = False" "(int n \<ge> 32) = False" "nat (32 - int n) = 32 - n" by simp_all
    then show ?thesis unfolding mask_v4_def ones by (simp only: if_False)
  qed (simp add: mask_v4_def)
qed

lemma match_v4_net:
  assumes "n \<le> 32"
  shows "mask_v4 ip (int n) = mask_v4 a (int n) \<longleftrightarrow> take n (wbits a) = take n (wbits ip)"
  using masked_eq [of n ip a] assms by (auto simp: mask_v4_eq)

lemma byte_mask_eq:
  "byte_mask bits = push_bit (8 - nat (min 8 bits)) (- 1)" "mask_byte bits b = b AND byte_mask bits"
proof -
  have ones: "(0xFF :: byte) = - 1" by simp
  have out: "push_bit 8 (- 1 :: byte) = 0" using shifted_out [of "- 1 :: byte"] by (simp only: len_num1 len_bit0) simp
  show "mask_byte bits b = b AND byte_mask bits" unfolding mask_byte_def byte_mask_def ones by simp
  consider "bits \<le> 0" | "bits \<ge> 8" | "0 < bits" "bits < 8" by linarith
  then show "byte_mask bits = push_bit (8 - nat (min 8 bits)) (- 1)"
  proof cases
    case 1
    then have "nat (min 8 bits) = 0" by simp
    then show ?thesis using 1 unfolding diff_zero \<open>nat (min 8 bits) = 0\<close> out by (simp add: byte_mask_def)
  next
    case 3
    then have "(bits \<ge> 8) = False" "(bits > 0) = True" "nat (8 - bits) = 8 - nat (min 8 bits)" by auto
    then show ?thesis unfolding byte_mask_def ones by (simp only: if_False if_True)
  qed (simp add: byte_mask_def)
qed

lemma byte_match:
  "x AND byte_mask bits = mask_byte bits a \<longleftrightarrow> take (nat bits) (wbits a) = take (nat bits) (wbits x)"
proof -
  have "take (nat bits) (wbits y) = take (nat (min 8 bits)) (wbits y)" for y :: byte
    by (cases "bits \<le> 8") (simp_all add: wbits_def)
  moreover have "nat (min 8 bits) \<le> 8" by simp
  ultimately show ?thesis
    using masked_eq [of "nat (min 8 bits)" x a] unfolding byte_mask_eq by auto
qed

lemma length_wbits_byte [simp]: "length (wbits (b :: byte)) = 8"
  by (simp add: wbits_def)

lemma match_v6_net:
  "length xs = length as \<Longrightarrow>
   match_v6_from i p xs (mask_v6_from i as p)
     \<longleftrightarrow> take (nat (p - int i * 8)) (concat (map wbits as)) = take (nat (p - int i * 8)) (concat (map wbits xs))"
proof (induction xs as arbitrary: i rule: list_induct2)
  case (Cons x xs a as)
  have "nat (p - int (Suc i) * 8) = nat (p - int i * 8) - 8" by simp
  with Cons.IH [of "Suc i"] show ?case by (simp add: byte_match)
qed simp

subsection \<open>From the files to the decision\<close>

text \<open>The network a text denotes, and those of a file: one a line, without blank lines, comments and what
  does not parse.\<close>

definition net_of :: "inet \<Rightarrow> bytes \<Rightarrow> (ip_addr \<times> nat) option" where
  "net_of inet s =
     do {
       (text, explicit) \<leftarrow> cidr_parts s;
       (a, w) \<leftarrow> (case pton4 inet text of Some a \<Rightarrow> Some (V4 a, 32) | None \<Rightarrow> map_option (\<lambda>b. (V6 b, 128)) (pton6 inet text));
       (let p = (case explicit of None \<Rightarrow> int w | Some p \<Rightarrow> p) in
        if 0 \<le> p \<and> p \<le> int w then Some (a, nat p) else None)
     }"

definition line_net :: "inet \<Rightarrow> bytes \<Rightarrow> (ip_addr \<times> nat) option" where
  "line_net inet line =
     (let s = trim (cstr line) in if s = [] \<or> hd s = 0x23 then None else net_of inet s)"

definition file_nets :: "inet \<Rightarrow> bytes \<Rightarrow> (ip_addr \<times> nat) list" where
  "file_nets inet f = List.map_filter (line_net inet) (fgets_lines f)"

fun net_rule :: "ip_addr \<times> nat \<Rightarrow> ip_acl_rule" where
  "net_rule (V4 a, p) = \<lparr>rule_addr = V4 (mask_v4 a (int p)), rule_prefix_len = int p\<rparr>"
| "net_rule (V6 b, p) = \<lparr>rule_addr = V6 (mask_v6 b (int p)), rule_prefix_len = int p\<rparr>"

fun net_wf :: "ip_addr \<times> nat \<Rightarrow> bool" where
  "net_wf (V4 a, p) \<longleftrightarrow> p \<le> 32"
| "net_wf (V6 b, p) \<longleftrightarrow> p \<le> 128 \<and> length b = 16"

lemma parse_cidr_net: "ip_acl_parse_cidr inet s = map_option net_rule (net_of inet s)"
  by (auto simp: ip_acl_parse_cidr_def net_of_def Let_def split: option.splits)

text \<open>\<open>inet_pton\<close> writes an IPv6 address of sixteen bytes.\<close>

definition inet_ok :: "inet \<Rightarrow> bool" where
  "inet_ok inet \<longleftrightarrow> (\<forall>s b. pton6 inet s = Some b \<longrightarrow> length b = 16)"

lemma net_of_wf: "inet_ok inet \<Longrightarrow> net_of inet s = Some n \<Longrightarrow> net_wf n"
  by (auto simp: net_of_def inet_ok_def Let_def Option.bind_eq_Some_conv split: option.splits if_splits)

lemma match_v4_rule: "net_wf n \<Longrightarrow> match_v4 (net_rule n) ip \<longleftrightarrow> in_net n (V4 ip)"
  by (cases n rule: net_rule.cases) (simp_all add: match_v4_def in_net_def match_v4_net)

lemma match_v6_rule: "net_wf n \<Longrightarrow> length ip = 16 \<Longrightarrow> match_v6 (net_rule n) ip \<longleftrightarrow> in_net n (V6 ip)"
  using match_v6_net [of ip _ 0]
  by (cases n rule: net_rule.cases) (simp_all add: match_v6_def in_net_def mask_v6_def)

lemma add_rule_ok:
  "\<forall>n. mem n \<Longrightarrow> \<exists>acl1. ip_acl_add_rule mem acl r = Some acl1 \<and> acl_rules acl1 = acl_rules acl @ [r]"
  by (cases "acl_capacity acl \<le> acl_count acl") (simp_all add: ip_acl_add_rule_def Let_def)

lemma load_lines_nets:
  assumes "\<forall>n. mem n"
  shows "\<exists>acl'. load_lines inet mem acl ls = Some acl'
    \<and> acl_rules acl' = acl_rules acl @ map net_rule (List.map_filter (line_net inet) ls)"
proof (induction ls arbitrary: acl)
  case (Cons line ls)
  show ?case
  proof (cases "line_net inet line")
    case None
    then have "load_lines inet mem acl (line # ls) = load_lines inet mem acl ls"
      by (auto simp: line_net_def Let_def parse_cidr_net split: if_splits)
    with None Cons.IH [of acl] show ?thesis by (simp add: map_filter_simps)
  next
    case (Some n)
    obtain acl1 where a: "ip_acl_add_rule mem acl (net_rule n) = Some acl1" "acl_rules acl1 = acl_rules acl @ [net_rule n]"
      using add_rule_ok [OF assms] by blast
    then have "load_lines inet mem acl (line # ls) = load_lines inet mem acl1 ls"
      using Some by (auto simp: line_net_def Let_def parse_cidr_net split: if_splits)
    with Some a(2) Cons.IH [of acl1] show ?thesis by (simp add: map_filter_simps)
  qed
qed (simp add: map_filter_simps)

lemma file_nets_wf: "inet_ok inet \<Longrightarrow> n \<in> set (file_nets inet f) \<Longrightarrow> net_wf n"
  by (auto simp: file_nets_def List.map_filter_def line_net_def Let_def split: if_splits intro: net_of_wf)

definition acl_of :: "(ip_addr \<times> nat) list \<Rightarrow> ip_acl option \<Rightarrow> bool" where
  "acl_of nets acl \<longleftrightarrow> list_all net_wf nets \<and> (\<exists>a. acl = Some a \<and> acl_rules a = map net_rule nets)"

lemma ip_acl_load_nets:
  assumes "\<forall>n. mem n" "inet_ok inet" "fs fname = Some f"
  shows "acl_of (file_nets inet f) (ip_acl_load inet mem fs fname)"
proof -
  from load_lines_nets [OF assms(1), of inet ip_acl_alloc "fgets_lines f"] obtain a where
    a: "load_lines inet mem ip_acl_alloc (fgets_lines f) = Some a" "acl_rules a = map net_rule (file_nets inet f)"
    by (auto simp: ip_acl_alloc_def file_nets_def)
  have "list_all net_wf (file_nets inet f)" using file_nets_wf [OF assms(2)] by (simp add: list_all_iff)
  with a assms(1,3) show ?thesis by (simp add: acl_of_def ip_acl_load_def)
qed

text \<open>The forms an address is looked up under: an IPv4-mapped IPv6 address also counts as the IPv4 address,
  unless that is 0.0.0.0.\<close>

fun forms :: "ip_addr \<Rightarrow> ip_addr list" where
  "forms (V4 a) = [V4 a]"
| "forms (V6 b) = V6 b # (if take 12 b = v4mapped_prefix \<and> be_nat (drop 12 b) \<noteq> 0 then [V4 (word_of_nat (be_nat (drop 12 b)))] else [])"

definition in_nets :: "(ip_addr \<times> nat) list \<Rightarrow> ip_addr \<Rightarrow> bool" where
  "in_nets nets a \<longleftrightarrow> list_ex (\<lambda>n. list_ex (in_net n) (forms a)) nets"

definition admitted :: "(ip_addr \<times> nat) list \<Rightarrow> (ip_addr \<times> nat) list \<Rightarrow> ip_addr \<Rightarrow> bool" where
  "admitted allow block a \<longleftrightarrow> (if allow \<noteq> [] then in_nets allow a else \<not> in_nets block a)"

lemma acl_of_facts:
  assumes "acl_of nets acl"
  shows "nonempty acl \<longleftrightarrow> nets \<noteq> []" "acl_contains_v4 acl ip \<longleftrightarrow> in_nets nets (V4 ip)"
    "length b = 16 \<Longrightarrow> acl_contains_v6 acl b \<longleftrightarrow> list_ex (\<lambda>n. in_net n (V6 b)) nets"
  using assms
  by (auto simp: acl_of_def nonempty_def acl_count_def acl_contains_v4_def acl_contains_v6_def in_nets_def
      list_ex_iff list_all_iff match_v4_rule match_v6_rule)

lemma mapped_word:
  assumes "length b = 16"
  shows "v6_to_v4_mapped b = (if take 12 b = v4mapped_prefix then word_of_nat (be_nat (drop 12 b)) else 0)"
    "(word_of_nat (be_nat (drop 12 b)) :: u32) = 0 \<longleftrightarrow> be_nat (drop 12 b) = 0"
proof -
  show "v6_to_v4_mapped b = (if take 12 b = v4mapped_prefix then word_of_nat (be_nat (drop 12 b)) else 0)"
    using assms by (simp add: v6_to_v4_mapped_def be_word_eq)
  have "be_nat (drop 12 b) < 2 ^ 32" using be_nat_less [of "drop 12 b"] assms by simp
  then show "(word_of_nat (be_nat (drop 12 b)) :: u32) = 0 \<longleftrightarrow> be_nat (drop 12 b) = 0"
    by (auto simp: word_of_nat_eq_0_iff dest: nat_dvd_not_less [rotated])
qed

lemma contains_forms:
  assumes "acl_of nets acl" "length b = 16"
  shows "acl_contains_v6 acl b \<or> v6_to_v4_mapped b \<noteq> 0 \<and> acl_contains_v4 acl (v6_to_v4_mapped b) \<longleftrightarrow> in_nets nets (V6 b)"
  using acl_of_facts [OF assms(1)] mapped_word [OF assms(2)] assms(2)
  by (auto simp: in_nets_def list_ex_iff)

text \<open>C24: the filter decides by the files. After a successful load of both lists a client address is
  admitted exactly when it is in one of the networks of the allow file, or, if that file has no network,
  in none of the block file's, where being in a network means to share its leading bits, and an
  IPv4-mapped address other than 0.0.0.0 also counts as the IPv4 address.\<close>

theorem acl_decides:
  assumes "\<forall>n. mem n" "inet_ok inet"
    and "blocklist_file st = Some bf" "fs bf = Some block" "allowlist_file st = Some af" "fs af = Some allow"
  shows "\<exists>st'. ip_acl_reload inet mem fs st = (0, st')
    \<and> (\<forall>ip. ip_acl_check_v4 st' ip \<longleftrightarrow> admitted (file_nets inet allow) (file_nets inet block) (V4 ip))
    \<and> (\<forall>b. length b = 16 \<longrightarrow> (ip_acl_check_v6 st' b \<longleftrightarrow> admitted (file_nets inet allow) (file_nets inet block) (V6 b)))"
proof -
  let ?b = "ip_acl_load inet mem fs bf" and ?a = "ip_acl_load inet mem fs af"
  let ?st = "st\<lparr>current_blocklist := ?b, current_allowlist := ?a\<rparr>"
  have b: "acl_of (file_nets inet block) ?b" and a: "acl_of (file_nets inet allow) ?a"
    using ip_acl_load_nets [OF assms(1,2)] assms(4,6) by blast+
  then have "?b \<noteq> None" "?a \<noteq> None" by (auto simp: acl_of_def)
  then have "ip_acl_reload inet mem fs st = (0, ?st)"
    using assms(3,5) by (auto simp: ip_acl_reload_def reload_list_def)
  moreover have "ip_acl_check_v4 ?st ip \<longleftrightarrow> admitted (file_nets inet allow) (file_nets inet block) (V4 ip)" for ip
    using acl_of_facts [OF a] acl_of_facts [OF b] by (auto simp: ip_acl_check_v4_def admitted_def in_nets_def)
  moreover have "ip_acl_check_v6 ?st x \<longleftrightarrow> admitted (file_nets inet allow) (file_nets inet block) (V6 x)"
    if "length x = 16" for x
    using acl_of_facts(1) [OF a] acl_of_facts(1) [OF b] contains_forms [OF a that] contains_forms [OF b that]
    by (auto simp: ip_acl_check_v6_def admitted_def Let_def in_nets_def)
  ultimately show ?thesis by blast
qed

text \<open>An allow list with the network 10.0.0.0/8 and an empty block list.\<close>

definition example_inet :: inet where
  "example_inet = \<lparr>pton4 = (\<lambda>s. if s = ascii ''10.0.0.0'' then Some 0x0A000000 else None), pton6 = (\<lambda>_. None)\<rparr>"

definition example_acl :: acl_state where
  "example_acl = \<lparr>current_blocklist = None, current_allowlist = None, stats_allowlist = None,
     blocklist_file = Some (ascii ''b''), allowlist_file = Some (ascii ''a'')\<rparr>"

definition example_fs :: "bytes \<Rightarrow> bytes option" where
  "example_fs p = (if p = ascii ''a'' then Some (ascii ''10.0.0.0/8'' @ [0x0A]) else Some [])"

theorem acl_decides_witness:
  "\<exists>st'. ip_acl_reload example_inet (\<lambda>_. True) example_fs example_acl = (0, st')
    \<and> ip_acl_check_v4 st' 0x0A010203 \<and> \<not> ip_acl_check_v4 st' 0x0B010203"
proof -
  have "example_fs (ascii ''b'') = Some []" "example_fs (ascii ''a'') = Some (ascii ''10.0.0.0/8'' @ [0x0A])"
    by (simp_all add: example_fs_def)
  moreover have "inet_ok example_inet" by (simp add: inet_ok_def example_inet_def)
  ultimately obtain st' where st': "ip_acl_reload example_inet (\<lambda>_. True) example_fs example_acl = (0, st')"
    "\<And>ip. ip_acl_check_v4 st' ip \<longleftrightarrow>
      admitted (file_nets example_inet (ascii ''10.0.0.0/8'' @ [0x0A])) (file_nets example_inet []) (V4 ip)"
    using acl_decides [of "\<lambda>_. True" example_inet example_acl "ascii ''b''" example_fs "[]" "ascii ''a''"
        "ascii ''10.0.0.0/8'' @ [0x0A]"] by (auto simp: example_acl_def)
  have "admitted (file_nets example_inet (ascii ''10.0.0.0/8'' @ [0x0A])) (file_nets example_inet []) (V4 0x0A010203)
    \<and> \<not> admitted (file_nets example_inet (ascii ''10.0.0.0/8'' @ [0x0A])) (file_nets example_inet []) (V4 0x0B010203)"
    by code_simp
  with st' show ?thesis by blast
qed

end
