(* ===== verification/T3_Table.thy ===== *)
theory T3_Table
  imports T3_Prelude "HOL-Library.Multiset"
begin

text \<open>
  Fixed arrays that are searched from the front: the position of the first match, what an update at
  that position does to counts over the array, and the decimal text of a number, which the tables of
  the server use for their default labels.
\<close>

fun first_index :: "('a \<Rightarrow> bool) \<Rightarrow> 'a list \<Rightarrow> nat option" where
  "first_index p [] = None"
| "first_index p (x # xs) = (if p x then Some 0 else map_option Suc (first_index p xs))"

lemma first_index_SomeD:
  "first_index p xs = Some i \<Longrightarrow> i < length xs \<and> p (xs ! i) \<and> (\<forall>j<i. \<not> p (xs ! j))"
proof (induction xs arbitrary: i)
  case (Cons x xs)
  then show ?case by (auto split: if_splits simp: less_Suc_eq_0_disj nth_Cons')
qed simp

lemma first_index_None_iff: "first_index p xs = None \<longleftrightarrow> (\<forall>x\<in>set xs. \<not> p x)"
  by (induction xs) auto

lemma first_index_cong [fundef_cong]:
  "xs = ys \<Longrightarrow> (\<And>y. y \<in> set ys \<Longrightarrow> p y = q y) \<Longrightarrow> first_index p xs = first_index q ys"
  by (induction xs arbitrary: ys) auto

lemma first_indexE:
  assumes "first_index p xs = Some i"
  obtains "i < length xs" "p (xs ! i)" "\<And>j. j < i \<Longrightarrow> \<not> p (xs ! j)"
  using first_index_SomeD [OF assms] by blast

lemma first_index_update:
  "p y = p (xs ! i) \<Longrightarrow> first_index p (xs[i := y]) = first_index p xs"
proof (induction xs arbitrary: i)
  case (Cons x xs)
  then show ?case by (cases i) auto
qed simp

text \<open>The first match at or behind a position.\<close>

definition first_index_from :: "nat \<Rightarrow> ('a \<Rightarrow> bool) \<Rightarrow> 'a list \<Rightarrow> nat option" where
  "first_index_from n p xs = map_option (\<lambda>i. i + n) (first_index p (drop n xs))"

lemma first_index_from_SomeE:
  assumes "first_index_from n p xs = Some i"
  obtains "n \<le> i" "i < length xs" "p (xs ! i)"
  using assms by (auto simp: first_index_from_def add.commute dest!: first_index_SomeD)

lemma first_index_from_None:
  assumes "first_index_from n p xs = None" "n \<le> i" "i < length xs"
  shows "\<not> p (xs ! i)"
proof -
  have "xs ! i = drop n xs ! (i - n)" "i - n < length (drop n xs)" using assms(2,3) by auto
  then show ?thesis using assms(1) nth_mem [of "i - n" "drop n xs"] by (auto simp: first_index_from_def first_index_None_iff)
qed

text \<open>Sums over an array when one entry changes.\<close>

lemma sum_list_update_int:
  fixes f :: "'a \<Rightarrow> int"
  assumes "i < length xs"
  shows "sum_list (map f (xs[i := y])) = sum_list (map f xs) - f (xs ! i) + f y"
  using assms by (induction xs arbitrary: i) (auto split: nat.split)

lemma sum_mset_update:
  fixes f :: "'a \<Rightarrow> 'b multiset"
  assumes "i < length xs"
  shows "sum_list (map f (xs[i := y])) + f (xs ! i) = sum_list (map f xs) + f y"
  using assms by (induction xs arbitrary: i) (auto split: nat.split)

lemma length_filter_sum: "int (length (filter p xs)) = sum_list (map (\<lambda>x. of_bool (p x)) xs)"
  by (induction xs) auto

lemma length_filter_update:
  assumes "i < length xs"
  shows "int (length (filter p (xs[i := y]))) =
    int (length (filter p xs)) - of_bool (p (xs ! i)) + of_bool (p y)"
  using sum_list_update_int [OF assms, of "\<lambda>x. of_bool (p x)"] by (simp add: length_filter_sum)

text \<open>\<open>%d\<close> of a number that is not negative.\<close>

fun decimal :: "nat \<Rightarrow> bytes" where
  "decimal n = (if n < 10 then [0x30 + of_nat n] else decimal (n div 10) @ [0x30 + of_nat (n mod 10)])"

declare decimal.simps [simp del]

end
