(* ===== verification/Srv_Secrets.thy ===== *)
theory Srv_Secrets
  imports Complex_Main T3_Table
begin

text \<open>
  The secrets a server accepts, from \<open>server/src/net/net-tcp-rpc-ext-server.c\<close>: the slots with their
  limits and counters, the checks every new connection passes, the addresses that are connected to
  a slot and the token bucket that limits the rate of each address. The parallel arrays
  \<open>ext_secret_*\<close> and \<open>per_secret_*\<close> are one list of slot records here; the globals \<open>workers\<close>, \<open>now\<close> and
  \<open>precise_now\<close> are a record of their own. Counters of type \<open>long long\<close> are integers. A \<open>double\<close> is a
  real number, and \<open>rnd\<close> is the rounding of every floating-point result.
\<close>

definition EXT_SECRET_MAX_SLOTS :: nat where "EXT_SECRET_MAX_SLOTS = 32"
definition EXT_SECRET_MAX_ACTIVE :: nat where "EXT_SECRET_MAX_ACTIVE = 16"
definition EXT_SECRET_LABEL_MAX :: nat where "EXT_SECRET_LABEL_MAX = 32"
definition SECRET_MAX_TRACKED_IPS :: nat where "SECRET_MAX_TRACKED_IPS = 256"

datatype slot_state = SLOT_FREE | SLOT_ACTIVE | SLOT_DRAINING

record tracked_ip =
  ti_ip :: u32
  ti_ipv6 :: bytes
  ti_connections :: int
  ti_tokens :: int
  ti_last_refill :: real

text \<open>What the configuration says of a secret.\<close>

record secret_config =
  sc_key :: bytes
  sc_label :: bytes
  sc_limit :: int
  sc_quota :: int
  sc_rate_limit :: int
  sc_max_ips :: int
  sc_expires :: int

text \<open>The counters \<open>per_secret_*\<close>.\<close>

record secret_counters =
  per_secret_connections :: int
  per_secret_connections_created :: int
  per_secret_connections_rejected :: int
  per_secret_bytes_received :: int
  per_secret_bytes_sent :: int
  per_secret_rejected_quota :: int
  per_secret_rejected_ips :: int
  per_secret_rejected_expired :: int
  per_secret_unique_ips :: int
  per_secret_rate_limited :: int
  per_secret_rejected_draining :: int
  per_secret_drain_forced :: int

record secret_slot =
  ext_secret :: secret_config
  ext_secret_state :: slot_state
  ext_secret_drain_started_at :: real
  counters :: secret_counters
  per_secret_ips :: "tracked_ip list"
  per_secret_unique_ip_count :: int

record secret_table =
  slots :: "secret_slot list"
  ext_secret_cnt :: nat
  ext_secret_pinned :: nat
  drain_timeout_secs :: real

record server_globals =
  workers :: int
  now :: int
  precise_now :: real

abbreviation slot_key :: "secret_slot \<Rightarrow> bytes" where
  "slot_key sl \<equiv> sc_key (ext_secret sl)"

abbreviation slot_connections :: "secret_slot \<Rightarrow> int" where
  "slot_connections sl \<equiv> per_secret_connections (counters sl)"

subsection \<open>The zeroed table\<close>

definition zero_ipv6 :: bytes where
  "zero_ipv6 = replicate 16 0"

definition zero_tracked :: tracked_ip where
  "zero_tracked = \<lparr>ti_ip = 0, ti_ipv6 = zero_ipv6, ti_connections = 0, ti_tokens = 0, ti_last_refill = 0\<rparr>"

definition zero_counters :: secret_counters where
  "zero_counters = \<lparr>per_secret_connections = 0, per_secret_connections_created = 0,
     per_secret_connections_rejected = 0, per_secret_bytes_received = 0, per_secret_bytes_sent = 0,
     per_secret_rejected_quota = 0, per_secret_rejected_ips = 0, per_secret_rejected_expired = 0,
     per_secret_unique_ips = 0, per_secret_rate_limited = 0, per_secret_rejected_draining = 0,
     per_secret_drain_forced = 0\<rparr>"

definition zero_config :: secret_config where
  "zero_config = \<lparr>sc_key = replicate 16 0, sc_label = [], sc_limit = 0, sc_quota = 0, sc_rate_limit = 0,
     sc_max_ips = 0, sc_expires = 0\<rparr>"

definition zero_slot :: secret_slot where
  "zero_slot = \<lparr>ext_secret = zero_config, ext_secret_state = SLOT_FREE, ext_secret_drain_started_at = 0,
     counters = zero_counters, per_secret_ips = replicate SECRET_MAX_TRACKED_IPS zero_tracked,
     per_secret_unique_ip_count = 0\<rparr>"

definition boot_table :: secret_table where
  "boot_table = \<lparr>slots = replicate EXT_SECRET_MAX_SLOTS zero_slot, ext_secret_cnt = 0,
     ext_secret_pinned = 0, drain_timeout_secs = 300\<rparr>"

subsection \<open>Secrets of the command line\<close>

text \<open>The label kept in a slot: the configured one, cut to the field, or a default.\<close>

definition slot_label :: "nat \<Rightarrow> bytes \<Rightarrow> bytes" where
  "slot_label idx label =
     take EXT_SECRET_LABEL_MAX (if label \<noteq> [] then label else ascii ''secret_'' @ decimal idx)"

definition tcp_rpcs_ip_track_clear_slot :: "secret_slot \<Rightarrow> secret_slot" where
  "tcp_rpcs_ip_track_clear_slot sl =
     sl\<lparr>per_secret_ips := replicate SECRET_MAX_TRACKED_IPS zero_tracked, per_secret_unique_ip_count := 0\<rparr>"

text \<open>\<open>None\<close>: the assertion fails.\<close>

definition tcp_rpcs_set_ext_secret :: "secret_config \<Rightarrow> secret_table \<Rightarrow> secret_table option" where
  "tcp_rpcs_set_ext_secret c t =
     (let idx = ext_secret_cnt t in
      if idx < EXT_SECRET_MAX_ACTIVE
      then Some (t\<lparr>ext_secret_cnt := idx + 1,
                   slots := (slots t)[idx := tcp_rpcs_ip_track_clear_slot ((slots t ! idx)\<lparr>
                     ext_secret := c\<lparr>sc_label := slot_label idx (sc_label c)\<rparr>,
                     ext_secret_state := SLOT_ACTIVE, ext_secret_drain_started_at := 0\<rparr>)]\<rparr>)
      else None)"

definition tcp_rpcs_pin_ext_secrets :: "secret_table \<Rightarrow> secret_table" where
  "tcp_rpcs_pin_ext_secrets t = t\<lparr>ext_secret_pinned := ext_secret_cnt t\<rparr>"

text \<open>The getters of a configured value, which assert that the index is below the count.\<close>

definition tcp_rpcs_get_ext_secret :: "(secret_config \<Rightarrow> 'a) \<Rightarrow> int \<Rightarrow> secret_table \<Rightarrow> 'a option" where
  "tcp_rpcs_get_ext_secret field index t =
     (if 0 \<le> index \<and> index < int (ext_secret_cnt t)
      then Some (field (ext_secret (slots t ! nat index))) else None)"

definition tcp_rpcs_get_ext_secret_state :: "int \<Rightarrow> secret_table \<Rightarrow> slot_state" where
  "tcp_rpcs_get_ext_secret_state index t =
     (if index < 0 \<or> index \<ge> int EXT_SECRET_MAX_SLOTS then SLOT_FREE
      else ext_secret_state (slots t ! nat index))"

definition tcp_rpcs_get_ext_secret_drain_started :: "int \<Rightarrow> secret_table \<Rightarrow> real" where
  "tcp_rpcs_get_ext_secret_drain_started index t =
     (if index < 0 \<or> index \<ge> int EXT_SECRET_MAX_SLOTS then 0
      else ext_secret_drain_started_at (slots t ! nat index))"

definition tcp_rpcs_drain_set_timeout :: "real \<Rightarrow> secret_table \<Rightarrow> secret_table" where
  "tcp_rpcs_drain_set_timeout secs t = t\<lparr>drain_timeout_secs := (if secs < 0 then 0 else secs)\<rparr>"

subsection \<open>Limits\<close>

text \<open>The share of a limit that one of several workers enforces. The limit is positive, so that the
  division of C is \<open>div\<close>.\<close>

definition effective :: "server_globals \<Rightarrow> int \<Rightarrow> int" where
  "effective g limit =
     (let eff = (if workers g > 1 then limit div workers g else limit) in if eff < 1 then 1 else eff)"

definition secret_over_limit :: "server_globals \<Rightarrow> secret_slot \<Rightarrow> bool" where
  "secret_over_limit g sl =
     (let limit = sc_limit (ext_secret sl) in
      if limit \<le> 0 then False else slot_connections sl \<ge> effective g limit)"

definition secret_expired :: "server_globals \<Rightarrow> secret_slot \<Rightarrow> bool" where
  "secret_expired g sl = (let e = sc_expires (ext_secret sl) in e > 0 \<and> now g \<ge> e)"

definition secret_over_quota :: "server_globals \<Rightarrow> secret_slot \<Rightarrow> bool" where
  "secret_over_quota g sl =
     (let quota = sc_quota (ext_secret sl) in
      if quota \<le> 0 then False
      else per_secret_bytes_received (counters sl) + per_secret_bytes_sent (counters sl) \<ge> effective g quota)"

subsection \<open>Connected addresses\<close>

text \<open>The test in every search of the table: a used entry of that address.\<close>

definition tracks :: "u32 \<Rightarrow> bytes \<Rightarrow> tracked_ip \<Rightarrow> bool" where
  "tracks ip ipv6 e \<longleftrightarrow>
     ti_connections e > 0 \<and>
     (if ip \<noteq> 0 then ti_ip e = ip
      else ti_ip e = 0 \<and> ti_ipv6 e \<noteq> zero_ipv6 \<and> ti_ipv6 e = ipv6)"

definition find_tracked_ip :: "u32 \<Rightarrow> bytes \<Rightarrow> secret_slot \<Rightarrow> nat option" where
  "find_tracked_ip ip ipv6 sl = first_index (tracks ip ipv6) (per_secret_ips sl)"

definition ip_over_limit :: "server_globals \<Rightarrow> u32 \<Rightarrow> bytes \<Rightarrow> secret_slot \<Rightarrow> bool" where
  "ip_over_limit g ip ipv6 sl =
     (let limit = sc_max_ips (ext_secret sl) in
      if limit \<le> 0 then False
      else if list_ex (tracks ip ipv6) (per_secret_ips sl) then False
      else per_secret_unique_ip_count sl \<ge> effective g limit)"

text \<open>Addresses are tracked when the slot limits their number or their rate.\<close>

definition tracking :: "secret_slot \<Rightarrow> bool" where
  "tracking sl \<longleftrightarrow> \<not> (sc_max_ips (ext_secret sl) \<le> 0 \<and> sc_rate_limit (ext_secret sl) \<le> 0)"

text \<open>The entry of a new address: the bucket starts with one second of tokens.\<close>

definition new_tracked :: "server_globals \<Rightarrow> int \<Rightarrow> u32 \<Rightarrow> bytes \<Rightarrow> tracked_ip \<Rightarrow> tracked_ip" where
  "new_tracked g rl ip ipv6 e =
     (let e1 = e\<lparr>ti_ip := ip, ti_ipv6 := ipv6, ti_connections := 1\<rparr> in
      if rl > 0 then e1\<lparr>ti_tokens := effective g rl, ti_last_refill := precise_now g\<rparr> else e1)"

definition ip_track_connect :: "server_globals \<Rightarrow> u32 \<Rightarrow> bytes \<Rightarrow> secret_slot \<Rightarrow> secret_slot" where
  "ip_track_connect g ip ipv6 sl =
     (let ips = per_secret_ips sl in
      if \<not> tracking sl then sl
      else case first_index (tracks ip ipv6) ips of
        Some i \<Rightarrow> sl\<lparr>per_secret_ips := ips[i := (ips ! i)\<lparr>ti_connections := ti_connections (ips ! i) + 1\<rparr>]\<rparr>
      | None \<Rightarrow>
          (case first_index (\<lambda>e. ti_connections e \<le> 0) ips of
             Some i \<Rightarrow>
               sl\<lparr>per_secret_ips := ips[i := new_tracked g (sc_rate_limit (ext_secret sl)) ip ipv6 (ips ! i)],
                  per_secret_unique_ip_count := per_secret_unique_ip_count sl + 1,
                  counters := (counters sl)\<lparr>per_secret_unique_ips := per_secret_unique_ips (counters sl) + 1\<rparr>\<rparr>
           | None \<Rightarrow> sl))"

definition ip_track_disconnect_impl :: "u32 \<Rightarrow> bytes \<Rightarrow> secret_slot \<Rightarrow> secret_slot" where
  "ip_track_disconnect_impl ip ipv6 sl =
     (let ips = per_secret_ips sl in
      if \<not> tracking sl then sl
      else case first_index (tracks ip ipv6) ips of
        Some i \<Rightarrow>
          (let e = (ips ! i)\<lparr>ti_connections := ti_connections (ips ! i) - 1\<rparr> in
           if ti_connections e \<le> 0
           then sl\<lparr>per_secret_ips := ips[i := e\<lparr>ti_ip := 0, ti_ipv6 := zero_ipv6, ti_connections := 0\<rparr>],
                   per_secret_unique_ip_count := per_secret_unique_ip_count sl - 1\<rparr>
           else sl\<lparr>per_secret_ips := ips[i := e]\<rparr>)
      | None \<Rightarrow> sl)"

subsection \<open>The checks of a new connection\<close>

datatype reject = Rej_draining | Rej_expired | Rej_limit | Rej_quota | Rej_ips

fun count_reject :: "reject \<Rightarrow> secret_counters \<Rightarrow> secret_counters" where
  "count_reject Rej_draining c = c\<lparr>per_secret_rejected_draining := per_secret_rejected_draining c + 1\<rparr>"
| "count_reject Rej_expired c = c\<lparr>per_secret_rejected_expired := per_secret_rejected_expired c + 1\<rparr>"
| "count_reject Rej_limit c = c\<lparr>per_secret_connections_rejected := per_secret_connections_rejected c + 1\<rparr>"
| "count_reject Rej_quota c = c\<lparr>per_secret_rejected_quota := per_secret_rejected_quota c + 1\<rparr>"
| "count_reject Rej_ips c = c\<lparr>per_secret_rejected_ips := per_secret_rejected_ips c + 1\<rparr>"

definition check_secret :: "server_globals \<Rightarrow> u32 \<Rightarrow> bytes \<Rightarrow> secret_slot \<Rightarrow> reject option" where
  "check_secret g ip ipv6 sl =
     (if ext_secret_state sl = SLOT_DRAINING then Some Rej_draining
      else if secret_expired g sl then Some Rej_expired
      else if secret_over_limit g sl then Some Rej_limit
      else if secret_over_quota g sl then Some Rej_quota
      else if ip_over_limit g ip ipv6 sl then Some Rej_ips
      else None)"

text \<open>The checks with their counters: whether the connection goes on.\<close>

definition secret_gate :: "server_globals \<Rightarrow> u32 \<Rightarrow> bytes \<Rightarrow> secret_slot \<Rightarrow> bool \<times> secret_slot" where
  "secret_gate g ip ipv6 sl =
     (case check_secret g ip ipv6 sl of
        Some r \<Rightarrow> (False, sl\<lparr>counters := count_reject r (counters sl)\<rparr>)
      | None \<Rightarrow> (True, sl))"

definition count_connection :: "server_globals \<Rightarrow> u32 \<Rightarrow> bytes \<Rightarrow> secret_slot \<Rightarrow> secret_slot" where
  "count_connection g ip ipv6 sl =
     (let c = counters sl in
      ip_track_connect g ip ipv6
        (sl\<lparr>counters := c\<lparr>per_secret_connections := per_secret_connections c + 1,
                          per_secret_connections_created := per_secret_connections_created c + 1\<rparr>\<rparr>))"

text \<open>A connection whose header matched a slot: connections inside TLS had their checks during the
  TLS handshake, the others have them now.\<close>

definition accept_connection :: "server_globals \<Rightarrow> bool \<Rightarrow> u32 \<Rightarrow> bytes \<Rightarrow> secret_slot \<Rightarrow> bool \<times> secret_slot" where
  "accept_connection g is_tls ip ipv6 sl =
     (let (ok, sl1) = (if is_tls then (True, sl) else secret_gate g ip ipv6 sl) in
      if ok then (True, count_connection g ip ipv6 sl1) else (False, sl1))"

text \<open>The end of a counted connection.\<close>

definition uncount_connection :: "u32 \<Rightarrow> bytes \<Rightarrow> secret_slot \<Rightarrow> secret_slot" where
  "uncount_connection ip ipv6 sl =
     ip_track_disconnect_impl ip ipv6
       (sl\<lparr>counters := (counters sl)\<lparr>per_secret_connections := slot_connections sl - 1\<rparr>\<rparr>)"

text \<open>The slots a header is compared with, in order: the ones in use below the count.\<close>

definition compact_to_slot :: "secret_table \<Rightarrow> nat list" where
  "compact_to_slot t = filter (\<lambda>s. ext_secret_state (slots t ! s) \<noteq> SLOT_FREE) [0..<ext_secret_cnt t]"

definition compact_secrets :: "secret_table \<Rightarrow> bytes list" where
  "compact_secrets t = map (\<lambda>s. slot_key (slots t ! s)) (compact_to_slot t)"

subsection \<open>Rate of an address\<close>

text \<open>The conversion of a \<open>double\<close> to \<open>long long\<close>, undefined out of range.\<close>

definition double_to_ll :: "real \<Rightarrow> int option" where
  "double_to_ll x =
     (let v = (if x < 0 then \<lceil>x\<rceil> else \<lfloor>x\<rfloor>) in
      if - (2 ^ 63) \<le> v \<and> v < 2 ^ 63 then Some v else None)"

definition ll_checked :: "int \<Rightarrow> int option" where
  "ll_checked v = (if - (2 ^ 63) \<le> v \<and> v < 2 ^ 63 then Some v else None)"

definition rate_bucket_refill ::
  "(real \<Rightarrow> real) \<Rightarrow> server_globals \<Rightarrow> int \<Rightarrow> tracked_ip \<Rightarrow> tracked_ip option" where
  "rate_bucket_refill rnd g eff_rate tip =
     (let elapsed = rnd (precise_now g - ti_last_refill tip) in
      if elapsed > 0 then
        do {
          refill \<leftarrow> double_to_ll (rnd (elapsed * rnd (of_int eff_rate)));
          tokens \<leftarrow> ll_checked (ti_tokens tip + refill);
          Some (tip\<lparr>ti_tokens := (if tokens > eff_rate then eff_rate else tokens),
                    ti_last_refill := precise_now g\<rparr>)
        }
      else Some tip)"

text \<open>What the limiter does to the relaying connection: \<open>C_STOPREAD\<close> on it and on its socket, if there
  is one, and the time of its timer.\<close>

record relay_conn =
  rc_stopread :: bool
  rc_io_stopread :: "bool option"
  rc_timer :: "real option"

definition relay_delay :: "(real \<Rightarrow> real) \<Rightarrow> int \<Rightarrow> int \<Rightarrow> real" where
  "relay_delay rnd tokens eff =
     (let delay = rnd (rnd (of_int (- tokens)) / rnd (of_int eff));
          delay = (if delay < rnd (1 / 1000) then rnd (1 / 1000) else delay) in
      if delay > 5 then 5 else delay)"

definition rate_limit_after_relay ::
  "(real \<Rightarrow> real) \<Rightarrow> server_globals \<Rightarrow> int \<Rightarrow> u32 \<Rightarrow> bytes \<Rightarrow> secret_slot \<times> relay_conn
   \<Rightarrow> (secret_slot \<times> relay_conn) option" where
  "rate_limit_after_relay rnd g n ip ipv6 st =
     (let sl = fst st; c = snd st; rl = sc_rate_limit (ext_secret sl) in
      if rl \<le> 0 then Some st
      else case find_tracked_ip ip ipv6 sl of
        None \<Rightarrow> Some st
      | Some i \<Rightarrow>
          do {
            tip \<leftarrow> rate_bucket_refill rnd g (effective g rl) (per_secret_ips sl ! i);
            tokens \<leftarrow> ll_checked (ti_tokens tip - n);
            let sl1 = sl\<lparr>per_secret_ips := (per_secret_ips sl)[i := tip\<lparr>ti_tokens := tokens\<rparr>]\<rparr>;
            (if tokens < 0
             then Some (sl1\<lparr>counters := (counters sl1)\<lparr>per_secret_rate_limited :=
                                per_secret_rate_limited (counters sl1) + 1\<rparr>\<rparr>,
                        c\<lparr>rc_stopread := True, rc_io_stopread := map_option (\<lambda>_. True) (rc_io_stopread c),
                          rc_timer := Some (rnd (precise_now g + relay_delay rnd tokens (effective g rl)))\<rparr>)
             else Some (sl1, c))
          })"

definition rate_limit_resume :: "relay_conn \<Rightarrow> int \<times> relay_conn" where
  "rate_limit_resume c =
     (if \<not> rc_stopread c then (0, c)
      else (1, c\<lparr>rc_stopread := False, rc_io_stopread := map_option (\<lambda>_. False) (rc_io_stopread c)\<rparr>))"

subsection \<open>The connected addresses as a multiset\<close>

text \<open>A table, and a multiset, after the same events: \<open>True\<close> is a new connection.\<close>

definition book_run :: "('p \<Rightarrow> 'b \<Rightarrow> 'b) \<Rightarrow> ('p \<Rightarrow> 'b \<Rightarrow> 'b) \<Rightarrow> (bool \<times> 'p) list \<Rightarrow> 'b \<Rightarrow> 'b" where
  "book_run join leave = fold (\<lambda>(up, p) b. if up then join p b else leave p b)"

definition members_run :: "('p \<Rightarrow> 'a) \<Rightarrow> (bool \<times> 'p) list \<Rightarrow> 'a multiset \<Rightarrow> 'a multiset" where
  "members_run name = fold (\<lambda>(up, p) m. if up then add_mset (name p) m else m - {#name p#})"

text \<open>What the clients of an address table rely on. A peer goes by its \<open>name\<close>; some peers have none
  the table can hold.\<close>

locale address_book =
  fixes inv :: "'b \<Rightarrow> bool" and members :: "'b \<Rightarrow> 'a multiset" and cap :: nat
    and name :: "'p \<Rightarrow> 'a" and good :: "'p \<Rightarrow> bool"
    and join :: "'p \<Rightarrow> 'b \<Rightarrow> 'b" and leave :: "'p \<Rightarrow> 'b \<Rightarrow> 'b"
  assumes join_adds: "inv b \<Longrightarrow> good p \<Longrightarrow> name p \<in># members b \<or> card (set_mset (members b)) < cap \<Longrightarrow>
      inv (join p b) \<and> members (join p b) = add_mset (name p) (members b)"
    and leave_removes: "inv b \<Longrightarrow> good p \<Longrightarrow>
      inv (leave p b) \<and> members (leave p b) = members b - {#name p#}"
begin

lemma book_run_members:
  assumes "inv b" "\<And>e. e \<in> set es \<Longrightarrow> good (snd e)"
    and "card (set_mset (members b) \<union> (name \<circ> snd) ` set es) \<le> cap"
  shows "inv (book_run join leave es b) \<and> members (book_run join leave es b) = members_run name es (members b)"
  using assms
proof (induction es arbitrary: b)
  case (Cons e es)
  obtain up p where e: "e = (up, p)" by (cases e)
  have g: "good p" using Cons.prems(2) [of e] e by simp
  let ?all = "set_mset (members b) \<union> (name \<circ> snd) ` set (e # es)"
  have room: "name p \<in># members b \<or> card (set_mset (members b)) < cap"
  proof (rule disjCI)
    assume "\<not> card (set_mset (members b)) < cap"
    moreover have "card (set_mset (members b)) \<le> card ?all" by (intro card_mono) auto
    ultimately have "card (set_mset (members b)) = card ?all" using Cons.prems(3) by linarith
    then have "set_mset (members b) = ?all" by (intro card_subset_eq) auto
    then show "name p \<in># members b" using e by auto
  qed
  define b' where "b' = (if up then join p b else leave p b)"
  have b': "inv b'" "members b' = (if up then add_mset (name p) (members b) else members b - {#name p#})"
    using join_adds [OF Cons.prems(1) g room] leave_removes [OF Cons.prems(1) g] by (auto simp: b'_def)
  have "card (set_mset (members b') \<union> (name \<circ> snd) ` set es) \<le> card ?all"
    by (intro card_mono) (auto simp: b'(2) e dest: in_diffD split: if_splits)
  then have "card (set_mset (members b') \<union> (name \<circ> snd) ` set es) \<le> cap" using Cons.prems(3) by linarith
  from Cons.IH [OF b'(1) _ this] Cons.prems(2) b' e show ?case
    by (auto simp: book_run_def members_run_def b'_def)
qed (simp add: book_run_def members_run_def)

end

text \<open>An address as the table knows it: the sixteen bytes count only without an IPv4 address.\<close>

definition client_addr :: "u32 \<times> bytes \<Rightarrow> u32 \<times> bytes" where
  "client_addr p = (if fst p \<noteq> 0 then (fst p, []) else (0, snd p))"

definition known_addr :: "u32 \<times> bytes \<Rightarrow> bool" where
  "known_addr p \<longleftrightarrow> client_addr p \<noteq> (0, zero_ipv6)"

abbreviation entry_addr :: "tracked_ip \<Rightarrow> u32 \<times> bytes" where
  "entry_addr e \<equiv> client_addr (ti_ip e, ti_ipv6 e)"

definition entry_addrs :: "tracked_ip \<Rightarrow> (u32 \<times> bytes) multiset" where
  "entry_addrs e = replicate_mset (nat (ti_connections e)) (entry_addr e)"

definition connected_addrs :: "secret_slot \<Rightarrow> (u32 \<times> bytes) multiset" where
  "connected_addrs sl = sum_list (map entry_addrs (per_secret_ips sl))"

abbreviation entry_used :: "tracked_ip \<Rightarrow> bool" where
  "entry_used e \<equiv> ti_connections e > 0"

text \<open>The invariant of the table: every used entry has an address of its own, and the count is that of
  the used entries.\<close>

definition ips_wf :: "secret_slot \<Rightarrow> bool" where
  "ips_wf sl \<longleftrightarrow>
     (let ips = per_secret_ips sl in
      length ips = SECRET_MAX_TRACKED_IPS \<and>
      (\<forall>i<length ips. \<forall>j<length ips. entry_used (ips ! i) \<and> entry_used (ips ! j) \<and>
         entry_addr (ips ! i) = entry_addr (ips ! j) \<longrightarrow> i = j) \<and>
      (\<forall>e\<in>set ips. entry_used e \<longrightarrow> known_addr (ti_ip e, ti_ipv6 e)) \<and>
      per_secret_unique_ip_count sl = int (length (filter entry_used ips)))"

lemma tracks_iff:
  "tracks ip ipv6 e \<longleftrightarrow> entry_used e \<and> known_addr (ip, ipv6) \<and> entry_addr e = client_addr (ip, ipv6)"
  by (auto simp: tracks_def known_addr_def client_addr_def)

lemma set_connected: "set_mset (connected_addrs sl) = entry_addr ` {e \<in> set (per_secret_ips sl). entry_used e}"
proof -
  have "set_mset (sum_list (map entry_addrs es)) = entry_addr ` {e \<in> set es. entry_used e}" for es
    by (induction es) (auto simp: entry_addrs_def in_replicate_mset)
  then show ?thesis by (simp add: connected_addrs_def)
qed

lemma in_connected:
  "known_addr p \<Longrightarrow> client_addr p \<in># connected_addrs sl \<longleftrightarrow> (\<exists>e\<in>set (per_secret_ips sl). tracks (fst p) (snd p) e)"
  by (force simp: set_connected tracks_iff)

lemma card_connected:
  assumes "ips_wf sl"
  shows "int (card (set_mset (connected_addrs sl))) = per_secret_unique_ip_count sl"
proof -
  let ?ips = "per_secret_ips sl"
  let ?I = "{i. i < length ?ips \<and> entry_used (?ips ! i)}"
  have "set_mset (connected_addrs sl) = (\<lambda>i. entry_addr (?ips ! i)) ` ?I"
    unfolding set_connected by (auto simp: in_set_conv_nth)
  moreover have "inj_on (\<lambda>i. entry_addr (?ips ! i)) ?I"
    using assms by (auto simp: inj_on_def ips_wf_def Let_def)
  ultimately have "card (set_mset (connected_addrs sl)) = card ?I" by (simp add: card_image)
  also have "\<dots> = length (filter entry_used ?ips)" by (simp add: length_filter_conv_card)
  finally show ?thesis using assms by (simp add: ips_wf_def Let_def)
qed

lemma ips_wf_update:
  assumes "ips_wf sl" and i: "i < length (per_secret_ips sl)"
    and e: "entry_used e \<Longrightarrow> known_addr (ti_ip e, ti_ipv6 e)"
    and other: "\<And>j. entry_used e \<Longrightarrow> j < length (per_secret_ips sl) \<Longrightarrow> j \<noteq> i \<Longrightarrow>
      entry_used (per_secret_ips sl ! j) \<Longrightarrow> entry_addr (per_secret_ips sl ! j) \<noteq> entry_addr e"
    and ips': "per_secret_ips sl' = (per_secret_ips sl)[i := e]"
    and cnt: "per_secret_unique_ip_count sl' = per_secret_unique_ip_count sl
       - of_bool (entry_used (per_secret_ips sl ! i)) + of_bool (entry_used e)"
  shows "ips_wf sl'"
proof -
  let ?ips = "per_secret_ips sl"
  have "j = k" if "j < length ?ips" "k < length ?ips" "entry_used (?ips[i := e] ! j)"
    "entry_used (?ips[i := e] ! k)" "entry_addr (?ips[i := e] ! j) = entry_addr (?ips[i := e] ! k)" for j k
    using that assms(1) other [of j] other [of k] i
    by (cases "j = i"; cases "k = i") (auto simp: ips_wf_def Let_def)
  moreover have "\<forall>x\<in>set (?ips[i := e]). entry_used x \<longrightarrow> known_addr (ti_ip x, ti_ipv6 x)"
    using assms(1) e set_update_subset_insert [of ?ips i e] by (auto simp: ips_wf_def Let_def)
  moreover have "per_secret_unique_ip_count sl' = int (length (filter entry_used (?ips[i := e])))"
    using length_filter_update [OF i, of entry_used e] assms(1) cnt by (simp add: ips_wf_def Let_def)
  ultimately show ?thesis using assms(1) ips' by (auto simp: ips_wf_def Let_def)
qed

lemma connected_update:
  assumes "i < length (per_secret_ips sl)" "per_secret_ips sl' = (per_secret_ips sl)[i := e]"
  shows "connected_addrs sl' + entry_addrs (per_secret_ips sl ! i) = connected_addrs sl + entry_addrs e"
  using sum_mset_update [OF assms(1), of entry_addrs e] assms(2) by (simp add: connected_addrs_def)

lemma first_tracks:
  assumes "ips_wf sl" "first_index (tracks ip ipv6) (per_secret_ips sl) = Some i"
  shows "i < length (per_secret_ips sl)" "entry_used (per_secret_ips sl ! i)"
    "entry_addr (per_secret_ips sl ! i) = client_addr (ip, ipv6)"
    "\<And>j. j < length (per_secret_ips sl) \<Longrightarrow> j \<noteq> i \<Longrightarrow> entry_used (per_secret_ips sl ! j) \<Longrightarrow>
       entry_addr (per_secret_ips sl ! j) \<noteq> client_addr (ip, ipv6)"
  using assms(1) first_index_SomeD [OF assms(2)] by (auto simp: tracks_iff ips_wf_def Let_def)

lemma ip_track_connect_cfg [simp]: "ext_secret (ip_track_connect g ip ipv6 sl) = ext_secret sl"
  by (auto simp: ip_track_connect_def Let_def split: option.splits)

lemma ip_track_disconnect_cfg [simp]: "ext_secret (ip_track_disconnect_impl ip ipv6 sl) = ext_secret sl"
  by (auto simp: ip_track_disconnect_impl_def Let_def split: option.splits)

lemma ip_track_connect_adds:
  assumes wf: "ips_wf sl" and tr: "tracking sl" and known: "known_addr (ip, ipv6)"
    and room: "client_addr (ip, ipv6) \<in># connected_addrs sl \<or> card (set_mset (connected_addrs sl)) < SECRET_MAX_TRACKED_IPS"
  shows "ips_wf (ip_track_connect g ip ipv6 sl) \<and>
    connected_addrs (ip_track_connect g ip ipv6 sl) = add_mset (client_addr (ip, ipv6)) (connected_addrs sl)"
proof (cases "first_index (tracks ip ipv6) (per_secret_ips sl)")
  case (Some i)
  note f = first_tracks [OF wf Some]
  let ?old = "per_secret_ips sl ! i"
  let ?e = "?old\<lparr>ti_connections := ti_connections ?old + 1\<rparr>"
  let ?sl = "sl\<lparr>per_secret_ips := (per_secret_ips sl)[i := ?e]\<rparr>"
  have eq: "ip_track_connect g ip ipv6 sl = ?sl" using Some tr by (simp add: ip_track_connect_def Let_def)
  have "nat (ti_connections ?old + 1) = Suc (nat (ti_connections ?old))" using f(2) by simp
  then have "entry_addrs ?e = add_mset (client_addr (ip, ipv6)) (entry_addrs ?old)"
    using f(3) by (simp add: entry_addrs_def)
  moreover have "known_addr (ti_ip ?old, ti_ipv6 ?old)" using known f(3) by (simp add: known_addr_def)
  then have "ips_wf ?sl" using f by (intro ips_wf_update [OF wf f(1), of ?e]) auto
  ultimately show ?thesis using connected_update [OF f(1), of ?sl ?e] eq by simp
next
  case None
  have notin: "client_addr (ip, ipv6) \<notin># connected_addrs sl"
    using None in_connected [OF known, of sl] by (auto simp: first_index_None_iff)
  show ?thesis
  proof (cases "first_index (\<lambda>e. ti_connections e \<le> 0) (per_secret_ips sl)")
    case (Some i)
    let ?old = "per_secret_ips sl ! i"
    let ?e = "new_tracked g (sc_rate_limit (ext_secret sl)) ip ipv6 ?old"
    have i: "i < length (per_secret_ips sl)" "ti_connections ?old \<le> 0" using first_index_SomeD [OF Some] by auto
    have e: "ti_ip ?e = ip" "ti_ipv6 ?e = ipv6" "ti_connections ?e = 1" by (auto simp: new_tracked_def Let_def)
    have ips': "per_secret_ips (ip_track_connect g ip ipv6 sl) = (per_secret_ips sl)[i := ?e]"
      and cnt': "per_secret_unique_ip_count (ip_track_connect g ip ipv6 sl) = per_secret_unique_ip_count sl + 1"
      using None Some tr by (simp_all add: ip_track_connect_def Let_def)
    have "entry_addr (per_secret_ips sl ! j) \<noteq> entry_addr ?e"
      if "j < length (per_secret_ips sl)" "entry_used (per_secret_ips sl ! j)" for j
      using notin that by (force simp: set_connected e)
    then have "ips_wf (ip_track_connect g ip ipv6 sl)"
      using i known e by (intro ips_wf_update [OF wf i(1) _ _ ips']) (auto simp: cnt')
    moreover have "connected_addrs (ip_track_connect g ip ipv6 sl) = add_mset (client_addr (ip, ipv6)) (connected_addrs sl)"
      using connected_update [OF i(1) ips'] i(2) e by (simp add: entry_addrs_def)
    ultimately show ?thesis by blast
  next
    case None
    then have "filter entry_used (per_secret_ips sl) = per_secret_ips sl" by (auto simp: not_le filter_id_conv first_index_None_iff)
    with wf card_connected [OF wf] room notin show ?thesis by (auto simp: ips_wf_def Let_def)
  qed
qed

lemma ip_track_disconnect_removes:
  assumes wf: "ips_wf sl" and tr: "tracking sl" and known: "known_addr (ip, ipv6)"
  shows "ips_wf (ip_track_disconnect_impl ip ipv6 sl) \<and>
    connected_addrs (ip_track_disconnect_impl ip ipv6 sl) = connected_addrs sl - {#client_addr (ip, ipv6)#}"
proof (cases "first_index (tracks ip ipv6) (per_secret_ips sl)")
  case None
  then have "client_addr (ip, ipv6) \<notin># connected_addrs sl" using in_connected [OF known, of sl] by (auto simp: first_index_None_iff)
  with None tr wf show ?thesis by (simp add: ip_track_disconnect_impl_def Let_def diff_single_trivial)
next
  case (Some i)
  note f = first_tracks [OF wf Some]
  let ?old = "per_secret_ips sl ! i"
  define e where "e = (if ti_connections ?old = 1
    then ?old\<lparr>ti_ip := 0, ti_ipv6 := zero_ipv6, ti_connections := 0\<rparr>
    else ?old\<lparr>ti_connections := ti_connections ?old - 1\<rparr>)"
  have ips': "per_secret_ips (ip_track_disconnect_impl ip ipv6 sl) = (per_secret_ips sl)[i := e]"
    and cnt': "per_secret_unique_ip_count (ip_track_disconnect_impl ip ipv6 sl) =
      per_secret_unique_ip_count sl - of_bool (ti_connections ?old = 1)"
    using Some tr f(2) by (cases "ti_connections ?old = 1"; simp add: ip_track_disconnect_impl_def Let_def e_def)+
  have used: "entry_used e \<longleftrightarrow> ti_connections ?old \<noteq> 1" using f(2) by (auto simp: e_def)
  have addr: "entry_addr e = client_addr (ip, ipv6)" if "entry_used e" using that f(3) by (auto simp: e_def)
  have "known_addr (ti_ip e, ti_ipv6 e)" if "entry_used e" using addr [OF that] known by (simp add: known_addr_def)
  then have "ips_wf (ip_track_disconnect_impl ip ipv6 sl)"
    using f addr used by (intro ips_wf_update [OF wf f(1) _ _ ips']) (auto simp: cnt')
  moreover have "nat (ti_connections ?old) = Suc (nat (ti_connections ?old - 1))" using f(2) by simp
  then have "entry_addrs ?old = add_mset (client_addr (ip, ipv6)) (entry_addrs e)"
    using f(3) by (auto simp: entry_addrs_def e_def)
  then have "add_mset (client_addr (ip, ipv6)) (connected_addrs (ip_track_disconnect_impl ip ipv6 sl)) + entry_addrs e
      = connected_addrs sl + entry_addrs e"
    using connected_update [OF f(1) ips'] by simp
  then have "add_mset (client_addr (ip, ipv6)) (connected_addrs (ip_track_disconnect_impl ip ipv6 sl)) = connected_addrs sl"
    by (simp only: add_right_cancel)
  then have "connected_addrs (ip_track_disconnect_impl ip ipv6 sl) = connected_addrs sl - {#client_addr (ip, ipv6)#}"
    by (metis add_mset_remove_trivial)
  ultimately show ?thesis by blast
qed

text \<open>A peer of the server: the moment it comes or goes, and its address.\<close>

interpretation tracked: address_book "\<lambda>sl. ips_wf sl \<and> tracking sl" connected_addrs SECRET_MAX_TRACKED_IPS
  "client_addr \<circ> snd" "known_addr \<circ> snd"
  "\<lambda>(g, ip, ipv6). ip_track_connect g ip ipv6" "\<lambda>(g :: server_globals, ip, ipv6). ip_track_disconnect_impl ip ipv6"
  by unfold_locales (auto simp: ip_track_connect_adds ip_track_disconnect_removes tracking_def)

definition track_events :: "(bool \<times> server_globals \<times> u32 \<times> bytes) list \<Rightarrow> secret_slot \<Rightarrow> secret_slot" where
  "track_events = book_run (\<lambda>(g, ip, ipv6). ip_track_connect g ip ipv6)
                           (\<lambda>(g, ip, ipv6). ip_track_disconnect_impl ip ipv6)"

lemma track_events_cfg [simp]: "ext_secret (track_events es sl) = ext_secret sl"
proof (induction es arbitrary: sl)
  case (Cons e es)
  then show ?case by (cases e) (auto simp: track_events_def book_run_def)
qed (simp add: track_events_def book_run_def)

lemma ip_over_limit_iff:
  assumes "ips_wf sl" "known_addr (ip, ipv6)"
  shows "ip_over_limit g ip ipv6 sl \<longleftrightarrow> sc_max_ips (ext_secret sl) > 0 \<and>
    client_addr (ip, ipv6) \<notin># connected_addrs sl \<and>
    int (card (set_mset (connected_addrs sl))) \<ge> effective g (sc_max_ips (ext_secret sl))"
  using card_connected [OF assms(1)] in_connected [OF assms(2), of sl]
  by (auto simp: ip_over_limit_def Let_def list_ex_iff)

text \<open>C15: (address tracking refines a multiset). In a slot that tracks addresses, after any sequence of
  connections and disconnections from at most 256 different addresses the table holds exactly the
  multiset of the connections that are open, its counter is the number of different addresses, and a
  further client is refused for its address exactly when the slot limits addresses, the client is not
  among the connected ones and these already use up this worker's share of the limit. The all-zero
  address is excluded: the table takes it for an empty entry.\<close>

theorem ip_tracking_refines:
  assumes "ips_wf sl" "tracking sl" "\<forall>(up, g, p)\<in>set es. known_addr p"
    and "card (set_mset (connected_addrs sl) \<union> (\<lambda>(up, g, p). client_addr p) ` set es) \<le> SECRET_MAX_TRACKED_IPS"
    and "known_addr (ip, ipv6)" and "open_now = members_run (client_addr \<circ> snd) es (connected_addrs sl)"
  shows "connected_addrs (track_events es sl) = open_now \<and>
    per_secret_unique_ip_count (track_events es sl) = int (card (set_mset open_now)) \<and>
    (ip_over_limit g ip ipv6 (track_events es sl) \<longleftrightarrow>
       sc_max_ips (ext_secret sl) > 0 \<and> client_addr (ip, ipv6) \<notin># open_now \<and>
       int (card (set_mset open_now)) \<ge> effective g (sc_max_ips (ext_secret sl)))"
proof -
  have im: "((client_addr \<circ> snd) \<circ> snd) ` set es = (\<lambda>(up, g, p). client_addr p) ` set es" by force
  have "(known_addr \<circ> snd) (snd e)" if "e \<in> set es" for e using assms(3) that by (cases e) auto
  then have "ips_wf (track_events es sl)" "connected_addrs (track_events es sl) = open_now"
    using tracked.book_run_members [of sl es] assms(1,2,4,6) im by (simp_all add: track_events_def)
  with card_connected [of "track_events es sl"] ip_over_limit_iff [OF _ assms(5), of "track_events es sl" g] show ?thesis
    by simp
qed

text \<open>The tables of the boot state are empty.\<close>

lemma sum_list_replicate_empty: "sum_list (replicate n {#}) = {#}"
  by (induction n) auto

lemma ips_wf_zero: "ips_wf (tcp_rpcs_ip_track_clear_slot sl)" "connected_addrs (tcp_rpcs_ip_track_clear_slot sl) = {#}"
  by (auto simp: ips_wf_def tcp_rpcs_ip_track_clear_slot_def connected_addrs_def zero_tracked_def entry_addrs_def
      sum_list_replicate_empty filter_replicate)

definition example_slot :: secret_slot where
  "example_slot = tcp_rpcs_ip_track_clear_slot (zero_slot\<lparr>ext_secret := zero_config\<lparr>sc_limit := 5, sc_max_ips := 1\<rparr>,
     ext_secret_state := SLOT_ACTIVE\<rparr>)"

definition example_globals :: server_globals where
  "example_globals = \<lparr>workers = 0, now = 1000, precise_now = 1000\<rparr>"

theorem ip_tracking_refines_witness:
  "per_secret_unique_ip_count (track_events [(True, example_globals, 7, zero_ipv6)] example_slot) = 1 \<and>
   ip_over_limit example_globals 8 zero_ipv6 (track_events [(True, example_globals, 7, zero_ipv6)] example_slot)"
proof -
  have known: "known_addr (7, zero_ipv6)" "known_addr (8, zero_ipv6)" by (simp_all add: known_addr_def client_addr_def)
  have tr: "tracking example_slot" by (simp add: tracking_def example_slot_def tcp_rpcs_ip_track_clear_slot_def)
  have wf: "ips_wf example_slot" "connected_addrs example_slot = {#}" by (simp_all add: example_slot_def ips_wf_zero)
  have max1: "sc_max_ips (ext_secret example_slot) = 1" by (simp add: example_slot_def tcp_rpcs_ip_track_clear_slot_def)
  show ?thesis
    using ip_tracking_refines [OF wf(1) tr _ _ known(2) refl, of "[(True, example_globals, 7, zero_ipv6)]" example_globals] known
    by (simp add: wf max1 members_run_def client_addr_def effective_def example_globals_def SECRET_MAX_TRACKED_IPS_def)
qed

subsection \<open>The gate\<close>

lemma count_connection_fields:
  "ext_secret (count_connection g ip ipv6 sl) = ext_secret sl"
  "ext_secret_state (count_connection g ip ipv6 sl) = ext_secret_state sl"
  "slot_connections (count_connection g ip ipv6 sl) = slot_connections sl + 1"
  by (auto simp: count_connection_def ip_track_connect_def Let_def split: option.split)

lemma uncount_connection_fields:
  "ext_secret (uncount_connection ip ipv6 sl) = ext_secret sl"
  "ext_secret_state (uncount_connection ip ipv6 sl) = ext_secret_state sl"
  "slot_connections (uncount_connection ip ipv6 sl) = slot_connections sl - 1"
  by (auto simp: uncount_connection_def ip_track_disconnect_impl_def Let_def split: option.split)

lemma count_reject_connections [simp]: "per_secret_connections (count_reject r c) = per_secret_connections c"
  by (cases r) auto

text \<open>The documented promise of a secret: when a client is let in.\<close>

definition admits :: "server_globals \<Rightarrow> u32 \<times> bytes \<Rightarrow> secret_slot \<Rightarrow> bool" where
  "admits g p sl \<longleftrightarrow>
     (let cfg = ext_secret sl; c = counters sl in
      ext_secret_state sl \<noteq> SLOT_DRAINING \<and>
      (sc_expires cfg \<le> 0 \<or> now g < sc_expires cfg) \<and>
      (sc_limit cfg \<le> 0 \<or> per_secret_connections c < effective g (sc_limit cfg)) \<and>
      (sc_quota cfg \<le> 0 \<or> per_secret_bytes_received c + per_secret_bytes_sent c < effective g (sc_quota cfg)) \<and>
      (sc_max_ips cfg \<le> 0 \<or> client_addr p \<in># connected_addrs sl \<or>
         int (card (set_mset (connected_addrs sl))) < effective g (sc_max_ips cfg)))"

lemma check_secret_admits:
  assumes "ips_wf sl" "known_addr (ip, ipv6)"
  shows "check_secret g ip ipv6 sl = None \<longleftrightarrow> admits g (ip, ipv6) sl"
  using ip_over_limit_iff [OF assms, of g]
  by (auto simp: check_secret_def admits_def Let_def secret_expired_def secret_over_limit_def secret_over_quota_def)

lemma connected_counters [simp]: "connected_addrs (sl\<lparr>counters := c\<rparr>) = connected_addrs sl"
  by (simp add: connected_addrs_def)

lemma ips_wf_counters [simp]: "ips_wf (sl\<lparr>counters := c\<rparr>) = ips_wf sl"
  by (simp add: ips_wf_def)

lemma tracking_counters [simp]: "tracking (sl\<lparr>counters := c\<rparr>) = tracking sl"
  by (simp add: tracking_def)

text \<open>A client the gate lets in stays within the address limit, or its address finds no room in the table.\<close>

lemma count_connection_addresses:
  assumes "ips_wf sl" "known_addr p" "admits g p sl" and m: "sc_max_ips (ext_secret sl) > 0"
    and room: "client_addr p \<in># connected_addrs sl \<or> card (set_mset (connected_addrs sl)) < SECRET_MAX_TRACKED_IPS"
  shows "connected_addrs (count_connection g (fst p) (snd p) sl) = add_mset (client_addr p) (connected_addrs sl)"
    and "int (card (set_mset (connected_addrs sl))) \<le> effective g (sc_max_ips (ext_secret sl)) \<Longrightarrow>
      int (card (set_mset (connected_addrs (count_connection g (fst p) (snd p) sl)))) \<le> effective g (sc_max_ips (ext_secret sl))"
proof -
  have cases: "client_addr p \<in># connected_addrs sl \<or>
      int (card (set_mset (connected_addrs sl))) < effective g (sc_max_ips (ext_secret sl))"
    using assms(3) m by (auto simp: admits_def Let_def)
  show *: "connected_addrs (count_connection g (fst p) (snd p) sl) = add_mset (client_addr p) (connected_addrs sl)"
    unfolding count_connection_def Let_def
    by (subst ip_track_connect_adds [THEN conjunct2]) (use assms(1,2) m room in \<open>auto simp: tracking_def\<close>)
  assume old: "int (card (set_mset (connected_addrs sl))) \<le> effective g (sc_max_ips (ext_secret sl))"
  show "int (card (set_mset (connected_addrs (count_connection g (fst p) (snd p) sl)))) \<le> effective g (sc_max_ips (ext_secret sl))"
    using cases old by (auto simp: * card_insert_if insert_absorb)
qed

lemma connected_bound:
  assumes "ips_wf sl"
  shows "card (set_mset (connected_addrs sl)) \<le> SECRET_MAX_TRACKED_IPS"
proof -
  have "length (filter entry_used (per_secret_ips sl)) \<le> SECRET_MAX_TRACKED_IPS"
    using assms length_filter_le [of entry_used "per_secret_ips sl"] by (simp add: ips_wf_def Let_def)
  then show ?thesis using card_connected [OF assms] assms by (simp add: ips_wf_def Let_def)
qed

text \<open>With all 256 entries in use a new address is dropped without a trace.\<close>

lemma count_connection_full:
  assumes wf: "ips_wf sl" and known: "known_addr p" and new: "client_addr p \<notin># connected_addrs sl"
    and full: "card (set_mset (connected_addrs sl)) = SECRET_MAX_TRACKED_IPS"
  shows "connected_addrs (count_connection g (fst p) (snd p) sl) = connected_addrs sl"
proof -
  have "length (filter entry_used (per_secret_ips sl)) = length (per_secret_ips sl)"
    using wf full card_connected [OF wf] by (simp add: ips_wf_def Let_def)
  then have "entry_used e" if "e \<in> set (per_secret_ips sl)" for e
    using length_filter_less [OF that, of entry_used] by auto
  then have "first_index (\<lambda>e. ti_connections e \<le> 0) (per_secret_ips sl) = None"
    by (auto simp: first_index_None_iff not_le)
  moreover have "first_index (tracks (fst p) (snd p)) (per_secret_ips sl) = None"
    using new in_connected [OF known, of sl] by (auto simp: first_index_None_iff)
  ultimately show ?thesis by (simp add: count_connection_def ip_track_connect_def Let_def)
qed

text \<open>C14: (the gate). A connection outside TLS is let in exactly when the secret is not draining, has not
  expired, and its connections, its bytes and its addresses are within this worker's share of the
  limits. A connection that is let in is counted once and stays within the limit on connections. In a
  slot that limits addresses, its address is added to the connected ones, which stay within the limit,
  unless the address is new and the table of 256 addresses is full: then the share of the limit
  exceeds 256, the client is let in and its address is not recorded, so that the limit has no effect
  beyond 256. A connection that is refused changes nothing but the one counter of the reason. The
  all-zero address is excluded.\<close>

theorem accept_gate:
  assumes "ips_wf sl" "known_addr (ip, ipv6)" "accept_connection g False ip ipv6 sl = (ok, sl')"
  shows "(ok \<longleftrightarrow> admits g (ip, ipv6) sl) \<and>
    (ok \<longrightarrow> slot_connections sl' = slot_connections sl + 1 \<and>
      (sc_limit (ext_secret sl) > 0 \<longrightarrow> slot_connections sl' \<le> effective g (sc_limit (ext_secret sl))) \<and>
      (0 < sc_max_ips (ext_secret sl) \<longrightarrow>
        (if client_addr (ip, ipv6) \<in># connected_addrs sl \<or> card (set_mset (connected_addrs sl)) < SECRET_MAX_TRACKED_IPS
         then connected_addrs sl' = add_mset (client_addr (ip, ipv6)) (connected_addrs sl) \<and>
           (int (card (set_mset (connected_addrs sl))) \<le> effective g (sc_max_ips (ext_secret sl)) \<longrightarrow>
             int (card (set_mset (connected_addrs sl'))) \<le> effective g (sc_max_ips (ext_secret sl)))
         else connected_addrs sl' = connected_addrs sl \<and>
           effective g (sc_max_ips (ext_secret sl)) > int SECRET_MAX_TRACKED_IPS))) \<and>
    (\<not> ok \<longrightarrow> (\<exists>r. check_secret g ip ipv6 sl = Some r \<and> sl' = sl\<lparr>counters := count_reject r (counters sl)\<rparr>))"
proof (cases "check_secret g ip ipv6 sl")
  case (Some r)
  then have "\<not> admits g (ip, ipv6) sl" using check_secret_admits [OF assms(1,2), of g] by simp
  with Some assms(3) show ?thesis by (auto simp: accept_connection_def secret_gate_def)
next
  case None
  let ?room = "client_addr (ip, ipv6) \<in># connected_addrs sl \<or> card (set_mset (connected_addrs sl)) < SECRET_MAX_TRACKED_IPS"
  have ad: "admits g (ip, ipv6) sl" using check_secret_admits [OF assms(1,2)] None by simp
  have "ok" and sl': "sl' = count_connection g ip ipv6 sl"
    using assms(3) None by (auto simp: accept_connection_def secret_gate_def)
  moreover have "sc_limit (ext_secret sl) > 0 \<longrightarrow> slot_connections sl + 1 \<le> effective g (sc_limit (ext_secret sl))"
    using ad by (auto simp: admits_def Let_def)
  moreover have "connected_addrs sl' = connected_addrs sl"
    "effective g (sc_max_ips (ext_secret sl)) > int SECRET_MAX_TRACKED_IPS"
    if "0 < sc_max_ips (ext_secret sl)" "\<not> ?room"
  proof -
    have full: "card (set_mset (connected_addrs sl)) = SECRET_MAX_TRACKED_IPS"
      using that(2) connected_bound [OF assms(1)] by simp
    show "connected_addrs sl' = connected_addrs sl"
      using count_connection_full [OF assms(1,2) _ full] that(2) sl' by simp
    show "effective g (sc_max_ips (ext_secret sl)) > int SECRET_MAX_TRACKED_IPS"
      using ad that full by (auto simp: admits_def Let_def)
  qed
  moreover note count_connection_addresses [OF assms(1,2) ad]
  ultimately show ?thesis using ad by (auto simp: count_connection_fields)
qed

theorem accept_gate_witness:
  "fst (accept_connection example_globals False 7 zero_ipv6 example_slot) \<and>
   slot_connections (snd (accept_connection example_globals False 7 zero_ipv6 example_slot)) = 1"
proof -
  have known: "known_addr (7, zero_ipv6)" by (simp add: known_addr_def client_addr_def)
  have wf: "ips_wf example_slot" "connected_addrs example_slot = {#}" by (simp_all add: example_slot_def ips_wf_zero)
  obtain ok sl' where r: "accept_connection example_globals False 7 zero_ipv6 example_slot = (ok, sl')" by (rule prod.exhaust)
  have "admits example_globals (7, zero_ipv6) example_slot"
    by (simp add: admits_def Let_def wf)
       (simp add: example_slot_def tcp_rpcs_ip_track_clear_slot_def effective_def example_globals_def zero_slot_def
          zero_config_def zero_counters_def)
  then show ?thesis using accept_gate [OF wf(1) known r] r
    by (simp add: example_slot_def tcp_rpcs_ip_track_clear_slot_def zero_slot_def zero_counters_def)
qed

subsection \<open>The rate of an address\<close>

lemma ll_checked_SomeD [dest!]: "ll_checked v = Some w \<Longrightarrow> w = v"
  by (auto simp: ll_checked_def split: if_splits)

lemma double_to_ll_le: "double_to_ll x = Some v \<Longrightarrow> 0 \<le> x \<Longrightarrow> of_int v \<le> x"
  by (auto simp: double_to_ll_def Let_def split: if_splits)

lemma rate_bucket_refill_fields:
  "rate_bucket_refill rnd g eff tip = Some tip' \<Longrightarrow>
     ti_ip tip' = ti_ip tip \<and> ti_ipv6 tip' = ti_ipv6 tip \<and> ti_connections tip' = ti_connections tip"
  by (auto simp: rate_bucket_refill_def Let_def split: if_splits bind_splits)

text \<open>Floating-point arithmetic with the relative error \<open>u\<close>: \<open>1 / 2 ^ 53\<close> for a \<open>double\<close> rounded to nearest.\<close>

definition relative_rounding :: "real \<Rightarrow> (real \<Rightarrow> real) \<Rightarrow> bool" where
  "relative_rounding u rnd \<longleftrightarrow> 0 \<le> u \<and> u \<le> 1 \<and> (\<forall>x. \<bar>rnd x - x\<bar> \<le> u * \<bar>x\<bar>)"

lemma relative_rounding_bounds:
  assumes "relative_rounding u rnd"
  shows "0 \<le> x \<Longrightarrow> rnd x \<le> (1 + u) * x" "0 \<le> x \<Longrightarrow> 0 \<le> rnd x" "0 < rnd x \<Longrightarrow> 0 < x"
proof -
  have e: "\<bar>rnd x - x\<bar> \<le> u * \<bar>x\<bar>" and u: "0 \<le> u" "u \<le> 1" using assms by (auto simp: relative_rounding_def)
  show "rnd x \<le> (1 + u) * x" if "0 \<le> x" using e that by (simp add: algebra_simps)
  have le: "u * \<bar>x\<bar> \<le> \<bar>x\<bar>" using u by (simp add: mult_left_le_one_le)
  then show "0 \<le> rnd x" if "0 \<le> x" using e that by simp
  show "0 < x" if "0 < rnd x" using e le that by linarith
qed

text \<open>A refill adds at most what the elapsed time is worth, up to the error of the three roundings.\<close>

lemma refill_value:
  assumes r: "relative_rounding u rnd" and "0 \<le> d" "0 \<le> eff"
  shows "0 \<le> rnd (rnd d * rnd eff)" "rnd (rnd d * rnd eff) \<le> (1 + u) ^ 3 * eff * d"
proof -
  note b = relative_rounding_bounds [OF r]
  have u: "0 \<le> 1 + u" using r by (simp add: relative_rounding_def)
  have p: "0 \<le> rnd d * rnd eff" using b(2) assms(2,3) by simp
  then show "0 \<le> rnd (rnd d * rnd eff)" by (rule b(2))
  have "rnd d * rnd eff \<le> ((1 + u) * d) * ((1 + u) * eff)"
    using b assms(2,3) u by (intro mult_mono) simp_all
  then have "(1 + u) * (rnd d * rnd eff) \<le> (1 + u) * (((1 + u) * d) * ((1 + u) * eff))"
    using u by (intro mult_left_mono)
  also have "\<dots> = (1 + u) ^ 3 * eff * d" by (simp add: power3_eq_cube)
  finally show "rnd (rnd d * rnd eff) \<le> (1 + u) ^ 3 * eff * d" using b(1) [OF p] by linarith
qed

lemma rate_bucket_refill_bound:
  assumes "rate_bucket_refill rnd g eff tip = Some tip'" "eff \<ge> 0" and r: "relative_rounding u rnd"
  shows "of_int (ti_tokens tip') \<le> of_int (ti_tokens tip) + (1 + u) ^ 3 * of_int eff * (ti_last_refill tip' - ti_last_refill tip)"
    and "ti_tokens tip \<le> eff \<Longrightarrow> ti_tokens tip' \<le> eff"
proof -
  let ?d = "precise_now g - ti_last_refill tip"
  consider "\<not> 0 < rnd ?d" "tip' = tip" | v where "0 < rnd ?d" "double_to_ll (rnd (rnd ?d * rnd (of_int eff))) = Some v"
    "tip' = tip\<lparr>ti_tokens := min eff (ti_tokens tip + v), ti_last_refill := precise_now g\<rparr>"
    using assms(1) by (auto simp: rate_bucket_refill_def Let_def min_def split: if_splits bind_splits)
  then show "of_int (ti_tokens tip') \<le> of_int (ti_tokens tip) + (1 + u) ^ 3 * of_int eff * (ti_last_refill tip' - ti_last_refill tip)"
  proof cases
    case 2
    have "0 \<le> ?d" using relative_rounding_bounds(3) [OF r 2(1)] by simp
    note v = refill_value [OF r this, of "of_int eff"]
    have "of_int v \<le> rnd (rnd ?d * rnd (of_int eff))" using double_to_ll_le [OF 2(2)] v(1) assms(2) by simp
    then have "of_int v \<le> (1 + u) ^ 3 * of_int eff * ?d" using v(2) assms(2) by simp
    moreover have "real_of_int (ti_tokens tip') \<le> real_of_int (ti_tokens tip + v)"
      using 2(3) by (simp only: of_int_le_iff) simp
    ultimately show ?thesis using 2(3) by simp
  qed simp
  show "ti_tokens tip' \<le> eff" if "ti_tokens tip \<le> eff"
    using assms(1) that by (auto simp: rate_bucket_refill_def Let_def split: if_splits bind_splits)
qed

lemma relay_delay_bounds:
  assumes "relative_rounding u rnd"
  shows "rnd (1 / 1000) \<le> relay_delay rnd tokens eff" "relay_delay rnd tokens eff \<le> 5"
proof -
  have "rnd (1 / 1000) \<le> (1 + u) * (1 / 1000)" by (rule relative_rounding_bounds(1) [OF assms]) simp
  then have "rnd (1 / 1000) \<le> 5" using assms by (simp add: relative_rounding_def)
  then show "rnd (1 / 1000) \<le> relay_delay rnd tokens eff" "relay_delay rnd tokens eff \<le> 5"
    by (auto simp: relay_delay_def Let_def)
qed

definition relay_seq ::
  "(real \<Rightarrow> real) \<Rightarrow> u32 \<Rightarrow> bytes \<Rightarrow> (server_globals \<times> int) list \<Rightarrow> secret_slot \<times> relay_conn
   \<Rightarrow> (secret_slot \<times> relay_conn) option" where
  "relay_seq rnd ip ipv6 es st =
     fold (\<lambda>(g, n) r. Option.bind r (rate_limit_after_relay rnd g n ip ipv6)) es (Some st)"

lemma rate_limit_step:
  assumes "rate_limit_after_relay rnd g n ip ipv6 (sl, c) = Some (sl', c')" and r: "relative_rounding u rnd"
    and rl: "sc_rate_limit (ext_secret sl) > 0" and i: "find_tracked_ip ip ipv6 sl = Some i"
    and eff: "eff = effective g (sc_rate_limit (ext_secret sl))"
    and e: "e = per_secret_ips sl ! i" and e': "e' = per_secret_ips sl' ! i"
  shows "ext_secret sl' = ext_secret sl" "find_tracked_ip ip ipv6 sl' = Some i"
    "of_int (n + ti_tokens e') \<le> of_int (ti_tokens e) + (1 + u) ^ 3 * of_int eff * (ti_last_refill e' - ti_last_refill e)"
    "ti_tokens e \<le> eff \<Longrightarrow> 0 \<le> n \<Longrightarrow> ti_tokens e' \<le> eff"
    "ti_tokens e' < 0 \<Longrightarrow> rc_stopread c' \<and>
       (\<exists>d. rc_timer c' = Some (rnd (precise_now g + d)) \<and> rnd (1 / 1000) \<le> d \<and> d \<le> 5)"
proof -
  have il: "i < length (per_secret_ips sl)" using i by (auto simp: find_tracked_ip_def dest: first_index_SomeD)
  obtain tip where tip: "rate_bucket_refill rnd g eff e = Some tip"
    and ips': "per_secret_ips sl' = (per_secret_ips sl)[i := tip\<lparr>ti_tokens := ti_tokens tip - n\<rparr>]"
    and cfg: "ext_secret sl' = ext_secret sl"
    and stop: "ti_tokens tip - n < 0 \<Longrightarrow> rc_stopread c' \<and>
      rc_timer c' = Some (rnd (precise_now g + relay_delay rnd (ti_tokens tip - n) eff))"
    using assms(1) rl i eff e
    by (auto simp: rate_limit_after_relay_def Let_def split: if_splits bind_splits)
  have tok: "e' = tip\<lparr>ti_tokens := ti_tokens tip - n\<rparr>" using e' ips' il by simp
  have "tracks ip ipv6 (tip\<lparr>ti_tokens := ti_tokens tip - n\<rparr>) = tracks ip ipv6 (per_secret_ips sl ! i)"
    using rate_bucket_refill_fields [OF tip] e by (simp add: tracks_def)
  then show "find_tracked_ip ip ipv6 sl' = Some i" "ext_secret sl' = ext_secret sl"
    using i cfg ips' by (simp_all add: find_tracked_ip_def first_index_update)
  have pos: "eff \<ge> 0" by (simp add: eff effective_def Let_def)
  show "of_int (n + ti_tokens e') \<le> of_int (ti_tokens e) + (1 + u) ^ 3 * of_int eff * (ti_last_refill e' - ti_last_refill e)"
    "ti_tokens e \<le> eff \<Longrightarrow> 0 \<le> n \<Longrightarrow> ti_tokens e' \<le> eff"
    using rate_bucket_refill_bound [OF tip pos r] tok by auto
  show "rc_stopread c' \<and> (\<exists>d. rc_timer c' = Some (rnd (precise_now g + d)) \<and> rnd (1 / 1000) \<le> d \<and> d \<le> 5)"
    if "ti_tokens e' < 0"
    using stop that tok relay_delay_bounds [OF r] by auto
qed

text \<open>C16: (rate of an address). In floating-point arithmetic of relative error \<open>u\<close> (about \<open>1.1e-16\<close> for
  the code's doubles), over any sequence of relays for one address the bytes relayed are at most the
  tokens there were, plus the worker's rate times the time accounted for, enlarged by the error of
  three roundings, minus the tokens that are left, so what exceeds the rate is a debt (negative
  tokens); the bucket never holds more than one second; and when the last relay left a debt, reading
  is stopped and a timer is set to the rounded sum of the time and a delay between the rounded
  millisecond and five seconds.\<close>

theorem rate_limit_bound:
  assumes "relay_seq rnd ip ipv6 es (sl, c) = Some (sl', c')" "relative_rounding u rnd"
    and "sc_rate_limit (ext_secret sl) > 0" "find_tracked_ip ip ipv6 sl = Some i"
    and "\<forall>(g, n)\<in>set es. effective g (sc_rate_limit (ext_secret sl)) = eff \<and> 0 \<le> n"
    and "e = per_secret_ips sl ! i" "e' = per_secret_ips sl' ! i" "ti_tokens e \<le> eff"
  shows "of_int (sum_list (map snd es)) \<le>
      of_int (ti_tokens e) + (1 + u) ^ 3 * of_int eff * (ti_last_refill e' - ti_last_refill e) - of_int (ti_tokens e') \<and>
    ti_tokens e' \<le> eff \<and>
    (es \<noteq> [] \<and> ti_tokens e' < 0 \<longrightarrow> rc_stopread c' \<and>
      (\<exists>d. rc_timer c' = Some (rnd (precise_now (fst (last es)) + d)) \<and> rnd (1 / 1000) \<le> d \<and> d \<le> 5))"
proof -
  have "ext_secret sl' = ext_secret sl \<and> find_tracked_ip ip ipv6 sl' = Some i \<and>
    of_int (sum_list (map snd es)) \<le> of_int (ti_tokens e) +
      (1 + u) ^ 3 * of_int eff * (ti_last_refill (per_secret_ips sl' ! i) - ti_last_refill e) - of_int (ti_tokens (per_secret_ips sl' ! i)) \<and>
    ti_tokens (per_secret_ips sl' ! i) \<le> eff \<and>
    (es \<noteq> [] \<and> ti_tokens (per_secret_ips sl' ! i) < 0 \<longrightarrow> rc_stopread c' \<and>
      (\<exists>d. rc_timer c' = Some (rnd (precise_now (fst (last es)) + d)) \<and> rnd (1 / 1000) \<le> d \<and> d \<le> 5))"
    using assms(1,5)
  proof (induction es arbitrary: sl' c' rule: rev_induct)
    case Nil
    then show ?case using assms(2-) by (simp add: relay_seq_def)
  next
    case (snoc x es)
    obtain g n where x: "x = (g, n)" by (cases x)
    from snoc.prems(1) obtain sl1 c1 where r: "relay_seq rnd ip ipv6 es (sl, c) = Some (sl1, c1)"
      and s: "rate_limit_after_relay rnd g n ip ipv6 (sl1, c1) = Some (sl', c')"
      by (auto simp: relay_seq_def x split: bind_splits)
    note IH = snoc.IH [OF r]
    have all: "\<forall>(g, n)\<in>set es. effective g (sc_rate_limit (ext_secret sl)) = eff \<and> 0 \<le> n"
      and gn: "effective g (sc_rate_limit (ext_secret sl)) = eff" "0 \<le> n"
      using snoc.prems(2) x by auto
    define K where "K = (1 + u) ^ 3 * real_of_int eff"
    define b0 b1 b2 where "b0 = e" and "b1 = per_secret_ips sl1 ! i" and "b2 = per_secret_ips sl' ! i"
    note IH = IH [OF all]
    have st: "ext_secret sl' = ext_secret sl1" "find_tracked_ip ip ipv6 sl' = Some i"
      "of_int (n + ti_tokens b2) \<le> of_int (ti_tokens b1) + K * (ti_last_refill b2 - ti_last_refill b1)"
      "ti_tokens b2 \<le> eff"
      "ti_tokens b2 < 0 \<Longrightarrow> rc_stopread c' \<and>
       (\<exists>d. rc_timer c' = Some (rnd (precise_now g + d)) \<and> rnd (1 / 1000) \<le> d \<and> d \<le> 5)"
      using rate_limit_step [OF s assms(2), of i eff, OF _ _ _ refl refl] IH gn assms(3)
      unfolding K_def b1_def b2_def by auto
    have "K * (ti_last_refill b2 - ti_last_refill b0)
        = K * (ti_last_refill b2 - ti_last_refill b1) + K * (ti_last_refill b1 - ti_last_refill b0)"
      by (simp add: algebra_simps)
    moreover have "of_int (sum_list (map snd es)) \<le> of_int (ti_tokens b0) + K * (ti_last_refill b1 - ti_last_refill b0)
        - of_int (ti_tokens b1)"
      using IH unfolding K_def b0_def b1_def by blast
    ultimately have "of_int (sum_list (map snd (es @ [x]))) \<le> of_int (ti_tokens b0) + K * (ti_last_refill b2 - ti_last_refill b0)
        - of_int (ti_tokens b2)"
      using st(3) by (simp add: x)
    then show ?case using st IH x unfolding K_def b0_def b2_def by auto
  qed
  then show ?thesis using assms(7) by simp
qed

text \<open>Rounding to the nearest number of 53 significant bits.\<close>

definition double_round :: "real \<Rightarrow> real" where
  "double_round x = (if x = 0 then 0
     else (let k = 2 powr of_int \<lfloor>log 2 \<bar>x\<bar>\<rfloor> / 2 ^ 52 in of_int (round (x / k)) * k))"

lemma double_round_near: "\<bar>double_round x - x\<bar> \<le> 1 / 2 ^ 53 * \<bar>x\<bar>"
proof (cases "x = 0")
  case False
  define b :: real where "b = 2 powr of_int \<lfloor>log 2 \<bar>x\<bar>\<rfloor>"
  define k :: real where "k = b / 2 ^ 52"
  have k: "0 < k" by (simp add: k_def b_def)
  have "b \<le> 2 powr log 2 \<bar>x\<bar>" unfolding b_def by (intro powr_mono) simp_all
  then have b: "b \<le> \<bar>x\<bar>" using False by simp
  have "double_round x = of_int (round (x / k)) * k"
    using False by (simp add: double_round_def Let_def k_def b_def)
  moreover have "x = x / k * k" using k by simp
  ultimately have "double_round x - x = (of_int (round (x / k)) - x / k) * k"
    by (metis left_diff_distrib)
  then have "\<bar>double_round x - x\<bar> = \<bar>of_int (round (x / k)) - x / k\<bar> * k" using k by (simp add: abs_mult)
  also have "\<dots> \<le> 1 / 2 * k" using k by (intro mult_right_mono of_int_round_abs_le) simp
  also have "\<dots> = 1 / 2 ^ 53 * b" by (simp add: k_def)
  also have "\<dots> \<le> 1 / 2 ^ 53 * \<bar>x\<bar>" using b by simp
  finally show ?thesis .
qed (simp add: double_round_def)

lemma double_round_error: "relative_rounding (1 / 2 ^ 53) double_round"
  using double_round_near by (simp add: relative_rounding_def)

theorem rate_limit_bound_witness:
  "\<exists>sl' c'. relay_seq double_round 7 zero_ipv6 [(example_globals, 30)]
      (ip_track_connect example_globals 7 zero_ipv6
        (example_slot\<lparr>ext_secret := zero_config\<lparr>sc_rate_limit := 10\<rparr>\<rparr>), \<lparr>rc_stopread = False, rc_io_stopread = None, rc_timer = None\<rparr>) =
      Some (sl', c') \<and> ti_tokens (per_secret_ips sl' ! 0) = -20 \<and> rc_stopread c'"
proof -
  let ?sl = "ip_track_connect example_globals 7 zero_ipv6 (example_slot\<lparr>ext_secret := zero_config\<lparr>sc_rate_limit := 10\<rparr>\<rparr>)"
  let ?c = "\<lparr>rc_stopread = False, rc_io_stopread = None, rc_timer = None\<rparr>"
  have "replicate (Suc 255) zero_tracked = zero_tracked # replicate 255 zero_tracked" by (rule replicate_Suc)
  then have rep: "replicate SECRET_MAX_TRACKED_IPS zero_tracked = zero_tracked # replicate 255 zero_tracked"
    by (simp add: SECRET_MAX_TRACKED_IPS_def)
  have none: "first_index (tracks 7 zero_ipv6) (replicate n zero_tracked) = None" for n
    by (auto simp: first_index_None_iff tracks_def zero_tracked_def)
  have sl: "per_secret_ips ?sl ! 0 = \<lparr>ti_ip = 7, ti_ipv6 = zero_ipv6, ti_connections = 1, ti_tokens = 10, ti_last_refill = 1000\<rparr>"
    "find_tracked_ip 7 zero_ipv6 ?sl = Some 0" "ext_secret ?sl = zero_config\<lparr>sc_rate_limit := 10\<rparr>"
    using none [of 255]
    by (simp_all add: ip_track_connect_def Let_def tracking_def example_slot_def tcp_rpcs_ip_track_clear_slot_def rep)
       (simp_all add: zero_tracked_def new_tracked_def effective_def example_globals_def find_tracked_ip_def tracks_def)
  have eff: "effective example_globals 10 = 10" by (simp add: effective_def example_globals_def)
  obtain sl' c' where r: "relay_seq double_round 7 zero_ipv6 [(example_globals, 30)] (?sl, ?c) = Some (sl', c')"
    and t: "ti_tokens (per_secret_ips sl' ! 0) = -20"
    using sl eff
    by (auto simp: relay_seq_def double_round_def [of 0] rate_limit_after_relay_def Let_def rate_bucket_refill_def ll_checked_def example_globals_def
        nth_list_update find_tracked_ip_def dest: first_index_SomeD)
  from rate_limit_bound [OF r double_round_error _ sl(2) _ refl refl, of 10] t r show ?thesis by (simp add: sl eff)
qed

end
