(* ===== verification/Srv_Drain.thy ===== *)
theory Srv_Drain
  imports Srv_Secrets Srv_Obfs2
begin

text \<open>
  The life of secret slots, \<open>server/src/net/net-tcp-rpc-ext-drain.c\<close>, with the sweeper of
  \<open>mtproto-proxy.c\<close>, and the connections that use the slots: the recognition of a header in
  \<open>net-tcp-rpc-ext-server.c\<close>, relaying and closing in \<open>net-tcp-direct-dc.c\<close> and \<open>mtproto-proxy-http.c\<close>.
  The connections stand in a table by descriptor. The calls \<open>tcp_rpcs_account_*\<close> next to the counters only
  feed the metrics and are modelled with them in another theory.
\<close>

subsection \<open>Reload\<close>

type_synonym slot_list = "secret_slot list"

definition in_use :: "secret_slot \<Rightarrow> bool" where
  "in_use sl \<longleftrightarrow> ext_secret_state sl \<noteq> SLOT_FREE"

text \<open>Configured secrets that a pinned slot has: they count as placed.\<close>

definition collides :: "nat \<Rightarrow> slot_list \<Rightarrow> secret_config \<Rightarrow> bool" where
  "collides pinned sls c \<longleftrightarrow> list_ex (\<lambda>sl. slot_key sl = sc_key c) (take pinned sls)"

text \<open>Pass A: the slots that are drained unless the configuration names them.\<close>

definition drain_candidates :: "nat \<Rightarrow> slot_list \<Rightarrow> bool list" where
  "drain_candidates pinned sls =
     map (\<lambda>s. pinned \<le> s \<and> ext_secret_state (sls ! s) = SLOT_ACTIVE) [0..<length sls]"

text \<open>New settings of a slot. The key is the same.\<close>

definition refresh_slot :: "nat \<Rightarrow> secret_config \<Rightarrow> secret_slot \<Rightarrow> secret_slot" where
  "refresh_slot s c sl =
     sl\<lparr>ext_secret := c\<lparr>sc_label := slot_label s (sc_label c)\<rparr>, ext_secret_state := SLOT_ACTIVE,
        ext_secret_drain_started_at := 0\<rparr>"

text \<open>Pass B: configured secrets that have a slot. The result also holds the secrets that have none.\<close>

fun reload_match ::
  "nat \<Rightarrow> secret_config list \<Rightarrow> slot_list \<times> bool list \<Rightarrow> (slot_list \<times> bool list) \<times> secret_config list" where
  "reload_match pinned [] (sls, cand) = ((sls, cand), [])"
| "reload_match pinned (c # cs) (sls, cand) =
     (case first_index_from pinned (\<lambda>sl. in_use sl \<and> slot_key sl = sc_key c) sls of
        Some s \<Rightarrow> reload_match pinned cs (sls[s := refresh_slot s c (sls ! s)], cand[s := False])
      | None \<Rightarrow> (let (r, rest) = reload_match pinned cs (sls, cand) in (r, c # rest)))"

text \<open>Pass C: the candidates that are left are drained.\<close>

definition drain_removed :: "real \<Rightarrow> bool list \<Rightarrow> slot_list \<Rightarrow> slot_list" where
  "drain_removed t cand sls =
     map2 (\<lambda>gone sl. if gone then sl\<lparr>ext_secret_state := SLOT_DRAINING, ext_secret_drain_started_at := t\<rparr> else sl)
       cand sls"

text \<open>Pass D: a free slot for every secret that is left; \<open>False\<close> when there is none.\<close>

definition fresh_slot :: "nat \<Rightarrow> secret_config \<Rightarrow> secret_slot \<Rightarrow> secret_slot" where
  "fresh_slot s c sl = tcp_rpcs_ip_track_clear_slot ((refresh_slot s c sl)\<lparr>counters := zero_counters\<rparr>)"

fun reload_alloc :: "nat \<Rightarrow> secret_config list \<Rightarrow> slot_list \<Rightarrow> bool \<times> slot_list" where
  "reload_alloc pinned [] sls = (True, sls)"
| "reload_alloc pinned (c # cs) sls =
     (case first_index_from pinned (\<lambda>sl. \<not> in_use sl) sls of
        None \<Rightarrow> (False, sls)
      | Some s \<Rightarrow> reload_alloc pinned cs (sls[s := fresh_slot s c (sls ! s)]))"

definition high_water :: "nat \<Rightarrow> slot_list \<Rightarrow> nat" where
  "high_water pinned sls =
     fold (\<lambda>s hw. if in_use (sls ! s) \<and> s + 1 > hw then s + 1 else hw) [pinned..<length sls] pinned"

definition active_total :: "nat \<Rightarrow> slot_list \<Rightarrow> nat" where
  "active_total pinned sls =
     pinned + length (filter (\<lambda>sl. ext_secret_state sl = SLOT_ACTIVE) (drop pinned sls))"

text \<open>The reload. \<open>None\<close>: more secrets than the local arrays have room for. The configuration always
  gives the four optional arrays.\<close>

definition tcp_rpcs_reload_ext_secrets ::
  "server_globals \<Rightarrow> secret_config list \<Rightarrow> secret_table \<Rightarrow> (int \<times> secret_table) option" where
  "tcp_rpcs_reload_ext_secrets g cfgs t =
     (if length cfgs > EXT_SECRET_MAX_SLOTS then None
      else
        let pinned = ext_secret_pinned t;
            todo = filter (\<lambda>c. \<not> collides pinned (slots t) c) cfgs;
            ((sls1, cand), rest) = reload_match pinned todo (slots t, drain_candidates pinned (slots t));
            sls2 = drain_removed (precise_now g) cand sls1;
            (ok, sls3) = reload_alloc pinned rest sls2;
            t3 = t\<lparr>slots := sls3\<rparr> in
        if \<not> ok then Some (-1, t3)
        else if active_total pinned sls3 > EXT_SECRET_MAX_ACTIVE then Some (-1, t3)
        else Some (0, t3\<lparr>ext_secret_cnt := high_water pinned sls3\<rparr>))"

text \<open>\<open>apply_toml_secrets\<close> of the signal handler: the result of the reload is not looked at.\<close>

definition apply_toml_secrets ::
  "server_globals \<Rightarrow> secret_config list \<Rightarrow> real \<Rightarrow> secret_table \<Rightarrow> secret_table option" where
  "apply_toml_secrets g cfgs secs t =
     do {
       (rc, t1) \<leftarrow> tcp_rpcs_reload_ext_secrets g cfgs t;
       Some (tcp_rpcs_drain_set_timeout secs t1)
     }"

subsection \<open>Release\<close>

text \<open>The slot after its release. Its address table is cleared with the rest.\<close>

definition tcp_rpcs_drain_release_slot_if_empty :: "nat \<Rightarrow> secret_table \<Rightarrow> secret_table" where
  "tcp_rpcs_drain_release_slot_if_empty s t =
     (if s < ext_secret_pinned t \<or> s \<ge> EXT_SECRET_MAX_SLOTS then t
      else if ext_secret_state (slots t ! s) \<noteq> SLOT_DRAINING then t
      else if slot_connections (slots t ! s) \<noteq> 0 then t
      else
        let sls = (slots t)[s := tcp_rpcs_ip_track_clear_slot ((slots t ! s)\<lparr>ext_secret_state := SLOT_FREE,
                     ext_secret_drain_started_at := 0, ext_secret := zero_config, counters := zero_counters\<rparr>)] in
        t\<lparr>slots := sls, ext_secret_cnt := high_water (ext_secret_pinned t) sls\<rparr>)"

subsection \<open>Connections\<close>

datatype conn_type =
    Ct_ext_server_mtfront | Ct_ext_server | Ct_ext_server_drs | Ct_direct_client | Ct_direct_client_drs
  | Ct_direct_dc | Ct_proxy_pass

text \<open>A connection: its secret is \<open>extra_int2\<close>, one more than the slot. \<open>ec_key\<close> is not a field of the
  program: it is the key under which the header was recognised, from which the cipher keys of the
  connection were made.\<close>

record ext_conn =
  ec_type :: conn_type
  ec_listening :: bool
  ec_tls :: bool
  ec_error :: "int option"
  ec_ip :: u32
  ec_ipv6 :: bytes
  ec_extra_int2 :: int
  ec_key :: bytes

type_synonym conn_table = "ext_conn option list"

definition fail_connection :: "int \<Rightarrow> ext_conn \<Rightarrow> ext_conn" where
  "fail_connection err c = (case ec_error c of None \<Rightarrow> c\<lparr>ec_error := Some err\<rparr> | Some e \<Rightarrow> c)"

fun conn_carries_secret_id :: "conn_type \<Rightarrow> bool" where
  "conn_carries_secret_id Ct_direct_dc = False"
| "conn_carries_secret_id Ct_proxy_pass = False"
| "conn_carries_secret_id _ = True"

definition charged_to :: "nat \<Rightarrow> ext_conn option \<Rightarrow> bool" where
  "charged_to s oc \<longleftrightarrow>
     (case oc of None \<Rightarrow> False
      | Some c \<Rightarrow> \<not> ec_listening c \<and> conn_carries_secret_id (ec_type c) \<and> ec_extra_int2 c = int s + 1)"

definition tcp_rpcs_drain_force_close_for_slot :: "nat \<Rightarrow> secret_table \<times> conn_table \<Rightarrow> secret_table \<times> conn_table" where
  "tcp_rpcs_drain_force_close_for_slot s st =
     (let t = fst st; conns = snd st in
      if s < ext_secret_pinned t \<or> s \<ge> EXT_SECRET_MAX_SLOTS then st
      else
        let sl = slots t ! s;
            closed = int (length (filter (charged_to s) conns)) in
        (t\<lparr>slots := (slots t)[s := sl\<lparr>counters := (counters sl)\<lparr>per_secret_drain_forced :=
                                         per_secret_drain_forced (counters sl) + closed\<rparr>\<rparr>]\<rparr>,
         map (\<lambda>oc. if charged_to s oc then map_option (fail_connection (-500)) oc else oc) conns))"

text \<open>The sweeper. \<open>rnd\<close> rounds the difference of the two times.\<close>

definition sweep_slot ::
  "(real \<Rightarrow> real) \<Rightarrow> server_globals \<Rightarrow> real \<Rightarrow> nat \<Rightarrow> secret_table \<times> conn_table \<Rightarrow> secret_table \<times> conn_table" where
  "sweep_slot rnd g timeout s st =
     (let t = fst st in
      if tcp_rpcs_get_ext_secret_state (int s) t \<noteq> SLOT_DRAINING then st
      else if slot_connections (slots t ! s) = 0 then (tcp_rpcs_drain_release_slot_if_empty s t, snd st)
      else if timeout > 0 \<and> rnd (precise_now g - tcp_rpcs_get_ext_secret_drain_started (int s) t) \<ge> timeout
      then tcp_rpcs_drain_force_close_for_slot s st
      else st)"

definition drain_sweep_gw ::
  "(real \<Rightarrow> real) \<Rightarrow> server_globals \<Rightarrow> secret_table \<times> conn_table \<Rightarrow> secret_table \<times> conn_table" where
  "drain_sweep_gw rnd g st =
     fold (sweep_slot rnd g (drain_timeout_secs (fst st)))
       [ext_secret_pinned (fst st)..<ext_secret_cnt (fst st)] st"

subsection \<open>Handshake and close\<close>

text \<open>The header of a connection is compared with the secrets in use. \<open>None\<close>: the number of the slot is
  read from an array that was never written. Otherwise the connection and the table; a header that
  is not recognised changes neither.\<close>

definition ext_handshake ::
  "keystream \<Rightarrow> sha256_fn \<Rightarrow> server_globals \<Rightarrow> bool \<Rightarrow> bytes \<Rightarrow> ext_conn \<times> secret_table
   \<Rightarrow> (ext_conn \<times> secret_table) option" where
  "ext_handshake ks sha256 g rand_pad_only header st =
     (let c = fst st; t = snd st in
      case fst (obfs2_parse_header ks sha256 header (compact_secrets t) rand_pad_only) of
        None \<Rightarrow> Some st
      | Some r \<Rightarrow>
          if or_secret_id r \<ge> length (compact_to_slot t) then None
          else
            let s = compact_to_slot t ! or_secret_id r;
                (ok, sl) = accept_connection g (ec_tls c) (ec_ip c) (ec_ipv6 c) (slots t ! s) in
            Some (if ok
                  then c\<lparr>ec_extra_int2 := int s + 1, ec_key := slot_key (slots t ! s),
                         ec_type := (if ec_tls c then Ct_ext_server_drs else ec_type c)\<rparr>
                  else fail_connection (-1) (c\<lparr>ec_extra_int2 := 0\<rparr>),
                  t\<lparr>slots := (slots t)[s := sl]\<rparr>))"

text \<open>The TLS hello of a client matched slot \<open>s\<close>: after the checks the connection is inside TLS, or it
  is handed to the web server behind.\<close>

definition tls_hello_matched :: "server_globals \<Rightarrow> nat \<Rightarrow> ext_conn \<times> secret_table \<Rightarrow> ext_conn \<times> secret_table" where
  "tls_hello_matched g s st =
     (let c = fst st; t = snd st; (ok, sl) = secret_gate g (ec_ip c) (ec_ipv6 c) (slots t ! s) in
      (if ok then c\<lparr>ec_tls := True\<rparr> else c\<lparr>ec_extra_int2 := 0, ec_type := Ct_proxy_pass\<rparr>,
       t\<lparr>slots := (slots t)[s := sl]\<rparr>))"

text \<open>The type a client has in direct mode.\<close>

definition direct_client_type :: "ext_conn \<Rightarrow> ext_conn" where
  "direct_client_type c = c\<lparr>ec_type := (if ec_tls c then Ct_direct_client_drs else Ct_direct_client)\<rparr>"

definition is_direct_client :: "ext_conn \<Rightarrow> bool" where
  "is_direct_client c \<longleftrightarrow> ec_type c = Ct_direct_client \<or> ec_type c = Ct_direct_client_drs"

text \<open>\<open>mtproto_ext_rpc_close\<close>, and the part of \<open>tcp_direct_close\<close> for a client; the number is
  \<open>direct_dc_connections_active\<close>.\<close>

definition uncharge :: "ext_conn \<Rightarrow> secret_table \<Rightarrow> secret_table" where
  "uncharge c t =
     (let sid = ec_extra_int2 c in
      if sid > 0 \<and> sid \<le> int EXT_SECRET_MAX_SLOTS
      then t\<lparr>slots := (slots t)[nat (sid - 1) := uncount_connection (ec_ip c) (ec_ipv6 c) (slots t ! nat (sid - 1))]\<rparr>
      else t)"

definition mtproto_ext_rpc_close :: "ext_conn \<Rightarrow> secret_table \<Rightarrow> secret_table" where
  "mtproto_ext_rpc_close c t = uncharge c t"

definition tcp_direct_close :: "ext_conn \<Rightarrow> secret_table \<times> int \<Rightarrow> secret_table \<times> int" where
  "tcp_direct_close c st =
     (if is_direct_client c \<and> snd st > 0 then (uncharge c (fst st), snd st - 1) else st)"

definition close_connection :: "ext_conn \<Rightarrow> secret_table \<times> int \<Rightarrow> secret_table \<times> int" where
  "close_connection c st =
     (if ec_type c = Ct_proxy_pass then st
      else if is_direct_client c \<or> ec_type c = Ct_direct_dc then tcp_direct_close c st
      else (mtproto_ext_rpc_close c (fst st), snd st))"

text \<open>The bytes of a relay: from the client (\<open>tcp_direct_client_parse_execute\<close>) or to it
  (\<open>tcp_direct_dc_parse_execute\<close>); \<open>False\<close> when the quota is used up.\<close>

definition charge_bytes :: "server_globals \<Rightarrow> bool \<Rightarrow> int \<Rightarrow> secret_slot \<Rightarrow> bool \<times> secret_slot" where
  "charge_bytes g from_client n sl =
     (let c = counters sl;
          sl1 = sl\<lparr>counters := (if from_client then c\<lparr>per_secret_bytes_received := per_secret_bytes_received c + n\<rparr>
                                else c\<lparr>per_secret_bytes_sent := per_secret_bytes_sent c + n\<rparr>)\<rparr> in
      if secret_over_quota g sl1 then (False, sl1\<lparr>counters := count_reject Rej_quota (counters sl1)\<rparr>)
      else (True, sl1))"

definition direct_relay ::
  "(real \<Rightarrow> real) \<Rightarrow> server_globals \<Rightarrow> bool \<Rightarrow> int \<Rightarrow> ext_conn \<Rightarrow> secret_table \<times> relay_conn
   \<Rightarrow> (bool \<times> secret_table \<times> relay_conn) option" where
  "direct_relay rnd g from_client n c st =
     (let t = fst st; sid = ec_extra_int2 c in
      if sid > 0 \<and> sid \<le> int EXT_SECRET_MAX_SLOTS \<and> n > 0 then
        let s = nat (sid - 1); (ok, sl) = charge_bytes g from_client n (slots t ! s) in
        if \<not> ok then Some (False, t\<lparr>slots := (slots t)[s := sl]\<rparr>, snd st)
        else do {
          (sl2, rc) \<leftarrow> rate_limit_after_relay rnd g n (ec_ip c) (ec_ipv6 c) (sl, snd st);
          Some (True, t\<lparr>slots := (slots t)[s := sl2]\<rparr>, rc)
        }
      else Some (True, st))"

subsection \<open>What a reload keeps\<close>

text \<open>Pinned slots are untouched; a slot in use stays in use with its key, its counters and its
  addresses; a free slot is left alone or starts from zero.\<close>

definition slot_kept :: "secret_slot \<Rightarrow> secret_slot \<Rightarrow> bool" where
  "slot_kept sl sl' \<longleftrightarrow>
     (if in_use sl
      then in_use sl' \<and> slot_key sl' = slot_key sl \<and> counters sl' = counters sl \<and>
           per_secret_ips sl' = per_secret_ips sl \<and> per_secret_unique_ip_count sl' = per_secret_unique_ip_count sl
      else sl' = sl \<or> in_use sl' \<and> counters sl' = zero_counters \<and>
           per_secret_ips sl' = replicate SECRET_MAX_TRACKED_IPS zero_tracked \<and> per_secret_unique_ip_count sl' = 0)"

definition reload_kept :: "nat \<Rightarrow> slot_list \<Rightarrow> slot_list \<Rightarrow> bool" where
  "reload_kept pinned sls sls' \<longleftrightarrow> length sls' = length sls \<and>
     (\<forall>s<length sls. slot_kept (sls ! s) (sls' ! s) \<and> (s < pinned \<longrightarrow> sls' ! s = sls ! s))"

lemma slot_kept_refl [simp]: "slot_kept sl sl"
  by (simp add: slot_kept_def)

lemma slot_kept_trans: "slot_kept a b \<Longrightarrow> slot_kept b c \<Longrightarrow> slot_kept a c"
  by (auto simp: slot_kept_def split: if_splits)

lemma reload_kept_refl [simp]: "reload_kept pinned sls sls"
  by (simp add: reload_kept_def)

lemma reload_kept_trans [trans]: "reload_kept pinned a b \<Longrightarrow> reload_kept pinned b c \<Longrightarrow> reload_kept pinned a c"
  by (auto simp: reload_kept_def intro: slot_kept_trans)

lemma reload_kept_update:
  assumes "pinned \<le> s" "slot_kept (sls ! s) sl"
  shows "reload_kept pinned sls (sls[s := sl])"
proof -
  have "slot_kept (sls ! i) (sls[s := sl] ! i)" if "i < length sls" for i
    using assms(2) that by (cases "i = s") auto
  then show ?thesis using assms(1) by (auto simp: reload_kept_def)
qed

lemma refresh_slot_fields [simp]:
  "ext_secret_state (refresh_slot s c sl) = SLOT_ACTIVE" "slot_key (refresh_slot s c sl) = sc_key c"
  "in_use (refresh_slot s c sl)"
  by (simp_all add: refresh_slot_def in_use_def)

lemma fresh_slot_fields [simp]:
  "ext_secret_state (fresh_slot s c sl) = SLOT_ACTIVE" "slot_key (fresh_slot s c sl) = sc_key c"
  "in_use (fresh_slot s c sl)"
  by (simp_all add: fresh_slot_def tcp_rpcs_ip_track_clear_slot_def in_use_def refresh_slot_def)

lemma refresh_slot_kept: "in_use sl \<Longrightarrow> slot_key sl = sc_key c \<Longrightarrow> slot_kept sl (refresh_slot s c sl)"
  by (simp add: slot_kept_def) (simp add: refresh_slot_def)

lemma fresh_slot_kept: "\<not> in_use sl \<Longrightarrow> slot_kept sl (fresh_slot s c sl)"
  by (simp add: slot_kept_def) (simp add: fresh_slot_def tcp_rpcs_ip_track_clear_slot_def)

text \<open>A slot with a key of the configuration that will stay active.\<close>

definition holds_key :: "nat \<Rightarrow> slot_list \<Rightarrow> bool list \<Rightarrow> bytes \<Rightarrow> bool" where
  "holds_key pinned sls cand k \<longleftrightarrow>
     (\<exists>s<length sls. pinned \<le> s \<and> ext_secret_state (sls ! s) = SLOT_ACTIVE \<and> slot_key (sls ! s) = k \<and> \<not> cand ! s)"

text \<open>What holds between the passes: the candidates are not pinned, and the active slots that are no
  candidates have a configured key.\<close>

definition match_inv :: "nat \<Rightarrow> bytes set \<Rightarrow> slot_list \<times> bool list \<Rightarrow> bool" where
  "match_inv pinned K r \<longleftrightarrow>
     (case r of (sls, cand) \<Rightarrow> length cand = length sls \<and>
       (\<forall>s<length sls. cand ! s \<longrightarrow> pinned \<le> s \<and> in_use (sls ! s)) \<and>
       (\<forall>s<length sls. pinned \<le> s \<and> ext_secret_state (sls ! s) = SLOT_ACTIVE \<longrightarrow> cand ! s \<or> slot_key (sls ! s) \<in> K))"

lemma match_inv_start: "match_inv pinned K (sls, drain_candidates pinned sls)"
  by (auto simp: match_inv_def drain_candidates_def in_use_def)

lemma match_inv_refresh:
  assumes "match_inv pinned K (sls, cand)" "s < length sls" "pinned \<le> s" "sc_key c \<in> K"
  shows "match_inv pinned K (sls[s := refresh_slot s c (sls ! s)], cand[s := False])"
  using assms by (auto simp: match_inv_def nth_list_update)

lemma holds_key_refresh:
  assumes "holds_key pinned sls cand k" "s < length sls" "pinned \<le> s" "length cand = length sls"
    "slot_key (sls ! s) = sc_key c"
  shows "holds_key pinned (sls[s := refresh_slot s c (sls ! s)]) (cand[s := False]) k"
  using assms unfolding holds_key_def by (auto simp: nth_list_update) (metis refresh_slot_fields(1,2))

lemma reload_match_correct:
  assumes "reload_match pinned cs (sls, cand) = ((sls', cand'), rest)"
    and "match_inv pinned K (sls, cand)" "sc_key ` set cs \<subseteq> K" "\<forall>k\<in>H. holds_key pinned sls cand k"
  shows "reload_kept pinned sls sls' \<and> match_inv pinned K (sls', cand') \<and>
    (\<forall>k\<in>H \<union> sc_key ` set cs. holds_key pinned sls' cand' k \<or> k \<in> sc_key ` set rest) \<and>
    (\<forall>k\<in>H. holds_key pinned sls' cand' k) \<and> set rest \<subseteq> set cs"
  using assms
proof (induction cs arbitrary: sls cand sls' cand' rest H)
  case Nil
  then show ?case by auto
next
  case (Cons c cs)
  let ?p = "\<lambda>sl. in_use sl \<and> slot_key sl = sc_key c"
  show ?case
  proof (cases "first_index_from pinned ?p sls")
    case None
    with Cons.prems(1) obtain rest0 where r: "reload_match pinned cs (sls, cand) = ((sls', cand'), rest0)"
      and rest: "rest = c # rest0" by (auto split: prod.splits)
    from Cons.IH [OF r Cons.prems(2) _ Cons.prems(4)] Cons.prems(3) show ?thesis unfolding rest by auto
  next
    case (Some s)
    then have s: "pinned \<le> s" "s < length sls" "in_use (sls ! s)" "slot_key (sls ! s) = sc_key c"
      by (auto elim: first_index_from_SomeE)
    let ?sls = "sls[s := refresh_slot s c (sls ! s)]" and ?cand = "cand[s := False]"
    have r: "reload_match pinned cs (?sls, ?cand) = ((sls', cand'), rest)" using Cons.prems(1) Some by simp
    have lc: "length cand = length sls" using Cons.prems(2) by (simp add: match_inv_def)
    have inv: "match_inv pinned K (?sls, ?cand)" using match_inv_refresh [OF Cons.prems(2) s(2,1)] Cons.prems(3) by auto
    have "holds_key pinned ?sls ?cand (sc_key c)"
      using s lc unfolding holds_key_def by (intro exI [of _ s]) simp
    then have H: "\<forall>k\<in>insert (sc_key c) H. holds_key pinned ?sls ?cand k"
      using Cons.prems(4) holds_key_refresh [OF _ s(2,1) lc s(4)] by auto
    have "reload_kept pinned sls ?sls" using s refresh_slot_kept by (intro reload_kept_update) auto
    with Cons.IH [OF r inv _ H] Cons.prems(3) show ?thesis by (auto intro: reload_kept_trans)
  qed
qed

lemma nth_drain_removed:
  assumes "length cand = length sls" "s < length sls"
  shows "drain_removed t cand sls ! s =
    (if cand ! s then (sls ! s)\<lparr>ext_secret_state := SLOT_DRAINING, ext_secret_drain_started_at := t\<rparr> else sls ! s)"
  using assms by (simp add: drain_removed_def)

lemma drain_removed_correct:
  assumes "match_inv pinned K (sls, cand)" "sls' = drain_removed t cand sls"
  shows "reload_kept pinned sls sls'"
    and "holds_key pinned sls cand k \<Longrightarrow> \<exists>s<length sls'. pinned \<le> s \<and> ext_secret_state (sls' ! s) = SLOT_ACTIVE \<and> slot_key (sls' ! s) = k"
    and "s < length sls' \<Longrightarrow> pinned \<le> s \<Longrightarrow> ext_secret_state (sls' ! s) = SLOT_ACTIVE \<Longrightarrow> slot_key (sls' ! s) \<in> K"
proof -
  have len: "length cand = length sls" using assms(1) by (simp add: match_inv_def)
  then have len': "length sls' = length sls" by (simp add: assms(2) drain_removed_def)
  note nth = nth_drain_removed [OF len, of _ t, folded assms(2)]
  show "reload_kept pinned sls sls'"
    using assms(1) len' nth by (auto simp: reload_kept_def slot_kept_def match_inv_def in_use_def)
  show "\<exists>s<length sls'. pinned \<le> s \<and> ext_secret_state (sls' ! s) = SLOT_ACTIVE \<and> slot_key (sls' ! s) = k"
    if "holds_key pinned sls cand k"
    using that len' nth unfolding holds_key_def by metis
  show "slot_key (sls' ! s) \<in> K" if "s < length sls'" "pinned \<le> s" "ext_secret_state (sls' ! s) = SLOT_ACTIVE"
    using that assms(1) len' nth [of s] by (auto simp: match_inv_def split: if_splits)
qed

text \<open>The keys of the slots that a reload may change and that are active.\<close>

definition active_keys :: "nat \<Rightarrow> slot_list \<Rightarrow> bytes set" where
  "active_keys n sls = {slot_key (sls ! s) |s. s < length sls \<and> n \<le> s \<and> ext_secret_state (sls ! s) = SLOT_ACTIVE}"

lemma active_keys_alloc:
  assumes "pinned \<le> s" "s < length sls" "\<not> in_use (sls ! s)"
  shows "active_keys pinned (sls[s := fresh_slot s c (sls ! s)]) = insert (sc_key c) (active_keys pinned sls)"
proof (intro equalityI subsetI)
  fix k assume "k \<in> active_keys pinned (sls[s := fresh_slot s c (sls ! s)])"
  then obtain j where "j < length sls" "pinned \<le> j" "k = slot_key (sls[s := fresh_slot s c (sls ! s)] ! j)"
    "ext_secret_state (sls[s := fresh_slot s c (sls ! s)] ! j) = SLOT_ACTIVE" by (auto simp: active_keys_def)
  then show "k \<in> insert (sc_key c) (active_keys pinned sls)"
    by (cases "j = s") (auto simp: active_keys_def)
next
  fix k assume "k \<in> insert (sc_key c) (active_keys pinned sls)"
  then consider "k = sc_key c" | j where "j < length sls" "pinned \<le> j" "ext_secret_state (sls ! j) = SLOT_ACTIVE"
    "k = slot_key (sls ! j)" by (auto simp: active_keys_def)
  then show "k \<in> active_keys pinned (sls[s := fresh_slot s c (sls ! s)])"
  proof cases
    case 1
    with assms show ?thesis unfolding active_keys_def by (auto intro!: exI [of _ s])
  next
    case 2
    then have "j \<noteq> s" using assms(3) by (auto simp: in_use_def)
    with 2 show ?thesis unfolding active_keys_def by (auto intro!: exI [of _ j])
  qed
qed

lemma reload_alloc_correct:
  "reload_alloc pinned cs sls = (ok, sls') \<Longrightarrow>
     reload_kept pinned sls sls' \<and> (ok \<longrightarrow> active_keys pinned sls' = active_keys pinned sls \<union> sc_key ` set cs)"
proof (induction cs arbitrary: sls)
  case (Cons c cs)
  show ?case
  proof (cases "first_index_from pinned (\<lambda>sl. \<not> in_use sl) sls")
    case (Some s)
    then have s: "pinned \<le> s" "s < length sls" "\<not> in_use (sls ! s)" by (auto elim: first_index_from_SomeE)
    have "reload_kept pinned sls (sls[s := fresh_slot s c (sls ! s)])"
      using s fresh_slot_kept by (intro reload_kept_update) auto
    with Cons.IH [of "sls[s := fresh_slot s c (sls ! s)]"] Cons.prems Some active_keys_alloc [OF s] show ?thesis
      by (auto intro: reload_kept_trans)
  qed (use Cons.prems in auto)
qed auto

lemma high_water_fold:
  "let hw = fold (\<lambda>s hw. if in_use (sls ! s) \<and> s + 1 > hw then s + 1 else hw) ss n in
   n \<le> hw \<and> (\<forall>s\<in>set ss. in_use (sls ! s) \<longrightarrow> s < hw) \<and> (hw = n \<or> (\<exists>s\<in>set ss. in_use (sls ! s) \<and> hw = s + 1))"
proof (induction ss arbitrary: n)
  case (Cons s ss)
  show ?case using Cons.IH [of n] Cons.IH [of "s + 1"] by (auto simp: Let_def)
qed simp

lemma high_water_bounds:
  "pinned \<le> high_water pinned sls" "high_water pinned sls \<le> max pinned (length sls)"
  "s < length sls \<Longrightarrow> in_use (sls ! s) \<Longrightarrow> s < high_water pinned sls"
  using high_water_fold [of sls "[pinned..<length sls]" pinned] unfolding high_water_def Let_def
  by (auto simp: not_le less_le_trans)

text \<open>The shape every table has after the start.\<close>

definition table_ok :: "secret_table \<Rightarrow> bool" where
  "table_ok t \<longleftrightarrow> length (slots t) = EXT_SECRET_MAX_SLOTS \<and> ext_secret_pinned t \<le> EXT_SECRET_MAX_ACTIVE \<and>
     ext_secret_pinned t \<le> ext_secret_cnt t \<and> ext_secret_cnt t \<le> EXT_SECRET_MAX_SLOTS \<and>
     (\<forall>s<ext_secret_pinned t. ext_secret_state (slots t ! s) = SLOT_ACTIVE)"

lemma max_active_slots: "EXT_SECRET_MAX_ACTIVE \<le> EXT_SECRET_MAX_SLOTS"
  by (simp add: EXT_SECRET_MAX_ACTIVE_def EXT_SECRET_MAX_SLOTS_def)

lemma active_keys_split:
  assumes "table_ok t"
  shows "active_keys 0 (slots t) = slot_key ` set (take (ext_secret_pinned t) (slots t)) \<union> active_keys (ext_secret_pinned t) (slots t)"
proof (intro equalityI subsetI)
  fix k assume "k \<in> active_keys 0 (slots t)"
  then obtain s where s: "s < length (slots t)" "ext_secret_state (slots t ! s) = SLOT_ACTIVE" "k = slot_key (slots t ! s)"
    by (auto simp: active_keys_def)
  show "k \<in> slot_key ` set (take (ext_secret_pinned t) (slots t)) \<union> active_keys (ext_secret_pinned t) (slots t)"
  proof (cases "s < ext_secret_pinned t")
    case True
    then have "slots t ! s \<in> set (take (ext_secret_pinned t) (slots t))" using s(1) by (auto simp: in_set_conv_nth)
    then show ?thesis using s(3) by blast
  next
    case False
    then show ?thesis using s by (auto simp: active_keys_def)
  qed
next
  fix k assume "k \<in> slot_key ` set (take (ext_secret_pinned t) (slots t)) \<union> active_keys (ext_secret_pinned t) (slots t)"
  then show "k \<in> active_keys 0 (slots t)"
    using assms by (auto simp: active_keys_def table_ok_def in_set_conv_nth) (metis less_le_trans)
qed

lemma compact_high_water:
  assumes "ext_secret_cnt t = high_water n (slots t)" "n \<le> length (slots t)"
  shows "compact_to_slot t = filter (\<lambda>s. in_use (slots t ! s)) [0..<length (slots t)]"
proof -
  let ?hw = "high_water n (slots t)"
  have "?hw \<le> length (slots t)" using high_water_bounds(2) [of n "slots t"] assms(2) by simp
  then have "[0..<length (slots t)] = [0..<?hw] @ [?hw..<length (slots t)]"
    using upt_add_eq_append [of 0 ?hw "length (slots t) - ?hw"] by simp
  moreover have "filter (\<lambda>s. in_use (slots t ! s)) [?hw..<length (slots t)] = []"
    using high_water_bounds(3) [of _ "slots t" n] by (force simp: filter_empty_conv)
  ultimately show ?thesis by (simp add: compact_to_slot_def assms(1) in_use_def)
qed

text \<open>The steps of a reload and what each contributes.\<close>

lemma reload_steps:
  assumes "tcp_rpcs_reload_ext_secrets g cfgs t = Some (rc, t')"
  obtains sls1 cand rest ok sls3 where
    "reload_match (ext_secret_pinned t) (filter (\<lambda>c. \<not> collides (ext_secret_pinned t) (slots t) c) cfgs)
       (slots t, drain_candidates (ext_secret_pinned t) (slots t)) = ((sls1, cand), rest)"
    "reload_alloc (ext_secret_pinned t) rest (drain_removed (precise_now g) cand sls1) = (ok, sls3)"
    "rc = (if ok \<and> active_total (ext_secret_pinned t) sls3 \<le> EXT_SECRET_MAX_ACTIVE then 0 else -1)"
    "t' = t\<lparr>slots := sls3, ext_secret_cnt := (if rc = 0 then high_water (ext_secret_pinned t) sls3 else ext_secret_cnt t)\<rparr>"
proof -
  obtain sls1 cand rest where m: "reload_match (ext_secret_pinned t) (filter (\<lambda>c. \<not> collides (ext_secret_pinned t) (slots t) c) cfgs)
       (slots t, drain_candidates (ext_secret_pinned t) (slots t)) = ((sls1, cand), rest)"
    by (metis surj_pair)
  obtain ok sls3 where a: "reload_alloc (ext_secret_pinned t) rest (drain_removed (precise_now g) cand sls1) = (ok, sls3)"
    by (rule prod.exhaust)
  have "rc = (if ok \<and> active_total (ext_secret_pinned t) sls3 \<le> EXT_SECRET_MAX_ACTIVE then 0 else -1) \<and>
    t' = t\<lparr>slots := sls3, ext_secret_cnt := (if rc = 0 then high_water (ext_secret_pinned t) sls3 else ext_secret_cnt t)\<rparr>"
    using assms m a by (auto simp: tcp_rpcs_reload_ext_secrets_def Let_def split: if_splits)
  with that m a show ?thesis by blast
qed

lemma reload_passes:
  assumes "reload_match pinned todo (sls, drain_candidates pinned sls) = ((sls1, cand), rest)"
    and "reload_alloc pinned rest (drain_removed t cand sls1) = (ok, sls3)"
  shows "reload_kept pinned sls sls3 \<and> (ok \<longrightarrow> active_keys pinned sls3 = sc_key ` set todo)"
proof -
  let ?K = "sc_key ` set todo" and ?sls2 = "drain_removed t cand sls1"
  have m: "reload_kept pinned sls sls1" "match_inv pinned ?K (sls1, cand)" "set rest \<subseteq> set todo"
    "\<forall>k\<in>?K. holds_key pinned sls1 cand k \<or> k \<in> sc_key ` set rest"
    using reload_match_correct [OF assms(1) match_inv_start subset_refl, of "{}"] by auto
  note d = drain_removed_correct [OF m(2) refl, where t = t]
  note a = reload_alloc_correct [OF assms(2)]
  have "active_keys pinned ?sls2 \<subseteq> ?K" using d(3) by (auto simp: active_keys_def)
  moreover have "k \<in> active_keys pinned ?sls2 \<union> sc_key ` set rest" if "k \<in> ?K" for k
  proof (cases "k \<in> sc_key ` set rest")
    case False
    then have "holds_key pinned sls1 cand k" using m(4) that by blast
    from d(2) [OF this] show ?thesis by (auto simp: active_keys_def)
  qed simp
  ultimately have "active_keys pinned ?sls2 \<union> sc_key ` set rest = ?K" using m(3) by auto
  with a reload_kept_trans [OF reload_kept_trans [OF m(1) d(1)]] show ?thesis by simp
qed

definition pinned_keys :: "secret_table \<Rightarrow> bytes set" where
  "pinned_keys t = slot_key ` set (take (ext_secret_pinned t) (slots t))"

lemma reload_kept_table_ok:
  assumes "tcp_rpcs_reload_ext_secrets g cfgs t = Some (rc, t')" "table_ok t"
  shows "reload_kept (ext_secret_pinned t) (slots t) (slots t')" "ext_secret_pinned t' = ext_secret_pinned t"
    "drain_timeout_secs t' = drain_timeout_secs t" "table_ok t'"
proof -
  obtain sls1 cand rest ok sls3 where
    r: "reload_match (ext_secret_pinned t) (filter (\<lambda>c. \<not> collides (ext_secret_pinned t) (slots t) c) cfgs)
       (slots t, drain_candidates (ext_secret_pinned t) (slots t)) = ((sls1, cand), rest)"
    "reload_alloc (ext_secret_pinned t) rest (drain_removed (precise_now g) cand sls1) = (ok, sls3)"
    and "rc = (if ok \<and> active_total (ext_secret_pinned t) sls3 \<le> EXT_SECRET_MAX_ACTIVE then 0 else -1)"
    and t': "t' = t\<lparr>slots := sls3, ext_secret_cnt := (if rc = 0 then high_water (ext_secret_pinned t) sls3 else ext_secret_cnt t)\<rparr>"
    by (rule reload_steps [OF assms(1)])
  show k: "reload_kept (ext_secret_pinned t) (slots t) (slots t')" "ext_secret_pinned t' = ext_secret_pinned t"
    "drain_timeout_secs t' = drain_timeout_secs t"
    using reload_passes [OF r] t' by simp_all
  have "high_water (ext_secret_pinned t) sls3 \<le> EXT_SECRET_MAX_SLOTS" "ext_secret_pinned t \<le> high_water (ext_secret_pinned t) sls3"
    using high_water_bounds(1,2) [of "ext_secret_pinned t" sls3] k(1) t' assms(2) max_active_slots
    by (auto simp: table_ok_def reload_kept_def)
  then show "table_ok t'" using assms(2) k(1) max_active_slots by (auto simp: table_ok_def reload_kept_def t')
qed

lemma reload_result:
  assumes "table_ok t" "tcp_rpcs_reload_ext_secrets g cfgs t = Some (rc, t')"
  shows "reload_kept (ext_secret_pinned t) (slots t) (slots t') \<and>
    (rc = -1 \<and> ext_secret_cnt t' = ext_secret_cnt t \<or>
     rc = 0 \<and>
     active_keys 0 (slots t') = pinned_keys t \<union> sc_key ` set cfgs \<and>
     (\<forall>s<EXT_SECRET_MAX_SLOTS. ext_secret_pinned t \<le> s \<and> in_use (slots t ! s) \<and>
        slot_key (slots t ! s) \<notin> sc_key ` set cfgs \<longrightarrow> ext_secret_state (slots t' ! s) = SLOT_DRAINING) \<and>
     length (filter (\<lambda>sl. ext_secret_state sl = SLOT_ACTIVE) (slots t')) \<le> EXT_SECRET_MAX_ACTIVE \<and>
     compact_to_slot t' = filter (\<lambda>s. in_use (slots t' ! s)) [0..<EXT_SECRET_MAX_SLOTS])"
proof -
  let ?n = "ext_secret_pinned t"
  note kt = reload_kept_table_ok [OF assms(2,1)]
  have n: "?n \<le> length (slots t')" "length (slots t') = EXT_SECRET_MAX_SLOTS" "length (slots t) = EXT_SECRET_MAX_SLOTS"
    using kt(2,4) assms(1) max_active_slots by (auto simp: table_ok_def)
  obtain sls1 cand rest ok sls3 where
    r0: "reload_match ?n (filter (\<lambda>c. \<not> collides ?n (slots t) c) cfgs) (slots t, drain_candidates ?n (slots t)) = ((sls1, cand), rest)"
    "reload_alloc ?n rest (drain_removed (precise_now g) cand sls1) = (ok, sls3)"
    and rc0: "rc = (if ok \<and> active_total ?n sls3 \<le> EXT_SECRET_MAX_ACTIVE then 0 else -1)"
    and t': "t' = t\<lparr>slots := sls3, ext_secret_cnt := (if rc = 0 then high_water ?n sls3 else ext_secret_cnt t)\<rparr>"
    by (rule reload_steps [OF assms(2)])
  have s3: "sls3 = slots t'" and cnt: "ext_secret_cnt t' = (if rc = 0 then high_water ?n (slots t') else ext_secret_cnt t)"
    using t' by simp_all
  note r = r0 [unfolded s3] and rc = rc0 [unfolded s3]
  show ?thesis
  proof (cases "rc = 0")
    case True
    then have ok: "ok" and at: "active_total ?n (slots t') \<le> EXT_SECRET_MAX_ACTIVE" using rc by (auto split: if_splits)
    let ?todo = "filter (\<lambda>c. \<not> collides ?n (slots t) c) cfgs"
    have keys: "active_keys ?n (slots t') = sc_key ` set ?todo" using reload_passes [OF r] ok by simp
    have pin: "take ?n (slots t') = take ?n (slots t)"
      using kt(1) n by (intro nth_equalityI) (auto simp: reload_kept_def)
    have "active_keys 0 (slots t') = slot_key ` set (take ?n (slots t')) \<union> active_keys ?n (slots t')"
      using active_keys_split [OF kt(4)] kt(2) by simp
    moreover have "pinned_keys t \<union> sc_key ` set ?todo = pinned_keys t \<union> sc_key ` set cfgs"
      by (force simp: pinned_keys_def collides_def list_ex_iff)
    ultimately have all: "active_keys 0 (slots t') = pinned_keys t \<union> sc_key ` set cfgs"
      using keys pin by (simp add: pinned_keys_def)
    have "ext_secret_state (slots t' ! s) = SLOT_DRAINING"
      if "s < EXT_SECRET_MAX_SLOTS" "?n \<le> s" "in_use (slots t ! s)" "slot_key (slots t ! s) \<notin> sc_key ` set cfgs" for s
    proof -
      have "slot_key (slots t' ! s) = slot_key (slots t ! s)" "in_use (slots t' ! s)"
        using kt(1) that n by (auto simp: reload_kept_def slot_kept_def split: if_splits)
      moreover have "slot_key (slots t' ! s) \<in> sc_key ` set cfgs" if "ext_secret_state (slots t' ! s) = SLOT_ACTIVE"
        using keys that \<open>s < _\<close> \<open>?n \<le> s\<close> n(2) unfolding active_keys_def by auto
      ultimately show ?thesis using that(4) by (cases "ext_secret_state (slots t' ! s)") (auto simp: in_use_def)
    qed
    moreover have "length (filter (\<lambda>sl. ext_secret_state sl = SLOT_ACTIVE) (slots t')) \<le> active_total ?n (slots t')"
      using n(1) length_filter_le [of "\<lambda>sl. ext_secret_state sl = SLOT_ACTIVE" "take ?n (slots t')"]
      by (subst append_take_drop_id [symmetric, of "slots t'" ?n], unfold filter_append length_append)
         (simp add: active_total_def)
    moreover have "compact_to_slot t' = filter (\<lambda>s. in_use (slots t' ! s)) [0..<EXT_SECRET_MAX_SLOTS]"
      using compact_high_water [of t' ?n] cnt True n by simp
    ultimately show ?thesis using True all at kt(1) by (intro conjI disjI2) (assumption | blast | linarith)+
  next
    case False
    then show ?thesis using rc cnt kt(1) by (auto split: if_splits)
  qed
qed

text \<open>C12: (reload). Whatever configuration is loaded, and also when the reload fails, pinned slots are
  untouched and every slot in use stays in use with its key, counters and addresses, so that running
  connections are not disturbed. When it succeeds, the keys that are accepted are exactly those of the
  pinned slots and of the configuration, every other slot in use is draining, at most sixteen slots
  are active, and a header is compared with exactly the slots in use. When it fails the count stays.\<close>

theorem reload_correct:
  assumes "table_ok t" "tcp_rpcs_reload_ext_secrets g cfgs t = Some (rc, t')"
  shows "reload_kept (ext_secret_pinned t) (slots t) (slots t') \<and>
    (rc = -1 \<and> ext_secret_cnt t' = ext_secret_cnt t \<or>
     rc = 0 \<and>
     active_keys 0 (slots t') = pinned_keys t \<union> sc_key ` set cfgs \<and>
     (\<forall>s<EXT_SECRET_MAX_SLOTS. ext_secret_pinned t \<le> s \<and> in_use (slots t ! s) \<and>
        slot_key (slots t ! s) \<notin> sc_key ` set cfgs \<longrightarrow> ext_secret_state (slots t' ! s) = SLOT_DRAINING) \<and>
     length (filter (\<lambda>sl. ext_secret_state sl = SLOT_ACTIVE) (slots t')) \<le> EXT_SECRET_MAX_ACTIVE \<and>
     compact_to_slot t' = filter (\<lambda>s. in_use (slots t' ! s)) [0..<EXT_SECRET_MAX_SLOTS])"
  by (rule reload_result [OF assms])

subsection \<open>When a reload succeeds\<close>

definition slots_where :: "nat \<Rightarrow> (nat \<Rightarrow> bool) \<Rightarrow> slot_list \<Rightarrow> nat set" where
  "slots_where pinned p sls = {s. pinned \<le> s \<and> s < length sls \<and> p s}"

lemma finite_slots_where [simp]: "finite (slots_where n p sls)"
  by (simp add: slots_where_def)

abbreviation settled :: "nat \<Rightarrow> slot_list \<Rightarrow> bool list \<Rightarrow> nat set" where
  "settled n sls cand \<equiv> slots_where n (\<lambda>s. ext_secret_state (sls ! s) = SLOT_ACTIVE \<and> \<not> cand ! s) sls"

abbreviation free_slots :: "nat \<Rightarrow> slot_list \<Rightarrow> nat set" where
  "free_slots n sls \<equiv> slots_where n (\<lambda>s. \<not> in_use (sls ! s)) sls"

abbreviation active_slots :: "nat \<Rightarrow> slot_list \<Rightarrow> nat set" where
  "active_slots n sls \<equiv> slots_where n (\<lambda>s. ext_secret_state (sls ! s) = SLOT_ACTIVE) sls"

lemma reload_match_counts:
  "reload_match n cs (sls, cand) = ((sls', cand'), rest) \<Longrightarrow>
     card (settled n sls' cand') + length rest \<le> card (settled n sls cand) + length cs \<and>
     free_slots n sls' = free_slots n sls"
proof (induction cs arbitrary: sls cand rest)
  case (Cons c cs)
  show ?case
  proof (cases "first_index_from n (\<lambda>sl. in_use sl \<and> slot_key sl = sc_key c) sls")
    case None
    with Cons show ?thesis by (auto split: prod.splits)
  next
    case (Some s)
    then have s: "s < length sls" "in_use (sls ! s)" by (auto elim: first_index_from_SomeE)
    let ?sls = "sls[s := refresh_slot s c (sls ! s)]" and ?cand = "cand[s := False]"
    have nth: "?sls ! j = sls ! j" "?cand ! j = cand ! j" if "j \<noteq> s" for j using that by simp_all
    have "settled n ?sls ?cand \<subseteq> insert s (settled n sls cand)"
      using nth by (auto simp: slots_where_def)
    then have "card (settled n ?sls ?cand) \<le> card (insert s (settled n sls cand))" by (intro card_mono) auto
    also have "\<dots> \<le> Suc (card (settled n sls cand))" by (simp add: card_insert_if)
    finally have c: "card (settled n ?sls ?cand) \<le> Suc (card (settled n sls cand))" .
    have "in_use (?sls ! j) = in_use (sls ! j)" if "j < length sls" for j using s that by (cases "j = s") auto
    then have "free_slots n ?sls = free_slots n sls" by (auto simp: slots_where_def)
    with Cons.IH [of ?sls ?cand rest] Cons.prems Some c show ?thesis by auto
  qed
qed auto

lemma reload_alloc_counts:
  "length cs \<le> card (free_slots n sls) \<Longrightarrow>
     \<exists>sls'. reload_alloc n cs sls = (True, sls') \<and> card (active_slots n sls') \<le> card (active_slots n sls) + length cs"
proof (induction cs arbitrary: sls)
  case (Cons c cs)
  then obtain s0 where "s0 \<in> free_slots n sls" by (cases "free_slots n sls = {}") auto
  then obtain s where f: "first_index_from n (\<lambda>sl. \<not> in_use sl) sls = Some s"
    using first_index_from_None [of n "\<lambda>sl. \<not> in_use sl" sls s0] by (cases "first_index_from n (\<lambda>sl. \<not> in_use sl) sls") (auto simp: slots_where_def)
  then have s: "n \<le> s" "s < length sls" "\<not> in_use (sls ! s)" by (auto elim: first_index_from_SomeE)
  let ?sls = "sls[s := fresh_slot s c (sls ! s)]"
  have nth: "?sls ! j = sls ! j" if "j \<noteq> s" for j using that by simp
  have "in_use (?sls ! j) \<longleftrightarrow> j = s \<or> in_use (sls ! j)" if "j < length sls" for j
    using s(2) nth [of j] by (cases "j = s") simp_all
  then have "free_slots n ?sls = free_slots n sls - {s}" by (auto simp: slots_where_def)
  moreover have "s \<in> free_slots n sls" using s by (simp add: slots_where_def)
  ultimately have "length cs \<le> card (free_slots n ?sls)" using Cons.prems by simp
  moreover have "active_slots n ?sls \<subseteq> insert s (active_slots n sls)" using nth by (auto simp: slots_where_def)
  then have "card (active_slots n ?sls) \<le> card (insert s (active_slots n sls))" by (intro card_mono) auto
  then have "card (active_slots n ?sls) \<le> Suc (card (active_slots n sls))" by (simp add: card_insert_if split: if_splits)
  ultimately show ?case using Cons.IH [of ?sls] f by fastforce
qed auto

lemma active_total_card: "active_total n sls = n + card (active_slots n sls)"
proof -
  have "length (filter (\<lambda>sl. ext_secret_state sl = SLOT_ACTIVE) (drop n sls)) =
      card {i. i < length sls - n \<and> ext_secret_state (drop n sls ! i) = SLOT_ACTIVE}"
    by (simp add: length_filter_conv_card)
  also have "\<dots> = card ((\<lambda>i. i + n) ` {i. i < length sls - n \<and> ext_secret_state (drop n sls ! i) = SLOT_ACTIVE})"
    by (simp add: card_image inj_on_def)
  also have "(\<lambda>i. i + n) ` {i. i < length sls - n \<and> ext_secret_state (drop n sls ! i) = SLOT_ACTIVE} = active_slots n sls"
  proof (intro equalityI subsetI)
    fix s assume "s \<in> active_slots n sls"
    then show "s \<in> (\<lambda>i. i + n) ` {i. i < length sls - n \<and> ext_secret_state (drop n sls ! i) = SLOT_ACTIVE}"
      by (intro image_eqI [of _ _ "s - n"]) (auto simp: slots_where_def)
  qed (auto simp: slots_where_def add.commute)
  finally show ?thesis by (simp add: active_total_def)
qed

text \<open>When the configured secrets and the pinned ones are at most sixteen and there are as many free slots
  as configured secrets, the reload returns 0.\<close>

lemma reload_returns_0:
  assumes "table_ok t" "ext_secret_pinned t + length cfgs \<le> EXT_SECRET_MAX_ACTIVE"
    and "length cfgs \<le> card (free_slots (ext_secret_pinned t) (slots t))"
  shows "\<exists>t'. tcp_rpcs_reload_ext_secrets g cfgs t = Some (0, t')"
proof -
  let ?n = "ext_secret_pinned t" and ?todo = "filter (\<lambda>c. \<not> collides (ext_secret_pinned t) (slots t) c) cfgs"
  have todo: "length ?todo \<le> length cfgs" by simp
  have "length cfgs \<le> EXT_SECRET_MAX_SLOTS" using assms(2) max_active_slots by linarith
  then have "tcp_rpcs_reload_ext_secrets g cfgs t \<noteq> None"
    by (simp add: tcp_rpcs_reload_ext_secrets_def Let_def split: prod.split)
  then obtain rc t' where r: "tcp_rpcs_reload_ext_secrets g cfgs t = Some (rc, t')" by auto
  obtain sls1 cand rest ok sls3 where
    m: "reload_match ?n ?todo (slots t, drain_candidates ?n (slots t)) = ((sls1, cand), rest)"
    and a: "reload_alloc ?n rest (drain_removed (precise_now g) cand sls1) = (ok, sls3)"
    and rc: "rc = (if ok \<and> active_total ?n sls3 \<le> EXT_SECRET_MAX_ACTIVE then 0 else -1)"
    and "t' = t\<lparr>slots := sls3, ext_secret_cnt := (if rc = 0 then high_water ?n sls3 else ext_secret_cnt t)\<rparr>"
    by (rule reload_steps [OF r])
  let ?sls2 = "drain_removed (precise_now g) cand sls1"
  have inv: "match_inv ?n (sc_key ` set ?todo) (sls1, cand)"
    using reload_match_correct [OF m match_inv_start subset_refl, of "{}"] by auto
  have len: "length cand = length sls1" "length ?sls2 = length sls1" using inv by (auto simp: match_inv_def drain_removed_def)
  note nth = nth_drain_removed [OF len(1), of _ "precise_now g"]
  have "settled ?n (slots t) (drain_candidates ?n (slots t)) = {}" by (auto simp: slots_where_def drain_candidates_def)
  with reload_match_counts [OF m] have c: "card (settled ?n sls1 cand) + length rest \<le> length ?todo"
    "free_slots ?n sls1 = free_slots ?n (slots t)" by simp_all
  have act: "active_slots ?n ?sls2 = settled ?n sls1 cand" using len nth by (auto simp: slots_where_def split: if_splits)
  have free: "free_slots ?n ?sls2 = free_slots ?n sls1"
    using len nth inv by (auto simp: slots_where_def match_inv_def in_use_def split: if_splits)
  have "length rest \<le> card (free_slots ?n ?sls2)" unfolding free c(2) using c(1) todo assms(3) by linarith
  from reload_alloc_counts [OF this] a act have "ok" "card (active_slots ?n sls3) \<le> card (settled ?n sls1 cand) + length rest"
    by auto
  then have "rc = 0" using rc c(1) todo assms(2) by (simp add: active_total_card)
  with r show ?thesis by blast
qed

lemma boot_table_ok: "table_ok boot_table" "ext_secret_pinned boot_table = 0"
  by (simp_all add: table_ok_def boot_table_def)

lemma boot_free_slots: "card (free_slots 0 (slots boot_table)) = EXT_SECRET_MAX_SLOTS"
proof -
  have "free_slots 0 (slots boot_table) = {0..<EXT_SECRET_MAX_SLOTS}"
    by (auto simp: slots_where_def boot_table_def in_use_def zero_slot_def)
  then show ?thesis by simp
qed

definition example_config :: secret_config where
  "example_config = zero_config\<lparr>sc_key := replicate 16 7, sc_limit := 5\<rparr>"

lemma boot_one_secret: "ext_secret_pinned boot_table + length [example_config] \<le> EXT_SECRET_MAX_ACTIVE"
  "length [example_config] \<le> card (free_slots (ext_secret_pinned boot_table) (slots boot_table))"
  by (simp_all add: boot_table_ok boot_free_slots EXT_SECRET_MAX_ACTIVE_def EXT_SECRET_MAX_SLOTS_def)

theorem reload_correct_witness:
  "\<exists>t'. tcp_rpcs_reload_ext_secrets example_globals [example_config] boot_table = Some (0, t') \<and>
     active_keys 0 (slots t') = {replicate 16 7}"
proof -
  obtain t' where r: "tcp_rpcs_reload_ext_secrets example_globals [example_config] boot_table = Some (0, t')"
    using reload_returns_0 [OF boot_table_ok(1) boot_one_secret] by blast
  from reload_correct [OF boot_table_ok(1) r] show ?thesis
    using r by (auto simp: pinned_keys_def boot_table_def example_config_def)
qed

end
