(* ===== verification/Srv_Slots.thy ===== *)
theory Srv_Slots
  imports Srv_Drain
begin

text \<open>
  Secrets and connections together: a step relation in which clients arrive, are recognised, relay
  and leave, while the configuration is reloaded and the sweeper runs, in any order. \<open>direct\<close> is the
  mode in which the server connects clients to the data centres itself. The theorems are about every
  reachable state.
\<close>

record ext_system =
  es_table :: secret_table
  es_conns :: conn_table
  es_direct_active :: int

text \<open>A connection as the listening port makes it.\<close>

definition accepted_conn :: "u32 \<Rightarrow> bytes \<Rightarrow> ext_conn" where
  "accepted_conn ip ipv6 = \<lparr>ec_type = Ct_ext_server_mtfront, ec_listening = False, ec_tls = False, ec_error = None,
     ec_ip = ip, ec_ipv6 = ipv6, ec_extra_int2 = 0, ec_key = []\<rparr>"

abbreviation set_conn :: "nat \<Rightarrow> ext_conn option \<Rightarrow> secret_table \<Rightarrow> ext_system \<Rightarrow> ext_system" where
  "set_conn fd oc t s \<equiv> s\<lparr>es_table := t, es_conns := (es_conns s)[fd := oc]\<rparr>"

definition conn_at :: "ext_system \<Rightarrow> nat \<Rightarrow> ext_conn \<Rightarrow> bool" where
  "conn_at s fd c \<longleftrightarrow> fd < length (es_conns s) \<and> es_conns s ! fd = Some c"

text \<open>A connection whose header has not been read yet.\<close>

definition unrecognised :: "ext_conn \<Rightarrow> bool" where
  "unrecognised c \<longleftrightarrow> ec_type c = Ct_ext_server_mtfront \<and> ec_extra_int2 c = 0 \<and> ec_error c = None"

inductive ext_step :: "bool \<Rightarrow> ext_system \<Rightarrow> ext_system \<Rightarrow> bool" for direct :: bool where
  step_open: "fd < length (es_conns s) \<Longrightarrow> es_conns s ! fd = None \<Longrightarrow>
    ext_step direct s (set_conn fd (Some (accepted_conn ip ipv6)) (es_table s) s)"
| step_tls: "conn_at s fd c \<Longrightarrow> unrecognised c \<Longrightarrow> i \<in> set (compact_to_slot (es_table s)) \<Longrightarrow>
    tls_hello_matched g i (c, es_table s) = (c', t') \<Longrightarrow> ext_step direct s (set_conn fd (Some c') t' s)"
| step_handshake: "conn_at s fd c \<Longrightarrow> unrecognised c \<Longrightarrow>
    ext_handshake ks sha g pad_only header (c, es_table s) = Some (c', t') \<Longrightarrow>
    ext_step direct s (set_conn fd (Some c') t' s)"
| step_direct: "direct \<Longrightarrow> conn_at s fd c \<Longrightarrow> ec_extra_int2 c \<noteq> 0 \<Longrightarrow> n \<in> {0, 1} \<Longrightarrow>
    ext_step direct s (set_conn fd (Some (direct_client_type c)) (es_table s)
      (s\<lparr>es_direct_active := es_direct_active s + n\<rparr>))"
| step_retry: "direct \<Longrightarrow> ext_step direct s (s\<lparr>es_direct_active := es_direct_active s + 1\<rparr>)"
| step_relay: "conn_at s fd c \<Longrightarrow> is_direct_client c \<Longrightarrow>
    direct_relay rnd g from_client n c (es_table s, rc) = Some (ok, t', rc') \<Longrightarrow>
    ext_step direct s (set_conn fd (Some (if ok then c else fail_connection (-1) c)) t' s)"
| step_fail: "conn_at s fd c \<Longrightarrow> ext_step direct s (set_conn fd (Some (fail_connection err c)) (es_table s) s)"
| step_close: "conn_at s fd c \<Longrightarrow> close_connection c (es_table s, es_direct_active s) = (t', a') \<Longrightarrow>
    ext_step direct s (set_conn fd None t' (s\<lparr>es_direct_active := a'\<rparr>))"
| step_reload: "apply_toml_secrets g cfgs secs (es_table s) = Some t' \<Longrightarrow> ext_step direct s (s\<lparr>es_table := t'\<rparr>)"
| step_sweep: "drain_sweep_gw rnd g (es_table s, es_conns s) = (t', conns') \<Longrightarrow>
    ext_step direct s (s\<lparr>es_table := t', es_conns := conns'\<rparr>)"

text \<open>The start: the secrets of the command line, then the pin.\<close>

fun set_secrets :: "secret_config list \<Rightarrow> secret_table \<Rightarrow> secret_table option" where
  "set_secrets [] t = Some t"
| "set_secrets (c # cs) t = do { t1 \<leftarrow> tcp_rpcs_set_ext_secret c t; set_secrets cs t1 }"

inductive ext_reach :: "bool \<Rightarrow> secret_config list \<Rightarrow> ext_system \<Rightarrow> bool" for direct cli where
  reach_start: "set_secrets cli boot_table = Some t \<Longrightarrow>
    ext_reach direct cli \<lparr>es_table = tcp_rpcs_pin_ext_secrets t, es_conns = replicate n None, es_direct_active = 0\<rparr>"
| reach_step: "ext_reach direct cli s \<Longrightarrow> ext_step direct s s' \<Longrightarrow> ext_reach direct cli s'"

subsection \<open>The invariant\<close>

abbreviation live :: "nat \<Rightarrow> conn_table \<Rightarrow> int" where
  "live i conns \<equiv> int (length (filter (charged_to i) conns))"

definition conn_fits :: "bool \<Rightarrow> slot_list \<Rightarrow> ext_conn option \<Rightarrow> bool" where
  "conn_fits direct sls oc \<longleftrightarrow>
     (case oc of None \<Rightarrow> True
      | Some c \<Rightarrow> \<not> ec_listening c \<and> ec_type c \<noteq> Ct_direct_dc \<and> (is_direct_client c \<longrightarrow> direct) \<and>
          (ec_extra_int2 c = 0 \<or>
           ec_type c \<noteq> Ct_proxy_pass \<and> 0 < ec_extra_int2 c \<and> ec_extra_int2 c \<le> int EXT_SECRET_MAX_SLOTS \<and>
           in_use (sls ! nat (ec_extra_int2 c - 1)) \<and> slot_key (sls ! nat (ec_extra_int2 c - 1)) = ec_key c))"

definition slot_counts :: "bool \<Rightarrow> conn_table \<Rightarrow> nat \<Rightarrow> secret_slot \<Rightarrow> bool" where
  "slot_counts direct conns i sl \<longleftrightarrow>
     live i conns \<le> slot_connections sl \<and> (\<not> direct \<longrightarrow> slot_connections sl = live i conns) \<and>
     (\<not> in_use sl \<longrightarrow> slot_connections sl = 0)"

definition pins_kept :: "secret_config list \<Rightarrow> secret_table \<Rightarrow> bool" where
  "pins_kept cli t \<longleftrightarrow> ext_secret_pinned t = length cli \<and>
     (\<forall>p<length cli. sc_key (ext_secret (slots t ! p)) = sc_key (cli ! p))"

definition ext_inv :: "bool \<Rightarrow> secret_config list \<Rightarrow> ext_system \<Rightarrow> bool" where
  "ext_inv direct cli s \<longleftrightarrow>
     table_ok (es_table s) \<and> pins_kept cli (es_table s) \<and>
     (\<forall>oc\<in>set (es_conns s). conn_fits direct (slots (es_table s)) oc) \<and>
     (\<forall>i<EXT_SECRET_MAX_SLOTS. slot_counts direct (es_conns s) i (slots (es_table s) ! i))"

lemma ext_inv_cong:
  "ext_inv direct cli s \<Longrightarrow> es_table s' = es_table s \<Longrightarrow> es_conns s' = es_conns s \<Longrightarrow> ext_inv direct cli s'"
  by (simp add: ext_inv_def)

text \<open>A slot that keeps its settings and its state.\<close>

definition slot_same :: "secret_slot \<Rightarrow> secret_slot \<Rightarrow> bool" where
  "slot_same sl sl' \<longleftrightarrow> ext_secret sl' = ext_secret sl \<and> ext_secret_state sl' = ext_secret_state sl"

lemma slot_same_in_use: "slot_same sl sl' \<Longrightarrow> in_use sl' = in_use sl"
  by (simp add: slot_same_def in_use_def)

lemma conn_fits_cong:
  assumes "\<And>i. i < EXT_SECRET_MAX_SLOTS \<Longrightarrow> in_use (sls ! i) \<Longrightarrow> in_use (sls' ! i) \<and> slot_key (sls' ! i) = slot_key (sls ! i)"
    and "conn_fits direct sls oc"
  shows "conn_fits direct sls' oc"
  using assms by (auto simp: conn_fits_def split: option.splits)

lemma slot_update_facts:
  assumes "slot_same (sls ! i) sl"
  shows "in_use (sls[i := sl] ! j) = in_use (sls ! j)" "slot_key (sls[i := sl] ! j) = slot_key (sls ! j)"
    "ext_secret_state (sls[i := sl] ! j) = ext_secret_state (sls ! j)"
proof -
  have "sls[i := sl] ! j = (if j = i \<and> i < length sls then sl else sls ! j)" 
    by (cases "i < length sls") (auto simp: list_update_beyond nth_list_update)
  then show "in_use (sls[i := sl] ! j) = in_use (sls ! j)" "slot_key (sls[i := sl] ! j) = slot_key (sls ! j)"
    "ext_secret_state (sls[i := sl] ! j) = ext_secret_state (sls ! j)"
    using assms by (auto simp: slot_same_def in_use_def)
qed

text \<open>One connection and one slot change.\<close>

lemma ext_inv_update:
  assumes "ext_inv direct cli s" and fd: "fd < length (es_conns s)"
    and t': "t' = (es_table s)\<lparr>slots := (slots (es_table s))[i := sl]\<rparr>"
    and same: "slot_same (slots (es_table s) ! i) sl"
    and fits: "conn_fits direct (slots (es_table s)) oc"
    and other: "\<And>j. j \<noteq> i \<Longrightarrow> charged_to j oc = charged_to j (es_conns s ! fd)"
    and n: "slot_connections sl \<ge> slot_connections (slots (es_table s) ! i)
        - of_bool (charged_to i (es_conns s ! fd)) + of_bool (charged_to i oc)"
      "\<not> direct \<Longrightarrow> slot_connections sl = slot_connections (slots (es_table s) ! i)
        - of_bool (charged_to i (es_conns s ! fd)) + of_bool (charged_to i oc)"
    and unused: "\<not> in_use sl \<Longrightarrow> slot_connections sl = 0"
  shows "ext_inv direct cli (set_conn fd oc t' s)"
proof -
  let ?sls = "slots (es_table s)" and ?conns = "es_conns s"
  note u = slot_update_facts [OF same]
  have live: "live j (?conns[fd := oc]) = live j ?conns - of_bool (charged_to j (?conns ! fd)) + of_bool (charged_to j oc)" for j
    by (rule length_filter_update [OF fd])
  have "slot_counts direct (?conns[fd := oc]) j (?sls[i := sl] ! j)" if "j < EXT_SECRET_MAX_SLOTS" for j
  proof (cases "j = i")
    case True
    with assms(1) that n unused live [of i] show ?thesis
      by (auto simp: ext_inv_def table_ok_def slot_counts_def)
  next
    case False
    with assms(1) that live [of j] other [of j] show ?thesis by (auto simp: ext_inv_def slot_counts_def)
  qed
  moreover have "conn_fits direct (?sls[i := sl]) x" if "x \<in> set (?conns[fd := oc])" for x
  proof -
    have "conn_fits direct ?sls x" using that assms(1) fits set_update_subset_insert [of ?conns fd oc] by (auto simp: ext_inv_def)
    then show ?thesis by (rule conn_fits_cong [rotated]) (simp add: u)
  qed
  moreover have "table_ok t'" "pins_kept cli t'" using assms(1) by (auto simp: ext_inv_def t' table_ok_def pins_kept_def u)
  ultimately show ?thesis by (simp add: ext_inv_def t')
qed

text \<open>Only a connection changes, and its charge does not.\<close>

lemma ext_inv_conn:
  assumes "ext_inv direct cli s" "fd < length (es_conns s)" "conn_fits direct (slots (es_table s)) oc"
    and "\<And>j. charged_to j oc = charged_to j (es_conns s ! fd)"
  shows "ext_inv direct cli (set_conn fd oc (es_table s) s)"
proof (rule ext_inv_update [OF assms(1,2), where i = 0 and sl = "slots (es_table s) ! 0"])
  have "0 < EXT_SECRET_MAX_SLOTS" by (simp add: EXT_SECRET_MAX_SLOTS_def)
  then show "\<not> in_use (slots (es_table s) ! 0) \<Longrightarrow> slot_connections (slots (es_table s) ! 0) = 0"
    using assms(1) by (auto simp: ext_inv_def slot_counts_def)
qed (use assms in \<open>auto simp: slot_same_def\<close>)

subsection \<open>The steps\<close>

lemma charged_to_Some [simp]:
  "charged_to i (Some c) \<longleftrightarrow> \<not> ec_listening c \<and> conn_carries_secret_id (ec_type c) \<and> ec_extra_int2 c = int i + 1"
  by (simp add: charged_to_def)

lemma charged_to_None [simp]: "\<not> charged_to i None"
  by (simp add: charged_to_def)

lemma fail_connection_fields [simp]:
  "ec_type (fail_connection e c) = ec_type c" "ec_listening (fail_connection e c) = ec_listening c"
  "ec_extra_int2 (fail_connection e c) = ec_extra_int2 c" "ec_key (fail_connection e c) = ec_key c"
  by (auto simp: fail_connection_def split: option.split)

lemma direct_client_type_fields [simp]:
  "ec_listening (direct_client_type c) = ec_listening c" "ec_extra_int2 (direct_client_type c) = ec_extra_int2 c"
  "ec_key (direct_client_type c) = ec_key c" "conn_carries_secret_id (ec_type (direct_client_type c))"
  "ec_type (direct_client_type c) \<noteq> Ct_direct_dc" "ec_type (direct_client_type c) \<noteq> Ct_proxy_pass"
  by (auto simp: direct_client_type_def)

lemma conn_fits_at: "ext_inv direct cli s \<Longrightarrow> conn_at s fd c \<Longrightarrow> conn_fits direct (slots (es_table s)) (Some c)"
  by (auto simp: ext_inv_def conn_at_def) (metis nth_mem)

lemma carries_type: "ec_type c \<noteq> Ct_direct_dc \<Longrightarrow> ec_type c \<noteq> Ct_proxy_pass \<Longrightarrow> conn_carries_secret_id (ec_type c)"
  by (cases "ec_type c") auto

lemma compact_slot:
  assumes "i \<in> set (compact_to_slot t)" "table_ok t"
  shows "i < EXT_SECRET_MAX_SLOTS" "in_use (slots t ! i)"
  using assms by (auto simp: compact_to_slot_def in_use_def table_ok_def)

lemma secret_gate_same:
  assumes "secret_gate g ip ipv6 sl = (ok, sl')"
  shows "slot_same sl sl'" "slot_connections sl' = slot_connections sl"
  using assms by (auto simp: secret_gate_def slot_same_def split: option.splits)

lemma accept_connection_same:
  assumes "accept_connection g tls ip ipv6 sl = (ok, sl')"
  shows "slot_same sl sl'" "slot_connections sl' = slot_connections sl + of_bool ok"
  using assms secret_gate_same [of g ip ipv6 sl]
  by (auto simp: accept_connection_def slot_same_def count_connection_fields split: if_splits prod.splits)

lemma ext_inv_step_tls:
  assumes inv: "ext_inv direct cli s" and at: "conn_at s fd c" and un: "unrecognised c"
    and i: "i \<in> set (compact_to_slot (es_table s))"
    and r: "tls_hello_matched g i (c, es_table s) = (c', t')"
  shows "ext_inv direct cli (set_conn fd (Some c') t' s)"
proof -
  obtain ok sl where gate: "secret_gate g (ec_ip c) (ec_ipv6 c) (slots (es_table s) ! i) = (ok, sl)" by (rule prod.exhaust)
  have t': "t' = (es_table s)\<lparr>slots := (slots (es_table s))[i := sl]\<rparr>"
    and c': "ec_extra_int2 c' = 0" "\<not> ec_listening c'" "ec_type c' \<noteq> Ct_direct_dc" "\<not> is_direct_client c'"
    using r gate un conn_fits_at [OF inv at] by (auto simp: tls_hello_matched_def is_direct_client_def unrecognised_def conn_fits_def Let_def split: if_splits)
  note same = secret_gate_same [OF gate]
  have ok: "table_ok (es_table s)" using inv by (simp add: ext_inv_def)
  note sl = compact_slot [OF i ok]
  show ?thesis
    by (rule ext_inv_update [OF inv _ t' same(1)])
       (use at un c' same sl in \<open>auto simp: conn_at_def unrecognised_def conn_fits_def slot_same_in_use\<close>)
qed

text \<open>A recognised header belongs to one of the secrets it was compared with.\<close>

lemma obfs2_try_index:
  "obfs2_try ks sha h p sid secrets = Some (r, dec) \<Longrightarrow> sid \<le> or_secret_id r \<and> or_secret_id r < sid + length secrets"
proof (induction secrets arbitrary: sid)
  case (Cons x xs)
  from Cons.prems Cons.IH [of "sid + 1"] show ?case by (auto simp: Let_def split: if_splits)
qed simp

text \<open>With secrets in use the slot number is always read from the part of the array that was written;
  without, every recognised header reads beyond it.\<close>

lemma ext_handshake_defined:
  assumes "compact_to_slot t \<noteq> []"
  shows "ext_handshake ks sha g pad_only header (c, t) \<noteq> None"
proof -
  have "or_secret_id r < length (compact_to_slot t)"
    if "fst (obfs2_parse_header ks sha header (compact_secrets t) pad_only) = Some r" for r
    using that assms obfs2_try_index [of ks sha header pad_only 0 "map Some (compact_secrets t)" r]
    by (auto simp: obfs2_parse_header_def compact_secrets_def split: option.splits if_splits)
  then show ?thesis by (auto simp: ext_handshake_def Let_def not_le split: option.split prod.split)
qed

lemma ext_handshake_undefined:
  assumes "compact_to_slot t = []" "fst (obfs2_parse_header ks sha header [] pad_only) = Some r"
  shows "ext_handshake ks sha g pad_only header (c, t) = None"
  using assms by (simp add: ext_handshake_def compact_secrets_def)

lemma ext_inv_step_handshake:
  assumes inv: "ext_inv direct cli s" and at: "conn_at s fd c" and un: "unrecognised c"
    and r: "ext_handshake ks sha g pad_only header (c, es_table s) = Some (c', t')"
  shows "ext_inv direct cli (set_conn fd (Some c') t' s)"
proof (cases "fst (obfs2_parse_header ks sha header (compact_secrets (es_table s)) pad_only)")
  case None
  then have "c' = c" "t' = es_table s" using r by (simp_all add: ext_handshake_def)
  then show ?thesis using ext_inv_conn [OF inv, of fd "Some c"] at conn_fits_at [OF inv at] by (simp add: conn_at_def)
next
  case (Some pr)
  let ?t = "es_table s"
  define i where "i = compact_to_slot ?t ! or_secret_id pr"
  obtain ok sl where acc: "accept_connection g (ec_tls c) (ec_ip c) (ec_ipv6 c) (slots ?t ! i) = (ok, sl)" by (rule prod.exhaust)
  have lt: "or_secret_id pr < length (compact_to_slot ?t)"
    and t': "t' = ?t\<lparr>slots := (slots ?t)[i := sl]\<rparr>"
    and c': "c' = (if ok then c\<lparr>ec_extra_int2 := int i + 1, ec_key := slot_key (slots ?t ! i),
                         ec_type := (if ec_tls c then Ct_ext_server_drs else ec_type c)\<rparr>
                  else fail_connection (-1) (c\<lparr>ec_extra_int2 := 0\<rparr>))"
    using r Some acc by (auto simp: ext_handshake_def Let_def i_def split: if_splits)
  have "i \<in> set (compact_to_slot ?t)" using lt by (simp add: i_def)
  then have sl: "i < EXT_SECRET_MAX_SLOTS" "in_use (slots ?t ! i)" using compact_slot inv by (auto simp: ext_inv_def)
  note same = accept_connection_same [OF acc]
  have ty: "ec_type c' \<noteq> Ct_direct_dc" "ec_type c' \<noteq> Ct_proxy_pass" "\<not> ec_listening c'"
    using un conn_fits_at [OF inv at] c' by (auto simp: unrecognised_def conn_fits_def)
  have ch: "charged_to j (Some c') \<longleftrightarrow> ok \<and> j = i" for j using c' ty carries_type [OF ty(1,2)] by auto
  have old: "\<not> charged_to j (es_conns s ! fd)" for j using at un by (auto simp: conn_at_def unrecognised_def)
  have fits: "conn_fits direct (slots ?t) (Some c')" using ty c' sl un by (auto simp: conn_fits_def unrecognised_def is_direct_client_def)
  show ?thesis
    by (rule ext_inv_update [OF inv _ t' same(1) fits])
       (use at ch old same sl in \<open>auto simp: conn_at_def slot_same_in_use simp del: charged_to_Some\<close>)
qed

lemma uncount_connection_same:
  "slot_same sl (uncount_connection ip ipv6 sl)" "slot_connections (uncount_connection ip ipv6 sl) = slot_connections sl - 1"
  by (simp_all add: slot_same_def uncount_connection_fields)

lemma conn_slot:
  assumes "conn_fits direct sls (Some c)" "ec_extra_int2 c \<noteq> 0"
  shows "nat (ec_extra_int2 c - 1) < EXT_SECRET_MAX_SLOTS" "in_use (sls ! nat (ec_extra_int2 c - 1))"
    "charged_to j (Some c) \<longleftrightarrow> j = nat (ec_extra_int2 c - 1)"
    "0 < ec_extra_int2 c" "ec_extra_int2 c \<le> int EXT_SECRET_MAX_SLOTS"
  using assms carries_type [of c] by (auto simp: conn_fits_def)

text \<open>The slot of a recognised connection counts it.\<close>

lemma charged_slot_counts:
  assumes inv: "ext_inv direct cli s" and at: "conn_at s fd c" and c: "ec_extra_int2 c \<noteq> 0"
  shows "slot_connections (slots (es_table s) ! nat (ec_extra_int2 c - 1)) \<ge> 1"
proof -
  let ?i = "nat (ec_extra_int2 c - 1)"
  note sl = conn_slot [OF conn_fits_at [OF inv at] c]
  have "Some c \<in> set (es_conns s)" using at by (auto simp: conn_at_def) (metis nth_mem)
  then have "Some c \<in> set (filter (charged_to ?i) (es_conns s))" using sl(3) by (simp del: charged_to_Some)
  then have "live ?i (es_conns s) \<ge> 1" by (cases "filter (charged_to ?i) (es_conns s)") auto
  with inv sl(1) show ?thesis by (auto simp: ext_inv_def slot_counts_def)
qed

lemma ext_inv_step_close:
  assumes inv: "ext_inv direct cli s" and at: "conn_at s fd c"
    and r: "close_connection c (es_table s, es_direct_active s) = (t', a')"
  shows "ext_inv direct cli (set_conn fd None t' s)"
proof (cases "ec_extra_int2 c = 0")
  case True
  then have "t' = es_table s" using r
    by (auto simp: close_connection_def tcp_direct_close_def mtproto_ext_rpc_close_def uncharge_def Let_def split: if_splits)
  then show ?thesis using ext_inv_conn [OF inv, of fd None] at True by (simp add: conn_at_def conn_fits_def)
next
  case False
  let ?t = "es_table s"
  note fit = conn_fits_at [OF inv at] and sl = conn_slot [OF conn_fits_at [OF inv at] False]
  define i where "i = nat (ec_extra_int2 c - 1)"
  have fd: "fd < length (es_conns s)" "es_conns s ! fd = Some c" using at by (auto simp: conn_at_def)
  have ge: "slot_connections (slots ?t ! i) \<ge> 1" using charged_slot_counts [OF inv at False] by (simp add: i_def)
  have eq: "(slots ?t)[i := slots ?t ! i] = slots ?t" by simp
  consider "t' = ?t\<lparr>slots := (slots ?t)[i := uncount_connection (ec_ip c) (ec_ipv6 c) (slots ?t ! i)]\<rparr>"
    | "is_direct_client c" "t' = ?t\<lparr>slots := (slots ?t)[i := slots ?t ! i]\<rparr>"
    using r fit False sl(4,5) eq
    by (auto simp: close_connection_def tcp_direct_close_def mtproto_ext_rpc_close_def uncharge_def Let_def i_def conn_fits_def
        split: if_splits)
  then show ?thesis
  proof cases
    case 1
    then show ?thesis
      by (rule ext_inv_update [OF inv fd(1) _ uncount_connection_same(1)])
         (use fd sl ge in \<open>auto simp: conn_fits_def i_def uncount_connection_same(2) slot_same_in_use [OF uncount_connection_same(1)]
            simp del: charged_to_Some\<close>)
  next
    case 2
    show ?thesis
      by (rule ext_inv_update [OF inv fd(1) 2(2)])
         (use fd sl ge 2(1) fit in \<open>auto simp: conn_fits_def i_def slot_same_def simp del: charged_to_Some\<close>)
  qed
qed

lemma rate_limit_same:
  assumes "rate_limit_after_relay rnd g n ip ipv6 (sl, rc) = Some (sl', rc')"
  shows "slot_same sl sl'" "slot_connections sl' = slot_connections sl"
  using assms by (auto simp: rate_limit_after_relay_def Let_def slot_same_def split: if_splits option.splits bind_splits)

lemma charge_bytes_same:
  assumes "charge_bytes g from_client n sl = (ok, sl')"
  shows "slot_same sl sl'" "slot_connections sl' = slot_connections sl"
  using assms by (auto simp: charge_bytes_def Let_def slot_same_def split: if_splits)

lemma ext_inv_step_relay:
  assumes inv: "ext_inv direct cli s" and at: "conn_at s fd c"
    and r: "direct_relay rnd g from_client n c (es_table s, rc) = Some (ok, t', rc')"
  shows "ext_inv direct cli (set_conn fd (Some (if ok then c else fail_connection (-1) c)) t' s)"
proof -
  let ?t = "es_table s" and ?c = "if ok then c else fail_connection (-1) c" and ?i = "nat (ec_extra_int2 c - 1)"
  have fd: "fd < length (es_conns s)" "es_conns s ! fd = Some c" using at by (auto simp: conn_at_def)
  have fits: "conn_fits direct (slots ?t) (Some ?c)" and ch: "\<And>j. charged_to j (Some ?c) = charged_to j (es_conns s ! fd)"
    using conn_fits_at [OF inv at] fd by (auto simp: conn_fits_def is_direct_client_def)
  show ?thesis
  proof (cases "ec_extra_int2 c \<noteq> 0 \<and> n > 0")
    case False
    then have "t' = ?t" using r conn_fits_at [OF inv at] by (auto simp: direct_relay_def Let_def conn_fits_def)
    then show ?thesis using ext_inv_conn [OF inv fd(1) fits ch] by simp
  next
    case True
    note sl = conn_slot [OF conn_fits_at [OF inv at]]
    obtain ok1 sl1 where cb: "charge_bytes g from_client n (slots ?t ! ?i) = (ok1, sl1)" by (rule prod.exhaust)
    obtain sl2 where t': "t' = ?t\<lparr>slots := (slots ?t)[?i := sl2]\<rparr>" and s2: "slot_same (slots ?t ! ?i) sl2"
      "slot_connections sl2 = slot_connections (slots ?t ! ?i)"
    proof (cases ok1)
      case False
      then show ?thesis using that r cb True sl charge_bytes_same [OF cb] by (auto simp: direct_relay_def Let_def)
    next
      case ok1: True
      then obtain sl2 rc2 where rl: "rate_limit_after_relay rnd g n (ec_ip c) (ec_ipv6 c) (sl1, rc) = Some (sl2, rc2)"
        and "t' = ?t\<lparr>slots := (slots ?t)[?i := sl2]\<rparr>"
        using r cb True sl by (auto simp: direct_relay_def Let_def split: bind_splits)
      then show ?thesis using that rate_limit_same [OF rl] charge_bytes_same [OF cb] by (auto simp: slot_same_def)
    qed
    show ?thesis
      by (rule ext_inv_update [OF inv fd(1) t' s2(1) fits])
         (use ch s2 sl True slot_same_in_use [OF s2(1)] in \<open>auto simp del: charged_to_Some\<close>)
  qed
qed

lemma ext_inv_step_reload:
  assumes inv: "ext_inv direct cli s" and r: "apply_toml_secrets g cfgs secs (es_table s) = Some t'"
  shows "ext_inv direct cli (s\<lparr>es_table := t'\<rparr>)"
proof -
  obtain rc t1 where r1: "tcp_rpcs_reload_ext_secrets g cfgs (es_table s) = Some (rc, t1)"
    and t': "t' = tcp_rpcs_drain_set_timeout secs t1"
    using r by (auto simp: apply_toml_secrets_def split: bind_splits)
  have ok: "table_ok (es_table s)" using inv by (simp add: ext_inv_def)
  note k = reload_kept_table_ok [OF r1 ok]
  have len: "length (slots (es_table s)) = EXT_SECRET_MAX_SLOTS" using ok by (simp add: table_ok_def)
  have kept: "slot_kept (slots (es_table s) ! i) (slots t1 ! i)" if "i < EXT_SECRET_MAX_SLOTS" for i
    using k(1) that len by (auto simp: reload_kept_def)
  have "slot_counts direct (es_conns s) i (slots t1 ! i)" if "i < EXT_SECRET_MAX_SLOTS" for i
    using kept [OF that] inv that by (auto simp: ext_inv_def slot_counts_def slot_kept_def zero_counters_def split: if_splits)
  moreover have "conn_fits direct (slots t1) oc" if "oc \<in> set (es_conns s)" for oc
    by (rule conn_fits_cong [of "slots (es_table s)"]) (use kept inv that in \<open>auto simp: ext_inv_def slot_kept_def split: if_splits\<close>)
  moreover have "pins_kept cli t1"
    using inv k(1,2) len ok max_active_slots by (auto simp: ext_inv_def pins_kept_def reload_kept_def table_ok_def)
  ultimately show ?thesis using k(4)
    by (simp add: ext_inv_def t' tcp_rpcs_drain_set_timeout_def table_ok_def pins_kept_def)
qed

subsection \<open>The sweeper\<close>

abbreviation with_swept :: "ext_system \<Rightarrow> secret_table \<times> conn_table \<Rightarrow> ext_system" where
  "with_swept s st \<equiv> s\<lparr>es_table := fst st, es_conns := snd st\<rparr>"

text \<open>A slot nobody is charged to can be released.\<close>

lemma release_inv:
  assumes inv: "ext_inv direct cli s"
  shows "ext_inv direct cli (s\<lparr>es_table := tcp_rpcs_drain_release_slot_if_empty i (es_table s)\<rparr>)"
proof -
  let ?t = "es_table s"
  let ?cond = "ext_secret_pinned ?t \<le> i \<and> i < EXT_SECRET_MAX_SLOTS \<and> ext_secret_state (slots ?t ! i) = SLOT_DRAINING \<and>
    slot_connections (slots ?t ! i) = 0"
  have ok: "table_ok ?t" using inv by (simp add: ext_inv_def)
  show ?thesis
  proof (cases ?cond)
    case False
    then have "tcp_rpcs_drain_release_slot_if_empty i ?t = ?t"
      by (auto simp: tcp_rpcs_drain_release_slot_if_empty_def)
    then show ?thesis using inv by simp
  next
    case True
    define sl where "sl = tcp_rpcs_ip_track_clear_slot ((slots ?t ! i)\<lparr>ext_secret_state := SLOT_FREE,
       ext_secret_drain_started_at := 0, ext_secret := zero_config, counters := zero_counters\<rparr>)"
    define sls where "sls = (slots ?t)[i := sl]"
    define t' where "t' = ?t\<lparr>slots := sls, ext_secret_cnt := high_water (ext_secret_pinned ?t) sls\<rparr>"
    have t': "tcp_rpcs_drain_release_slot_if_empty i ?t = t'"
      using True by (simp add: tcp_rpcs_drain_release_slot_if_empty_def Let_def t'_def sls_def sl_def)
    have sl: "slot_connections sl = 0" by (simp add: sl_def tcp_rpcs_ip_track_clear_slot_def zero_counters_def)
    have len: "length sls = EXT_SECRET_MAX_SLOTS" using ok by (simp add: sls_def table_ok_def)
    have nth: "sls ! j = (if j = i then sl else slots ?t ! j)" for j using True ok by (simp add: sls_def table_ok_def)
    have live0: "live i (es_conns s) = 0" using inv True by (auto simp: ext_inv_def slot_counts_def)
    have "slot_counts direct (es_conns s) j (sls ! j)" if "j < EXT_SECRET_MAX_SLOTS" for j
      using inv that nth live0 sl by (auto simp: ext_inv_def slot_counts_def)
    moreover have "conn_fits direct sls oc" if "oc \<in> set (es_conns s)" for oc
    proof (cases oc)
      case (Some c)
      then have fit: "conn_fits direct (slots ?t) (Some c)" using inv that by (auto simp: ext_inv_def)
      have "\<not> charged_to i oc" using live0 that by (auto simp: filter_empty_conv)
      then have "nat (ec_extra_int2 c - 1) \<noteq> i" if "ec_extra_int2 c \<noteq> 0" using conn_slot(3) [OF fit that, of i] Some by auto
      then show ?thesis using fit Some nth by (auto simp: conn_fits_def)
    qed (simp add: conn_fits_def)
    moreover have "table_ok t'"
      using ok True len nth high_water_bounds(1,2) [of "ext_secret_pinned ?t" sls] max_active_slots
      by (auto simp: table_ok_def t'_def)
    moreover have "pins_kept cli t'" using inv True nth by (auto simp: ext_inv_def pins_kept_def t'_def)
    ultimately show ?thesis by (simp add: ext_inv_def t' t'_def)
  qed
qed

lemma charged_fail [simp]: "charged_to j (map_option (fail_connection e) oc) = charged_to j oc"
  by (cases oc) auto

lemma force_close_inv:
  assumes inv: "ext_inv direct cli s"
  shows "ext_inv direct cli (with_swept s (tcp_rpcs_drain_force_close_for_slot i (es_table s, es_conns s)))"
proof (cases "i < ext_secret_pinned (es_table s) \<or> i \<ge> EXT_SECRET_MAX_SLOTS")
  case False
  let ?t = "es_table s" and ?sl = "slots (es_table s) ! i"
  define sl where "sl = ?sl\<lparr>counters := (counters ?sl)\<lparr>per_secret_drain_forced :=
     per_secret_drain_forced (counters ?sl) + live i (es_conns s)\<rparr>\<rparr>"
  define conns where "conns = map (\<lambda>oc. if charged_to i oc then map_option (fail_connection (-500)) oc else oc) (es_conns s)"
  have eq: "tcp_rpcs_drain_force_close_for_slot i (?t, es_conns s) = (?t\<lparr>slots := (slots ?t)[i := sl]\<rparr>, conns)"
    using False by (simp add: tcp_rpcs_drain_force_close_for_slot_def Let_def sl_def conns_def)
  have same: "slot_same ?sl sl" "slot_connections sl = slot_connections ?sl" by (simp_all add: slot_same_def sl_def)
  note u = slot_update_facts [OF same(1)]
  have n: "slot_connections ((slots ?t)[i := sl] ! j) = slot_connections (slots ?t ! j)" for j
    using same(2) by (cases "j = i"; cases "i < length (slots ?t)") (auto simp: list_update_beyond)
  have "charged_to j \<circ> (\<lambda>oc. if charged_to i oc then map_option (fail_connection (-500)) oc else oc) = charged_to j" for j
    by (auto simp: fun_eq_iff)
  then have live: "live j conns = live j (es_conns s)" for j by (simp add: conns_def filter_map)
  have fit: "conn_fits direct (slots ?t) (map_option (fail_connection (-500)) oc)" if "conn_fits direct (slots ?t) oc" for oc
    using that by (cases oc) (auto simp: conn_fits_def is_direct_client_def)
  have "conn_fits direct ((slots ?t)[i := sl]) oc" if "oc \<in> set conns" for oc
  proof (rule conn_fits_cong [of "slots ?t"])
    show "conn_fits direct (slots ?t) oc" using that inv fit by (auto simp: conns_def ext_inv_def split: if_splits)
  qed (simp add: u)
  moreover have "slot_counts direct conns j ((slots ?t)[i := sl] ! j)" if "j < EXT_SECRET_MAX_SLOTS" for j
    using inv that by (simp add: ext_inv_def slot_counts_def live n u)
  ultimately show ?thesis using inv by (auto simp: eq ext_inv_def table_ok_def pins_kept_def u)
qed (use inv in \<open>auto simp: tcp_rpcs_drain_force_close_for_slot_def\<close>)

lemma sweep_slot_inv:
  assumes "ext_inv direct cli (with_swept s st)"
  shows "ext_inv direct cli (with_swept s (sweep_slot rnd g timeout i st))"
proof -
  have "ext_inv direct cli (with_swept s (tcp_rpcs_drain_release_slot_if_empty i (fst st), snd st))"
    by (rule ext_inv_cong [OF release_inv [OF assms, of i]]) simp_all
  then show ?thesis using assms force_close_inv [OF assms, of i] by (simp add: sweep_slot_def Let_def)
qed

lemma ext_inv_step_sweep:
  assumes "ext_inv direct cli s" "drain_sweep_gw rnd g (es_table s, es_conns s) = (t', conns')"
  shows "ext_inv direct cli (s\<lparr>es_table := t', es_conns := conns'\<rparr>)"
proof -
  have "ext_inv direct cli (with_swept s (fold (sweep_slot rnd g timeout) is st))"
    if "ext_inv direct cli (with_swept s st)" for timeout "is" st
    using that by (induction "is" arbitrary: st) (simp_all add: sweep_slot_inv del: split_paired_All)
  then have "ext_inv direct cli (with_swept s (drain_sweep_gw rnd g (es_table s, es_conns s)))"
    unfolding drain_sweep_gw_def using assms(1) by simp
  then show ?thesis by (simp add: assms(2))
qed

subsection \<open>The start\<close>

lemma set_secrets_facts:
  "set_secrets cs t = Some t' \<Longrightarrow> length (slots t) = EXT_SECRET_MAX_SLOTS \<Longrightarrow>
   (\<And>i. i < EXT_SECRET_MAX_SLOTS \<Longrightarrow> slot_connections (slots t ! i) = 0) \<Longrightarrow> ext_secret_cnt t \<le> EXT_SECRET_MAX_ACTIVE \<Longrightarrow>
   length (slots t') = EXT_SECRET_MAX_SLOTS \<and> ext_secret_cnt t' = ext_secret_cnt t + length cs \<and>
   ext_secret_cnt t' \<le> EXT_SECRET_MAX_ACTIVE \<and>
   (\<forall>i<EXT_SECRET_MAX_SLOTS. slot_connections (slots t' ! i) = 0) \<and>
   (\<forall>i<ext_secret_cnt t. slots t' ! i = slots t ! i) \<and>
   (\<forall>k<length cs. ext_secret_state (slots t' ! (ext_secret_cnt t + k)) = SLOT_ACTIVE \<and>
      slot_key (slots t' ! (ext_secret_cnt t + k)) = sc_key (cs ! k))"
proof (induction cs arbitrary: t)
  case (Cons c cs)
  let ?n = "ext_secret_cnt t"
  from Cons.prems(1) obtain t1 where t1: "tcp_rpcs_set_ext_secret c t = Some t1" "set_secrets cs t1 = Some t'"
    by (auto split: bind_splits)
  have n: "?n < EXT_SECRET_MAX_ACTIVE" "?n < EXT_SECRET_MAX_SLOTS"
    using t1(1) max_active_slots by (auto simp: tcp_rpcs_set_ext_secret_def Let_def split: if_splits)
  define sl where "sl = tcp_rpcs_ip_track_clear_slot ((slots t ! ?n)\<lparr>ext_secret := c\<lparr>sc_label := slot_label ?n (sc_label c)\<rparr>,
     ext_secret_state := SLOT_ACTIVE, ext_secret_drain_started_at := 0\<rparr>)"
  have t1': "slots t1 = (slots t)[?n := sl]" "ext_secret_cnt t1 = ?n + 1"
    using t1(1) n by (auto simp: tcp_rpcs_set_ext_secret_def Let_def sl_def)
  have sl: "ext_secret_state sl = SLOT_ACTIVE" "slot_key sl = sc_key c" "slot_connections sl = slot_connections (slots t ! ?n)"
    by (simp_all add: sl_def tcp_rpcs_ip_track_clear_slot_def)
  have nth: "slots t1 ! i = (if i = ?n then sl else slots t ! i)" for i using t1' n Cons.prems(2) by simp
  have IH: "length (slots t') = EXT_SECRET_MAX_SLOTS \<and> ext_secret_cnt t' = ext_secret_cnt t1 + length cs \<and>
   ext_secret_cnt t' \<le> EXT_SECRET_MAX_ACTIVE \<and>
   (\<forall>i<EXT_SECRET_MAX_SLOTS. slot_connections (slots t' ! i) = 0) \<and>
   (\<forall>i<ext_secret_cnt t1. slots t' ! i = slots t1 ! i) \<and>
   (\<forall>k<length cs. ext_secret_state (slots t' ! (ext_secret_cnt t1 + k)) = SLOT_ACTIVE \<and>
      slot_key (slots t' ! (ext_secret_cnt t1 + k)) = sc_key (cs ! k))"
    by (rule Cons.IH [OF t1(2)]) (use Cons.prems n sl t1' in \<open>auto simp: nth_list_update\<close>)
  have "ext_secret_state (slots t' ! (?n + k)) = SLOT_ACTIVE \<and> slot_key (slots t' ! (?n + k)) = sc_key ((c # cs) ! k)"
    if "k < length (c # cs)" for k
    using that IH nth [of ?n] sl t1'(2) by (cases k) auto
  then show ?case using IH nth t1'(2) by auto
qed auto

lemma start_inv:
  assumes "set_secrets cli boot_table = Some t"
  shows "ext_inv direct cli \<lparr>es_table = tcp_rpcs_pin_ext_secrets t, es_conns = replicate n None, es_direct_active = 0\<rparr>"
proof -
  have "length (slots t) = EXT_SECRET_MAX_SLOTS \<and> ext_secret_cnt t = 0 + length cli \<and> ext_secret_cnt t \<le> EXT_SECRET_MAX_ACTIVE \<and>
   (\<forall>i<EXT_SECRET_MAX_SLOTS. slot_connections (slots t ! i) = 0) \<and>
   (\<forall>k<length cli. ext_secret_state (slots t ! k) = SLOT_ACTIVE \<and> slot_key (slots t ! k) = sc_key (cli ! k))"
    using set_secrets_facts [OF assms] by (simp add: boot_table_def zero_slot_def zero_counters_def)
  then show ?thesis using max_active_slots
    by (auto simp: ext_inv_def tcp_rpcs_pin_ext_secrets_def table_ok_def pins_kept_def conn_fits_def slot_counts_def
        filter_replicate)
qed

lemma ext_step_inv: "ext_step direct s s' \<Longrightarrow> ext_inv direct cli s \<Longrightarrow> ext_inv direct cli s'"
proof (induction rule: ext_step.induct)
  case (step_open fd s ip ipv6)
  then show ?case by (intro ext_inv_conn) (auto simp: conn_fits_def accepted_conn_def is_direct_client_def)
next
  case (step_tls s fd c i g c' t')
  then show ?case by (rule_tac ext_inv_step_tls)
next
  case (step_handshake s fd c ks sha g pad_only header c' t')
  then show ?case by (rule_tac ext_inv_step_handshake)
next
  case (step_direct s fd c n)
  then have "ext_inv direct cli (set_conn fd (Some (direct_client_type c)) (es_table s) s)"
    using conn_fits_at [OF step_direct.prems step_direct.hyps(2)]
    by (intro ext_inv_conn) (auto simp: conn_at_def conn_fits_def dest: carries_type)
  then show ?case by (rule ext_inv_cong) simp_all
next
  case (step_fail s fd c err)
  then show ?case using conn_fits_at [OF step_fail.prems step_fail.hyps]
    by (intro ext_inv_conn) (auto simp: conn_at_def conn_fits_def is_direct_client_def)
next
  case (step_close s fd c t' a')
  then have "ext_inv direct cli (set_conn fd None t' s)" by (rule_tac ext_inv_step_close)
  then show ?case by (rule ext_inv_cong) simp_all
qed (simp_all add: ext_inv_step_relay ext_inv_step_reload ext_inv_step_sweep ext_inv_cong)

lemma ext_reach_inv: "ext_reach direct cli s \<Longrightarrow> ext_inv direct cli s"
  by (induction rule: ext_reach.induct) (auto intro: start_inv ext_step_inv)

subsection \<open>What the steps promise\<close>

text \<open>C11: (connections keep their secret). In every reachable state a connection that was recognised is
  charged to a slot that is still in use, holds the very key its cipher keys were made from and counts
  at least this connection, whatever reloads, sweeps and other clients came in between. The slots of
  the command line are active under their keys. A slot counts at least the connections that are charged
  to it, exactly these when the server is not in direct mode, and a free slot counts none.\<close>

theorem connections_keep_their_secret:
  assumes "ext_reach direct cli s"
  shows "(\<forall>fd c. conn_at s fd c \<and> ec_extra_int2 c \<noteq> 0 \<longrightarrow>
       0 < ec_extra_int2 c \<and> ec_extra_int2 c \<le> int EXT_SECRET_MAX_SLOTS \<and>
       (let sl = slots (es_table s) ! nat (ec_extra_int2 c - 1) in
        in_use sl \<and> slot_key sl = ec_key c \<and> slot_connections sl \<ge> 1)) \<and>
    (\<forall>p<length cli. ext_secret_state (slots (es_table s) ! p) = SLOT_ACTIVE \<and>
       slot_key (slots (es_table s) ! p) = sc_key (cli ! p)) \<and>
    (\<forall>i<EXT_SECRET_MAX_SLOTS. slot_counts direct (es_conns s) i (slots (es_table s) ! i))"
proof -
  have inv: "ext_inv direct cli s" by (rule ext_reach_inv [OF assms])
  have "0 < ec_extra_int2 c \<and> ec_extra_int2 c \<le> int EXT_SECRET_MAX_SLOTS \<and>
       (let sl = slots (es_table s) ! nat (ec_extra_int2 c - 1) in
        in_use sl \<and> slot_key sl = ec_key c \<and> slot_connections sl \<ge> 1)"
    if "conn_at s fd c" "ec_extra_int2 c \<noteq> 0" for fd c
  proof -
    note fit = conn_fits_at [OF inv that(1)]
    from conn_slot [OF fit that(2)] charged_slot_counts [OF inv that] fit that(2) show ?thesis
      by (auto simp: conn_fits_def Let_def)
  qed
  then show ?thesis using inv by (auto simp: ext_inv_def table_ok_def pins_kept_def)
qed

lemma sweep_slot_pinned [simp]:
  "ext_secret_pinned (fst (sweep_slot rnd g timeout i st)) = ext_secret_pinned (fst st)"
  "length (slots (fst (sweep_slot rnd g timeout i st))) = length (slots (fst st))"
  by (simp_all add: sweep_slot_def tcp_rpcs_drain_release_slot_if_empty_def tcp_rpcs_drain_force_close_for_slot_def Let_def)

lemma sweep_slot_other:
  "j \<noteq> i \<Longrightarrow> slots (fst (sweep_slot rnd g timeout i st)) ! j = slots (fst st) ! j"
  by (simp add: sweep_slot_def tcp_rpcs_drain_release_slot_if_empty_def tcp_rpcs_drain_force_close_for_slot_def Let_def)

text \<open>Whether a connection is failed.\<close>

definition failed_for :: "nat \<Rightarrow> conn_table \<Rightarrow> bool" where
  "failed_for i conns \<longleftrightarrow> (\<forall>c. Some c \<in> set conns \<and> charged_to i (Some c) \<longrightarrow> ec_error c \<noteq> None)"

lemma fail_connection_failed: "Some c = map_option (fail_connection e) oc \<Longrightarrow> \<exists>y. ec_error c = Some y"
  by (cases oc) (auto simp: fail_connection_def split: option.splits)

lemma fail_map_failed:
  "failed_for i conns \<Longrightarrow> failed_for i (map (\<lambda>oc. if charged_to j oc then map_option (fail_connection e) oc else oc) conns)"
  "failed_for j (map (\<lambda>oc. if charged_to j oc then map_option (fail_connection e) oc else oc) conns)"
  by (auto simp: failed_for_def split: if_splits intro: fail_connection_failed)

lemma sweep_slot_failed: "failed_for i (snd st) \<Longrightarrow> failed_for i (snd (sweep_slot rnd g timeout j st))"
  by (simp add: sweep_slot_def tcp_rpcs_drain_force_close_for_slot_def Let_def fail_map_failed)

lemma sweep_fold_other:
  "i \<notin> set is \<Longrightarrow> slots (fst (fold (sweep_slot rnd g timeout) is st)) ! i = slots (fst st) ! i"
  by (induction "is" arbitrary: st) (simp_all add: sweep_slot_other del: split_paired_All)

lemma sweep_fold_failed: "failed_for i (snd st) \<Longrightarrow> failed_for i (snd (fold (sweep_slot rnd g timeout) is st))"
  by (induction "is" arbitrary: st) (simp_all add: sweep_slot_failed del: split_paired_All)

lemma sweep_fold_pinned [simp]:
  "ext_secret_pinned (fst (fold (sweep_slot rnd g timeout) is st)) = ext_secret_pinned (fst st)"
  "length (slots (fst (fold (sweep_slot rnd g timeout) is st))) = length (slots (fst st))"
  by (induction "is" arbitrary: st) (simp_all del: split_paired_All)

lemma sweep_visit:
  assumes "table_ok t" "i \<in> {ext_secret_pinned t..<ext_secret_cnt t}" "drain_sweep_gw rnd g (t, conns) = (t', conns')"
  obtains st st' where "st' = sweep_slot rnd g (drain_timeout_secs t) i st"
    "slots (fst st) ! i = slots t ! i" "slots t' ! i = slots (fst st') ! i"
    "ext_secret_pinned (fst st) = ext_secret_pinned t" "length (slots (fst st)) = length (slots t)"
    "failed_for i (snd st') \<Longrightarrow> failed_for i conns'"
proof -
  let ?f = "sweep_slot rnd g (drain_timeout_secs t)"
  let ?st = "fold ?f [ext_secret_pinned t..<i] (t, conns)"
  have "[ext_secret_pinned t..<ext_secret_cnt t] = [ext_secret_pinned t..<i] @ i # [Suc i..<ext_secret_cnt t]"
    using assms(2) by (metis atLeastLessThan_iff le_add_diff_inverse less_imp_le upt_add_eq_append upt_conv_Cons)
  then have r: "(t', conns') = fold ?f [Suc i..<ext_secret_cnt t] (?f i ?st)"
    using assms(3) by (simp add: drain_sweep_gw_def)
  show ?thesis
  proof (rule that [OF refl, of ?st])
    show "slots (fst ?st) ! i = slots t ! i" by (simp add: sweep_fold_other)
    have "slots (fst (t', conns')) ! i = slots (fst (?f i ?st)) ! i" unfolding r by (rule sweep_fold_other) simp
    then show "slots t' ! i = slots (fst (?f i ?st)) ! i" by simp
    show "failed_for i conns'" if "failed_for i (snd (?f i ?st))"
      using sweep_fold_failed [OF that, of rnd g "drain_timeout_secs t" "[Suc i..<ext_secret_cnt t]"] r by (metis snd_conv)
  qed simp_all
qed

text \<open>C13: (a removed secret goes away). Take a reachable state of a server and a slot below the count.
  If the slot is draining and counts no connection, the next sweep frees it and erases its key. If it
  is draining, counts connections, and the drain time is limited and used up (after rounding), the
  next sweep fails every connection that is charged to it. A slot that is not draining is not changed
  by a sweep. Outside direct mode the count of the slot is the number of connections charged to it; in
  direct mode it may be larger, and then the slot is not freed.\<close>

theorem drain_completes:
  assumes "ext_reach direct cli s" "i < ext_secret_cnt (es_table s)"
    and "drain_sweep_gw rnd g (es_table s, es_conns s) = (t', conns')"
  shows "(ext_secret_state (slots (es_table s) ! i) = SLOT_DRAINING \<longrightarrow>
      (slot_connections (slots (es_table s) ! i) = 0 \<longrightarrow>
         ext_secret_state (slots t' ! i) = SLOT_FREE \<and> slot_key (slots t' ! i) = replicate 16 0) \<and>
      (slot_connections (slots (es_table s) ! i) \<noteq> 0 \<and> 0 < drain_timeout_secs (es_table s) \<and>
       drain_timeout_secs (es_table s) \<le> rnd (precise_now g - ext_secret_drain_started_at (slots (es_table s) ! i)) \<longrightarrow>
         failed_for i conns')) \<and>
    (ext_secret_state (slots (es_table s) ! i) \<noteq> SLOT_DRAINING \<longrightarrow> slots t' ! i = slots (es_table s) ! i) \<and>
    live i (es_conns s) \<le> slot_connections (slots (es_table s) ! i) \<and>
    (\<not> direct \<longrightarrow> slot_connections (slots (es_table s) ! i) = live i (es_conns s))"
proof -
  let ?t = "es_table s"
  have inv: "ext_inv direct cli s" by (rule ext_reach_inv [OF assms(1)])
  then have ok: "table_ok ?t" by (simp add: ext_inv_def)
  have iM: "i < EXT_SECRET_MAX_SLOTS" "length (slots ?t) = EXT_SECRET_MAX_SLOTS" using ok assms(2) by (auto simp: table_ok_def)
  have cnt: "live i (es_conns s) \<le> slot_connections (slots ?t ! i)"
    "\<not> direct \<Longrightarrow> slot_connections (slots ?t ! i) = live i (es_conns s)"
    using inv iM by (auto simp: ext_inv_def slot_counts_def)
  show ?thesis
  proof (cases "i < ext_secret_pinned ?t")
    case True
    then have "ext_secret_state (slots ?t ! i) = SLOT_ACTIVE" using ok by (simp add: table_ok_def)
    moreover have "slots (fst (fold (sweep_slot rnd g (drain_timeout_secs ?t)) [ext_secret_pinned ?t..<ext_secret_cnt ?t]
        (?t, es_conns s))) ! i = slots ?t ! i"
      by (subst sweep_fold_other) (use True in auto)
    ultimately show ?thesis using assms(3) cnt by (simp add: drain_sweep_gw_def)
  next
    case False
    then have "i \<in> {ext_secret_pinned ?t..<ext_secret_cnt ?t}" using assms(2) by simp
    from sweep_visit [OF ok this assms(3)] obtain st st' where
      st: "st' = sweep_slot rnd g (drain_timeout_secs ?t) i st" "slots (fst st) ! i = slots ?t ! i"
      "slots t' ! i = slots (fst st') ! i" "ext_secret_pinned (fst st) = ext_secret_pinned ?t"
      "length (slots (fst st)) = length (slots ?t)" "failed_for i (snd st') \<Longrightarrow> failed_for i conns'"
      by metis
    then show ?thesis using False iM cnt
      by (auto simp: sweep_slot_def tcp_rpcs_get_ext_secret_state_def tcp_rpcs_get_ext_secret_drain_started_def Let_def
          tcp_rpcs_drain_release_slot_if_empty_def tcp_rpcs_ip_track_clear_slot_def zero_config_def
          tcp_rpcs_drain_force_close_for_slot_def fail_map_failed)
  qed
qed

subsection \<open>Examples\<close>

text \<open>With the zero keystream a header is its own decryption.\<close>

definition plain_header :: bytes where
  "plain_header = replicate 56 0 @ replicate 4 0xdd @ replicate 4 0"

lemma plain_header_recognised:
  "\<exists>r. fst (obfs2_parse_header (\<lambda>_ _ _. 0) sha plain_header (k # ks) p) = Some r \<and> or_secret_id r = 0"
proof -
  have dec: "fst (ctr_crypt (\<lambda>_ _ _. 0) c plain_header) = plain_header" for c
    unfolding ctr_crypt_def by (simp add: xor_stream_def map_nth)
  have "take 4 (drop 56 plain_header) = [0xdd, 0xdd, 0xdd, 0xdd]"
    by (simp add: plain_header_def) (simp add: numeral_eq_Suc)
  then have "le_nat (take 4 (drop 56 plain_header)) = OBFS2_TAG_PAD" by (simp only:) (simp add: OBFS2_TAG_PAD_def)
  then have "tag_accepted p (le_nat (take 4 (drop 56 plain_header)))" by (simp add: tag_accepted_def)
  then have "obfs2_try (\<lambda>_ _ _. 0) sha plain_header p 0 (map Some (k # ks)) =
    Some (\<lparr>or_tag = le_nat (take 4 (drop 56 plain_header)),
      or_dc = sint (word_of_nat (le_nat (take 2 (drop 60 plain_header))) :: u16),
      or_secret_id = 0, or_keys = derive_keys sha plain_header (Some k)\<rparr>, plain_header)"
    by (simp only: list.map obfs2_try.simps Let_def dec if_True)
  then show ?thesis unfolding obfs2_parse_header_def by simp
qed

definition start_table :: secret_table where
  "start_table = tcp_rpcs_pin_ext_secrets (boot_table\<lparr>ext_secret_cnt := 1, slots := (slots boot_table)[0 :=
     tcp_rpcs_ip_track_clear_slot ((slots boot_table ! 0)\<lparr>
       ext_secret := example_config\<lparr>sc_label := slot_label 0 (sc_label example_config)\<rparr>,
       ext_secret_state := SLOT_ACTIVE, ext_secret_drain_started_at := 0\<rparr>)]\<rparr>)"

lemma start_table_reach:
  "ext_reach direct [example_config] \<lparr>es_table = start_table, es_conns = replicate n None, es_direct_active = 0\<rparr>"
proof -
  have "set_secrets [example_config] boot_table = Some (boot_table\<lparr>ext_secret_cnt := 1, slots := (slots boot_table)[0 :=
     tcp_rpcs_ip_track_clear_slot ((slots boot_table ! 0)\<lparr>
       ext_secret := example_config\<lparr>sc_label := slot_label 0 (sc_label example_config)\<rparr>,
       ext_secret_state := SLOT_ACTIVE, ext_secret_drain_started_at := 0\<rparr>)]\<rparr>)"
    by (simp add: tcp_rpcs_set_ext_secret_def Let_def EXT_SECRET_MAX_ACTIVE_def) (simp add: boot_table_def)
  from reach_start [OF this, of direct n] show ?thesis by (simp add: start_table_def)
qed

lemma start_table_slot:
  "compact_to_slot start_table = [0]" "slot_key (slots start_table ! 0) = replicate 16 7"
  "check_secret example_globals 7 zero_ipv6 (slots start_table ! 0) = None"
  "slot_connections (slots start_table ! 0) = 0" "length (slots start_table) = EXT_SECRET_MAX_SLOTS"
  by (simp_all add: start_table_def tcp_rpcs_pin_ext_secrets_def boot_table_def EXT_SECRET_MAX_SLOTS_def compact_to_slot_def
      tcp_rpcs_ip_track_clear_slot_def example_config_def zero_config_def zero_slot_def zero_counters_def check_secret_def
      secret_expired_def secret_over_limit_def secret_over_quota_def ip_over_limit_def effective_def example_globals_def)

text \<open>A client connects and is recognised.\<close>

lemma client_recognised:
  obtains s c where "ext_reach direct [example_config] s" "es_conns s = [Some c]" "ec_extra_int2 c = 1"
    "slot_connections (slots (es_table s) ! 0) = 1" "es_direct_active s = 0"
proof -
  let ?s0 = "\<lparr>es_table = start_table, es_conns = replicate 1 None, es_direct_active = 0\<rparr>"
  let ?c = "accepted_conn 7 zero_ipv6"
  let ?s1 = "set_conn 0 (Some ?c) start_table ?s0"
  have r1: "ext_reach direct [example_config] ?s1"
    using reach_step [OF start_table_reach step_open [of 0 ?s0]] by simp
  obtain pr where pr: "fst (obfs2_parse_header (\<lambda>_ _ _. 0) (take 32) plain_header (compact_secrets start_table) False) = Some pr"
    "or_secret_id pr = 0"
    using plain_header_recognised [of "take 32" "replicate 16 7" "[]" False] by (auto simp: compact_secrets_def start_table_slot)
  obtain ok sl where acc: "accept_connection example_globals False 7 zero_ipv6 (slots start_table ! 0) = (ok, sl)" by (rule prod.exhaust)
  then have sl: "ok" "slot_connections sl = 1"
    using accept_connection_same(2) [OF acc] start_table_slot by (auto simp: accept_connection_def secret_gate_def)
  define c' where "c' = ?c\<lparr>ec_extra_int2 := 1, ec_key := replicate 16 7\<rparr>"
  define t' where "t' = start_table\<lparr>slots := (slots start_table)[0 := sl]\<rparr>"
  have "ext_handshake (\<lambda>_ _ _. 0) (take 32) example_globals False plain_header (?c, start_table) = Some (c', t')"
    using pr acc sl(1) by (simp add: ext_handshake_def start_table_slot accepted_conn_def c'_def t'_def)
  then have "ext_step direct ?s1 (set_conn 0 (Some c') t' ?s1)"
    by (intro step_handshake) (auto simp: conn_at_def unrecognised_def accepted_conn_def)
  from reach_step [OF r1 this] have "ext_reach direct [example_config] (set_conn 0 (Some c') t' ?s1)" .
  then show ?thesis
    by (rule that [of _ c']) (use sl(2) in \<open>auto simp: c'_def t'_def start_table_slot EXT_SECRET_MAX_SLOTS_def\<close>)
qed

theorem connections_keep_their_secret_witness:
  "\<exists>s c. ext_reach True [example_config] s \<and> conn_at s 0 c \<and> ec_extra_int2 c = 1 \<and>
     slot_key (slots (es_table s) ! 0) = ec_key c"
proof -
  obtain s c where s: "ext_reach True [example_config] s" "es_conns s = [Some c]" "ec_extra_int2 c = 1"
    by (rule client_recognised)
  have "conn_at s 0 c" using s(2) by (simp add: conn_at_def)
  moreover have "slot_key (slots (es_table s) ! 0) = ec_key c"
    using connections_keep_their_secret [OF s(1), THEN conjunct1, rule_format, of 0 c] calculation s(3) by (simp add: Let_def)
  ultimately show ?thesis using s by blast
qed

text \<open>C36: (a leak in direct mode). A reachable state has no connection left and still counts one for a
  slot: a client that is closed while no data centre connection is counted is not uncounted, so its
  slot never empties and its limit stays used up.\<close>

theorem direct_close_leaks:
  "\<exists>s. ext_reach True [example_config] s \<and> es_conns s = [None] \<and> slot_connections (slots (es_table s) ! 0) = 1"
proof -
  obtain s c where s: "ext_reach True [example_config] s" "es_conns s = [Some c]" "ec_extra_int2 c = 1"
    "slot_connections (slots (es_table s) ! 0) = 1" "es_direct_active s = 0"
    by (rule client_recognised)
  let ?s1 = "set_conn 0 (Some (direct_client_type c)) (es_table s) (s\<lparr>es_direct_active := es_direct_active s + 0\<rparr>)"
  have "ext_step True s ?s1" by (rule step_direct) (use s in \<open>auto simp: conn_at_def\<close>)
  with s(1) have r1: "ext_reach True [example_config] ?s1" by (rule reach_step)
  have "close_connection (direct_client_type c) (es_table ?s1, es_direct_active ?s1) = (es_table s, 0)"
    using s(5) by (simp add: close_connection_def direct_client_type_def is_direct_client_def tcp_direct_close_def)
  then have "ext_step True ?s1 (set_conn 0 None (es_table s) (?s1\<lparr>es_direct_active := 0\<rparr>))"
    by (intro step_close) (use s in \<open>auto simp: conn_at_def\<close>)
  from reach_step [OF r1 this] show ?thesis using s(2,4)
    by (intro exI [of _ "set_conn 0 None (es_table s) (?s1\<lparr>es_direct_active := 0\<rparr>)"]) simp
qed

theorem drain_completes_witness:
  "\<exists>s i t' conns'. ext_reach False [] s \<and> drain_sweep_gw (\<lambda>x. x) example_globals (es_table s, es_conns s) = (t', conns') \<and>
     ext_secret_state (slots (es_table s) ! i) = SLOT_DRAINING \<and> ext_secret_state (slots t' ! i) = SLOT_FREE"
proof -
  let ?t0 = "tcp_rpcs_pin_ext_secrets boot_table"
  let ?s0 = "\<lparr>es_table = ?t0, es_conns = [], es_direct_active = 0\<rparr>"
  have t0: "?t0 = boot_table" by (simp add: tcp_rpcs_pin_ext_secrets_def boot_table_def)
  obtain t1 where r1: "tcp_rpcs_reload_ext_secrets example_globals [example_config] boot_table = Some (0, t1)"
    using reload_returns_0 [OF boot_table_ok(1) boot_one_secret] by blast
  note k1 = reload_kept_table_ok [OF r1 boot_table_ok(1)] and f1 = reload_result [OF boot_table_ok(1) r1]
  have p1: "ext_secret_pinned t1 = 0" using k1(2) boot_table_ok by simp
  obtain t2 where r2: "tcp_rpcs_reload_ext_secrets example_globals [] t1 = Some (0, t2)"
    using reload_returns_0 [OF k1(4), of "[]"] p1 by auto
  note k2 = reload_kept_table_ok [OF r2 k1(4)] and f2 = reload_result [OF k1(4) r2]
  have "sc_key example_config \<in> active_keys 0 (slots t1)" using f1 by auto
  then obtain i where i: "i < EXT_SECRET_MAX_SLOTS" "ext_secret_state (slots t1 ! i) = SLOT_ACTIVE"
    using k1(4) by (auto simp: active_keys_def table_ok_def)
  then have d: "ext_secret_state (slots t2 ! i) = SLOT_DRAINING" using f2 p1 by (auto simp: in_use_def)
  then have "i \<in> set (compact_to_slot t2)" using f2 i(1) by (auto simp: in_use_def)
  then have cnt: "i < ext_secret_cnt t2" by (simp add: compact_to_slot_def)
  let ?u = "tcp_rpcs_drain_set_timeout 0"
  have "ext_reach False [] ?s0" using reach_start [of "[]" boot_table False 0] by simp
  then have "ext_reach False [] (?s0\<lparr>es_table := ?u t1\<rparr>)"
    by (rule reach_step) (rule step_reload [of example_globals "[example_config]" 0], simp add: t0 apply_toml_secrets_def r1)
  then have s: "ext_reach False [] (?s0\<lparr>es_table := ?u t2\<rparr>)"
  proof (rule reach_step)
    have "tcp_rpcs_reload_ext_secrets example_globals [] (?u t1) = Some (0, t2\<lparr>drain_timeout_secs := 0\<rparr>)"
      using r2 by (auto simp: tcp_rpcs_reload_ext_secrets_def tcp_rpcs_drain_set_timeout_def Let_def split: prod.splits if_splits)
    then have "apply_toml_secrets example_globals [] 0 (?u t1) = Some (?u t2)"
      by (simp add: apply_toml_secrets_def tcp_rpcs_drain_set_timeout_def)
    then show "ext_step False (?s0\<lparr>es_table := ?u t1\<rparr>) (?s0\<lparr>es_table := ?u t2\<rparr>)"
      using step_reload [of example_globals "[]" 0 "?s0\<lparr>es_table := ?u t1\<rparr>"] by simp
  qed
  obtain t' conns' where w: "drain_sweep_gw (\<lambda>x. x) example_globals (?u t2, []) = (t', conns')" by (rule prod.exhaust)
  have "ext_secret_state (slots t' ! i) = SLOT_FREE"
    using drain_completes [OF s, of i "\<lambda>x. x" example_globals t' conns'] w d cnt by (simp add: tcp_rpcs_drain_set_timeout_def)
  then show ?thesis using s w d
    by (intro exI [of _ "?s0\<lparr>es_table := ?u t2\<rparr>"] exI [of _ i]) (simp add: tcp_rpcs_drain_set_timeout_def)
qed

end
