(* ===== verification/Srv_Top_Ips.thy ===== *)
theory Srv_Top_Ips
  imports Srv_Secrets
begin

text \<open>
  The traffic of each address, for the metrics, \<open>server/src/net/net-tcp-rpc-ext-top-ips.c\<close>: a table per
  secret with eviction of idle entries, and the snapshot of the entries with most bytes. As before a
  \<open>double\<close> is a real number and \<open>rnd\<close> its rounding.
\<close>

definition IP_VOLUME_TABLE_SIZE :: nat where "IP_VOLUME_TABLE_SIZE = 64"
definition IP_VOLUME_STALE_SEC :: real where "IP_VOLUME_STALE_SEC = 5"
definition WORKER_TOP_IPS_MAX :: int where "WORKER_TOP_IPS_MAX = 32"

record ip_volume_entry =
  iv_ip :: u32
  iv_ipv6 :: bytes
  iv_connections :: int
  iv_bytes_in :: int
  iv_bytes_out :: int
  iv_last_seen :: real

type_synonym volume_table = "ip_volume_entry list"

record top_ips_state =
  ip_volume :: "volume_table list"
  top_ips_per_secret_runtime :: int

definition zero_volume :: ip_volume_entry where
  "zero_volume = \<lparr>iv_ip = 0, iv_ipv6 = zero_ipv6, iv_connections = 0, iv_bytes_in = 0, iv_bytes_out = 0, iv_last_seen = 0\<rparr>"

definition boot_top_ips :: top_ips_state where
  "boot_top_ips = \<lparr>ip_volume = replicate 16 (replicate IP_VOLUME_TABLE_SIZE zero_volume), top_ips_per_secret_runtime = 0\<rparr>"

definition tcp_rpcs_set_top_ips_per_secret :: "int \<Rightarrow> top_ips_state \<Rightarrow> top_ips_state" where
  "tcp_rpcs_set_top_ips_per_secret n st =
     (let n = (if n < 0 then 0 else n); n = (if n > WORKER_TOP_IPS_MAX then WORKER_TOP_IPS_MAX else n) in
      st\<lparr>top_ips_per_secret_runtime := n\<rparr>)"

definition volume_matches :: "u32 \<Rightarrow> bytes \<Rightarrow> ip_volume_entry \<Rightarrow> bool" where
  "volume_matches ip ipv6 e \<longleftrightarrow>
     (if ip \<noteq> 0 then iv_ip e = ip
      else ipv6 \<noteq> zero_ipv6 \<and> iv_ip e = 0 \<and> iv_ipv6 e = ipv6 \<and> iv_ipv6 e \<noteq> zero_ipv6)"

definition ip_volume_lookup :: "u32 \<Rightarrow> bytes \<Rightarrow> volume_table \<Rightarrow> nat option" where
  "ip_volume_lookup ip ipv6 tab = first_index (volume_matches ip ipv6) tab"

definition volume_empty :: "ip_volume_entry \<Rightarrow> bool" where
  "volume_empty e \<longleftrightarrow> iv_ip e = 0 \<and> iv_ipv6 e = zero_ipv6"

definition total_bytes :: "ip_volume_entry \<Rightarrow> int" where
  "total_bytes e = iv_bytes_in e + iv_bytes_out e"

definition evictable :: "(real \<Rightarrow> real) \<Rightarrow> server_globals \<Rightarrow> ip_volume_entry \<Rightarrow> bool" where
  "evictable rnd g e \<longleftrightarrow> \<not> iv_connections e > 0 \<and> \<not> iv_last_seen e \<ge> rnd (precise_now g - IP_VOLUME_STALE_SEC)"

text \<open>The second pass: the victim so far with its bytes.\<close>

fun find_victim :: "(ip_volume_entry \<Rightarrow> bool) \<Rightarrow> volume_table \<Rightarrow> nat \<Rightarrow> (nat \<times> int) option \<Rightarrow> nat option" where
  "find_victim p [] i v = map_option fst v"
| "find_victim p (e # es) i v =
     find_victim p es (i + 1)
       (if \<not> p e then v
        else case v of None \<Rightarrow> Some (i, total_bytes e)
             | Some (j, b) \<Rightarrow> if total_bytes e < b then Some (i, total_bytes e) else v)"

definition ip_volume_acquire_slot ::
  "(real \<Rightarrow> real) \<Rightarrow> server_globals \<Rightarrow> volume_table \<Rightarrow> (nat \<times> volume_table) option" where
  "ip_volume_acquire_slot rnd g tab =
     (case first_index volume_empty tab of
        Some i \<Rightarrow> Some (i, tab)
      | None \<Rightarrow>
          (case find_victim (evictable rnd g) tab 0 None of
             Some i \<Rightarrow> Some (i, tab[i := zero_volume])
           | None \<Rightarrow> None))"

definition ip_volume_get_or_create ::
  "(real \<Rightarrow> real) \<Rightarrow> server_globals \<Rightarrow> u32 \<Rightarrow> bytes \<Rightarrow> volume_table \<Rightarrow> (nat \<times> volume_table) option" where
  "ip_volume_get_or_create rnd g ip ipv6 tab =
     (case ip_volume_lookup ip ipv6 tab of
        Some i \<Rightarrow> Some (i, tab)
      | None \<Rightarrow>
          (case ip_volume_acquire_slot rnd g tab of
             None \<Rightarrow> None
           | Some (i, tab1) \<Rightarrow>
               Some (i, tab1[i := (tab1 ! i)\<lparr>iv_ip := ip, iv_ipv6 := (if ip = 0 then ipv6 else zero_ipv6),
                 iv_connections := 0, iv_bytes_in := 0, iv_bytes_out := 0, iv_last_seen := precise_now g\<rparr>])))"

text \<open>A change of the table of one secret; only the first sixteen slots have one.\<close>

definition with_table :: "int \<Rightarrow> (volume_table \<Rightarrow> volume_table) \<Rightarrow> top_ips_state \<Rightarrow> top_ips_state" where
  "with_table sid f st =
     (if top_ips_per_secret_runtime st \<le> 0 then st
      else if sid < 0 \<or> sid \<ge> 16 then st
      else st\<lparr>ip_volume := (ip_volume st)[nat sid := f (ip_volume st ! nat sid)]\<rparr>)"

definition account_entry ::
  "(real \<Rightarrow> real) \<Rightarrow> server_globals \<Rightarrow> u32 \<Rightarrow> bytes \<Rightarrow> (ip_volume_entry \<Rightarrow> ip_volume_entry) \<Rightarrow> volume_table \<Rightarrow> volume_table" where
  "account_entry rnd g ip ipv6 f tab =
     (case ip_volume_get_or_create rnd g ip ipv6 tab of
        None \<Rightarrow> tab
      | Some (i, tab1) \<Rightarrow> tab1[i := (f (tab1 ! i))\<lparr>iv_last_seen := precise_now g\<rparr>])"

definition tcp_rpcs_account_connect ::
  "(real \<Rightarrow> real) \<Rightarrow> server_globals \<Rightarrow> int \<Rightarrow> u32 \<Rightarrow> bytes \<Rightarrow> top_ips_state \<Rightarrow> top_ips_state" where
  "tcp_rpcs_account_connect rnd g sid ip ipv6 =
     with_table sid (account_entry rnd g ip ipv6 (\<lambda>e. e\<lparr>iv_connections := iv_connections e + 1\<rparr>))"

definition tcp_rpcs_account_disconnect :: "server_globals \<Rightarrow> int \<Rightarrow> u32 \<Rightarrow> bytes \<Rightarrow> top_ips_state \<Rightarrow> top_ips_state" where
  "tcp_rpcs_account_disconnect g sid ip ipv6 =
     with_table sid (\<lambda>tab.
       case ip_volume_lookup ip ipv6 tab of
         None \<Rightarrow> tab
       | Some i \<Rightarrow>
           (let e = tab ! i in
            tab[i := e\<lparr>iv_connections := (if iv_connections e > 0 then iv_connections e - 1 else iv_connections e),
                       iv_last_seen := precise_now g\<rparr>]))"

definition tcp_rpcs_account_bytes ::
  "(real \<Rightarrow> real) \<Rightarrow> server_globals \<Rightarrow> int \<Rightarrow> u32 \<Rightarrow> bytes \<Rightarrow> int \<Rightarrow> int \<Rightarrow> top_ips_state \<Rightarrow> top_ips_state" where
  "tcp_rpcs_account_bytes rnd g sid ip ipv6 n direction st =
     (if n \<le> 0 then st
      else with_table sid
        (account_entry rnd g ip ipv6
          (\<lambda>e. if direction = 0 then e\<lparr>iv_bytes_in := iv_bytes_in e + n\<rparr> else e\<lparr>iv_bytes_out := iv_bytes_out e + n\<rparr>)) st)"

subsection \<open>The snapshot\<close>

record worker_top_ip =
  wt_ip :: u32
  wt_ipv6 :: bytes
  wt_connections :: int
  wt_bytes_in :: int
  wt_bytes_out :: int

definition top_ip :: "ip_volume_entry \<Rightarrow> worker_top_ip" where
  "top_ip e = \<lparr>wt_ip = iv_ip e, wt_ipv6 = iv_ipv6 e, wt_connections = iv_connections e,
     wt_bytes_in = iv_bytes_in e, wt_bytes_out = iv_bytes_out e\<rparr>"

definition reportable :: "ip_volume_entry \<Rightarrow> bool" where
  "reportable e \<longleftrightarrow> \<not> volume_empty e \<and> \<not> (total_bytes e = 0 \<and> iv_connections e = 0)"

text \<open>The inner loop: the best entry so far with its bytes, -1 for none.\<close>

fun find_best :: "ip_volume_entry list \<Rightarrow> bool list \<Rightarrow> nat \<Rightarrow> nat option \<times> int \<Rightarrow> nat option" where
  "find_best (e # es) (p # ps) i (best, best_total) =
     find_best es ps (i + 1)
       (if \<not> p \<and> reportable e \<and> total_bytes e > best_total then (Some i, total_bytes e) else (best, best_total))"
| "find_best _ _ i (best, best_total) = best"

fun snapshot_loop :: "nat \<Rightarrow> volume_table \<Rightarrow> bool list \<Rightarrow> worker_top_ip list" where
  "snapshot_loop 0 tab picked = []"
| "snapshot_loop (Suc n) tab picked =
     (case find_best tab picked 0 (None, -1) of
        None \<Rightarrow> []
      | Some best \<Rightarrow> top_ip (tab ! best) # snapshot_loop n tab (picked[best := True]))"

text \<open>The entries written to \<open>out\<close>, as many as \<open>out_count\<close> says.\<close>

definition tcp_rpcs_snapshot_top_ips :: "int \<Rightarrow> int \<Rightarrow> top_ips_state \<Rightarrow> worker_top_ip list" where
  "tcp_rpcs_snapshot_top_ips sid n st =
     (if top_ips_per_secret_runtime st \<le> 0 then []
      else if sid < 0 \<or> sid \<ge> 16 \<or> n \<le> 0 then []
      else snapshot_loop (nat n) (ip_volume st ! nat sid) (replicate IP_VOLUME_TABLE_SIZE False))"

subsection \<open>The table as a map from addresses\<close>

abbreviation volume_name :: "ip_volume_entry \<Rightarrow> u32 \<times> bytes" where
  "volume_name e \<equiv> client_addr (iv_ip e, iv_ipv6 e)"

definition volume_wf :: "volume_table \<Rightarrow> bool" where
  "volume_wf tab \<longleftrightarrow> length tab = IP_VOLUME_TABLE_SIZE \<and>
     (\<forall>e\<in>set tab. 0 \<le> iv_bytes_in e \<and> 0 \<le> iv_bytes_out e) \<and>
     (\<forall>i<length tab. \<forall>j<length tab. \<not> volume_empty (tab ! i) \<and> volume_name (tab ! i) = volume_name (tab ! j) \<longrightarrow> i = j)"

definition volume_of :: "volume_table \<Rightarrow> u32 \<times> bytes \<Rightarrow> ip_volume_entry option" where
  "volume_of tab p = map_option (\<lambda>i. tab ! i) (ip_volume_lookup (fst p) (snd p) tab)"

lemma volume_empty_name: "volume_empty e \<longleftrightarrow> volume_name e = (0, zero_ipv6)"
  by (auto simp: volume_empty_def client_addr_def)

lemma volume_matches_iff:
  "volume_matches ip ipv6 e \<longleftrightarrow> known_addr (ip, ipv6) \<and> volume_name e = client_addr (ip, ipv6)"
  by (auto simp: volume_matches_def known_addr_def client_addr_def)

lemma known_name: "known_addr p \<Longrightarrow> volume_name e = client_addr p \<Longrightarrow> \<not> volume_empty e"
  by (simp add: volume_empty_name known_addr_def)

lemma ip_volume_lookup_Some:
  assumes "ip_volume_lookup ip ipv6 tab = Some i"
  shows "i < length tab" "known_addr (ip, ipv6)" "volume_name (tab ! i) = client_addr (ip, ipv6)"
  using first_index_SomeD [OF assms [unfolded ip_volume_lookup_def]] by (auto simp: volume_matches_iff)

lemma ip_volume_lookup_eq:
  assumes "volume_wf tab" "i < length tab" "known_addr (ip, ipv6)" "volume_name (tab ! i) = client_addr (ip, ipv6)"
  shows "ip_volume_lookup ip ipv6 tab = Some i"
proof (cases "ip_volume_lookup ip ipv6 tab")
  case None
  then show ?thesis using assms by (auto simp: ip_volume_lookup_def first_index_None_iff volume_matches_iff)
next
  case (Some j)
  note j = ip_volume_lookup_Some [OF this]
  then have "\<not> volume_empty (tab ! j)" by (intro known_name [OF assms(3)])
  then show ?thesis using assms j Some by (auto simp: volume_wf_def)
qed

lemma volume_of_Some_iff:
  assumes "volume_wf tab"
  shows "volume_of tab p = Some e \<longleftrightarrow> known_addr p \<and> volume_name e = client_addr p \<and> e \<in> set tab"
proof
  assume "volume_of tab p = Some e"
  then show "known_addr p \<and> volume_name e = client_addr p \<and> e \<in> set tab"
    using ip_volume_lookup_Some [of "fst p" "snd p" tab] by (auto simp: volume_of_def)
next
  assume r: "known_addr p \<and> volume_name e = client_addr p \<and> e \<in> set tab"
  then obtain i where "i < length tab" "tab ! i = e" by (auto simp: in_set_conv_nth)
  then show "volume_of tab p = Some e"
    using ip_volume_lookup_eq [OF assms, of i "fst p" "snd p"] r by (simp add: volume_of_def)
qed

lemma volume_of_None_iff:
  assumes "volume_wf tab"
  shows "volume_of tab p = None \<longleftrightarrow> (\<forall>e\<in>set tab. known_addr p \<longrightarrow> volume_name e \<noteq> client_addr p)"
  using volume_of_Some_iff [OF assms, of p] by (cases "volume_of tab p") auto

lemma set_update_cases:
  assumes "i < length xs"
  shows "x \<in> set (xs[i := y]) \<longleftrightarrow> x = y \<or> (\<exists>j<length xs. j \<noteq> i \<and> x = xs ! j)"
proof
  assume "x \<in> set (xs[i := y])"
  then obtain j where "j < length xs" "x = xs[i := y] ! j" by (auto simp: in_set_conv_nth)
  then show "x = y \<or> (\<exists>j<length xs. j \<noteq> i \<and> x = xs ! j)" by (cases "j = i") auto
next
  assume "x = y \<or> (\<exists>j<length xs. j \<noteq> i \<and> x = xs ! j)"
  then show "x \<in> set (xs[i := y])"
  proof
    assume "\<exists>j<length xs. j \<noteq> i \<and> x = xs ! j"
    then obtain j where "j < length xs" "j \<noteq> i" "x = xs ! j" by blast
    then have "x = xs[i := y] ! j" "j < length (xs[i := y])" by simp_all
    then show ?thesis using nth_mem by blast
  qed (use assms set_update_memI in fast)
qed

lemma volume_of_cong:
  assumes "volume_wf tab" "volume_wf tab'"
    and "\<And>x. known_addr p \<Longrightarrow> volume_name x = client_addr p \<Longrightarrow> x \<in> set tab' \<longleftrightarrow> x \<in> set tab"
  shows "volume_of tab' p = volume_of tab p"
proof (cases "volume_of tab p")
  case None
  then have n: "\<forall>e\<in>set tab. known_addr p \<longrightarrow> volume_name e \<noteq> client_addr p" using volume_of_None_iff [OF assms(1)] by simp
  have "volume_of tab' p = None" unfolding volume_of_None_iff [OF assms(2)]
  proof (intro ballI impI notI)
    fix x assume "x \<in> set tab'" "known_addr p" "volume_name x = client_addr p"
    then show False using assms(3) [of x] n by simp
  qed
  with None show ?thesis by simp
next
  case (Some e)
  then have k: "known_addr p" "volume_name e = client_addr p" "e \<in> set tab" using volume_of_Some_iff [OF assms(1)] by simp_all
  then have "volume_of tab' p = Some e" using assms(3) [of e] volume_of_Some_iff [OF assms(2)] by simp
  with Some show ?thesis by simp
qed

lemma volume_of_update:
  assumes "volume_wf tab" "volume_wf (tab[i := e])" "i < length tab"
  shows "volume_of (tab[i := e]) p =
    (if known_addr p \<and> volume_name e = client_addr p then Some e
     else if known_addr p \<and> volume_name (tab ! i) = client_addr p then None
     else volume_of tab p)"
proof -
  note other = set_update_cases [OF assms(3), of _ e]
  consider (new) "known_addr p" "volume_name e = client_addr p"
    | (old) "\<not> (known_addr p \<and> volume_name e = client_addr p)" "known_addr p" "volume_name (tab ! i) = client_addr p"
    | (none) "\<not> (known_addr p \<and> volume_name e = client_addr p)" "\<not> (known_addr p \<and> volume_name (tab ! i) = client_addr p)"
    by blast
  then show ?thesis
  proof cases
    case new
    then have "volume_of (tab[i := e]) p = Some e"
      unfolding volume_of_Some_iff [OF assms(2)] using set_update_memI [OF assms(3)] by blast
    with new show ?thesis by simp
  next
    case old
    then have "\<not> volume_empty (tab ! i)" using known_name by blast
    then have "volume_name (tab ! j) \<noteq> client_addr p" if "j < length tab" "j \<noteq> i" for j
      using assms(1,3) that old(3) unfolding volume_wf_def by metis
    then have "volume_of (tab[i := e]) p = None" unfolding volume_of_None_iff [OF assms(2)] using old(1) by (auto simp: other)
    with old show ?thesis by simp
  next
    case none
    have "x \<in> set (tab[i := e]) \<longleftrightarrow> x \<in> set tab" if "known_addr p" "volume_name x = client_addr p" for x
    proof -
      have "x \<noteq> e" "x \<noteq> tab ! i" using none that by auto
      then show ?thesis unfolding other using in_set_conv_nth [of x tab] by auto
    qed
    then have "volume_of (tab[i := e]) p = volume_of tab p" by (intro volume_of_cong [OF assms(1,2)])
    with none show ?thesis by (simp only: if_False)
  qed
qed

subsection \<open>Accounting\<close>

text \<open>The entry of a new address.\<close>

definition created :: "server_globals \<Rightarrow> u32 \<times> bytes \<Rightarrow> ip_volume_entry" where
  "created g p = \<lparr>iv_ip = fst p, iv_ipv6 = (if fst p = 0 then snd p else zero_ipv6), iv_connections = 0,
     iv_bytes_in = 0, iv_bytes_out = 0, iv_last_seen = precise_now g\<rparr>"

lemma created_name [simp]: "volume_name (created g p) = client_addr p"
  by (simp add: created_def client_addr_def)

text \<open>The victim among the first entries.\<close>

definition victim_ok :: "(ip_volume_entry \<Rightarrow> bool) \<Rightarrow> volume_table \<Rightarrow> nat \<Rightarrow> (nat \<times> int) option \<Rightarrow> bool" where
  "victim_ok p tab n v \<longleftrightarrow>
     (case v of None \<Rightarrow> \<forall>l<n. \<not> p (tab ! l)
      | Some (j, b) \<Rightarrow> j < n \<and> p (tab ! j) \<and> b = total_bytes (tab ! j) \<and> (\<forall>l<n. p (tab ! l) \<longrightarrow> b \<le> total_bytes (tab ! l)))"

lemma victim_ok_step:
  assumes "victim_ok p tab n v"
  shows "victim_ok p tab (n + 1) (if \<not> p (tab ! n) then v
        else case v of None \<Rightarrow> Some (n, total_bytes (tab ! n))
             | Some (j, b) \<Rightarrow> if total_bytes (tab ! n) < b then Some (n, total_bytes (tab ! n)) else v)"
  using assms by (fastforce simp: victim_ok_def less_Suc_eq split: option.splits)

lemma find_victim_ok:
  "victim_ok p tab n v \<Longrightarrow> n \<le> length tab \<Longrightarrow>
     \<exists>v'. find_victim p (drop n tab) n v = map_option fst v' \<and> victim_ok p tab (length tab) v'"
proof (induction "length tab - n" arbitrary: n v)
  case (Suc k)
  then have n: "n < length tab" "k = length tab - (n + 1)" by auto
  then have "drop n tab = tab ! n # drop (n + 1) tab" by (simp add: Cons_nth_drop_Suc)
  then show ?case using Suc.hyps(1) [OF n(2) victim_ok_step [OF Suc.prems(1)]] n(1) by simp
qed auto

text \<open>The entry a new address takes.\<close>

lemma acquire_slot_result:
  assumes "ip_volume_acquire_slot rnd g tab = r"
  shows "(case r of
     None \<Rightarrow> \<forall>e\<in>set tab. \<not> volume_empty e \<and> \<not> evictable rnd g e
   | Some (i, tab1) \<Rightarrow> i < length tab \<and>
       (volume_empty (tab ! i) \<and> tab1 = tab \<or>
        evictable rnd g (tab ! i) \<and> (\<forall>e\<in>set tab. \<not> volume_empty e \<and> (evictable rnd g e \<longrightarrow> total_bytes (tab ! i) \<le> total_bytes e)) \<and>
        tab1 = tab[i := zero_volume]))"
proof (cases "first_index volume_empty tab")
  case (Some i)
  then show ?thesis using assms first_index_SomeD [OF Some] by (auto simp: ip_volume_acquire_slot_def)
next
  case None
  then have ne: "\<forall>e\<in>set tab. \<not> volume_empty e" by (simp add: first_index_None_iff)
  have "victim_ok (evictable rnd g) tab 0 None" by (simp add: victim_ok_def)
  from find_victim_ok [OF this] obtain v where v: "find_victim (evictable rnd g) tab 0 None = map_option fst v"
    "victim_ok (evictable rnd g) tab (length tab) v" by auto
  show ?thesis
  proof (cases v)
    case n: None
    then show ?thesis using assms None v ne by (auto simp: ip_volume_acquire_slot_def victim_ok_def in_set_conv_nth)
  next
    case s: (Some jb)
    then show ?thesis using assms None v ne
      by (auto simp: ip_volume_acquire_slot_def victim_ok_def in_set_conv_nth split: prod.splits)
  qed
qed

lemma volume_wf_update:
  assumes "volume_wf tab" "i < length tab" "0 \<le> iv_bytes_in e" "0 \<le> iv_bytes_out e"
    and "\<And>j. j < length tab \<Longrightarrow> j \<noteq> i \<Longrightarrow> \<not> volume_empty e \<Longrightarrow> volume_name (tab ! j) \<noteq> volume_name e"
  shows "volume_wf (tab[i := e])"
proof -
  have "j = k" if "j < length tab" "k < length tab" "\<not> volume_empty (tab[i := e] ! j)"
    "volume_name (tab[i := e] ! j) = volume_name (tab[i := e] ! k)" for j k
  proof -
    have "\<not> volume_empty (tab[i := e] ! k)" using that(3,4) by (simp add: volume_empty_name)
    then show ?thesis using that assms(1,2) assms(5) [of j] assms(5) [of k]
      by (cases "j = i"; cases "k = i") (auto simp: volume_wf_def)
  qed
  moreover have "\<forall>x\<in>set (tab[i := e]). 0 \<le> iv_bytes_in x \<and> 0 \<le> iv_bytes_out x"
    using assms(1,3,4) set_update_subset_insert [of tab i e] by (auto simp: volume_wf_def)
  ultimately show ?thesis using assms(1) by (auto simp: volume_wf_def)
qed

lemma account_entry_cases:
  obtains (kept) "account_entry rnd g ip ipv6 f tab = tab" "ip_volume_lookup ip ipv6 tab = None"
      "\<forall>e\<in>set tab. \<not> volume_empty e \<and> \<not> evictable rnd g e"
  | (found) i where "ip_volume_lookup ip ipv6 tab = Some i"
      "account_entry rnd g ip ipv6 f tab = tab[i := (f (tab ! i))\<lparr>iv_last_seen := precise_now g\<rparr>]"
  | (new) i where "ip_volume_lookup ip ipv6 tab = None" "i < length tab"
      "volume_empty (tab ! i) \<or> evictable rnd g (tab ! i) \<and> (\<forall>e\<in>set tab. evictable rnd g e \<longrightarrow> total_bytes (tab ! i) \<le> total_bytes e)"
      "account_entry rnd g ip ipv6 f tab = tab[i := (f (created g (ip, ipv6)))\<lparr>iv_last_seen := precise_now g\<rparr>]"
proof (cases "ip_volume_lookup ip ipv6 tab")
  case (Some i)
  then show ?thesis by (intro found [of i]) (simp_all add: account_entry_def ip_volume_get_or_create_def)
next
  case None
  show ?thesis
  proof (cases "ip_volume_acquire_slot rnd g tab")
    case n: None
    then show ?thesis using None acquire_slot_result [OF n]
      by (intro kept) (simp_all add: account_entry_def ip_volume_get_or_create_def)
  next
    case (Some it)
    obtain i tab1 where it: "it = (i, tab1)" by (cases it)
    have r: "i < length tab" "tab1 = tab \<or> tab1 = tab[i := zero_volume]"
      "volume_empty (tab ! i) \<or> evictable rnd g (tab ! i) \<and> (\<forall>e\<in>set tab. evictable rnd g e \<longrightarrow> total_bytes (tab ! i) \<le> total_bytes e)"
      using acquire_slot_result [OF Some] it by auto
    have cr: "x\<lparr>iv_ip := ip, iv_ipv6 := (if ip = 0 then ipv6 else zero_ipv6), iv_connections := 0, iv_bytes_in := 0,
        iv_bytes_out := 0, iv_last_seen := precise_now g\<rparr> = created g (ip, ipv6)" for x
      by (cases x) (simp add: created_def)
    have "account_entry rnd g ip ipv6 f tab = tab1[i := (f (created g (ip, ipv6)))\<lparr>iv_last_seen := precise_now g\<rparr>]"
      using None Some it r(1,2) cr by (auto simp: account_entry_def ip_volume_get_or_create_def simp del: if_image_distrib)
    then have "account_entry rnd g ip ipv6 f tab = tab[i := (f (created g (ip, ipv6)))\<lparr>iv_last_seen := precise_now g\<rparr>]"
      using r(2) by auto
    then show ?thesis using None r by (intro new [of i])
  qed
qed

text \<open>What an accounting step does to one entry: the address stays and the bytes do not go below zero.\<close>

definition entry_update :: "(ip_volume_entry \<Rightarrow> ip_volume_entry) \<Rightarrow> bool" where
  "entry_update f \<longleftrightarrow> (\<forall>e. iv_ip (f e) = iv_ip e \<and> iv_ipv6 (f e) = iv_ipv6 e \<and>
     iv_bytes_in e \<le> iv_bytes_in (f e) \<and> iv_bytes_out e \<le> iv_bytes_out (f e))"

lemma account_entry_map:
  assumes wf: "volume_wf tab" and p: "known_addr p" and f: "entry_update f"
    and tab'_def: "tab' = account_entry rnd g (fst p) (snd p) f tab"
  shows "volume_wf tab' \<and>
    (tab' = tab \<and> volume_of tab p = None \<and> (\<forall>e\<in>set tab. \<not> volume_empty e \<and> \<not> evictable rnd g e) \<or>
     volume_of tab' p = Some ((f (case volume_of tab p of Some e \<Rightarrow> e | None \<Rightarrow> created g p))\<lparr>iv_last_seen := precise_now g\<rparr>) \<and>
     (\<forall>q. client_addr q \<noteq> client_addr p \<longrightarrow> volume_of tab' q = volume_of tab q \<or>
        volume_of tab p = None \<and> volume_of tab' q = None \<and>
        (\<exists>e. volume_of tab q = Some e \<and> evictable rnd g e \<and>
             (\<forall>e'\<in>set tab. evictable rnd g e' \<longrightarrow> total_bytes e \<le> total_bytes e'))))"
proof (cases rule: account_entry_cases [of rnd g "fst p" "snd p" f tab])
  case kept
  then show ?thesis using wf by (simp add: tab'_def volume_of_def)
next
  case (found i)
  note l = ip_volume_lookup_Some [OF found(1)]
  let ?e = "(f (tab ! i))\<lparr>iv_last_seen := precise_now g\<rparr>"
  have e: "volume_name ?e = volume_name (tab ! i)" "0 \<le> iv_bytes_in ?e" "0 \<le> iv_bytes_out ?e"
  proof -
    have "0 \<le> iv_bytes_in (tab ! i)" "0 \<le> iv_bytes_out (tab ! i)" using wf l(1) by (simp_all add: volume_wf_def)
    then show "0 \<le> iv_bytes_in ?e" "0 \<le> iv_bytes_out ?e" using f by (auto simp: entry_update_def intro: order_trans)
  qed (use f in \<open>simp add: entry_update_def\<close>)
  have ne: "\<not> volume_empty (tab ! i)" using known_name [OF p, of "tab ! i"] l(3) by simp
  have wf': "volume_wf tab'" unfolding tab'_def found(2)
  proof (rule volume_wf_update [OF wf l(1) e(2,3)])
    show "volume_name (tab ! j) \<noteq> volume_name ?e" if "j < length tab" "j \<noteq> i" for j
      using wf l(1) ne that unfolding e(1) volume_wf_def by metis
  qed
  have old: "volume_of tab p = Some (tab ! i)" using found(1) by (simp add: volume_of_def)
  note up = volume_of_update [OF wf wf' [unfolded tab'_def found(2)] l(1), folded found(2), folded tab'_def]
  have "volume_of tab' p = Some ?e" using up [of p] p e(1) l(3) by simp
  moreover have "volume_of tab' q = volume_of tab q" if "client_addr q \<noteq> client_addr p" for q
    using up [of q] that e(1) l(3) by auto
  ultimately show ?thesis using wf' old by simp
next
  case (new i)
  let ?e = "(f (created g p))\<lparr>iv_last_seen := precise_now g\<rparr>"
  have e: "volume_name ?e = client_addr p" "0 \<le> iv_bytes_in ?e" "0 \<le> iv_bytes_out ?e"
  proof -
    show "volume_name ?e = client_addr p" using f created_name [of g p] by (simp add: entry_update_def del: created_name)
    have "iv_bytes_in (created g p) \<le> iv_bytes_in (f (created g p))" "iv_bytes_out (created g p) \<le> iv_bytes_out (f (created g p))"
      using f by (simp_all add: entry_update_def)
    then show "0 \<le> iv_bytes_in ?e" "0 \<le> iv_bytes_out ?e" by (simp_all add: created_def)
  qed
  have none: "volume_of tab p = None" using new(1) by (simp add: volume_of_def)
  then have "volume_name x \<noteq> client_addr p" if "x \<in> set tab" for x
    using that p volume_of_None_iff [OF wf, of p] by simp
  then have wf': "volume_wf tab'" unfolding tab'_def new(4) prod.collapse
    by (intro volume_wf_update [OF wf new(2) e(2,3)]) (use e(1) in auto)
  note up = volume_of_update [OF wf wf' [unfolded tab'_def new(4) prod.collapse] new(2), folded new(4) [unfolded prod.collapse], folded tab'_def]
  have "volume_of tab' p = Some ?e" using up [of p] p e(1) by simp
  moreover have "volume_of tab' q = volume_of tab q \<or> volume_of tab' q = None \<and>
      (\<exists>x. volume_of tab q = Some x \<and> evictable rnd g x \<and> (\<forall>e'\<in>set tab. evictable rnd g e' \<longrightarrow> total_bytes x \<le> total_bytes e'))"
    if q: "client_addr q \<noteq> client_addr p" for q
  proof (cases "known_addr q \<and> volume_name (tab ! i) = client_addr q")
    case True
    then have "volume_of tab q = Some (tab ! i)" using volume_of_Some_iff [OF wf, of q] new(2) by simp
    moreover have "\<not> volume_empty (tab ! i)" using True known_name by blast
    ultimately show ?thesis using up [of q] q e(1) True new(3) by auto
  next
    case False
    then show ?thesis using up [of q] q e(1) by auto
  qed
  ultimately show ?thesis using wf' none by auto
qed

text \<open>Recording traffic or a connection of an address leaves the table
  sound and changes the record of that address exactly as it should, starting from an empty record
  for a new address; every other address keeps its record, except that a new address may take the
  place of one entry that has no connections, was not seen for five seconds (after rounding) and has
  the fewest bytes of all such entries. Only when there is neither an empty nor such an entry is the
  new address not recorded, and then nothing changes.\<close>

lemma accounting_per_address:
  assumes "volume_wf tab" "known_addr p" "entry_update f" "tab' = account_entry rnd g (fst p) (snd p) f tab"
  shows "volume_wf tab' \<and>
    (tab' = tab \<and> volume_of tab p = None \<and> (\<forall>e\<in>set tab. \<not> volume_empty e \<and> \<not> evictable rnd g e) \<or>
     volume_of tab' p = Some ((f (case volume_of tab p of Some e \<Rightarrow> e | None \<Rightarrow> created g p))\<lparr>iv_last_seen := precise_now g\<rparr>) \<and>
     (\<forall>q. client_addr q \<noteq> client_addr p \<longrightarrow> volume_of tab' q = volume_of tab q \<or>
        volume_of tab p = None \<and> volume_of tab' q = None \<and>
        (\<exists>e. volume_of tab q = Some e \<and> evictable rnd g e \<and>
             (\<forall>e'\<in>set tab. evictable rnd g e' \<longrightarrow> total_bytes e \<le> total_bytes e'))))"
  by (rule account_entry_map [OF assms])

lemma empty_table_wf: "volume_wf (replicate IP_VOLUME_TABLE_SIZE zero_volume)"
  by (auto simp: volume_wf_def zero_volume_def volume_empty_def)

subsection \<open>The snapshot is the head of a stable sort\<close>

definition candidate :: "volume_table \<Rightarrow> bool list \<Rightarrow> nat \<Rightarrow> bool" where
  "candidate tab picked i \<longleftrightarrow> \<not> picked ! i \<and> reportable (tab ! i)"

definition best_ok :: "volume_table \<Rightarrow> bool list \<Rightarrow> nat \<Rightarrow> nat option \<times> int \<Rightarrow> bool" where
  "best_ok tab picked n b \<longleftrightarrow>
     (case fst b of None \<Rightarrow> snd b = -1 \<and> (\<forall>l<n. \<not> candidate tab picked l)
      | Some j \<Rightarrow> j < n \<and> candidate tab picked j \<and> snd b = total_bytes (tab ! j) \<and>
          (\<forall>l<n. candidate tab picked l \<longrightarrow> total_bytes (tab ! l) \<le> snd b) \<and>
          (\<forall>l<j. candidate tab picked l \<longrightarrow> total_bytes (tab ! l) < snd b))"

lemma best_ok_step:
  assumes "best_ok tab picked n b" "total_bytes (tab ! n) \<ge> 0"
  shows "best_ok tab picked (n + 1)
    (if \<not> picked ! n \<and> reportable (tab ! n) \<and> total_bytes (tab ! n) > snd b then (Some n, total_bytes (tab ! n)) else b)"
  using assms by (fastforce simp: best_ok_def candidate_def less_Suc_eq split: option.splits)

lemma find_best_ok:
  "best_ok tab picked n b \<Longrightarrow> n \<le> length tab \<Longrightarrow> length picked = length tab \<Longrightarrow> \<forall>e\<in>set tab. 0 \<le> total_bytes e \<Longrightarrow>
     \<exists>t. best_ok tab picked (length tab) (find_best (drop n tab) (drop n picked) n b, t)"
proof (induction "length tab - n" arbitrary: n b)
  case 0
  then show ?case by (cases b) auto
next
  case (Suc k)
  then have n: "n < length tab" "k = length tab - (n + 1)" by auto
  have d: "drop n tab = tab ! n # drop (n + 1) tab" "drop n picked = picked ! n # drop (n + 1) picked"
    using n(1) Suc.prems(3) by (simp_all add: Cons_nth_drop_Suc)
  have "total_bytes (tab ! n) \<ge> 0" using Suc.prems(4) n(1) by simp
  note st = best_ok_step [OF Suc.prems(1) this]
  obtain bb bt where b: "b = (bb, bt)" by (cases b)
  show ?case using Suc.hyps(1) [OF n(2) st] n(1) Suc.prems(3,4) unfolding d b by simp
qed

lemma sort_key_first:
  assumes "\<forall>u\<in>set us. f m < f u" "\<forall>v\<in>set vs. f m \<le> f v"
  shows "sort_key f (us @ m # vs) = m # sort_key f (us @ vs)"
proof (rule properties_for_sort_key)
  show "filter (\<lambda>x. f k = f x) (m # sort_key f (us @ vs)) = filter (\<lambda>x. f k = f x) (us @ m # vs)"
    if "k \<in> set (m # sort_key f (us @ vs))" for k
  proof -
    have "filter (\<lambda>x. f k = f x) (sort_key f (us @ vs)) = filter (\<lambda>x. f k = f x) (us @ vs)"
      using sort_key_stable [of f "f k" "us @ vs"] by (simp add: eq_commute)
    moreover have "filter (\<lambda>x. f m = f x) us = []" using assms(1) by (auto simp: filter_empty_conv)
    ultimately show ?thesis by auto
  qed
  show "sorted (map f (m # sort_key f (us @ vs)))" using assms by (auto intro: less_imp_le)
qed simp

definition open_candidates :: "volume_table \<Rightarrow> bool list \<Rightarrow> nat list" where
  "open_candidates tab picked = filter (candidate tab picked) [0..<length tab]"

lemma open_candidates_pick:
  assumes "best_ok tab picked (length tab) (Some m, t)" "length picked = length tab"
  shows "sort_key (\<lambda>i. - total_bytes (tab ! i)) (open_candidates tab picked) =
    m # sort_key (\<lambda>i. - total_bytes (tab ! i)) (open_candidates tab (picked[m := True]))"
proof -
  let ?c = "candidate tab picked"
  have m: "m < length tab" "?c m" "\<forall>l<length tab. ?c l \<longrightarrow> total_bytes (tab ! l) \<le> total_bytes (tab ! m)"
    "\<forall>l<m. ?c l \<longrightarrow> total_bytes (tab ! l) < total_bytes (tab ! m)"
    using assms(1) by (auto simp: best_ok_def)
  have split: "[0..<length tab] = [0..<m] @ m # [Suc m..<length tab]"
    using m(1) upt_add_eq_append [of 0 m "length tab - m"] by (simp add: upt_conv_Cons)
  have c': "candidate tab (picked[m := True]) i \<longleftrightarrow> ?c i \<and> i \<noteq> m" for i
    using m(1) assms(2) by (cases "i = m") (auto simp: candidate_def)
  have "open_candidates tab picked = filter ?c [0..<m] @ m # filter ?c [Suc m..<length tab]"
    unfolding open_candidates_def split using m(2) by simp
  moreover have "open_candidates tab (picked[m := True]) = filter ?c [0..<m] @ filter ?c [Suc m..<length tab]"
  proof -
    have "filter (candidate tab (picked[m := True])) [0..<m] = filter ?c [0..<m]"
      "filter (candidate tab (picked[m := True])) [Suc m..<length tab] = filter ?c [Suc m..<length tab]"
      by (rule filter_cong, simp_all add: c')+
    then show ?thesis unfolding open_candidates_def split by (simp add: c')
  qed
  ultimately show ?thesis using m by (simp add: sort_key_first)
qed

lemma snapshot_loop_sorted:
  "length picked = length tab \<Longrightarrow> \<forall>e\<in>set tab. 0 \<le> total_bytes e \<Longrightarrow>
     snapshot_loop n tab picked =
       map (\<lambda>i. top_ip (tab ! i)) (take n (sort_key (\<lambda>i. - total_bytes (tab ! i)) (open_candidates tab picked)))"
proof (induction n arbitrary: picked)
  case (Suc n)
  have "best_ok tab picked 0 (None, -1)" by (simp add: best_ok_def)
  from find_best_ok [OF this _ Suc.prems] obtain t where b: "best_ok tab picked (length tab) (find_best tab picked 0 (None, -1), t)"
    by auto
  show ?case
  proof (cases "find_best tab picked 0 (None, -1)")
    case None
    then have "open_candidates tab picked = []" using b by (auto simp: best_ok_def open_candidates_def filter_empty_conv)
    then show ?thesis using None by simp
  next
    case (Some m)
    with open_candidates_pick [OF b [unfolded Some] Suc.prems(1)] Suc.IH [of "picked[m := True]"] Suc.prems show ?thesis by simp
  qed
qed simp

lemma sort_key_map_nth:
  fixes f :: "'a \<Rightarrow> 'b :: linorder"
  shows "map (\<lambda>i. xs ! i) (sort_key (\<lambda>i. f (xs ! i)) is) = sort_key f (map (\<lambda>i. xs ! i) is)"
proof (rule sym, rule properties_for_sort_key)
  show "filter (\<lambda>x. f k = f x) (map ((!) xs) (sort_key (\<lambda>i. f (xs ! i)) is)) = filter (\<lambda>x. f k = f x) (map ((!) xs) is)" for k
    using sort_key_stable [of "\<lambda>i. f (xs ! i)" "f k" "is"] by (simp add: filter_map comp_def eq_commute)
  show "sorted (map f (map ((!) xs) (sort_key (\<lambda>i. f (xs ! i)) is)))"
    using sorted_sort_key [of "\<lambda>i. f (xs ! i)" "is"] by (simp add: comp_def)
qed (simp add: mset_map)

text \<open>The selection loop returns the first \<open>n\<close> entries of the stable sort by
  bytes, largest first, of the entries of the secret that have an address and something to report.\<close>

lemma snapshot_is_sorted:
  assumes "top_ips_per_secret_runtime st > 0" "0 \<le> sid" "sid < 16" "volume_wf (ip_volume st ! nat sid)"
  shows "tcp_rpcs_snapshot_top_ips sid n st =
    map top_ip (take (nat n) (sort_key (\<lambda>e. - total_bytes e) (filter reportable (ip_volume st ! nat sid))))"
proof -
  let ?tab = "ip_volume st ! nat sid" and ?p = "replicate IP_VOLUME_TABLE_SIZE False"
  have len: "length ?p = length ?tab" and pos: "\<forall>e\<in>set ?tab. 0 \<le> total_bytes e"
    using assms(4) by (auto simp: volume_wf_def total_bytes_def)
  have "filter reportable ?tab = map (\<lambda>i. ?tab ! i) (filter (\<lambda>i. reportable (?tab ! i)) [0..<length ?tab])"
    by (metis (no_types, lifting) comp_apply filter_cong filter_map map_nth)
  also have "filter (\<lambda>i. reportable (?tab ! i)) [0..<length ?tab] = open_candidates ?tab ?p"
    using len by (auto simp: open_candidates_def candidate_def intro!: filter_cong)
  finally have eq: "sort_key (\<lambda>e. - total_bytes e) (filter reportable ?tab) =
      map (\<lambda>i. ?tab ! i) (sort_key (\<lambda>i. - total_bytes (?tab ! i)) (open_candidates ?tab ?p))"
    using sort_key_map_nth [of ?tab "\<lambda>e. - total_bytes e" "open_candidates ?tab ?p"] by simp
  show ?thesis
  proof (cases "n \<le> 0")
    case True
    then show ?thesis by (simp add: tcp_rpcs_snapshot_top_ips_def)
  next
    case False
    then show ?thesis using assms(1-3) snapshot_loop_sorted [OF len pos, of "nat n"] unfolding eq
      by (simp add: tcp_rpcs_snapshot_top_ips_def take_map comp_def)
  qed
qed

end
