(* ===== verification/Srv_Http_Parse.thy ===== *)
theory Srv_Http_Parse
  imports T3_Libc "HOL-Library.Sublist"
begin

text \<open>
  The parser of HTTP requests, \<open>server/src/net/net-http-parse.c\<close>: a state machine that is fed the request
  in blocks of any size. The bits of \<open>query_flags\<close> that it uses are fields of their own. \<open>None\<close> is a failed
  assertion. The loop of the code is a function over the unread bytes of a block. \<open>htqp_invalid\<close> is the value
  -1 that the server stores when it closes a connection; no case of the switch handles it.
\<close>

datatype http_query_parse_state =
    htqp_start | htqp_readtospace | htqp_readtocolon | htqp_readint | htqp_skipspc | htqp_skiptoeoln
  | htqp_skipspctoeoln | htqp_eoln | htqp_wantlf | htqp_wantlastlf | htqp_linestart | htqp_fatal | htqp_done
  | htqp_invalid

datatype hts_query_type = htqt_none | htqt_head | htqt_get | htqt_post | htqt_options | htqt_error | htqt_empty

definition MAX_HTTP_HEADER_SIZE :: nat where "MAX_HTTP_HEADER_SIZE = 16384"
definition HTTP_V09 :: nat where "HTTP_V09 = 9"
definition HTTP_V10 :: nat where "HTTP_V10 = 0x100"
definition HTTP_V11 :: nat where "HTTP_V11 = 0x101"

record hts_data =
  query_type :: hts_query_type
  qf_error :: bool
  qf_host :: bool
  qf_datasize :: bool
  qf_connection :: bool
  qf_keepalive :: bool
  qf_extra_headers :: bool
  query_words :: nat
  header_size :: nat
  first_line_size :: nat
  data_size :: int
  host_offset :: nat
  host_size :: nat
  uri_offset :: nat
  uri_size :: nat
  http_ver :: nat
  wlen :: nat
  word :: bytes
  parse_state :: http_query_parse_state
  query_seqno :: nat

text \<open>The start of a request: everything before \<open>query_seqno\<close> is zeroed.\<close>

definition http_start :: "hts_data \<Rightarrow> hts_data" where
  "http_start D =
     \<lparr>query_type = htqt_none, qf_error = False, qf_host = False, qf_datasize = False, qf_connection = False,
      qf_keepalive = False, qf_extra_headers = False, query_words = 0, header_size = 0, first_line_size = 0, data_size = -1,
      host_offset = 0, host_size = 0, uri_offset = 0, uri_size = 0, http_ver = 0, wlen = 0,
      word = replicate 16 0, parse_state = htqp_readtospace, query_seqno = query_seqno D + 1\<rparr>"

subsection \<open>The inner loops\<close>

text \<open>Collecting a word: its first fifteen bytes are kept.\<close>

fun read_word :: "(byte \<Rightarrow> bool) \<Rightarrow> hts_data \<Rightarrow> bytes \<Rightarrow> hts_data \<times> bytes" where
  "read_word p D [] = (D, [])"
| "read_word p D (b # r) =
     (if p b
      then read_word p (D\<lparr>word := (if wlen D < 15 then (word D)[wlen D := b] else word D), wlen := wlen D + 1\<rparr>) r
      else (D, b # r))"

fun skip_bytes :: "(byte \<Rightarrow> bool) \<Rightarrow> hts_data \<Rightarrow> bytes \<Rightarrow> hts_data \<times> bytes" where
  "skip_bytes p D [] = (D, [])"
| "skip_bytes p D (b # r) =
     (if header_size D < MAX_HTTP_HEADER_SIZE \<and> p b then skip_bytes p (D\<lparr>header_size := header_size D + 1\<rparr>) r
      else (D, b # r))"

text \<open>The digits of a length, with the running value; a value that would overflow stops the loop and
  marks the error.\<close>

fun read_digits :: "int \<Rightarrow> hts_data \<Rightarrow> bytes \<Rightarrow> int \<times> hts_data \<times> bytes" where
  "read_digits tt D [] = (tt, D, [])"
| "read_digits tt D (b # r) =
     (if is_digit b then
        if tt \<ge> 0x7fffffff div 10 then (tt, D\<lparr>qf_error := True, parse_state := htqp_skiptoeoln\<rparr>, b # r)
        else read_digits (tt * 10 + (uint b - 0x30)) (D\<lparr>header_size := header_size D + 1, qf_datasize := False\<rparr>) r
      else (tt, D, b # r))"

subsection \<open>The states\<close>

definition word_is :: "hts_data \<Rightarrow> string \<Rightarrow> bool" where
  "word_is D s \<longleftrightarrow> wlen D = length s \<and> take (length s) (word D) = ascii s"

definition word_is_nocase :: "hts_data \<Rightarrow> string \<Rightarrow> bool" where
  "word_is_nocase D s \<longleftrightarrow> wlen D = length s \<and> map to_lower (take (length s) (word D)) = ascii s"

definition bad_line :: "hts_data \<Rightarrow> hts_data" where
  "bad_line D = D\<lparr>parse_state := htqp_skiptoeoln, qf_error := True\<rparr>"

text \<open>The end of the first, the second and the third word of the request line, and of a word in a header.\<close>

definition end_method :: "hts_data \<Rightarrow> hts_data" where
  "end_method D =
     (let ty = (if word_is D ''GET'' then htqt_get
                else if word_is D ''HEAD'' then htqt_head
                else if word_is D ''POST'' then htqt_post
                else if word_is D ''OPTIONS'' then htqt_options else htqt_error);
          D1 = D\<lparr>query_type := ty\<rparr> in
      if ty = htqt_error then bad_line D1 else D1)"

definition end_uri :: "hts_data \<Rightarrow> hts_data" where
  "end_uri D =
     (let D1 = D\<lparr>uri_offset := header_size D, uri_size := wlen D\<rparr> in
      if wlen D1 = 0 then bad_line D1 else D1)"

definition end_version :: "hts_data \<Rightarrow> hts_data" where
  "end_version D =
     (let D1 = D\<lparr>parse_state := htqp_skipspctoeoln\<rparr> in
      if wlen D1 \<noteq> 0 then
        if wlen D1 \<noteq> 8 then bad_line D1
        else if word_is D1 ''HTTP/1.0'' then D1\<lparr>http_ver := HTTP_V10\<rparr>
        else if word_is D1 ''HTTP/1.1'' then D1\<lparr>http_ver := HTTP_V11\<rparr>
        else bad_line D1
      else D1\<lparr>http_ver := HTTP_V09\<rparr>)"

definition end_value :: "hts_data \<Rightarrow> hts_data option" where
  "end_value D =
     (if \<not> (qf_host D \<or> qf_connection D) then None
      else
        let D1 = (if wlen D \<noteq> 0 then
                    if qf_host D then D\<lparr>host_offset := header_size D, host_size := wlen D\<rparr>
                    else if word_is_nocase D ''keep-alive'' then D\<lparr>qf_keepalive := True\<rparr>
                    else D
                  else D) in
        Some (D1\<lparr>qf_host := False, qf_connection := False, parse_state := htqp_skipspctoeoln\<rparr>))"

definition end_word :: "hts_data \<Rightarrow> hts_data option" where
  "end_word D =
     (let D1 = D\<lparr>parse_state := htqp_skipspc, query_words := query_words D + 1\<rparr> in
      do {
        D2 \<leftarrow> (if query_words D1 = 1 then Some (end_method D1)
               else if query_words D1 = 2 then Some (end_uri D1)
               else if query_words D1 = 3 then Some (end_version D1)
               else end_value D1);
        Some (D2\<lparr>header_size := header_size D2 + wlen D2\<rparr>)
      })"

definition do_readtospace :: "hts_data \<Rightarrow> bytes \<Rightarrow> (hts_data \<times> bytes) option" where
  "do_readtospace D r =
     (let (D1, r1) = read_word (\<lambda>b. b > 0x20) D r in
      if wlen D1 > 4096 then Some (D1\<lparr>parse_state := htqp_fatal\<rparr>, r1)
      else if r1 = [] then Some (D1, r1)
      else do { D2 \<leftarrow> end_word D1; Some (D2, r1) })"

definition after_spaces :: "hts_data \<Rightarrow> hts_data option" where
  "after_spaces D =
     (if query_words D < 3 then Some (D\<lparr>wlen := 0, parse_state := htqp_readtospace\<rparr>)
      else if \<not> query_words D \<ge> 4 then None
      else if qf_datasize D then
        if data_size D \<noteq> -1 then Some (bad_line D)
        else Some (D\<lparr>parse_state := htqp_readint, data_size := 0\<rparr>)
      else if qf_host D \<or> qf_connection D then Some (D\<lparr>wlen := 0, parse_state := htqp_readtospace\<rparr>)
      else Some (D\<lparr>parse_state := htqp_skiptoeoln\<rparr>))"

definition do_skipspc :: "hts_data \<Rightarrow> bytes \<Rightarrow> (hts_data \<times> bytes) option" where
  "do_skipspc D r =
     (let (D1, r1) = skip_bytes (\<lambda>b. b = 0x20 \<or> b = 0x09 \<and> query_words D \<ge> 8) D r in
      if header_size D1 \<ge> MAX_HTTP_HEADER_SIZE then Some (D1\<lparr>parse_state := htqp_fatal\<rparr>, r1)
      else if r1 = [] then Some (D1, r1)
      else if parse_state D1 = htqp_skipspctoeoln then Some (D1\<lparr>parse_state := htqp_eoln\<rparr>, r1)
      else do { D2 \<leftarrow> after_spaces D1; Some (D2, r1) })"

text \<open>The end of a header name. \<open>char\<close> is signed, so that bytes from 128 on end a name.\<close>

definition end_name :: "hts_data \<Rightarrow> hts_data" where
  "end_name D =
     (let D1 = (if word_is_nocase D ''host'' then D\<lparr>qf_host := True\<rparr>
                else if word_is_nocase D ''connection'' then D\<lparr>qf_connection := True\<rparr>
                else if word_is_nocase D ''content-length'' then D\<lparr>qf_datasize := True\<rparr>
                else D\<lparr>qf_host := False, qf_datasize := False, qf_connection := False\<rparr>) in
      D1\<lparr>header_size := header_size D1 + wlen D1 + 1, parse_state := htqp_skipspc\<rparr>)"

definition do_readtocolon :: "hts_data \<Rightarrow> bytes \<Rightarrow> hts_data \<times> bytes" where
  "do_readtocolon D r =
     (let (D1, r1) = read_word (\<lambda>b. b \<noteq> 0x3A \<and> sint b > 0x20) D r in
      if wlen D1 > 4096 then (D1\<lparr>parse_state := htqp_fatal\<rparr>, r1)
      else case r1 of
        [] \<Rightarrow> (D1, r1)
      | b # r2 \<Rightarrow>
          if b \<noteq> 0x3A then (bad_line (D1\<lparr>header_size := header_size D1 + wlen D1\<rparr>), r1)
          else (end_name D1, r2))"

definition do_readint :: "hts_data \<Rightarrow> bytes \<Rightarrow> hts_data \<times> bytes" where
  "do_readint D r =
     (let (tt, D1, r1) = read_digits (data_size D) D r;
          D2 = D1\<lparr>data_size := tt\<rparr> in
      if r1 = [] then (D2, r1)
      else if qf_datasize D2 then (bad_line D2, r1)
      else (D2\<lparr>parse_state := htqp_skipspctoeoln\<rparr>, r1))"

definition do_linestart :: "hts_data \<Rightarrow> bytes \<Rightarrow> hts_data \<times> bytes" where
  "do_linestart D r =
     (case r of
        [] \<Rightarrow> (D, r)
      | b # r1 \<Rightarrow>
          let D1 = (if first_line_size D = 0 then D\<lparr>first_line_size := header_size D\<rparr> else D) in
          if b = 0x0D then (D1\<lparr>header_size := header_size D1 + 1, parse_state := htqp_wantlastlf\<rparr>, r1)
          else if b = 0x0A then (D1\<lparr>parse_state := htqp_wantlastlf\<rparr>, r)
          else if qf_error D1 then (D1\<lparr>parse_state := htqp_skiptoeoln\<rparr>, r)
          else (D1\<lparr>wlen := 0, parse_state := htqp_readtocolon\<rparr>, r))"

definition do_wantlf :: "hts_data \<Rightarrow> bytes \<Rightarrow> hts_data \<times> bytes" where
  "do_wantlf D r =
     (case r of
        [] \<Rightarrow> (D, r)
      | b # r1 \<Rightarrow>
          let first = query_words D + 1 < 8;
              D1 = D\<lparr>query_words := (if first then 8 else query_words D + 1)\<rparr> in
          if first \<and> qf_error D1 then (D1\<lparr>parse_state := htqp_fatal\<rparr>, r)
          else if http_ver D1 \<le> HTTP_V09 then (D1\<lparr>parse_state := htqp_wantlastlf\<rparr>, r)
          else if b \<noteq> 0x0A then (bad_line D1, r)
          else do_linestart (D1\<lparr>header_size := header_size D1 + 1, parse_state := htqp_linestart\<rparr>) r1)"

definition do_eoln :: "hts_data \<Rightarrow> bytes \<Rightarrow> hts_data \<times> bytes" where
  "do_eoln D r =
     (case r of
        [] \<Rightarrow> (D, r)
      | b # r1 \<Rightarrow>
          if b = 0x0D then do_wantlf (D\<lparr>header_size := header_size D + 1, parse_state := htqp_wantlf\<rparr>) r1
          else do_wantlf (D\<lparr>parse_state := htqp_wantlf\<rparr>) r)"

definition do_skiptoeoln :: "hts_data \<Rightarrow> bytes \<Rightarrow> hts_data \<times> bytes" where
  "do_skiptoeoln D r =
     (let (D1, r1) = skip_bytes (\<lambda>b. b \<noteq> 0x0D \<and> b \<noteq> 0x0A) D r in
      if header_size D1 \<ge> MAX_HTTP_HEADER_SIZE then (D1\<lparr>parse_state := htqp_fatal\<rparr>, r1)
      else if r1 = [] then (D1, r1)
      else do_eoln (D1\<lparr>parse_state := htqp_eoln\<rparr>) r1)"

definition do_wantlastlf :: "hts_data \<Rightarrow> bytes \<Rightarrow> hts_data \<times> bytes" where
  "do_wantlastlf D r =
     (case r of
        [] \<Rightarrow> (D, r)
      | b # r1 \<Rightarrow>
          if b \<noteq> 0x0A then (D\<lparr>parse_state := htqp_fatal\<rparr>, r)
          else
            let D1 = D\<lparr>header_size := header_size D + 1\<rparr>;
                D2 = (if first_line_size D1 = 0 then D1\<lparr>first_line_size := header_size D1\<rparr> else D1) in
            (D2\<lparr>parse_state := htqp_done\<rparr>, r1))"

text \<open>One turn of the loop.\<close>

fun http_turn :: "http_query_parse_state \<Rightarrow> hts_data \<Rightarrow> bytes \<Rightarrow> (hts_data \<times> bytes) option" where
  "http_turn htqp_start D r = do_readtospace (http_start D) r"
| "http_turn htqp_readtospace D r = do_readtospace D r"
| "http_turn htqp_skipspc D r = do_skipspc D r"
| "http_turn htqp_skipspctoeoln D r = do_skipspc D r"
| "http_turn htqp_readtocolon D r = Some (do_readtocolon D r)"
| "http_turn htqp_readint D r = Some (do_readint D r)"
| "http_turn htqp_skiptoeoln D r = Some (do_skiptoeoln D r)"
| "http_turn htqp_eoln D r = Some (do_eoln D r)"
| "http_turn htqp_wantlf D r = Some (do_wantlf D r)"
| "http_turn htqp_linestart D r = Some (do_linestart D r)"
| "http_turn htqp_wantlastlf D r = Some (do_wantlastlf D r)"
| "http_turn htqp_done D r = Some (D, r)"
| "http_turn htqp_fatal D r = Some (D\<lparr>qf_error := True, parse_state := htqp_done\<rparr>, r)"
| "http_turn htqp_invalid D r = None"


subsection \<open>The inner loops stop where they should\<close>

lemma read_word_split:
  "read_word p D r = (D1, r1) \<Longrightarrow>
     r1 = dropWhile p r \<and>
     (\<exists>w. D1 = D\<lparr>word := w, wlen := wlen D + length (takeWhile p r)\<rparr> \<and> length w = length (word D))"
proof (induction r arbitrary: D)
  case Nil
  then show ?case by (intro conjI exI [of _ "word D"]) auto
next
  case (Cons b r)
  show ?case
  proof (cases "p b")
    case True
    let ?D = "D\<lparr>word := (if wlen D < 15 then (word D)[wlen D := b] else word D), wlen := wlen D + 1\<rparr>"
    from Cons.prems True have "read_word p ?D r = (D1, r1)" by simp
    from Cons.IH [OF this] obtain w where "r1 = dropWhile p r"
      "D1 = ?D\<lparr>word := w, wlen := wlen ?D + length (takeWhile p r)\<rparr>" "length w = length (word ?D)" by blast
    then show ?thesis using True by (intro conjI exI [of _ w]) simp_all
  next
    case False
    with Cons.prems show ?thesis by (intro conjI exI [of _ "word D"]) auto
  qed
qed

lemma skip_bytes_split:
  "skip_bytes p D r = (D1, r1) \<Longrightarrow>
     \<exists>k. k \<le> length r \<and> r1 = drop k r \<and> D1 = D\<lparr>header_size := header_size D + k\<rparr> \<and>
       (header_size D < MAX_HTTP_HEADER_SIZE \<longrightarrow> header_size D + k \<le> MAX_HTTP_HEADER_SIZE) \<and>
       (r1 \<noteq> [] \<and> header_size D1 < MAX_HTTP_HEADER_SIZE \<longrightarrow> \<not> p (hd r1))"
proof (induction r arbitrary: D)
  case (Cons b r)
  show ?case
  proof (cases "header_size D < MAX_HTTP_HEADER_SIZE \<and> p b")
    case True
    let ?D = "D\<lparr>header_size := header_size D + 1\<rparr>"
    from Cons.prems True have "skip_bytes p ?D r = (D1, r1)" by simp
    from Cons.IH [OF this] obtain k where "k \<le> length r" "r1 = drop k r" "D1 = ?D\<lparr>header_size := header_size ?D + k\<rparr>"
      "header_size ?D < MAX_HTTP_HEADER_SIZE \<longrightarrow> header_size ?D + k \<le> MAX_HTTP_HEADER_SIZE"
      "r1 \<noteq> [] \<and> header_size D1 < MAX_HTTP_HEADER_SIZE \<longrightarrow> \<not> p (hd r1)" by blast
    moreover have "k = 0" if "\<not> header_size ?D < MAX_HTTP_HEADER_SIZE"
    proof -
      have "header_size D1 = header_size ?D" using \<open>skip_bytes p ?D r = (D1, r1)\<close> that by (cases r) auto
      then show ?thesis using \<open>D1 = _\<close> by simp
    qed
    ultimately show ?thesis using True by (intro exI [of _ "Suc k"]) auto
  next
    case False
    with Cons.prems show ?thesis by (intro exI [of _ 0]) auto
  qed
qed auto

lemma read_digits_split:
  "read_digits tt D r = (t1, D1, r1) \<Longrightarrow>
     \<exists>k q e st. k \<le> length r \<and> r1 = drop k r \<and>
       D1 = D\<lparr>header_size := header_size D + k, qf_datasize := q, qf_error := e, parse_state := st\<rparr> \<and>
       (k = 0 \<longrightarrow> q = qf_datasize D) \<and> (k > 0 \<longrightarrow> \<not> q) \<and> (st = parse_state D \<and> e = qf_error D \<or> st = htqp_skiptoeoln \<and> e) \<and>
       (st = htqp_skiptoeoln \<and> parse_state D \<noteq> htqp_skiptoeoln \<longrightarrow> r1 \<noteq> [])"
proof (induction r arbitrary: tt D)
  case Nil
  then show ?case by (intro exI [of _ 0] exI [of _ "qf_datasize D"] exI [of _ "qf_error D"] exI [of _ "parse_state D"]) auto
next
  case (Cons b r)
  consider "\<not> is_digit b" | "is_digit b" "tt \<ge> 0x7fffffff div 10" | "is_digit b" "\<not> tt \<ge> 0x7fffffff div 10" by blast
  then show ?case
  proof cases
    case 1
    with Cons.prems show ?thesis
      by (intro exI [of _ 0] exI [of _ "qf_datasize D"] exI [of _ "qf_error D"] exI [of _ "parse_state D"]) auto
  next
    case 2
    with Cons.prems show ?thesis
      by (intro exI [of _ 0] exI [of _ "qf_datasize D"] exI [of _ True] exI [of _ htqp_skiptoeoln]) auto
  next
    case 3
    let ?D = "D\<lparr>header_size := header_size D + 1, qf_datasize := False\<rparr>"
    from 3 Cons.prems have "read_digits (tt * 10 + (uint b - 0x30)) ?D r = (t1, D1, r1)" by simp
    from Cons.IH [OF this] obtain k q e st where "k \<le> length r" "r1 = drop k r"
      "D1 = ?D\<lparr>header_size := header_size ?D + k, qf_datasize := q, qf_error := e, parse_state := st\<rparr>"
      "k = 0 \<longrightarrow> q = qf_datasize ?D" "k > 0 \<longrightarrow> \<not> q"
      "st = parse_state ?D \<and> e = qf_error ?D \<or> st = htqp_skiptoeoln \<and> e"
      "st = htqp_skiptoeoln \<and> parse_state ?D \<noteq> htqp_skiptoeoln \<longrightarrow> r1 \<noteq> []" by blast
    then show ?thesis by (intro exI [of _ "Suc k"] exI [of _ q] exI [of _ e] exI [of _ st]) auto
  qed
qed

subsection \<open>Termination\<close>

fun state_rank :: "http_query_parse_state \<Rightarrow> nat \<Rightarrow> nat" where
  "state_rank htqp_done w = 0"
| "state_rank htqp_fatal w = 1"
| "state_rank htqp_wantlastlf w = 2"
| "state_rank htqp_skiptoeoln w = 3"
| "state_rank htqp_wantlf w = 4"
| "state_rank htqp_eoln w = 5"
| "state_rank htqp_skipspctoeoln w = 6"
| "state_rank htqp_readint w = 7"
| "state_rank htqp_readtospace w = (if w < 3 then 9 + 2 * (3 - w) else 8)"
| "state_rank htqp_skipspc w = (if w < 3 then 10 + 2 * (3 - w) else 10)"
| "state_rank htqp_readtocolon w = 9"
| "state_rank htqp_linestart w = 16"
| "state_rank htqp_start w = 20"
| "state_rank htqp_invalid w = 0"

definition http_measure :: "hts_data \<Rightarrow> bytes \<Rightarrow> nat" where
  "http_measure D r = length r * 32 + state_rank (parse_state D) (query_words D)"

lemma state_rank_less: "state_rank st w < 32"
  by (cases st) auto

lemma http_measure_shorter: "length r' < length r \<Longrightarrow> http_measure D' r' < http_measure D r"
  using state_rank_less [of "parse_state D'" "query_words D'"] by (simp add: http_measure_def)

lemma http_measure_rank:
  "length r' \<le> length r \<Longrightarrow> state_rank (parse_state D') (query_words D') < state_rank (parse_state D) (query_words D) \<Longrightarrow>
     http_measure D' r' < http_measure D r"
  using http_measure_shorter [of r' r D' D] by (cases "length r' < length r") (auto simp: http_measure_def)

text \<open>What the assertions need: the words of the request line are counted up to three, those of the
  headers from eight on, and a value is read only for a header that was recognised.\<close>

definition http_ok :: "hts_data \<Rightarrow> bool" where
  "http_ok D \<longleftrightarrow> length (word D) = 16 \<and>
     (case parse_state D of
        htqp_readtospace \<Rightarrow> query_words D \<le> 2 \<or> 8 \<le> query_words D \<and> (qf_host D \<or> qf_connection D)
      | htqp_skipspc \<Rightarrow> query_words D \<in> {1, 2} \<or> 8 \<le> query_words D
      | htqp_readtocolon \<Rightarrow> 8 \<le> query_words D
      | htqp_linestart \<Rightarrow> 8 \<le> query_words D
      | htqp_readint \<Rightarrow> 8 \<le> query_words D
      | htqp_done \<Rightarrow> qf_error D \<or> 0 < header_size D
      | htqp_invalid \<Rightarrow> False
      | _ \<Rightarrow> True)"


text \<open>The bytes that are accounted for: the header so far and, inside a word, the word.\<close>

definition accounted :: "hts_data \<Rightarrow> nat" where
  "accounted D = (if parse_state D = htqp_start then 0
     else header_size D + (if parse_state D \<in> {htqp_readtospace, htqp_readtocolon} then wlen D else 0))"

text \<open>What a turn owes: the invariant, progress, and that it accounts for the bytes it takes, unless it
  gives up on a word that is too long.\<close>

definition turn_ok :: "hts_data \<Rightarrow> bytes \<Rightarrow> hts_data \<Rightarrow> bytes \<Rightarrow> bool" where
  "turn_ok D r D' r' \<longleftrightarrow> http_ok D' \<and> http_measure D' r' < http_measure D r \<and> suffix r' r \<and>
     (accounted D' + length r' = accounted D + length r \<or>
      parse_state D' = htqp_fatal \<and> accounted D' + length r' \<le> accounted D + length r)"

lemma end_word_result:
  assumes "http_ok D" "parse_state D = htqp_readtospace"
  shows "\<exists>D2. end_word D = Some D2 \<and> query_words D2 = query_words D + 1 \<and>
    header_size D2 = header_size D + wlen D \<and> word D2 = word D \<and>
    (parse_state D2 \<in> {htqp_skiptoeoln, htqp_skipspctoeoln} \<or> parse_state D2 = htqp_skipspc \<and> query_words D2 \<in> {1, 2})"
proof -
  consider "query_words D = 0" | "query_words D = 1" | "query_words D = 2" | "8 \<le> query_words D" "qf_host D \<or> qf_connection D"
    using assms by (force simp: http_ok_def)
  then show ?thesis
    by cases (auto simp: end_word_def Let_def end_method_def end_uri_def end_version_def end_value_def bad_line_def)
qed

lemma readtospace_ok:
  assumes ok: "http_ok D" and st: "parse_state D = htqp_readtospace" and r: "r \<noteq> []"
  shows "\<exists>D' r'. do_readtospace D r = Some (D', r') \<and> turn_ok D r D' r'"
proof -
  let ?p = "\<lambda>b :: byte. b > 0x20"
  obtain D1 r1 where rw: "read_word ?p D r = (D1, r1)" by (rule prod.exhaust)
  from read_word_split [OF rw] obtain w where r1: "r1 = dropWhile ?p r"
    and D1: "D1 = D\<lparr>word := w, wlen := wlen D + length (takeWhile ?p r)\<rparr>" "length w = length (word D)" by blast
  have len: "length (takeWhile ?p r) + length r1 = length r" unfolding r1 by (metis length_append takeWhile_dropWhile_id)
  have suf: "suffix r1 r" unfolding r1 by (rule suffix_dropWhile)
  have ok1: "http_ok D1" "parse_state D1 = htqp_readtospace" "query_words D1 = query_words D" "header_size D1 = header_size D"
    using ok st D1 by (auto simp: http_ok_def)
  consider "wlen D1 > 4096" | "wlen D1 \<le> 4096" "r1 = []" | "wlen D1 \<le> 4096" "r1 \<noteq> []" by linarith
  then show ?thesis
  proof cases
    case 1
    have "turn_ok D r (D1\<lparr>parse_state := htqp_fatal\<rparr>) r1"
      using ok1 ok st suf len D1 http_measure_rank [of r1 r "D1\<lparr>parse_state := htqp_fatal\<rparr>" D]
      by (auto simp: turn_ok_def http_ok_def accounted_def)
    then show ?thesis using 1 rw by (simp add: do_readtospace_def)
  next
    case 2
    have "turn_ok D r D1 r1"
      using ok1 2 st suf len D1 r http_measure_shorter [of r1 r D1 D] by (auto simp: turn_ok_def accounted_def)
    then show ?thesis using 2 rw by (simp add: do_readtospace_def)
  next
    case 3
    from end_word_result [OF ok1(1,2)] obtain D2 where D2: "end_word D1 = Some D2" "query_words D2 = query_words D1 + 1"
      "header_size D2 = header_size D1 + wlen D1" "word D2 = word D1"
      "parse_state D2 \<in> {htqp_skiptoeoln, htqp_skipspctoeoln} \<or> parse_state D2 = htqp_skipspc \<and> query_words D2 \<in> {1, 2}"
      by blast
    have "state_rank (parse_state D2) (query_words D2) < state_rank (parse_state D) (query_words D)"
      using D2 ok1 st by auto
    then have "turn_ok D r D2 r1"
      using D2 ok1 st suf len D1 http_measure_rank [of r1 r D2 D] by (auto simp: turn_ok_def http_ok_def accounted_def)
    then show ?thesis using 3 rw D2(1) by (auto simp: do_readtospace_def)
  qed
qed

lemma after_spaces_result:
  assumes "http_ok D" "parse_state D = htqp_skipspc"
  shows "\<exists>D2. after_spaces D = Some D2 \<and> http_ok D2 \<and> header_size D2 = header_size D \<and>
    state_rank (parse_state D2) (query_words D2) < state_rank (parse_state D) (query_words D) \<and> accounted D2 = header_size D"
proof -
  consider "query_words D = 1 \<or> query_words D = 2" | "8 \<le> query_words D" using assms by (force simp: http_ok_def)
  then show ?thesis
    using assms by cases (auto simp: after_spaces_def bad_line_def http_ok_def accounted_def)
qed

lemma skipspc_ok:
  assumes ok: "http_ok D" and st: "parse_state D \<in> {htqp_skipspc, htqp_skipspctoeoln}" and r: "r \<noteq> []"
  shows "\<exists>D' r'. do_skipspc D r = Some (D', r') \<and> turn_ok D r D' r'"
proof -
  let ?p = "\<lambda>b :: byte. b = 0x20 \<or> b = 0x09 \<and> query_words D \<ge> 8"
  obtain D1 r1 where sb: "skip_bytes ?p D r = (D1, r1)" by (rule prod.exhaust)
  from skip_bytes_split [OF sb] obtain k where k: "k \<le> length r" "r1 = drop k r" "D1 = D\<lparr>header_size := header_size D + k\<rparr>" by blast
  have suf: "suffix r1 r" and len: "k + length r1 = length r" using k by (auto simp: suffix_drop)
  have ok1: "http_ok D1" "parse_state D1 = parse_state D" "query_words D1 = query_words D" using ok st k(3) by (auto simp: http_ok_def)
  consider "header_size D1 \<ge> MAX_HTTP_HEADER_SIZE" | "header_size D1 < MAX_HTTP_HEADER_SIZE" "r1 = []"
    | "header_size D1 < MAX_HTTP_HEADER_SIZE" "r1 \<noteq> []" "parse_state D = htqp_skipspctoeoln"
    | "header_size D1 < MAX_HTTP_HEADER_SIZE" "r1 \<noteq> []" "parse_state D = htqp_skipspc" using st by fastforce
  then show ?thesis
  proof cases
    case 1
    have "turn_ok D r (D1\<lparr>parse_state := htqp_fatal\<rparr>) r1"
      using ok1 ok st suf len k(3) http_measure_rank [of r1 r "D1\<lparr>parse_state := htqp_fatal\<rparr>" D]
      by (auto simp: turn_ok_def http_ok_def accounted_def)
    then show ?thesis using 1 sb by (simp add: do_skipspc_def)
  next
    case 2
    have "turn_ok D r D1 r1"
      using ok1 2 st suf len k(3) r http_measure_shorter [of r1 r D1 D] by (auto simp: turn_ok_def accounted_def)
    then show ?thesis using 2 sb by (simp add: do_skipspc_def)
  next
    case 3
    have "turn_ok D r (D1\<lparr>parse_state := htqp_eoln\<rparr>) r1"
      using ok1 3 ok suf len k(3) http_measure_rank [of r1 r "D1\<lparr>parse_state := htqp_eoln\<rparr>" D]
      by (auto simp: turn_ok_def http_ok_def accounted_def)
    then show ?thesis using 3 sb ok1(2) by (simp add: do_skipspc_def)
  next
    case 4
    from after_spaces_result [OF ok1(1)] 4 ok1 obtain D2 where D2: "after_spaces D1 = Some D2" "http_ok D2"
      "state_rank (parse_state D2) (query_words D2) < state_rank (parse_state D) (query_words D)" "accounted D2 = header_size D1"
      by auto
    then have "turn_ok D r D2 r1"
      using 4 suf len k(3) http_measure_rank [of r1 r D2 D] by (auto simp: turn_ok_def accounted_def)
    then show ?thesis using 4 sb ok1(2) D2(1) by (auto simp: do_skipspc_def)
  qed
qed

lemma readtocolon_ok:
  assumes ok: "http_ok D" and st: "parse_state D = htqp_readtocolon" and r: "r \<noteq> []"
    and res: "do_readtocolon D r = (D', r')"
  shows "turn_ok D r D' r'"
proof -
  let ?p = "\<lambda>b :: byte. b \<noteq> 0x3A \<and> sint b > 0x20"
  obtain D1 r1 where rw: "read_word ?p D r = (D1, r1)" by (rule prod.exhaust)
  from read_word_split [OF rw] obtain w where r1: "r1 = dropWhile ?p r"
    and D1: "D1 = D\<lparr>word := w, wlen := wlen D + length (takeWhile ?p r)\<rparr>" "length w = length (word D)" by blast
  have len: "length (takeWhile ?p r) + length r1 = length r" unfolding r1 by (metis length_append takeWhile_dropWhile_id)
  have suf: "suffix r1 r" unfolding r1 by (rule suffix_dropWhile)
  have q: "8 \<le> query_words D" "length (word D) = 16" using ok st by (auto simp: http_ok_def)
  consider "wlen D1 > 4096" | "wlen D1 \<le> 4096" "r1 = []" | b r2 where "wlen D1 \<le> 4096" "r1 = b # r2" "b \<noteq> 0x3A"
    | r2 where "wlen D1 \<le> 4096" "r1 = 0x3A # r2" by (cases r1; fastforce)
  then show ?thesis
  proof cases
    case 1
    then have "D' = D1\<lparr>parse_state := htqp_fatal\<rparr>" "r' = r1" using res rw by (auto simp: do_readtocolon_def)
    then show ?thesis using q st suf len D1 http_measure_rank [of r' r D' D] by (auto simp: turn_ok_def http_ok_def accounted_def)
  next
    case 2
    then have "D' = D1" "r' = []" using res rw by (auto simp: do_readtocolon_def)
    then show ?thesis using 2 r q st suf len D1 http_measure_shorter [of r' r D' D] by (auto simp: turn_ok_def http_ok_def accounted_def)
  next
    case 3
    then have "D' = bad_line (D1\<lparr>header_size := header_size D1 + wlen D1\<rparr>)" "r' = r1" using res rw by (auto simp: do_readtocolon_def)
    then show ?thesis using q st suf len D1 http_measure_rank [of r' r D' D]
      by (auto simp: turn_ok_def http_ok_def accounted_def bad_line_def)
  next
    case 4
    then have e: "D' = end_name D1" "r' = r2" using res rw by (auto simp: do_readtocolon_def)
    have suf2: "suffix r2 r" using suf 4(2) by (metis suffix_ConsD)
    have "parse_state D' = htqp_skipspc" "header_size D' = header_size D1 + wlen D1 + 1" "query_words D' = query_words D1" "word D' = word D1"
      unfolding e(1) end_name_def by (auto simp: Let_def)
    then show ?thesis using e(2) 4 q st suf2 len D1 http_measure_shorter [of r' r D' D] by (auto simp: turn_ok_def http_ok_def accounted_def)
  qed
qed

lemma readint_ok:
  assumes ok: "http_ok D" and st: "parse_state D = htqp_readint" and r: "r \<noteq> []"
    and res: "do_readint D r = (D', r')"
  shows "turn_ok D r D' r'"
proof -
  obtain t1 D1 r1 where rd: "read_digits (data_size D) D r = (t1, D1, r1)" by (metis prod_cases3)
  from read_digits_split [OF rd] obtain k q e st1 where k: "k \<le> length r" "r1 = drop k r"
    "D1 = D\<lparr>header_size := header_size D + k, qf_datasize := q, qf_error := e, parse_state := st1\<rparr>"
    "st1 = parse_state D \<and> e = qf_error D \<or> st1 = htqp_skiptoeoln \<and> e"
    "st1 = htqp_skiptoeoln \<and> parse_state D \<noteq> htqp_skiptoeoln \<longrightarrow> r1 \<noteq> []" by metis
  have suf: "suffix r1 r" and len: "k + length r1 = length r" using k by (auto simp: suffix_drop)
  have q: "8 \<le> query_words D" "length (word D) = 16" using ok st by (auto simp: http_ok_def)
  have r': "r' = r1" "D' = (if r1 = [] then D1\<lparr>data_size := t1\<rparr> else if qf_datasize D1 then bad_line (D1\<lparr>data_size := t1\<rparr>)
      else D1\<lparr>data_size := t1, parse_state := htqp_skipspctoeoln\<rparr>)"
    using res rd by (auto simp: do_readint_def Let_def split: if_splits)
  show ?thesis
  proof (cases "r1 = []")
    case True
    then have "st1 = htqp_readint" using k(4,5) st by auto
    then show ?thesis using True r r' q st suf len k(3) http_measure_shorter [of r' r D' D]
      by (auto simp: turn_ok_def http_ok_def accounted_def)
  next
    case False
    then show ?thesis using r' q st suf len k(3) http_measure_rank [of r' r D' D]
      by (auto simp: turn_ok_def http_ok_def accounted_def bad_line_def)
  qed
qed

lemma wantlastlf_ok:
  assumes "http_ok D" "parse_state D = htqp_wantlastlf" "r \<noteq> []" "do_wantlastlf D r = (D', r')"
  shows "turn_ok D r D' r'"
  using assms http_measure_rank [of r' r D' D]
  by (cases r) (auto simp: do_wantlastlf_def Let_def turn_ok_def http_ok_def accounted_def suffix_def split: if_splits)

lemma linestart_ok:
  assumes "http_ok D" "parse_state D = htqp_linestart" "r \<noteq> []" "do_linestart D r = (D', r')"
  shows "turn_ok D r D' r'"
  using assms http_measure_rank [of r' r D' D]
  by (cases r) (auto simp: do_linestart_def Let_def turn_ok_def http_ok_def accounted_def suffix_def split: if_splits)


lemma turn_ok_trans:
  assumes "turn_ok D r D1 r1" "turn_ok D1 r1 D2 r2" "parse_state D1 \<noteq> htqp_fatal"
  shows "turn_ok D r D2 r2"
  using assms by (auto simp: turn_ok_def intro: suffix_order.trans)

lemma wantlf_ok:
  assumes ok: "http_ok D" and st: "parse_state D = htqp_wantlf" and r: "r \<noteq> []" and res: "do_wantlf D r = (D', r')"
  shows "turn_ok D r D' r'" and "hd r = 0x0A \<Longrightarrow> length r' < length r \<or> parse_state D' \<in> {htqp_fatal, htqp_wantlastlf}"
proof -
  obtain b r1 where r1: "r = b # r1" using r by (cases r) auto
  define D1 where "D1 = D\<lparr>query_words := (if query_words D + 1 < 8 then 8 else query_words D + 1)\<rparr>"
  have D1: "length (word D1) = 16" "query_words D1 \<ge> 8" "header_size D1 = header_size D" using ok by (auto simp: D1_def http_ok_def)
  let ?D2 = "D1\<lparr>header_size := header_size D1 + 1, parse_state := htqp_linestart\<rparr>"
  have "do_wantlf D r =
      (if query_words D + 1 < 8 \<and> qf_error D1 then (D1\<lparr>parse_state := htqp_fatal\<rparr>, r)
       else if http_ver D1 \<le> HTTP_V09 then (D1\<lparr>parse_state := htqp_wantlastlf\<rparr>, r)
       else if b \<noteq> 0x0A then (bad_line D1, r) else do_linestart ?D2 r1)"
    unfolding r1 do_wantlf_def D1_def Let_def list.case ..
  with res consider "D' = D1\<lparr>parse_state := htqp_fatal\<rparr>" "r' = r" | "D' = D1\<lparr>parse_state := htqp_wantlastlf\<rparr>" "r' = r"
    | "b \<noteq> 0x0A" "D' = bad_line D1" "r' = r" | "do_linestart ?D2 r1 = (D', r')"
    by (metis prod.inject)
  then have "turn_ok D r D' r' \<and> (hd r = 0x0A \<longrightarrow> length r' < length r \<or> parse_state D' \<in> {htqp_fatal, htqp_wantlastlf})"
  proof cases
    case 1
    then show ?thesis using D1 st http_measure_rank [of r' r D' D] by (auto simp: turn_ok_def http_ok_def accounted_def)
  next
    case 2
    then show ?thesis using D1 st http_measure_rank [of r' r D' D] by (auto simp: turn_ok_def http_ok_def accounted_def)
  next
    case 3
    then show ?thesis using D1 st r1 http_measure_rank [of r' r D' D] by (auto simp: turn_ok_def http_ok_def accounted_def bad_line_def)
  next
    case 4
    have first: "turn_ok D r ?D2 r1"
      using D1 st r1 http_measure_shorter [of r1 r ?D2 D] by (auto simp: turn_ok_def http_ok_def accounted_def suffix_def)
    show ?thesis
    proof (cases "r1 = []")
      case True
      then have "D' = ?D2" "r' = []" using 4 by (auto simp: do_linestart_def)
      then show ?thesis using first True r1 by simp
    next
      case False
      have "http_ok ?D2" using first by (simp add: turn_ok_def)
      from linestart_ok [OF this _ False 4] have l: "turn_ok ?D2 r1 D' r'" by simp
      then have "length r' \<le> length r1" by (auto simp: turn_ok_def dest: suffix_length_le)
      then show ?thesis using turn_ok_trans [OF first l] r1 by simp
    qed
  qed
  then show "turn_ok D r D' r'" and "hd r = 0x0A \<Longrightarrow> length r' < length r \<or> parse_state D' \<in> {htqp_fatal, htqp_wantlastlf}"
    by auto
qed

lemma eoln_ok:
  assumes ok: "http_ok D" and st: "parse_state D = htqp_eoln" and r: "r \<noteq> []" and res: "do_eoln D r = (D', r')"
  shows "turn_ok D r D' r'" and "hd r \<in> {0x0D, 0x0A} \<Longrightarrow> length r' < length r \<or> parse_state D' \<in> {htqp_fatal, htqp_wantlastlf}"
proof -
  obtain b r1 where r1: "r = b # r1" using r by (cases r) auto
  have w: "length (word D) = 16" using ok by (simp add: http_ok_def)
  have "turn_ok D r D' r' \<and> (hd r \<in> {0x0D, 0x0A} \<longrightarrow> length r' < length r \<or> parse_state D' \<in> {htqp_fatal, htqp_wantlastlf})"
  proof (cases "b = 0x0D")
    case True
    let ?D2 = "D\<lparr>header_size := header_size D + 1, parse_state := htqp_wantlf\<rparr>"
    have first: "turn_ok D r ?D2 r1"
      using w st r1 http_measure_shorter [of r1 r ?D2 D] by (auto simp: turn_ok_def http_ok_def accounted_def suffix_def)
    have e: "do_wantlf ?D2 r1 = (D', r')" using res True r1 by (simp add: do_eoln_def)
    show ?thesis
    proof (cases "r1 = []")
      case True
      then have "D' = ?D2" "r' = []" using e by (auto simp: do_wantlf_def)
      then show ?thesis using first True r1 by simp
    next
      case False
      have "http_ok ?D2" using first by (simp add: turn_ok_def)
      from wantlf_ok(1) [OF this _ False e] have l: "turn_ok ?D2 r1 D' r'" by simp
      then have "length r' \<le> length r1" by (auto simp: turn_ok_def dest: suffix_length_le)
      then show ?thesis using turn_ok_trans [OF first l] r1 by simp
    qed
  next
    case False
    let ?D2 = "D\<lparr>parse_state := htqp_wantlf\<rparr>"
    have first: "turn_ok D r ?D2 r"
      using w st http_measure_rank [of r r ?D2 D] by (auto simp: turn_ok_def http_ok_def accounted_def)
    have e: "do_wantlf ?D2 r = (D', r')" using res False r1 by (simp add: do_eoln_def)
    have "http_ok ?D2" using first by (simp add: turn_ok_def)
    note l = wantlf_ok [OF this _ r e]
    show ?thesis using turn_ok_trans [OF first] l False r1 by auto
  qed
  then show "turn_ok D r D' r'" and "hd r \<in> {0x0D, 0x0A} \<Longrightarrow> length r' < length r \<or> parse_state D' \<in> {htqp_fatal, htqp_wantlastlf}"
    by auto
qed

lemma skiptoeoln_ok:
  assumes ok: "http_ok D" and st: "parse_state D = htqp_skiptoeoln" and r: "r \<noteq> []" and res: "do_skiptoeoln D r = (D', r')"
  shows "turn_ok D r D' r'"
proof -
  let ?p = "\<lambda>b :: byte. b \<noteq> 0x0D \<and> b \<noteq> 0x0A"
  obtain D1 r1 where sb: "skip_bytes ?p D r = (D1, r1)" by (rule prod.exhaust)
  from skip_bytes_split [OF sb] obtain k where k: "k \<le> length r" "r1 = drop k r" "D1 = D\<lparr>header_size := header_size D + k\<rparr>"
    "r1 \<noteq> [] \<and> header_size D1 < MAX_HTTP_HEADER_SIZE \<longrightarrow> \<not> ?p (hd r1)" by blast
  have suf: "suffix r1 r" and len: "k + length r1 = length r" using k by (auto simp: suffix_drop)
  have w: "length (word D) = 16" using ok by (simp add: http_ok_def)
  consider "header_size D1 \<ge> MAX_HTTP_HEADER_SIZE" | "header_size D1 < MAX_HTTP_HEADER_SIZE" "r1 = []"
    | "header_size D1 < MAX_HTTP_HEADER_SIZE" "r1 \<noteq> []" by linarith
  then show ?thesis
  proof cases
    case 1
    then have "D' = D1\<lparr>parse_state := htqp_fatal\<rparr>" "r' = r1" using res sb by (auto simp: do_skiptoeoln_def)
    then show ?thesis using w st suf len k(3) http_measure_rank [of r' r D' D] by (auto simp: turn_ok_def http_ok_def accounted_def)
  next
    case 2
    then have "D' = D1" "r' = []" using res sb by (auto simp: do_skiptoeoln_def)
    then show ?thesis using 2 r w st suf len k(3) http_measure_shorter [of r' r D' D] by (auto simp: turn_ok_def http_ok_def accounted_def)
  next
    case 3
    let ?D2 = "D1\<lparr>parse_state := htqp_eoln\<rparr>"
    have e: "do_eoln ?D2 r1 = (D', r')" using 3 res sb by (simp add: do_skiptoeoln_def)
    have ok2: "http_ok ?D2" using w k(3) by (simp add: http_ok_def)
    note l = eoln_ok [OF ok2 _ 3(2) e]
    have acc: "accounted ?D2 + length r1 = accounted D + length r" using k(3) st len by (simp add: accounted_def)
    have "hd r1 \<in> {0x0D, 0x0A}" using k(4) 3 by auto
    with l(2) have "length r' < length r1 \<or> parse_state D' \<in> {htqp_fatal, htqp_wantlastlf}" by simp
    moreover have "suffix r' r1" using l(1) by (simp add: turn_ok_def)
    then have "length r' \<le> length r1" by (rule suffix_length_le)
    ultimately have "http_measure D' r' < http_measure D r"
      using len st http_measure_shorter [of r' r D' D] http_measure_rank [of r' r D' D] by auto
    then show ?thesis using l(1) acc suf \<open>suffix r' r1\<close> by (auto simp: turn_ok_def intro: suffix_order.trans)
  qed
qed

lemma start_ok:
  assumes r: "r \<noteq> []" and st: "parse_state D = htqp_start"
  shows "\<exists>D' r'. do_readtospace (http_start D) r = Some (D', r') \<and> turn_ok D r D' r'"
proof -
  have s: "http_ok (http_start D)" "parse_state (http_start D) = htqp_readtospace" "accounted (http_start D) = accounted D"
    "http_measure (http_start D) r < http_measure D r"
    using st by (auto simp: http_ok_def http_start_def accounted_def http_measure_def)
  from readtospace_ok [OF s(1,2) r] obtain D' r' where "do_readtospace (http_start D) r = Some (D', r')" "turn_ok (http_start D) r D' r'"
    by blast
  then show ?thesis using s(3,4) by (auto simp: turn_ok_def)
qed

lemma pair_exI: "(\<And>D' r'. x = (D', r') \<Longrightarrow> P D' r') \<Longrightarrow> \<exists>D' r'. Some x = Some (D', r') \<and> P D' r'"
  by (cases x) auto

lemma http_turn_ok:
  assumes "http_ok D" "r \<noteq> []" "parse_state D \<noteq> htqp_done"
  shows "\<exists>D' r'. http_turn (parse_state D) D r = Some (D', r') \<and> turn_ok D r D' r'"
proof (cases "parse_state D")
  case htqp_fatal
  let ?D = "D\<lparr>qf_error := True, parse_state := htqp_done\<rparr>"
  have "turn_ok D r ?D r" using assms(1) htqp_fatal http_measure_rank [of r r ?D D] by (auto simp: turn_ok_def http_ok_def accounted_def)
  then show ?thesis using htqp_fatal by simp
next
  case htqp_readtospace
  then show ?thesis using readtospace_ok assms by simp
next
  case htqp_skipspc
  then show ?thesis using skipspc_ok assms by simp
next
  case htqp_skipspctoeoln
  then show ?thesis using skipspc_ok assms by simp
next
  case htqp_readtocolon
  then show ?thesis unfolding htqp_readtocolon http_turn.simps by (intro pair_exI readtocolon_ok assms) (simp_all add: htqp_readtocolon)
next
  case htqp_readint
  then show ?thesis unfolding htqp_readint http_turn.simps by (intro pair_exI readint_ok assms) (simp_all add: htqp_readint)
next
  case htqp_skiptoeoln
  then show ?thesis unfolding htqp_skiptoeoln http_turn.simps by (intro pair_exI skiptoeoln_ok assms) (simp_all add: htqp_skiptoeoln)
next
  case htqp_eoln
  then show ?thesis unfolding htqp_eoln http_turn.simps by (intro pair_exI eoln_ok(1) assms) (simp_all add: htqp_eoln)
next
  case htqp_wantlf
  then show ?thesis unfolding htqp_wantlf http_turn.simps by (intro pair_exI wantlf_ok(1) assms) (simp_all add: htqp_wantlf)
next
  case htqp_linestart
  then show ?thesis unfolding htqp_linestart http_turn.simps by (intro pair_exI linestart_ok assms) (simp_all add: htqp_linestart)
next
  case htqp_wantlastlf
  then show ?thesis unfolding htqp_wantlastlf http_turn.simps by (intro pair_exI wantlastlf_ok assms) (simp_all add: htqp_wantlastlf)
next
  case htqp_start
  then show ?thesis using start_ok assms by simp
qed (use assms in \<open>auto simp: http_ok_def\<close>)

subsection \<open>The loop\<close>

partial_function (option) http_loop :: "hts_data \<Rightarrow> bytes \<Rightarrow> (hts_data \<times> bytes) option" where
  "http_loop D r =
     (if r = [] \<or> parse_state D = htqp_done then Some (D, r)
      else Option.bind (http_turn (parse_state D) D r) (\<lambda>(D', r'). http_loop D' r'))"

definition http_parse_data :: "hts_data \<Rightarrow> bytes \<Rightarrow> (nat \<times> hts_data) option" where
  "http_parse_data D data =
     do { (D', r) \<leftarrow> http_loop D data; Some (length data - length r, D') }"

text \<open>A request is given up when the machine is in its fatal state, or has turned that into an error.\<close>

definition given_up :: "hts_data \<Rightarrow> bool" where
  "given_up D \<longleftrightarrow> parse_state D = htqp_fatal \<or> parse_state D = htqp_done \<and> qf_error D"

lemma http_loop_stop [simp]: "http_loop D [] = Some (D, [])" "parse_state D = htqp_done \<Longrightarrow> http_loop D r = Some (D, r)"
  by (simp_all add: http_loop.simps)

lemma http_loop_turn:
  "r \<noteq> [] \<Longrightarrow> parse_state D \<noteq> htqp_done \<Longrightarrow> http_turn (parse_state D) D r = Some (D', r') \<Longrightarrow> http_loop D r = http_loop D' r'"
  by (simp add: http_loop.simps [of D r])

lemma http_loop_fatal:
  "parse_state D = htqp_fatal \<Longrightarrow> r \<noteq> [] \<Longrightarrow> http_loop D r = Some (D\<lparr>qf_error := True, parse_state := htqp_done\<rparr>, r)"
  by (simp add: http_loop.simps [of D r])

lemma http_loop_given_up: "given_up D \<Longrightarrow> \<exists>D' r'. http_loop D r = Some (D', r') \<and> given_up D'"
  by (cases "r = []") (auto simp: given_up_def http_loop_fatal)

lemma http_loop_ok:
  assumes "http_ok D"
  shows "\<exists>D' r'. http_loop D r = Some (D', r') \<and> http_ok D' \<and> suffix r' r \<and> (r' \<noteq> [] \<longrightarrow> parse_state D' = htqp_done) \<and>
    (accounted D' + length r' = accounted D + length r \<or> given_up D' \<and> accounted D' + length r' \<le> accounted D + length r)"
  using assms
proof (induction "http_measure D r" arbitrary: D r rule: less_induct)
  case less
  show ?case
  proof (cases "r = [] \<or> parse_state D = htqp_done")
    case True
    then show ?thesis using less.prems by (auto simp: http_loop.simps [of D r])
  next
    case False
    from http_turn_ok [OF less.prems] False obtain D1 r1 where t: "http_turn (parse_state D) D r = Some (D1, r1)" "turn_ok D r D1 r1"
      by blast
    then have "http_measure D1 r1 < http_measure D r" "http_ok D1" "suffix r1 r" by (auto simp: turn_ok_def)
    from less.hyps [OF this(1,2)] obtain D' r' where IH: "http_loop D1 r1 = Some (D', r')" "http_ok D'" "suffix r' r1"
      "r' \<noteq> [] \<longrightarrow> parse_state D' = htqp_done"
      "accounted D' + length r' = accounted D1 + length r1 \<or> given_up D' \<and> accounted D' + length r' \<le> accounted D1 + length r1"
      by blast
    have "given_up D'" if "parse_state D1 = htqp_fatal" using http_loop_given_up [of D1 r1] that IH(1) by (auto simp: given_up_def)
    then have "accounted D' + length r' = accounted D + length r \<or> given_up D' \<and> accounted D' + length r' \<le> accounted D + length r"
      using t(2) IH(5) unfolding turn_ok_def by linarith
    moreover have "suffix r' r" using IH(3) \<open>suffix r1 r\<close> by (rule suffix_order.trans)
    ultimately show ?thesis using IH False http_loop_turn [OF _ _ t(1)] by auto
  qed
qed

subsection \<open>Blocks\<close>

lemma read_word_append:
  "read_word p D a = (D1, r1) \<Longrightarrow> read_word p D (a @ b) = (if r1 = [] then read_word p D1 b else (D1, r1 @ b))"
  by (induction a arbitrary: D) (auto split: if_splits)

lemma skip_bytes_append:
  "skip_bytes p D a = (D1, r1) \<Longrightarrow> skip_bytes p D (a @ b) = (if r1 = [] then skip_bytes p D1 b else (D1, r1 @ b))"
  by (induction a arbitrary: D) (auto split: if_splits)

lemma read_digits_append:
  "read_digits tt D a = (t1, D1, r1) \<Longrightarrow> read_digits tt D (a @ b) = (if r1 = [] then read_digits t1 D1 b else (t1, D1, r1 @ b))"
  by (induction a arbitrary: tt D) (auto split: if_splits)

lemma skip_bytes_full: "header_size D \<ge> MAX_HTTP_HEADER_SIZE \<Longrightarrow> skip_bytes p D r = (D, r)"
  by (cases r) auto

text \<open>A turn on a block \<open>a\<close> that goes on with \<open>b\<close>: it does the same, or it is the turn on \<open>b\<close> from where
  \<open>a\<close> left the machine, or both give up.\<close>

definition goes_on :: "hts_data \<Rightarrow> bytes \<Rightarrow> bytes \<Rightarrow> hts_data \<Rightarrow> bytes \<Rightarrow> bool" where
  "goes_on D a b D' a' \<longleftrightarrow>
     http_turn (parse_state D) D (a @ b) = Some (D', a' @ b) \<or>
     a' = [] \<and> parse_state D' \<noteq> htqp_done \<and> http_turn (parse_state D) D (a @ b) = http_turn (parse_state D') D' b \<or>
     parse_state D' = htqp_fatal \<and> a' = [] \<and> (\<exists>D'' r''. http_turn (parse_state D) D (a @ b) = Some (D'', r'') \<and> parse_state D'' = htqp_fatal)"

lemma readtospace_goes_on:
  assumes st: "parse_state D = htqp_readtospace" and t: "do_readtospace D a = Some (D', a')"
  shows "do_readtospace D (a @ b) = Some (D', a' @ b) \<or>
    a' = [] \<and> parse_state D' = htqp_readtospace \<and> do_readtospace D (a @ b) = do_readtospace D' b \<or>
    parse_state D' = htqp_fatal \<and> a' = [] \<and> (\<exists>D'' r''. do_readtospace D (a @ b) = Some (D'', r'') \<and> parse_state D'' = htqp_fatal)"
proof -
  let ?p = "\<lambda>b :: byte. b > 0x20"
  obtain D1 r1 where rw: "read_word ?p D a = (D1, r1)" by (rule prod.exhaust)
  note ab = read_word_append [OF rw, of b]
  have st1: "parse_state D1 = htqp_readtospace" using read_word_split [OF rw] st by auto
  consider "r1 \<noteq> []" | "r1 = []" "wlen D1 \<le> 4096" | "r1 = []" "wlen D1 > 4096" by linarith
  then show ?thesis
  proof cases
    case 1
    then show ?thesis using t rw ab
      by (auto simp: do_readtospace_def split: if_splits option.splits bind_splits)
  next
    case 2
    then have "D' = D1" "a' = []" using t rw by (auto simp: do_readtospace_def)
    then show ?thesis using 2 ab st1 by (simp add: do_readtospace_def)
  next
    case 3
    obtain D2 r2 where rw2: "read_word ?p D1 b = (D2, r2)" by (rule prod.exhaust)
    from read_word_split [OF rw2] have "wlen D2 > 4096" using 3 by auto
    then show ?thesis using 3 t rw ab rw2 by (auto simp: do_readtospace_def)
  qed
qed

lemma readtocolon_goes_on:
  assumes st: "parse_state D = htqp_readtocolon" and t: "do_readtocolon D a = (D', a')"
  shows "do_readtocolon D (a @ b) = (D', a' @ b) \<or>
    a' = [] \<and> parse_state D' = htqp_readtocolon \<and> do_readtocolon D (a @ b) = do_readtocolon D' b \<or>
    parse_state D' = htqp_fatal \<and> a' = [] \<and> parse_state (fst (do_readtocolon D (a @ b))) = htqp_fatal"
proof -
  let ?p = "\<lambda>b :: byte. b \<noteq> 0x3A \<and> sint b > 0x20"
  obtain D1 r1 where rw: "read_word ?p D a = (D1, r1)" by (rule prod.exhaust)
  note ab = read_word_append [OF rw, of b]
  have st1: "parse_state D1 = htqp_readtocolon" using read_word_split [OF rw] st by auto
  consider b2 r2 where "r1 = b2 # r2" | "r1 = []" "wlen D1 \<le> 4096" | "r1 = []" "wlen D1 > 4096" by (cases r1) fastforce+
  then show ?thesis
  proof cases
    case 1
    then show ?thesis using t rw ab by (auto simp: do_readtocolon_def split: if_splits)
  next
    case 2
    then have "D' = D1" "a' = []" using t rw by (auto simp: do_readtocolon_def)
    then show ?thesis using 2 ab st1 by (simp add: do_readtocolon_def)
  next
    case 3
    obtain D2 r2 where rw2: "read_word ?p D1 b = (D2, r2)" by (rule prod.exhaust)
    from read_word_split [OF rw2] have "wlen D2 > 4096" using 3 by auto
    then show ?thesis using 3 t rw ab rw2 by (auto simp: do_readtocolon_def)
  qed
qed

lemma skipspc_goes_on:
  assumes t: "do_skipspc D a = Some (D', a')"
  shows "do_skipspc D (a @ b) = Some (D', a' @ b) \<or>
    a' = [] \<and> parse_state D' = parse_state D \<and> do_skipspc D (a @ b) = do_skipspc D' b"
proof -
  let ?p = "\<lambda>b :: byte. b = 0x20 \<or> b = 0x09 \<and> query_words D \<ge> 8"
  obtain D1 r1 where sb: "skip_bytes ?p D a = (D1, r1)" by (rule prod.exhaust)
  note ab = skip_bytes_append [OF sb, of b]
  have q: "query_words D1 = query_words D" "parse_state D1 = parse_state D" using skip_bytes_split [OF sb] by auto
  consider "r1 \<noteq> []" | "r1 = []" "header_size D1 \<ge> MAX_HTTP_HEADER_SIZE" | "r1 = []" "header_size D1 < MAX_HTTP_HEADER_SIZE" by linarith
  then show ?thesis
  proof cases
    case 1
    then show ?thesis using t sb ab by (auto simp: do_skipspc_def split: if_splits bind_splits)
  next
    case 2
    then show ?thesis using t sb ab by (auto simp: do_skipspc_def skip_bytes_full split: if_splits bind_splits)
  next
    case 3
    then have "D' = D1" "a' = []" using t sb by (auto simp: do_skipspc_def)
    then show ?thesis using 3 ab q by (simp add: do_skipspc_def)
  qed
qed

lemma read_digits_size:
  "read_digits tt D b = (t2, D2, r2) \<Longrightarrow> read_digits tt (D\<lparr>data_size := x\<rparr>) b = (t2, D2\<lparr>data_size := x\<rparr>, r2)"
proof (induction b arbitrary: tt D)
  case (Cons c b)
  let ?D = "D\<lparr>header_size := header_size D + 1, qf_datasize := False\<rparr>"
  have c: "D\<lparr>data_size := x, header_size := header_size D + 1, qf_datasize := False\<rparr> = ?D\<lparr>data_size := x\<rparr>" by simp
  show ?case
  proof (cases "is_digit c \<and> \<not> tt \<ge> 0x7fffffff div 10")
    case True
    then have "read_digits tt (D\<lparr>data_size := x\<rparr>) (c # b) = read_digits (tt * 10 + (uint c - 0x30)) (?D\<lparr>data_size := x\<rparr>) b"
      unfolding c [symmetric] by simp
    also have "\<dots> = (t2, D2\<lparr>data_size := x\<rparr>, r2)" using True Cons.prems by (intro Cons.IH) simp
    finally show ?thesis .
  next
    case False
    then show ?thesis using Cons.prems by auto
  qed
qed auto

lemma readint_goes_on:
  assumes st: "parse_state D = htqp_readint" and t: "do_readint D a = (D', a')"
  shows "do_readint D (a @ b) = (D', a' @ b) \<or>
    a' = [] \<and> parse_state D' = htqp_readint \<and> do_readint D (a @ b) = do_readint D' b"
proof -
  obtain t1 D1 r1 where rd: "read_digits (data_size D) D a = (t1, D1, r1)" by (metis prod_cases3)
  note ab = read_digits_append [OF rd, of b]
  show ?thesis
  proof (cases "r1 = []")
    case True
    have st1: "parse_state D1 = htqp_readint" using read_digits_split [OF rd] st True by auto
    have D': "D' = D1\<lparr>data_size := t1\<rparr>" "a' = []" using t rd True by (auto simp: do_readint_def)
    obtain t2 D2 r2 where rd2: "read_digits t1 D1 b = (t2, D2, r2)" by (metis prod_cases3)
    have "read_digits t1 (D1\<lparr>data_size := x\<rparr>) b = (t2, D2\<lparr>data_size := x\<rparr>, r2)" for x
      using rd2 by (rule read_digits_size)
    then have "do_readint D (a @ b) = do_readint D' b" using ab True rd2 D' by (auto simp: do_readint_def Let_def bad_line_def)
    then show ?thesis using D' st1 by simp
  next
    case False
    then show ?thesis using t rd ab by (auto simp: do_readint_def Let_def split: if_splits)
  qed
qed

lemma linestart_goes_on: "a \<noteq> [] \<Longrightarrow> do_linestart D a = (D', a') \<Longrightarrow> do_linestart D (a @ b) = (D', a' @ b)"
  by (cases a) (auto simp: do_linestart_def Let_def split: if_splits)

lemma wantlastlf_goes_on: "a \<noteq> [] \<Longrightarrow> do_wantlastlf D a = (D', a') \<Longrightarrow> do_wantlastlf D (a @ b) = (D', a' @ b)"
  by (cases a) (auto simp: do_wantlastlf_def Let_def split: if_splits)

lemma wantlf_goes_on:
  assumes "a \<noteq> []" "do_wantlf D a = (D', a')"
  shows "do_wantlf D (a @ b) = (D', a' @ b) \<or> a' = [] \<and> parse_state D' = htqp_linestart \<and> do_wantlf D (a @ b) = do_linestart D' b"
proof -
  obtain x r where a: "a = x # r" using assms(1) by (cases a) auto
  show ?thesis
  proof (cases "r = []")
    case True
    then show ?thesis using assms(2) a by (auto simp: do_wantlf_def Let_def do_linestart_def [of _ "[]"] split: if_splits)
  next
    case False
    then show ?thesis using assms(2) a linestart_goes_on [OF False, of _ D' a' b]
      by (auto simp: do_wantlf_def Let_def split: if_splits)
  qed
qed

lemma eoln_goes_on:
  assumes "a \<noteq> []" "do_eoln D a = (D', a')"
  shows "do_eoln D (a @ b) = (D', a' @ b) \<or>
    a' = [] \<and> parse_state D' = htqp_wantlf \<and> do_eoln D (a @ b) = do_wantlf D' b \<or>
    a' = [] \<and> parse_state D' = htqp_linestart \<and> do_eoln D (a @ b) = do_linestart D' b"
proof -
  obtain x r where a: "a = x # r" using assms(1) by (cases a) auto
  consider "x = 0x0D" "r = []" | "x = 0x0D" "r \<noteq> []" | "x \<noteq> 0x0D" by blast
  then show ?thesis
  proof cases
    case 1
    then show ?thesis using assms(2) a by (auto simp: do_eoln_def do_wantlf_def [of _ "[]"])
  next
    case 2
    let ?D = "D\<lparr>header_size := header_size D + 1, parse_state := htqp_wantlf\<rparr>"
    have "do_eoln D (a @ b) = do_wantlf ?D (r @ b)" "do_wantlf ?D r = (D', a')" using 2 assms(2) a by (simp_all add: do_eoln_def)
    then show ?thesis using wantlf_goes_on [OF 2(2), of ?D D' a' b] by auto
  next
    case 3
    let ?D = "D\<lparr>parse_state := htqp_wantlf\<rparr>"
    have "do_eoln D (a @ b) = do_wantlf ?D (a @ b)" "do_wantlf ?D a = (D', a')" using 3 assms(2) a by (simp_all add: do_eoln_def)
    then show ?thesis using wantlf_goes_on [OF assms(1), of ?D D' a' b] by auto
  qed
qed

lemma skiptoeoln_goes_on:
  assumes st: "parse_state D = htqp_skiptoeoln" and t: "do_skiptoeoln D a = (D', a')"
  shows "do_skiptoeoln D (a @ b) = (D', a' @ b) \<or>
    a' = [] \<and> parse_state D' = htqp_skiptoeoln \<and> do_skiptoeoln D (a @ b) = do_skiptoeoln D' b \<or>
    a' = [] \<and> parse_state D' = htqp_wantlf \<and> do_skiptoeoln D (a @ b) = do_wantlf D' b \<or>
    a' = [] \<and> parse_state D' = htqp_linestart \<and> do_skiptoeoln D (a @ b) = do_linestart D' b"
proof -
  let ?p = "\<lambda>b :: byte. b \<noteq> 0x0D \<and> b \<noteq> 0x0A"
  obtain D1 r1 where sb: "skip_bytes ?p D a = (D1, r1)" by (rule prod.exhaust)
  note ab = skip_bytes_append [OF sb, of b]
  have q: "parse_state D1 = parse_state D" using skip_bytes_split [OF sb] by auto
  consider "header_size D1 \<ge> MAX_HTTP_HEADER_SIZE" | "r1 = []" "header_size D1 < MAX_HTTP_HEADER_SIZE"
    | "r1 \<noteq> []" "header_size D1 < MAX_HTTP_HEADER_SIZE" by linarith
  then show ?thesis
  proof cases
    case 1
    then show ?thesis using t sb ab by (auto simp: do_skiptoeoln_def skip_bytes_full split: if_splits)
  next
    case 2
    then have "D' = D1" "a' = []" using t sb by (auto simp: do_skiptoeoln_def)
    then show ?thesis using 2 ab q st by (simp add: do_skiptoeoln_def)
  next
    case 3
    let ?D = "D1\<lparr>parse_state := htqp_eoln\<rparr>"
    have "do_skiptoeoln D (a @ b) = do_eoln ?D (r1 @ b)" "do_eoln ?D r1 = (D', a')" using 3 t sb ab by (simp_all add: do_skiptoeoln_def)
    then show ?thesis using eoln_goes_on [OF 3(1), of ?D D' a' b] by auto
  qed
qed

lemma http_turn_goes_on:
  assumes a: "a \<noteq> []" and t: "http_turn (parse_state D) D a = Some (D', a')"
  shows "goes_on D a b D' a'"
proof (cases "parse_state D")
  case htqp_start
  have "parse_state (http_start D) = htqp_readtospace" by (simp add: http_start_def)
  from readtospace_goes_on [OF this, of a D' a' b] t htqp_start show ?thesis by (auto simp: goes_on_def)
next
  case htqp_readtospace
  with readtospace_goes_on [of D a D' a' b] t show ?thesis by (auto simp: goes_on_def)
next
  case htqp_readtocolon
  with readtocolon_goes_on [of D a D' a' b] t show ?thesis
    by (cases "do_readtocolon D (a @ b)") (auto simp: goes_on_def)
next
  case htqp_readint
  with readint_goes_on [of D a D' a' b] t show ?thesis by (auto simp: goes_on_def)
next
  case htqp_skipspc
  with skipspc_goes_on [of D a D' a' b] t show ?thesis by (auto simp: goes_on_def)
next
  case htqp_skipspctoeoln
  with skipspc_goes_on [of D a D' a' b] t show ?thesis by (auto simp: goes_on_def)
next
  case htqp_skiptoeoln
  with skiptoeoln_goes_on [of D a D' a' b] t show ?thesis by (auto simp: goes_on_def)
next
  case htqp_eoln
  with eoln_goes_on [of a D D' a' b] a t show ?thesis by (auto simp: goes_on_def)
next
  case htqp_wantlf
  with wantlf_goes_on [of a D D' a' b] a t show ?thesis by (auto simp: goes_on_def)
next
  case htqp_wantlastlf
  with wantlastlf_goes_on [of a D D' a' b] a t show ?thesis by (auto simp: goes_on_def)
next
  case htqp_linestart
  with linestart_goes_on [of a D D' a' b] a t show ?thesis by (auto simp: goes_on_def)
qed (use t in \<open>auto simp: goes_on_def\<close>)

text \<open>Two runs agree when they are equal or both give up.\<close>

definition agree :: "(hts_data \<times> bytes) option \<Rightarrow> (hts_data \<times> bytes) option \<Rightarrow> bool" where
  "agree x y \<longleftrightarrow> x = y \<or> (\<exists>D r D' r'. x = Some (D, r) \<and> y = Some (D', r') \<and> given_up D \<and> given_up D')"

lemma agree_refl [simp]: "agree x x"
  by (simp add: agree_def)

lemma agree_trans: "agree x y \<Longrightarrow> agree y z \<Longrightarrow> agree x z"
  by (auto simp: agree_def)

lemma http_loop_append:
  assumes "http_ok D" "b \<noteq> []" "http_loop D a = Some (D1, r1)"
  shows "agree (http_loop D (a @ b)) (if parse_state D1 = htqp_done then Some (D1, r1 @ b) else http_loop D1 b)"
  using assms
proof (induction "http_measure D a" arbitrary: D a rule: less_induct)
  case less
  show ?case
  proof (cases "a = [] \<or> parse_state D = htqp_done")
    case True
    then show ?thesis using less.prems by auto
  next
    case False
    then have ne: "a \<noteq> []" "a @ b \<noteq> []" "parse_state D \<noteq> htqp_done" by auto
    from http_turn_ok [OF less.prems(1) ne(1,3)] obtain D' a' where t: "http_turn (parse_state D) D a = Some (D', a')" "turn_ok D a D' a'"
      by blast
    then have dec: "http_measure D' a' < http_measure D a" "http_ok D'" by (auto simp: turn_ok_def)
    have l: "http_loop D' a' = Some (D1, r1)" using http_loop_turn [OF ne(1,3) t(1)] less.prems(3) by simp
    note IH = less.hyps [OF dec less.prems(2) l]
    from http_turn_goes_on [OF ne(1) t(1), of b]
    consider "http_turn (parse_state D) D (a @ b) = Some (D', a' @ b)"
      | "a' = []" "parse_state D' \<noteq> htqp_done" "http_turn (parse_state D) D (a @ b) = http_turn (parse_state D') D' b"
      | D'' r'' where "parse_state D' = htqp_fatal" "a' = []" "http_turn (parse_state D) D (a @ b) = Some (D'', r'')" "parse_state D'' = htqp_fatal"
      unfolding goes_on_def by blast
    then show ?thesis
    proof cases
      case 1
      then show ?thesis using http_loop_turn [OF ne(2,3)] IH by simp
    next
      case 2
      then have "D1 = D'" using l by simp
      moreover have "http_loop D (a @ b) = http_loop D' b"
        using 2 ne less.prems(2) by (simp add: http_loop.simps [of D] http_loop.simps [of D' b])
      ultimately show ?thesis using 2 by simp
    next
      case 3
      then have "D1 = D'" using l by simp
      have "http_loop D (a @ b) = http_loop D'' r''" using http_loop_turn [OF ne(2,3) 3(3)] .
      moreover have "given_up D''" "given_up D'" using 3 by (auto simp: given_up_def)
      ultimately show ?thesis using http_loop_given_up [of D'' r''] http_loop_given_up [of D' b] 3 \<open>D1 = D'\<close>
        by (auto simp: agree_def)
    qed
  qed
qed

text \<open>A request that comes in blocks, as \<open>hts_parse_execute\<close> feeds them.\<close>

fun http_feed :: "hts_data \<Rightarrow> bytes list \<Rightarrow> (hts_data \<times> bytes) option" where
  "http_feed D [] = Some (D, [])"
| "http_feed D (b # bs) =
     do { (D1, r1) \<leftarrow> http_loop D b;
          if parse_state D1 = htqp_done then Some (D1, r1 @ concat bs) else http_feed D1 bs }"

lemma http_feed_agree:
  "http_ok D \<Longrightarrow> [] \<notin> set bs \<Longrightarrow> parse_state D \<noteq> htqp_done \<Longrightarrow> agree (http_feed D bs) (http_loop D (concat bs))"
proof (induction bs arbitrary: D)
  case (Cons b bs)
  from http_loop_ok [OF Cons.prems(1), of b] obtain D1 r1 where l: "http_loop D b = Some (D1, r1)" "http_ok D1"
    "r1 \<noteq> [] \<longrightarrow> parse_state D1 = htqp_done" by blast
  show ?case
  proof (cases "concat bs = []")
    case True
    then have "bs = []" using Cons.prems(2) by (cases bs) auto
    then show ?thesis using l by auto
  next
    case False
    note a = http_loop_append [OF Cons.prems(1) False l(1)]
    have s: "agree y x" if "agree x y" for x y using that by (auto simp: agree_def)
    show ?thesis
    proof (cases "parse_state D1 = htqp_done")
      case True
      then show ?thesis using l a s by simp
    next
      case nd: False
      have "http_feed D (b # bs) = http_feed D1 bs" using l nd by simp
      moreover have "agree (http_feed D1 bs) (http_loop D1 (concat bs))" using Cons.IH [OF l(2) _ nd] Cons.prems(2) by simp
      moreover have "agree (http_loop D1 (concat bs)) (http_loop D (concat (b # bs)))" using a nd by (auto intro: s)
      ultimately show ?thesis by (metis agree_trans)
    qed
  qed
qed simp

subsection \<open>The parser on any input\<close>

text \<open>A parser as a new connection has it.\<close>

definition new_hts_data :: hts_data where
  "new_hts_data = \<lparr>query_type = htqt_none, qf_error = False, qf_host = False, qf_datasize = False, qf_connection = False,
      qf_keepalive = False, qf_extra_headers = False, query_words = 0, header_size = 0, first_line_size = 0, data_size = 0,
      host_offset = 0, host_size = 0, uri_offset = 0, uri_size = 0, http_ver = 0, wlen = 0,
      word = replicate 16 0, parse_state = htqp_start, query_seqno = 0\<rparr>"

lemma new_hts_data_ok: "http_ok new_hts_data" "parse_state new_hts_data = htqp_start"
  by (simp_all add: new_hts_data_def http_ok_def)

text \<open>What the server cuts out of the header lies inside it: the URI and the host. Before the first byte of a
  request the fields are those of the request before.\<close>

abbreviation in_header :: "hts_data \<Rightarrow> bool" where
  "in_header D \<equiv> uri_offset D + uri_size D \<le> header_size D \<and> host_offset D + host_size D \<le> header_size D"

definition slices_ok :: "hts_data \<Rightarrow> bool" where
  "slices_ok D \<longleftrightarrow> parse_state D = htqp_start \<or> in_header D"

text \<open>Every step but the end of a word leaves the slices alone and only lengthens the header.\<close>

definition grows :: "hts_data \<Rightarrow> hts_data \<Rightarrow> bool" where
  "grows D D' \<longleftrightarrow> uri_offset D' = uri_offset D \<and> uri_size D' = uri_size D \<and> host_offset D' = host_offset D \<and>
     host_size D' = host_size D \<and> header_size D \<le> header_size D'"

lemma grows_refl [simp]: "grows D D"
  by (simp add: grows_def)

lemma grows_trans: "grows D D1 \<Longrightarrow> grows D1 D2 \<Longrightarrow> grows D D2"
  by (simp add: grows_def)

lemma grows_in_header: "grows D D' \<Longrightarrow> in_header D \<Longrightarrow> in_header D'"
  by (auto simp: grows_def)

lemma read_word_grows: "read_word p D r = (D1, r1) \<Longrightarrow> grows D D1"
  using read_word_split [of p D r D1 r1] by (auto simp: grows_def)

lemma skip_bytes_grows: "skip_bytes p D r = (D1, r1) \<Longrightarrow> grows D D1"
  using skip_bytes_split [of p D r D1 r1] by (auto simp: grows_def)

lemma read_digits_grows: "read_digits tt D r = (t1, D1, r1) \<Longrightarrow> grows D D1"
  using read_digits_split [of tt D r t1 D1 r1] by (auto simp: grows_def)

lemma end_word_in_header: "end_word D = Some D' \<Longrightarrow> in_header D \<Longrightarrow> in_header D'"
  by (auto simp: end_word_def end_method_def end_uri_def end_version_def end_value_def bad_line_def Let_def
      split: if_splits bind_splits)

lemma readtospace_in_header:
  assumes "do_readtospace D r = Some (D', r')" "in_header D"
  shows "in_header D'"
proof -
  obtain D1 r1 where w: "read_word (\<lambda>b. b > 0x20) D r = (D1, r1)" by (rule prod.exhaust)
  have "in_header D1" using grows_in_header [OF read_word_grows [OF w] assms(2)] .
  then show ?thesis using assms(1) end_word_in_header [of D1 D'] w
    by (auto simp: do_readtospace_def split: if_splits bind_splits)
qed

lemma after_spaces_grows: "after_spaces D = Some D' \<Longrightarrow> grows D D'"
  by (auto simp: after_spaces_def grows_def bad_line_def split: if_splits)

lemma skipspc_grows:
  assumes "do_skipspc D r = Some (D', r')"
  shows "grows D D'"
proof -
  obtain D1 r1 where w: "skip_bytes (\<lambda>b. b = 0x20 \<or> b = 0x09 \<and> query_words D \<ge> 8) D r = (D1, r1)" by (rule prod.exhaust)
  have "grows D1 D'" using assms w
    by (auto simp: do_skipspc_def dest!: after_spaces_grows split: if_splits bind_splits) (simp_all add: grows_def)
  then show ?thesis using skip_bytes_grows [OF w] grows_trans by blast
qed

lemma readtocolon_grows:
  assumes "do_readtocolon D r = (D', r')"
  shows "grows D D'"
proof -
  obtain D1 r1 where w: "read_word (\<lambda>b. b \<noteq> 0x3A \<and> sint b > 0x20) D r = (D1, r1)" by (rule prod.exhaust)
  have "grows D1 D'" using assms w
    by (auto simp: do_readtocolon_def end_name_def bad_line_def grows_def Let_def split: if_splits list.splits)
  then show ?thesis using read_word_grows [OF w] grows_trans by blast
qed

lemma readint_grows:
  assumes "do_readint D r = (D', r')"
  shows "grows D D'"
proof -
  obtain tt D1 r1 where w: "read_digits (data_size D) D r = (tt, D1, r1)" by (metis prod_cases3)
  have "grows D1 D'" using assms w
    by (auto simp: do_readint_def bad_line_def grows_def Let_def split: if_splits)
  then show ?thesis using read_digits_grows [OF w] grows_trans by blast
qed

lemma linestart_grows: "do_linestart D r = (D', r') \<Longrightarrow> grows D D'"
  by (auto simp: do_linestart_def grows_def Let_def split: if_splits list.splits)

lemma wantlf_grows: "do_wantlf D r = (D', r') \<Longrightarrow> grows D D'"
  by (cases r) (auto simp: do_wantlf_def Let_def bad_line_def grows_def dest!: linestart_grows split: if_splits)

lemma eoln_grows: "do_eoln D r = (D', r') \<Longrightarrow> grows D D'"
  by (cases r) (auto simp: do_eoln_def grows_def dest!: wantlf_grows split: if_splits)

lemma skiptoeoln_grows:
  assumes "do_skiptoeoln D r = (D', r')"
  shows "grows D D'"
proof -
  obtain D1 r1 where w: "skip_bytes (\<lambda>b. b \<noteq> 0x0D \<and> b \<noteq> 0x0A) D r = (D1, r1)" by (rule prod.exhaust)
  have "grows D1 D'" using assms w
    by (auto simp: do_skiptoeoln_def dest!: eoln_grows split: if_splits) (simp_all add: grows_def)
  then show ?thesis using skip_bytes_grows [OF w] grows_trans by blast
qed

lemma wantlastlf_grows: "do_wantlastlf D r = (D', r') \<Longrightarrow> grows D D'"
  by (auto simp: do_wantlastlf_def grows_def Let_def split: if_splits list.splits)

lemma http_turn_in_header:
  assumes "http_turn (parse_state D) D r = Some (D', r')" "slices_ok D"
  shows "in_header D'"
proof (cases "parse_state D = htqp_start")
  case True
  have "in_header (http_start D)" by (simp add: http_start_def)
  then show ?thesis using assms(1) True readtospace_in_header by simp
next
  case False
  then have D: "in_header D" using assms(2) by (simp add: slices_ok_def)
  consider "parse_state D = htqp_readtospace" | "parse_state D \<noteq> htqp_readtospace" by blast
  then show ?thesis
  proof cases
    case 1
    then show ?thesis using assms(1) D readtospace_in_header by simp
  next
    case 2
    have fatal: "grows D (D\<lparr>qf_error := True, parse_state := htqp_done\<rparr>)" by (simp add: grows_def)
    have "grows D D'" using assms(1) False 2 fatal
      by (cases "parse_state D")
        (auto dest: skipspc_grows readtocolon_grows readint_grows linestart_grows wantlf_grows eoln_grows skiptoeoln_grows
          wantlastlf_grows)
    then show ?thesis using D by (rule grows_in_header)
  qed
qed

lemma http_loop_slices:
  assumes "http_loop D r = Some (D', r')" "slices_ok D"
  shows "slices_ok D'"
proof -
  have "slices_ok D \<longrightarrow> slices_ok (fst y)" if "http_loop D r = Some y" for D r y
    using that
  proof (rule http_loop.raw_induct [rotated])
    fix f :: "hts_data \<Rightarrow> bytes \<Rightarrow> (hts_data \<times> bytes) option" and D r y
    assume IH: "\<And>D r y. f D r = Some y \<Longrightarrow> slices_ok D \<longrightarrow> slices_ok (fst y)"
      and eq: "(if r = [] \<or> parse_state D = htqp_done then Some (D, r)
        else Option.bind (http_turn (parse_state D) D r) (\<lambda>(D', r'). f D' r')) = Some y"
    show "slices_ok D \<longrightarrow> slices_ok (fst y)"
    proof (cases "r = [] \<or> parse_state D = htqp_done")
      case False
      with eq obtain D1 r1 where "http_turn (parse_state D) D r = Some (D1, r1)" "f D1 r1 = Some y"
        by (auto split: bind_splits)
      then show ?thesis using http_turn_in_header [of D r D1 r1] IH [of D1 r1 y] by (auto simp: slices_ok_def)
    qed (use eq in auto)
  qed
  from this [OF assms(1)] assms(2) show ?thesis by simp
qed

text \<open>C37: (the parser is safe). On any bytes, from any state the invariants allow, the parser ends, no assertion
  fails, the invariants hold again, and no more is consumed than the block has; bytes are left over only by a
  request that has ended. The URI and the host that it has recorded lie inside the header read so far. The
  header size and the word that is being read account for exactly the bytes consumed, or for fewer when the
  request is given up; the buffer of the word keeps its sixteen bytes.\<close>

theorem http_parse_safe:
  assumes "http_ok D" "slices_ok D"
  shows "\<exists>n D'. http_parse_data D data = Some (n, D') \<and> http_ok D' \<and> slices_ok D' \<and> n \<le> length data \<and>
    (n = length data \<or> parse_state D' = htqp_done) \<and>
    (parse_state D' = htqp_start \<or>
      uri_offset D' + uri_size D' \<le> header_size D' \<and> host_offset D' + host_size D' \<le> header_size D' \<and>
      header_size D' \<le> accounted D + n) \<and>
    (accounted D' = accounted D + n \<or> given_up D' \<and> accounted D' \<le> accounted D + n) \<and> length (word D') = 16"
proof -
  from http_loop_ok [OF assms(1), of data] obtain D' r' where l: "http_loop D data = Some (D', r')" "http_ok D'" "suffix r' data"
    "r' \<noteq> [] \<longrightarrow> parse_state D' = htqp_done"
    "accounted D' + length r' = accounted D + length data \<or> given_up D' \<and> accounted D' + length r' \<le> accounted D + length data" by blast
  have s: "slices_ok D'" by (rule http_loop_slices [OF l(1) assms(2)])
  have "length r' \<le> length data" using l(3) by (rule suffix_length_le)
  moreover have "header_size D' \<le> accounted D'" if "parse_state D' \<noteq> htqp_start" using that by (simp add: accounted_def)
  ultimately have "parse_state D' = htqp_start \<or> in_header D' \<and> header_size D' \<le> accounted D + (length data - length r')"
    using s l(5) by (auto simp: slices_ok_def)
  moreover have "length (word D') = 16" using l(2) by (simp add: http_ok_def)
  ultimately show ?thesis using l s \<open>length r' \<le> length data\<close> by (auto simp: http_parse_data_def)
qed

theorem http_parse_safe_witness:
  "\<exists>n D'. http_parse_data new_hts_data (ascii ''GET /a '') = Some (n, D') \<and> n \<le> 7 \<and>
    (parse_state D' = htqp_start \<or> uri_offset D' + uri_size D' \<le> n)"
proof -
  have "slices_ok new_hts_data" by (simp add: slices_ok_def new_hts_data_def)
  moreover have "accounted new_hts_data = 0" by (simp add: accounted_def new_hts_data_def)
  ultimately show ?thesis using http_parse_safe [OF new_hts_data_ok(1), of "ascii ''GET /a ''"] by fastforce
qed

text \<open>C38: (blocks do not matter). However a request is cut into blocks, feeding the blocks one after the other ends in
  the same state and leaves the same bytes as parsing it at once, or both give the request up.\<close>

theorem http_blocks_agree:
  assumes "http_ok D" "[] \<notin> set bs" "parse_state D \<noteq> htqp_done"
  shows "http_feed D bs = http_loop D (concat bs) \<or>
    (\<exists>D1 r1 D2 r2. http_feed D bs = Some (D1, r1) \<and> http_loop D (concat bs) = Some (D2, r2) \<and> given_up D1 \<and> given_up D2)"
  using http_feed_agree [OF assms] unfolding agree_def .

theorem http_blocks_agree_witness:
  "http_feed new_hts_data [[0x47], [0x45, 0x54, 0x20]] = http_loop new_hts_data [0x47, 0x45, 0x54, 0x20] \<or>
    (\<exists>D1 r1 D2 r2. http_feed new_hts_data [[0x47], [0x45, 0x54, 0x20]] = Some (D1, r1) \<and>
      http_loop new_hts_data [0x47, 0x45, 0x54, 0x20] = Some (D2, r2) \<and> given_up D1 \<and> given_up D2)"
  using http_blocks_agree [OF new_hts_data_ok(1), of "[[0x47], [0x45, 0x54, 0x20]]"] new_hts_data_ok(2) by simp

end
