(* ===== verification/Srv_Http_Request.thy ===== *)
theory Srv_Http_Request
  imports Srv_Http_Parse T3_Table
begin

text \<open>
  What the request parser of \<open>server/src/net/net-http-parse.c\<close> makes of a well-formed request: the
  text of a request, and the theorem that parsing the text gives the request back.
\<close>

subsection \<open>Requests and their text\<close>

datatype http_header = Host bytes | Connection bytes | Content_Length nat | Other bytes bytes

record http_request =
  rq_method :: hts_query_type
  rq_uri :: bytes
  rq_v11 :: bool
  rq_headers :: "http_header list"

definition CR_LF :: bytes where "CR_LF = [0x0D, 0x0A]"

fun header_name :: "http_header \<Rightarrow> bytes" where
  "header_name (Host v) = ascii ''Host''"
| "header_name (Connection v) = ascii ''Connection''"
| "header_name (Content_Length n) = ascii ''Content-Length''"
| "header_name (Other k v) = k"

fun header_value :: "http_header \<Rightarrow> bytes" where
  "header_value (Host v) = v"
| "header_value (Connection v) = v"
| "header_value (Content_Length n) = decimal n"
| "header_value (Other k v) = v"

definition header_line :: "http_header \<Rightarrow> bytes" where
  "header_line h = header_name h @ [0x3A, 0x20] @ header_value h @ CR_LF"

definition method_text :: "hts_query_type \<Rightarrow> bytes" where
  "method_text m = (case m of htqt_get \<Rightarrow> ascii ''GET'' | htqt_head \<Rightarrow> ascii ''HEAD'' | htqt_post \<Rightarrow> ascii ''POST''
     | htqt_options \<Rightarrow> ascii ''OPTIONS'' | _ \<Rightarrow> [])"

definition version_text :: "bool \<Rightarrow> bytes" where
  "version_text v = (if v then ascii ''HTTP/1.1'' else ascii ''HTTP/1.0'')"

definition request_line :: "http_request \<Rightarrow> bytes" where
  "request_line q = method_text (rq_method q) @ [0x20] @ rq_uri q @ [0x20] @ version_text (rq_v11 q) @ CR_LF"

definition request_text :: "http_request \<Rightarrow> bytes" where
  "request_text q = request_line q @ concat (map header_line (rq_headers q)) @ CR_LF"

definition plain_word :: "bytes \<Rightarrow> bool" where
  "plain_word s \<longleftrightarrow> s \<noteq> [] \<and> length s \<le> 4096 \<and> list_all (\<lambda>b. b > 0x20) s"

definition plain_name :: "bytes \<Rightarrow> bool" where
  "plain_name s \<longleftrightarrow> s \<noteq> [] \<and> length s \<le> 4096 \<and> list_all (\<lambda>b. b \<noteq> 0x3A \<and> sint b > 0x20) s"

definition known_name :: "bytes \<Rightarrow> bool" where
  "known_name k \<longleftrightarrow> map to_lower k \<in> {ascii ''host'', ascii ''connection'', ascii ''content-length''}"

fun wf_header :: "http_header \<Rightarrow> bool" where
  "wf_header (Host v) = plain_word v"
| "wf_header (Connection v) = plain_word v"
| "wf_header (Content_Length n) = (n div 10 < 0x7fffffff div 10)"
| "wf_header (Other k v) = (plain_name k \<and> \<not> known_name k \<and> list_all (\<lambda>b. b \<noteq> 0x0D \<and> b \<noteq> 0x0A) v)"

definition lengths :: "http_header list \<Rightarrow> nat list" where
  "lengths hs = concat (map (\<lambda>h. case h of Content_Length n \<Rightarrow> [n] | _ \<Rightarrow> []) hs)"

definition hosts :: "http_header list \<Rightarrow> bytes list" where
  "hosts hs = concat (map (\<lambda>h. case h of Host v \<Rightarrow> [v] | _ \<Rightarrow> []) hs)"

definition keeps_alive :: "http_header \<Rightarrow> bool" where
  "keeps_alive h = (case h of Connection v \<Rightarrow> map to_lower v = ascii ''keep-alive'' | _ \<Rightarrow> False)"

text \<open>A request the parser is meant for: a known method, a URI of one word, headers of the expected forms, at
  most one length, and a text within the limit on headers.\<close>

definition wf_request :: "http_request \<Rightarrow> bool" where
  "wf_request q \<longleftrightarrow> rq_method q \<in> {htqt_get, htqt_head, htqt_post, htqt_options} \<and> plain_word (rq_uri q) \<and>
     list_all wf_header (rq_headers q) \<and> length (lengths (rq_headers q)) \<le> 1 \<and>
     length (request_text q) < MAX_HTTP_HEADER_SIZE"

subsection \<open>Words\<close>

lemma read_word_all:
  assumes "list_all p s" "wlen D = 0" "length (word D) = 16"
  shows "read_word p D s = (D\<lparr>word := take 15 s @ drop (min 15 (length s)) (word D), wlen := length s\<rparr>, [])"
  using assms(1)
proof (induction s rule: rev_induct)
  case Nil
  then show ?case using assms(2) by simp
next
  case (snoc x s)
  let ?w = "take 15 s @ drop (min 15 (length s)) (word D)"
  have "read_word p D (s @ [x]) = read_word p (D\<lparr>word := ?w, wlen := length s\<rparr>) [x]"
    using read_word_append [OF snoc.IH, of "[x]"] snoc.prems by simp
  moreover have "?w[length s := x] = take 15 (s @ [x]) @ drop (min 15 (length (s @ [x]))) (word D)" if "length s < 15"
    using that assms(3) by (simp add: list_update_append Cons_nth_drop_Suc [symmetric])
  ultimately show ?case using snoc.prems by auto
qed

lemma read_word_until:
  assumes "list_all p s" "wlen D = 0" "length (word D) = 16" "\<not> p c"
  shows "read_word p D (s @ c # r) = (D\<lparr>word := take 15 s @ drop (min 15 (length s)) (word D), wlen := length s\<rparr>, c # r)"
  using read_word_append [OF read_word_all [OF assms(1-3)], of "c # r"] assms(4) by simp

lemma skip_bytes_until:
  "list_all p s \<Longrightarrow> \<not> p c \<Longrightarrow> header_size D + length s \<le> MAX_HTTP_HEADER_SIZE \<Longrightarrow>
     skip_bytes p D (s @ c # r) = (D\<lparr>header_size := header_size D + length s\<rparr>, c # r)"
proof (induction s arbitrary: D)
  case (Cons x s)
  have "skip_bytes p (D\<lparr>header_size := header_size D + 1\<rparr>) (s @ c # r)
      = (D\<lparr>header_size := header_size D + 1\<rparr>\<lparr>header_size := header_size (D\<lparr>header_size := header_size D + 1\<rparr>) + length s\<rparr>, c # r)"
    using Cons.prems by (intro Cons.IH) auto
  then show ?case using Cons.prems by simp
qed simp

lemma known_words:
  "length s \<le> 15 \<Longrightarrow> take 15 s @ drop (min 15 (length s)) w = s @ drop (length s) w"
  by simp

lemma decimal_digits: "list_all is_digit (decimal n)"
proof (induction n rule: decimal.induct)
  case (1 n)
  have d: "is_digit (0x30 + of_nat k)" if "k < 10" for k :: nat
  proof -
    have "k \<in> {0, 1, 2, 3, 4, 5, 6, 7, 8, 9}" using that by auto
    then show ?thesis by (auto simp: is_digit_def)
  qed
  then show ?case using 1 by (auto simp: decimal.simps [of n])
qed

lemma decimal_not_Nil [simp]: "decimal n \<noteq> []"
  by (simp add: decimal.simps [of n])

lemma read_digits_decimal:
  "n div 10 < 0x7fffffff div 10 \<Longrightarrow>
     read_digits 0 D (decimal n) = (int n, D\<lparr>header_size := header_size D + length (decimal n), qf_datasize := False\<rparr>, [])"
proof (induction n rule: decimal.induct)
  case (1 n)
  have u: "uint (0x30 + of_nat k :: byte) - 0x30 = int k" "is_digit (0x30 + of_nat k)" if "k < 10" for k :: nat
  proof -
    have "k \<in> {0, 1, 2, 3, 4, 5, 6, 7, 8, 9}" using that by auto
    then show "uint (0x30 + of_nat k :: byte) - 0x30 = int k" "is_digit (0x30 + of_nat k)" by (auto simp: is_digit_def)
  qed
  show ?case
  proof (cases "n < 10")
    case True
    then show ?thesis using u [OF True] by (simp add: decimal.simps [of n])
  next
    case False
    have "n div 10 div 10 < 0x7fffffff div 10" using 1(2) by linarith
    from 1(1) [OF False this] have h: "read_digits 0 D (decimal (n div 10)) = (int (n div 10),
      D\<lparr>header_size := header_size D + length (decimal (n div 10)), qf_datasize := False\<rparr>, [])" .
    have m: "n mod 10 < 10" by simp
    have "int (n div 10) < 214748364" using 1(2) by linarith
    moreover have "int (n div 10) * 10 + int (n mod 10) = int n" by presburger
    ultimately show ?thesis using read_digits_append [OF h, of "[0x30 + of_nat (n mod 10)]"] u [OF m] False
      by (simp add: decimal.simps [of n])
  qed
qed

subsection \<open>Header lines\<close>

definition line_start :: "hts_data \<Rightarrow> bool" where
  "line_start D \<longleftrightarrow> parse_state D = htqp_linestart \<and> \<not> qf_error D \<and> \<not> qf_host D \<and> \<not> qf_datasize D \<and> \<not> qf_connection D \<and>
     http_ver D > HTTP_V09 \<and> length (word D) = 16 \<and> 8 \<le> query_words D"

fun effect :: "http_header \<Rightarrow> hts_data \<Rightarrow> hts_data" where
  "effect (Host v) D = D\<lparr>host_offset := header_size D + 6, host_size := length v, header_size := header_size D + length (header_line (Host v))\<rparr>"
| "effect (Connection v) D =
     D\<lparr>qf_keepalive := (qf_keepalive D \<or> keeps_alive (Connection v)), header_size := header_size D + length (header_line (Connection v))\<rparr>"
| "effect (Content_Length n) D = D\<lparr>data_size := int n, header_size := header_size D + length (header_line (Content_Length n))\<rparr>"
| "effect (Other k v) D = D\<lparr>header_size := header_size D + length (header_line (Other k v))\<rparr>"

text \<open>The scratch fields of the parser.\<close>

definition scratch :: "bytes \<Rightarrow> nat \<Rightarrow> nat \<Rightarrow> nat \<Rightarrow> hts_data \<Rightarrow> hts_data" where
  "scratch w l q f D = D\<lparr>word := w, wlen := l, query_words := q, first_line_size := f\<rparr>"

lemma word_is_nocase_word:
  assumes "wlen D = length k" "word D = take 15 k @ drop (min 15 (length k)) w" "length s \<le> 15"
  shows "word_is_nocase D s \<longleftrightarrow> map to_lower k = ascii s"
proof (cases "length k = length s")
  case True
  then show ?thesis using assms by (simp add: word_is_nocase_def)
next
  case False
  then have "map to_lower k \<noteq> ascii s" by (metis length_map length_ascii)
  then show ?thesis using assms False by (simp add: word_is_nocase_def)
qed

lemma word_is_word:
  assumes "wlen D = length k" "word D = take 15 k @ drop (min 15 (length k)) w" "length s \<le> 15"
  shows "word_is D s \<longleftrightarrow> k = ascii s"
proof (cases "length k = length s")
  case True
  then show ?thesis using assms by (simp add: word_is_def)
next
  case False
  then have "k \<noteq> ascii s" by (metis length_ascii)
  then show ?thesis using assms False by (simp add: word_is_def)
qed

lemma header_names:
  "map to_lower (ascii ''Host'') = ascii ''host''" "map to_lower (ascii ''Connection'') = ascii ''connection''"
  "map to_lower (ascii ''Content-Length'') = ascii ''content-length''"
  "ascii ''connection'' \<noteq> ascii ''host''" "ascii ''content-length'' \<noteq> ascii ''host''" "ascii ''content-length'' \<noteq> ascii ''connection''"
  "plain_name (ascii ''Host'')" "plain_name (ascii ''Connection'')" "plain_name (ascii ''Content-Length'')"
  by (simp_all add: ascii_def to_lower_def plain_name_def)

lemma linestart_loop:
  "parse_state D = htqp_linestart \<Longrightarrow> r \<noteq> [] \<Longrightarrow> http_loop D r = (case do_linestart D r of (D', r') \<Rightarrow> http_loop D' r')"
  by (simp add: http_loop.simps [of D])

lemma eoln_loop:
  "parse_state D = htqp_eoln \<Longrightarrow> r \<noteq> [] \<Longrightarrow> http_loop D r = (case do_eoln D r of (D', r') \<Rightarrow> http_loop D' r')"
  by (simp add: http_loop.simps [of D])

lemma eoln_turn:
  assumes "parse_state D = htqp_eoln" "r \<noteq> []" "http_ver D > HTTP_V09" "\<not> qf_error D \<or> 7 \<le> query_words D"
  shows "http_loop D (CR_LF @ r)
    = http_loop (D\<lparr>query_words := max 8 (query_words D + 1), header_size := header_size D + 2, parse_state := htqp_linestart\<rparr>) r"
proof -
  define E where "E = D\<lparr>query_words := max 8 (query_words D + 1), header_size := header_size D + 2, parse_state := htqp_linestart\<rparr>"
  have "do_eoln D (CR_LF @ r) = do_linestart E r"
    using assms by (auto simp: do_eoln_def do_wantlf_def Let_def CR_LF_def max_def E_def)
  then have "http_loop D (CR_LF @ r) = (case do_linestart E r of (D', r') \<Rightarrow> http_loop D' r')"
    using assms by (simp add: http_loop.simps [of D] CR_LF_def)
  also have "\<dots> = http_loop E r" using assms(2) by (intro linestart_loop [symmetric]) (simp add: E_def)
  finally show ?thesis by (simp only: E_def)
qed

lemma spaces_to_eoln:
  assumes "parse_state D = htqp_skipspctoeoln" "header_size D < MAX_HTTP_HEADER_SIZE"
  shows "http_loop D (0x0D # r) = http_loop (D\<lparr>parse_state := htqp_eoln\<rparr>) (0x0D # r)"
  using assms by (intro http_loop_turn) (simp_all add: do_skipspc_def)

lemma end_line:
  assumes "parse_state D = htqp_skipspctoeoln" "header_size D < MAX_HTTP_HEADER_SIZE" "r \<noteq> []" "http_ver D > HTTP_V09"
    "\<not> qf_error D \<or> 7 \<le> query_words D"
  shows "http_loop D (CR_LF @ r)
    = http_loop (D\<lparr>query_words := max 8 (query_words D + 1), header_size := header_size D + 2, parse_state := htqp_linestart\<rparr>) r"
proof -
  have "http_loop D (CR_LF @ r) = http_loop (D\<lparr>parse_state := htqp_eoln\<rparr>) (CR_LF @ r)"
    using spaces_to_eoln [OF assms(1,2)] by (simp add: CR_LF_def)
  then show ?thesis using eoln_turn [of "D\<lparr>parse_state := htqp_eoln\<rparr>" r] assms by simp
qed

lemma end_name_state: "end_name (D\<lparr>parse_state := st\<rparr>) = end_name D"
proof -
  have w: "word_is_nocase (D\<lparr>parse_state := st\<rparr>) x = word_is_nocase D x" for x by (simp add: word_is_nocase_def)
  consider "word_is_nocase D ''host''" | "\<not> word_is_nocase D ''host''" "word_is_nocase D ''connection''"
    | "\<not> word_is_nocase D ''host''" "\<not> word_is_nocase D ''connection''" "word_is_nocase D ''content-length''"
    | "\<not> word_is_nocase D ''host''" "\<not> word_is_nocase D ''connection''" "\<not> word_is_nocase D ''content-length''" by blast
  then show ?thesis by cases (simp_all add: end_name_def w)
qed

text \<open>The parser after a header name and the spaces that follow.\<close>

definition named :: "nat \<Rightarrow> bytes \<Rightarrow> nat \<Rightarrow> hts_data \<Rightarrow> hts_data" where
  "named f k m D =
     D\<lparr>first_line_size := f, wlen := length k, word := take 15 k @ drop (min 15 (length k)) (word D),
       qf_host := (map to_lower k = ascii ''host''), qf_connection := (map to_lower k = ascii ''connection''),
       qf_datasize := (map to_lower k = ascii ''content-length''), parse_state := htqp_skipspc, header_size := m\<rparr>"

lemma end_name_named:
  assumes "line_start D"
  shows "(end_name (D\<lparr>first_line_size := f, wlen := length k, word := take 15 k @ drop (min 15 (length k)) (word D)\<rparr>))\<lparr>header_size := m\<rparr>
    = named f k m D"
proof -
  define D1 where "D1 = D\<lparr>first_line_size := f, wlen := length k, word := take 15 k @ drop (min 15 (length k)) (word D)\<rparr>"
  have n: "word_is_nocase D1 s \<longleftrightarrow> map to_lower k = ascii s" if "length s \<le> 15" for s
    by (rule word_is_nocase_word [OF _ _ that]) (simp_all add: D1_def)
  consider "map to_lower k = ascii ''host''" | "map to_lower k = ascii ''connection''" | "map to_lower k = ascii ''content-length''"
    | "map to_lower k \<notin> {ascii ''host'', ascii ''connection'', ascii ''content-length''}" by blast
  then have "(end_name D1)\<lparr>header_size := m\<rparr> = named f k m D"
    using assms n [of "''host''"] n [of "''connection''"] n [of "''content-length''"] header_names(4-6)
    by cases (simp_all add: end_name_def Let_def named_def line_start_def D1_def)
  then show ?thesis by (simp add: D1_def)
qed

lemma name_turns:
  assumes D: "line_start D" and k: "plain_name k" and sp: "list_all (\<lambda>b. b = 0x20 \<or> b = 0x09) sp" and c: "c \<noteq> 0x20" "c \<noteq> 0x09"
    and len: "header_size D + length k + 1 + length sp < MAX_HTTP_HEADER_SIZE"
  shows "\<exists>f. \<forall>D3. after_spaces (named f k (header_size D + length k + 1 + length sp) D) = Some D3 \<longrightarrow>
      http_loop D (k @ 0x3A # sp @ c # r) = http_loop D3 (c # r)"
proof -
  define f where "f = (if first_line_size D = 0 then header_size D else first_line_size D)"
  let ?D0 = "D\<lparr>first_line_size := f, wlen := 0, parse_state := htqp_readtocolon\<rparr>"
  let ?D1 = "D\<lparr>first_line_size := f, wlen := length k, word := take 15 k @ drop (min 15 (length k)) (word D)\<rparr>"
  let ?rest = "k @ 0x3A # sp @ c # r"
  have x: "\<exists>x k'. k = x # k' \<and> x \<noteq> 0x0D \<and> x \<noteq> 0x0A"
  proof (cases k)
    case (Cons x k')
    moreover have "32 < sint x" using k Cons by (simp add: plain_name_def)
    then have "x \<noteq> 0x0D" "x \<noteq> 0x0A" by auto
    ultimately show ?thesis by blast
  qed (use k in \<open>simp add: plain_name_def\<close>)
  have l: "do_linestart D (x # xs) = (?D0, x # xs)" if "x \<noteq> 0x0D" "x \<noteq> 0x0A" for x xs
    using D that by (cases "first_line_size D = 0") (simp_all add: do_linestart_def line_start_def f_def)
  have "do_linestart D ?rest = (?D0, ?rest)" using x l by (metis append_Cons)
  then have 1: "http_loop D ?rest = http_loop ?D0 ?rest" using D by (intro http_loop_turn) (simp_all add: line_start_def)
  let ?W = "?D0\<lparr>word := take 15 k @ drop (min 15 (length k)) (word ?D0), wlen := length k\<rparr>"
  have w: "read_word (\<lambda>b. b \<noteq> 0x3A \<and> sint b > 0x20) ?D0 ?rest = (?W, 0x3A # sp @ c # r)"
    by (rule read_word_until) (use D k in \<open>simp_all add: line_start_def plain_name_def\<close>)
  have "?W = ?D1\<lparr>parse_state := htqp_readtocolon\<rparr>" by simp
  then have "end_name ?W = end_name ?D1" by (simp only: end_name_state)
  moreover have "\<not> wlen ?W > 4096" using k by (simp add: plain_name_def)
  ultimately have "do_readtocolon ?D0 ?rest = (end_name ?D1, sp @ c # r)" unfolding do_readtocolon_def w by (simp only: Let_def prod.case if_False if_True list.case simp_thms)
  then have 2: "http_loop ?D0 ?rest = http_loop (end_name ?D1) (sp @ c # r)" by (intro http_loop_turn) simp_all
  let ?E = "end_name ?D1"
  have E: "parse_state ?E = htqp_skipspc" "header_size ?E = header_size D + length k + 1" "query_words ?E = query_words D"
    by (simp_all add: end_name_def Let_def)
  have "http_loop ?E (sp @ c # r) = http_loop D3 (c # r)"
    if "after_spaces (?E\<lparr>header_size := header_size D + length k + 1 + length sp\<rparr>) = Some D3" for D3
  proof (rule http_loop_turn)
    have "skip_bytes (\<lambda>b. b = 0x20 \<or> b = 0x09 \<and> query_words ?E \<ge> 8) ?E (sp @ c # r)
        = (?E\<lparr>header_size := header_size ?E + length sp\<rparr>, c # r)"
      using D sp c len E by (intro skip_bytes_until) (auto simp: line_start_def list_all_iff)
    then show "http_turn (parse_state ?E) ?E (sp @ c # r) = Some (D3, c # r)"
      using that len E by (simp add: do_skipspc_def)
  qed (simp_all add: E)
  then show ?thesis using 1 2 by (intro exI [of _ f] allI impI) (simp only: end_name_named [OF D])
qed

text \<open>A value of one word, up to the end of its line.\<close>

definition value_read :: "bytes \<Rightarrow> hts_data \<Rightarrow> hts_data" where
  "value_read v D =
     D\<lparr>word := take 15 v @ drop (min 15 (length v)) (word D), wlen := length v, query_words := query_words D + 1,
       host_offset := (if qf_host D then header_size D else host_offset D),
       host_size := (if qf_host D then length v else host_size D),
       qf_keepalive := (qf_keepalive D \<or> \<not> qf_host D \<and> map to_lower v = ascii ''keep-alive''),
       qf_host := False, qf_connection := False, parse_state := htqp_skipspctoeoln, header_size := header_size D + length v\<rparr>"

lemma value_turn:
  assumes "parse_state D = htqp_readtospace" "wlen D = 0" "length (word D) = 16" "plain_word v" "8 \<le> query_words D"
    "qf_host D \<or> qf_connection D"
  shows "http_loop D (v @ 0x0D # r) = http_loop (value_read v D) (0x0D # r)"
proof (rule http_loop_turn)
  let ?W = "D\<lparr>word := take 15 v @ drop (min 15 (length v)) (word D), wlen := length v\<rparr>"
  have w: "read_word (\<lambda>b. b > 0x20) D (v @ 0x0D # r) = (?W, 0x0D # r)"
    by (rule read_word_until) (use assms in \<open>simp_all add: plain_word_def\<close>)
  have k: "word_is_nocase (?W\<lparr>parse_state := htqp_skipspc, query_words := query_words D + 1\<rparr>) ''keep-alive''
      \<longleftrightarrow> map to_lower v = ascii ''keep-alive''"
    by (rule word_is_nocase_word) simp_all
  have v: "v \<noteq> []" "\<not> wlen ?W > 4096" using assms(4) by (auto simp: plain_word_def)
  have "do_readtospace D (v @ 0x0D # r) = Option.bind (end_word ?W) (\<lambda>D2. Some (D2, 0x0D # r))"
    using v(2) by (simp add: do_readtospace_def w)
  moreover have "end_word ?W = Some (value_read v D)"
    using assms(5,6) v k
    by (cases "qf_host D"; cases "map to_lower v = ascii ''keep-alive''") (simp_all add: end_word_def end_value_def Let_def value_read_def)
  ultimately show "http_turn (parse_state D) D (v @ 0x0D # r) = Some (value_read v D, 0x0D # r)" using assms(1) by simp
qed (use assms in auto)

definition line_parsed :: "http_header \<Rightarrow> hts_data \<Rightarrow> bytes \<Rightarrow> bool" where
  "line_parsed h D r \<longleftrightarrow> (\<exists>w l q f. http_loop D (header_line h @ r) = http_loop (scratch w l q f (effect h D)) r \<and>
     line_start (scratch w l q f (effect h D)))"

lemma plain_word_Cons: "plain_word v \<Longrightarrow> \<exists>c v'. v = c # v' \<and> c \<noteq> 0x20 \<and> c \<noteq> 0x09"
  by (cases v) (auto simp: plain_word_def)

text \<open>The headers whose value is one word.\<close>

lemma word_line:
  assumes D: "line_start D" and h: "wf_header h" "h = Host v \<or> h = Connection v" and r: "r \<noteq> []"
    and len: "header_size D + length (header_line h) < MAX_HTTP_HEADER_SIZE"
  shows "line_parsed h D r"
proof -
  define k where "k = header_name h"
  have v: "plain_word v" and hv: "header_value h = v" using h by auto
  from plain_word_Cons [OF v] obtain c v' where c: "v = c # v'" "c \<noteq> 0x20" "c \<noteq> 0x09" by blast
  have k: "plain_name k" using h(2) header_names by (auto simp: k_def)
  have ll: "length (header_line h) = length k + length v + 4" by (simp add: header_line_def k_def hv CR_LF_def)
  have "list_all (\<lambda>b. b = 0x20 \<or> b = 0x09) [0x20 :: byte]" by simp
  note nt = name_turns [OF D k this c(2,3)]
  have "header_size D + length k + 1 + length [0x20 :: byte] < MAX_HTTP_HEADER_SIZE" using len ll by simp
  from nt [OF this, of "v' @ CR_LF @ r"] obtain f where f:
    "after_spaces (named f k (header_size D + length k + 2) D) = Some D3 \<Longrightarrow>
      http_loop D (k @ 0x3A # [0x20] @ c # v' @ CR_LF @ r) = http_loop D3 (c # v' @ CR_LF @ r)" for D3
    by auto
  define hb where "hb = (case h of Host _ \<Rightarrow> True | _ \<Rightarrow> False)"
  define D3 where "D3 = (named f k (header_size D + length k + 2) D)\<lparr>wlen := 0, parse_state := htqp_readtospace\<rparr>"
  have n: "named f k m D = D\<lparr>first_line_size := f, wlen := length k, word := take 15 k @ drop (min 15 (length k)) (word D),
      qf_host := hb, qf_connection := (\<not> hb), qf_datasize := False, parse_state := htqp_skipspc, header_size := m\<rparr>" for m
    using h(2) header_names by (auto simp: named_def hb_def k_def)
  have hb: "h = Host v \<Longrightarrow> hb \<and> length k = 4" "h = Connection v \<Longrightarrow> \<not> hb" by (simp_all add: hb_def k_def)
  note D3 = D3_def n
  have "after_spaces (named f k (header_size D + length k + 2) D) = Some D3" using D by (auto simp: after_spaces_def line_start_def D3)
  from f [OF this] have 1: "http_loop D (header_line h @ r) = http_loop D3 (v @ CR_LF @ r)"
    by (simp add: header_line_def hv k_def c)
  have 2: "http_loop D3 (v @ CR_LF @ r) = http_loop (value_read v D3) (CR_LF @ r)"
    using value_turn [of D3 v "0x0A # r"] v D k by (auto simp: CR_LF_def D3 line_start_def plain_name_def)
  let ?V = "value_read v D3"
  let ?F = "?V\<lparr>query_words := max 8 (query_words ?V + 1), header_size := header_size ?V + 2, parse_state := htqp_linestart\<rparr>"
  have "http_loop ?V (CR_LF @ r) = http_loop ?F r"
    using r len ll D by (intro end_line) (simp_all add: value_read_def D3 line_start_def)
  moreover have "?F = scratch (word ?F) (wlen ?F) (query_words ?F) f (effect h D)"
  proof (cases "h = Host v")
    case True
    then have "hb" "length k = 4" using hb by blast+
    then show ?thesis using True D ll by (simp add: value_read_def D3 scratch_def line_start_def)
  next
    case False
    then have h: "h = Connection v" "\<not> hb" using h(2) hb by blast+
    then show ?thesis using D ll by (simp add: value_read_def D3 scratch_def line_start_def keeps_alive_def)
  qed
  moreover have "line_start ?F" using D k v by (auto simp: line_start_def value_read_def D3 plain_name_def plain_word_def)
  ultimately show ?thesis unfolding line_parsed_def using 1 2 by metis
qed

lemma digits_turn:
  assumes "parse_state D = htqp_readint" "data_size D = 0" "n div 10 < 0x7fffffff div 10"
  shows "http_loop D (decimal n @ 0x0D # r)
    = http_loop (D\<lparr>header_size := header_size D + length (decimal n), qf_datasize := False, data_size := int n, parse_state := htqp_skipspctoeoln\<rparr>) (0x0D # r)"
proof (rule http_loop_turn)
  have "read_digits 0 D (decimal n @ 0x0D # r) = (int n, D\<lparr>header_size := header_size D + length (decimal n), qf_datasize := False\<rparr>, 0x0D # r)"
    using read_digits_append [OF read_digits_decimal [OF assms(3), of D], of "0x0D # r"] by (simp add: is_digit_def)
  then show "http_turn (parse_state D) D (decimal n @ 0x0D # r)
    = Some (D\<lparr>header_size := header_size D + length (decimal n), qf_datasize := False, data_size := int n, parse_state := htqp_skipspctoeoln\<rparr>, 0x0D # r)"
    using assms by (simp add: do_readint_def)
qed (use assms in auto)

lemma length_line:
  assumes D: "line_start D" "data_size D = -1" and h: "wf_header (Content_Length n)" and r: "r \<noteq> []"
    and len: "header_size D + length (header_line (Content_Length n)) < MAX_HTTP_HEADER_SIZE"
  shows "line_parsed (Content_Length n) D r"
proof -
  define k where "k = ascii ''Content-Length''"
  have k: "plain_name k" using header_names by (auto simp: k_def)
  have ll: "length (header_line (Content_Length n)) = length k + length (decimal n) + 4" by (simp add: header_line_def k_def CR_LF_def)
  obtain c v' where c: "decimal n = c # v'" by (cases "decimal n") auto
  then have "is_digit c" using decimal_digits [of n] by simp
  then have c2: "c \<noteq> 0x20" "c \<noteq> 0x09" by (auto simp: is_digit_def)
  have "list_all (\<lambda>b. b = 0x20 \<or> b = 0x09) [0x20 :: byte]" by simp
  note nt = name_turns [OF D(1) k this c2]
  have "header_size D + length k + 1 + length [0x20 :: byte] < MAX_HTTP_HEADER_SIZE" using len ll by simp
  from nt [OF this, of "v' @ CR_LF @ r"] obtain f where f:
    "after_spaces (named f k (header_size D + length k + 2) D) = Some D3 \<Longrightarrow>
      http_loop D (k @ 0x3A # [0x20] @ c # v' @ CR_LF @ r) = http_loop D3 (c # v' @ CR_LF @ r)" for D3
    by auto
  define D3 where "D3 = (named f k (header_size D + length k + 2) D)\<lparr>parse_state := htqp_readint, data_size := 0\<rparr>"
  have n: "named f k m D = D\<lparr>first_line_size := f, wlen := length k, word := take 15 k @ drop (min 15 (length k)) (word D),
      qf_host := False, qf_connection := False, qf_datasize := True, parse_state := htqp_skipspc, header_size := m\<rparr>" for m
    using header_names by (simp add: named_def k_def)
  note D3 = D3_def n
  have "after_spaces (named f k (header_size D + length k + 2) D) = Some D3" using D by (auto simp: after_spaces_def line_start_def D3)
  from f [OF this] have 1: "http_loop D (header_line (Content_Length n) @ r) = http_loop D3 (decimal n @ CR_LF @ r)"
    by (simp add: header_line_def k_def c)
  let ?V = "D3\<lparr>header_size := header_size D3 + length (decimal n), qf_datasize := False, data_size := int n, parse_state := htqp_skipspctoeoln\<rparr>"
  have 2: "http_loop D3 (decimal n @ CR_LF @ r) = http_loop ?V (CR_LF @ r)"
    using digits_turn [of D3 n "0x0A # r"] h by (simp add: CR_LF_def D3)
  let ?F = "?V\<lparr>query_words := max 8 (query_words ?V + 1), header_size := header_size ?V + 2, parse_state := htqp_linestart\<rparr>"
  have "http_loop ?V (CR_LF @ r) = http_loop ?F r"
    using r len ll D by (intro end_line) (simp_all add: D3 line_start_def)
  moreover have "?F = scratch (word ?F) (wlen ?F) (query_words ?F) f (effect (Content_Length n) D)"
    using D by (simp add: D3 scratch_def line_start_def ll)
  moreover have "line_start ?F" using D k by (auto simp: line_start_def D3 plain_name_def)
  ultimately show ?thesis unfolding line_parsed_def using 1 2 by metis
qed

lemma skip_value_turn:
  assumes "parse_state D = htqp_skiptoeoln" "list_all (\<lambda>b. b \<noteq> 0x0D \<and> b \<noteq> 0x0A) v" "header_size D + length v < MAX_HTTP_HEADER_SIZE"
    "r \<noteq> []" "http_ver D > HTTP_V09" "8 \<le> query_words D"
  shows "http_loop D (v @ CR_LF @ r) = http_loop (D\<lparr>query_words := query_words D + 1, header_size := header_size D + length v + 2, parse_state := htqp_linestart\<rparr>) r"
proof -
  define E where "E = D\<lparr>header_size := header_size D + length v, parse_state := htqp_eoln\<rparr>"
  have "skip_bytes (\<lambda>b. b \<noteq> 0x0D \<and> b \<noteq> 0x0A) D (v @ 0x0D # 0x0A # r) = (D\<lparr>header_size := header_size D + length v\<rparr>, 0x0D # 0x0A # r)"
    using assms by (intro skip_bytes_until) auto
  then have "do_skiptoeoln D (v @ CR_LF @ r) = do_eoln E (CR_LF @ r)" using assms(3) by (simp add: do_skiptoeoln_def CR_LF_def E_def)
  then have "http_loop D (v @ CR_LF @ r) = (case do_eoln E (CR_LF @ r) of (D', r') \<Rightarrow> http_loop D' r')"
    using assms(1) by (simp add: http_loop.simps [of D] CR_LF_def)
  also have "\<dots> = http_loop E (CR_LF @ r)" by (simp add: eoln_loop E_def CR_LF_def)
  also have "\<dots> = http_loop (E\<lparr>query_words := max 8 (query_words E + 1), header_size := header_size E + 2, parse_state := htqp_linestart\<rparr>) r"
    using assms by (intro eoln_turn) (simp_all add: E_def)
  also have "E\<lparr>query_words := max 8 (query_words E + 1), header_size := header_size E + 2, parse_state := htqp_linestart\<rparr>
      = D\<lparr>query_words := query_words D + 1, header_size := header_size D + length v + 2, parse_state := htqp_linestart\<rparr>"
    using assms(6) by (simp add: E_def max_def)
  finally show ?thesis .
qed

lemma other_line:
  assumes D: "line_start D" and h: "wf_header (Other k v)" and r: "r \<noteq> []"
    and len: "header_size D + length (header_line (Other k v)) < MAX_HTTP_HEADER_SIZE"
  shows "line_parsed (Other k v) D r"
proof -
  let ?p = "\<lambda>b :: byte. b = 0x20 \<or> b = 0x09"
  define u where "u = dropWhile ?p v"
  define sp where "sp = 0x20 # takeWhile ?p v"
  have v: "0x20 # v = sp @ u" by (simp add: sp_def u_def)
  have ll: "length (header_line (Other k v)) = length k + length sp + length u + 3"
    using arg_cong [OF v, of length] by (simp add: header_line_def CR_LF_def)
  have k: "plain_name k" "\<not> known_name k" using h by auto
  have nl: "list_all (\<lambda>b. b \<noteq> 0x0D \<and> b \<noteq> 0x0A) u" using h by (auto simp: list_all_iff u_def dest: set_dropWhileD)
  obtain c u' where c: "u @ CR_LF @ r = c # u'" "c \<noteq> 0x20" "c \<noteq> 0x09"
  proof (cases u)
    case (Cons x xs)
    moreover have "\<not> ?p x" using Cons hd_dropWhile [of ?p v] by (auto simp: u_def)
    ultimately show ?thesis using that [of x "xs @ CR_LF @ r"] by simp
  qed (auto simp: CR_LF_def intro: that)
  have sp: "list_all ?p sp" by (auto simp: list_all_iff sp_def dest: set_takeWhileD)
  have "header_size D + length k + 1 + length sp < MAX_HTTP_HEADER_SIZE" using len ll by simp
  from name_turns [OF D k(1) sp c(2,3) this, of u'] obtain f where f:
    "after_spaces (named f k (header_size D + length k + 1 + length sp) D) = Some D3 \<Longrightarrow>
      http_loop D (k @ 0x3A # sp @ c # u') = http_loop D3 (c # u')" for D3
    by blast
  define D3 where "D3 = (named f k (header_size D + length k + 1 + length sp) D)\<lparr>parse_state := htqp_skiptoeoln\<rparr>"
  have n: "named f k m D = D\<lparr>first_line_size := f, wlen := length k, word := take 15 k @ drop (min 15 (length k)) (word D),
      parse_state := htqp_skipspc, header_size := m\<rparr>" for m
    using k(2) D by (simp add: named_def known_name_def line_start_def)
  note D3 = D3_def n
  have "after_spaces (named f k (header_size D + length k + 1 + length sp) D) = Some D3" using D by (auto simp: after_spaces_def line_start_def D3)
  from f [OF this] have 1: "http_loop D (header_line (Other k v) @ r) = http_loop D3 (u @ CR_LF @ r)"
    using v c by (simp add: header_line_def) (metis append_Cons append_assoc)
  let ?F = "D3\<lparr>query_words := query_words D3 + 1, header_size := header_size D3 + length u + 2, parse_state := htqp_linestart\<rparr>"
  have "http_loop D3 (u @ CR_LF @ r) = http_loop ?F r"
    using nl r len ll D by (intro skip_value_turn) (simp_all add: D3 line_start_def)
  moreover have "?F = scratch (word ?F) (wlen ?F) (query_words ?F) f (effect (Other k v) D)"
    using D by (simp add: D3 scratch_def line_start_def ll)
  moreover have "line_start ?F" using D k by (auto simp: line_start_def D3 plain_name_def)
  ultimately show ?thesis unfolding line_parsed_def using 1 by metis
qed

lemma header_parsed:
  assumes "line_start D" "wf_header h" "r \<noteq> []" "header_size D + length (header_line h) < MAX_HTTP_HEADER_SIZE"
    "lengths [h] \<noteq> [] \<longrightarrow> data_size D = -1"
  shows "line_parsed h D r"
proof (cases h)
  case (Content_Length n)
  then show ?thesis using assms length_line [of D n r] by (simp add: lengths_def)
next
  case (Other k v)
  then show ?thesis using assms other_line by simp
qed (use assms word_line in auto)

subsection \<open>All headers\<close>

lemma effect_scratch: "effect h (scratch w l q f D) = scratch w l q f (effect h D)"
  by (cases h) (simp_all add: scratch_def)

lemma effects_scratch: "fold effect hs (scratch w l q f D) = scratch w l q f (fold effect hs D)"
  by (induction hs arbitrary: D) (simp_all add: effect_scratch)

lemma scratch_twice: "scratch w l q f (scratch w' l' q' f' D) = scratch w l q f D"
  by (simp add: scratch_def)

lemma lengths_Cons: "lengths (h # hs) = lengths [h] @ lengths hs"
  by (simp add: lengths_def)

lemma data_size_effect: "data_size (effect h D) = (if lengths [h] = [] then data_size D else int (last (lengths [h])))"
  by (cases h) (simp_all add: lengths_def)

lemma header_size_effect: "header_size (effect h D) = header_size D + length (header_line h)"
  by (cases h) simp_all

lemma headers_parsed:
  assumes "line_start D" "list_all wf_header hs" "length (lengths hs) \<le> (if data_size D = -1 then 1 else 0)"
    "header_size D + length (concat (map header_line hs)) < MAX_HTTP_HEADER_SIZE" "r \<noteq> []"
  shows "\<exists>w l q f. http_loop D (concat (map header_line hs) @ r) = http_loop (scratch w l q f (fold effect hs D)) r \<and>
    line_start (scratch w l q f (fold effect hs D))"
  using assms
proof (induction hs arbitrary: D)
  case Nil
  have "scratch (word D) (wlen D) (query_words D) (first_line_size D) D = D" by (simp add: scratch_def)
  then show ?case using Nil by (metis concat.simps(1) fold_simps(1) list.map(1) append_Nil id_apply fold_Nil)
next
  case (Cons h hs)
  have "line_parsed h D (concat (map header_line hs) @ r)"
    using Cons.prems lengths_Cons [of h hs] by (intro header_parsed) (auto split: if_splits)
  then obtain w l q f where 1: "http_loop D (header_line h @ concat (map header_line hs) @ r)
      = http_loop (scratch w l q f (effect h D)) (concat (map header_line hs) @ r)"
    "line_start (scratch w l q f (effect h D))" unfolding line_parsed_def by blast
  let ?D = "scratch w l q f (effect h D)"
  have d: "data_size ?D = data_size (effect h D)" "header_size ?D = header_size (effect h D)" by (simp_all add: scratch_def)
  have "length (lengths hs) \<le> (if data_size ?D = -1 then 1 else 0)"
    using Cons.prems(3) unfolding d data_size_effect lengths_Cons [of h hs] by (cases "lengths [h]") (auto split: if_splits)
  moreover have "header_size ?D + length (concat (map header_line hs)) < MAX_HTTP_HEADER_SIZE"
    using Cons.prems(4) unfolding d header_size_effect by simp
  ultimately obtain w' l' q' f' where "http_loop ?D (concat (map header_line hs) @ r) = http_loop (scratch w' l' q' f' (fold effect hs ?D)) r"
    "line_start (scratch w' l' q' f' (fold effect hs ?D))" using Cons.IH [OF 1(2)] Cons.prems by auto
  moreover have "scratch w' l' q' f' (fold effect hs ?D) = scratch w' l' q' f' (fold effect (h # hs) D)"
    by (simp add: effects_scratch scratch_twice)
  ultimately show ?case using 1(1) by (metis append_assoc concat.simps(2) list.map(2))
qed

text \<open>The fields after all headers.\<close>

lemma effect_kept:
  "query_type (effect h D) = query_type D" "uri_offset (effect h D) = uri_offset D" "uri_size (effect h D) = uri_size D"
  "http_ver (effect h D) = http_ver D" "qf_error (effect h D) = qf_error D"
  by (cases h; simp)+

lemma effects_kept:
  "query_type (fold effect hs D) = query_type D" "uri_offset (fold effect hs D) = uri_offset D" "uri_size (fold effect hs D) = uri_size D"
  "http_ver (fold effect hs D) = http_ver D" "qf_error (fold effect hs D) = qf_error D"
  by (induction hs arbitrary: D) (simp_all add: effect_kept)

lemma effects_header_size: "header_size (fold effect hs D) = header_size D + length (concat (map header_line hs))"
  by (induction hs arbitrary: D) (simp_all add: header_size_effect)

lemma effects_data_size: "data_size (fold effect hs D) = (if lengths hs = [] then data_size D else int (last (lengths hs)))"
proof (induction hs arbitrary: D)
  case (Cons h hs)
  then show ?case by (simp add: data_size_effect lengths_Cons [of h hs])
qed (simp add: lengths_def)

lemma effects_keepalive: "qf_keepalive (fold effect hs D) = (qf_keepalive D \<or> list_ex keeps_alive hs)"
proof (induction hs arbitrary: D)
  case (Cons h hs)
  then show ?case by (cases h) (auto simp: keeps_alive_def)
qed simp

lemma effects_host:
  "if hosts hs = [] then host_size (fold effect hs D) = host_size D
   else \<exists>pre post. concat (map header_line hs) = pre @ last (hosts hs) @ post \<and>
     host_offset (fold effect hs D) = header_size D + length pre \<and> host_size (fold effect hs D) = length (last (hosts hs))"
proof (induction hs rule: rev_induct)
  case Nil
  then show ?case by (simp add: hosts_def)
next
  case (snoc h hs)
  show ?case
  proof (cases "\<exists>v. h = Host v")
    case True
    then obtain v where v: "h = Host v" by blast
    let ?pre = "concat (map header_line hs) @ ascii ''Host'' @ [0x3A, 0x20]"
    have "concat (map header_line (hs @ [h])) = ?pre @ v @ CR_LF" by (simp add: v header_line_def)
    moreover have "hosts (hs @ [h]) \<noteq> []" "last (hosts (hs @ [h])) = v" by (simp_all add: hosts_def v)
    moreover have "host_offset (fold effect (hs @ [h]) D) = header_size D + length ?pre" "host_size (fold effect (hs @ [h]) D) = length v"
      by (simp_all add: v effects_header_size)
    ultimately show ?thesis by (simp only: if_False) blast
  next
    case False
    then have h: "hosts (hs @ [h]) = hosts hs" "host_offset (effect h D) = host_offset D" "host_size (effect h D) = host_size D" for D
      by (cases h; simp add: hosts_def)+
    show ?thesis
    proof (cases "hosts hs = []")
      case True
      then show ?thesis using snoc h by simp
    next
      case ne: False
      with snoc obtain pre post where p: "concat (map header_line hs) = pre @ last (hosts hs) @ post"
        "host_offset (fold effect hs D) = header_size D + length pre" "host_size (fold effect hs D) = length (last (hosts hs))" by auto
      then have "concat (map header_line (hs @ [h])) = pre @ last (hosts hs) @ post @ header_line h" by simp
      then show ?thesis using p ne h by (simp only: fold_append fold_simps o_apply id_apply if_False) blast
    qed
  qed
qed

subsection \<open>The request line\<close>

lemma word_turn:
  assumes "wlen D = 0" "length (word D) = 16" "list_all (\<lambda>b. b > 0x20) s" "length s \<le> 4096" "c \<le> 0x20"
    "end_word (D\<lparr>word := take 15 s @ drop (min 15 (length s)) (word D), wlen := length s\<rparr>) = Some D2"
  shows "do_readtospace D (s @ c # r) = Some (D2, c # r)"
proof -
  have "read_word (\<lambda>b. b > 0x20) D (s @ c # r) = (D\<lparr>word := take 15 s @ drop (min 15 (length s)) (word D), wlen := length s\<rparr>, c # r)"
    using assms by (intro read_word_until) auto
  then show ?thesis using assms by (simp add: do_readtospace_def)
qed

lemma space_turn:
  assumes "parse_state D = htqp_skipspc" "query_words D < 3" "header_size D + 1 < MAX_HTTP_HEADER_SIZE" "c > 0x20"
  shows "http_loop D (0x20 # c # r) = http_loop (D\<lparr>header_size := header_size D + 1, wlen := 0, parse_state := htqp_readtospace\<rparr>) (c # r)"
proof (rule http_loop_turn)
  have "c \<noteq> 0x20" using assms(4) by auto
  then show "http_turn (parse_state D) D (0x20 # c # r)
      = Some (D\<lparr>header_size := header_size D + 1, wlen := 0, parse_state := htqp_readtospace\<rparr>, c # r)"
    using assms by (simp add: do_skipspc_def after_spaces_def)
qed (use assms in auto)

lemma method_texts:
  assumes "m \<in> {htqt_get, htqt_head, htqt_post, htqt_options}"
  shows "plain_word (method_text m)" "length (method_text m) \<le> 7"
    "(if method_text m = ascii ''GET'' then htqt_get else if method_text m = ascii ''HEAD'' then htqt_head
      else if method_text m = ascii ''POST'' then htqt_post else if method_text m = ascii ''OPTIONS'' then htqt_options else htqt_error) = m"
  using assms by (auto simp: method_text_def plain_word_def ascii_def)

lemma end_method_word:
  assumes "wlen D = length (method_text m)" "word D = take 15 (method_text m) @ drop (min 15 (length (method_text m))) w"
    "m \<in> {htqt_get, htqt_head, htqt_post, htqt_options}"
  shows "end_method D = D\<lparr>query_type := m\<rparr>"
proof -
  have ws: "word_is D ''GET'' \<longleftrightarrow> method_text m = ascii ''GET''" "word_is D ''HEAD'' \<longleftrightarrow> method_text m = ascii ''HEAD''"
    "word_is D ''POST'' \<longleftrightarrow> method_text m = ascii ''POST''" "word_is D ''OPTIONS'' \<longleftrightarrow> method_text m = ascii ''OPTIONS''"
    by (rule word_is_word [OF assms(1,2)]; simp)+
  have "(if word_is D ''GET'' then htqt_get else if word_is D ''HEAD'' then htqt_head
      else if word_is D ''POST'' then htqt_post else if word_is D ''OPTIONS'' then htqt_options else htqt_error) = m"
    unfolding ws by (rule method_texts(3) [OF assms(3)])
  moreover have "m \<noteq> htqt_error" using assms(3) by auto
  ultimately show ?thesis by (simp only: end_method_def Let_def if_False)
qed

lemma end_version_word:
  assumes "wlen D = length (version_text v)" "word D = take 15 (version_text v) @ drop (min 15 (length (version_text v))) w"
  shows "end_version D = D\<lparr>parse_state := htqp_skipspctoeoln, http_ver := (if v then HTTP_V11 else HTTP_V10)\<rparr>"
proof -
  let ?D = "D\<lparr>parse_state := htqp_skipspctoeoln\<rparr>"
  have "word_is ?D x \<longleftrightarrow> version_text v = ascii x" if "length x \<le> 15" for x
    by (rule word_is_word [OF _ _ that]) (use assms in simp_all)
  from this [of "''HTTP/1.0''"] this [of "''HTTP/1.1''"] show ?thesis
    using assms(1) by (cases v) (simp_all add: end_version_def version_text_def ascii_def)
qed

lemma method_turns:
  assumes st: "parse_state D = htqp_start" and m: "m \<in> {htqt_get, htqt_head, htqt_post, htqt_options}" and c: "c > 0x20"
  shows "\<exists>w. http_loop D (method_text m @ 0x20 # c # r) =
      http_loop ((http_start D)\<lparr>word := w, query_words := 1, query_type := m, header_size := length (method_text m) + 1\<rparr>) (c # r)
    \<and> length w = 16"
proof -
  let ?m = "method_text m"
  define S where "S = http_start D"
  define w where "w = take 15 ?m @ drop (min 15 (length ?m)) (word S)"
  note mt = method_texts [OF m]
  have S: "wlen S = 0" "length (word S) = 16" "query_words S = 0" "header_size S = 0" "parse_state S = htqp_readtospace"
    by (simp_all add: S_def http_start_def)
  define A where "A = S\<lparr>word := w, wlen := length ?m, parse_state := htqp_skipspc, query_words := 1, query_type := m, header_size := length ?m\<rparr>"
  have "end_word (S\<lparr>word := w, wlen := length ?m\<rparr>) = Some A"
    using S by (simp add: end_word_def end_method_word [OF _ _ m, where w = "word S"] A_def w_def)
  then have "do_readtospace S (?m @ 0x20 # c # r) = Some (A, 0x20 # c # r)"
    using S mt by (intro word_turn) (auto simp: plain_word_def w_def)
  then have 1: "http_loop D (?m @ 0x20 # c # r) = http_loop A (0x20 # c # r)"
    using st by (intro http_loop_turn) (simp_all add: S_def)
  have "A\<lparr>header_size := header_size A + 1, wlen := 0, parse_state := htqp_readtospace\<rparr> = S\<lparr>word := w, query_words := 1, query_type := m, header_size := length ?m + 1\<rparr>"
    using S by (simp add: A_def)
  moreover have "http_loop A (0x20 # c # r) = http_loop (A\<lparr>header_size := header_size A + 1, wlen := 0, parse_state := htqp_readtospace\<rparr>) (c # r)"
    using c mt by (intro space_turn) (simp_all add: A_def MAX_HTTP_HEADER_SIZE_def)
  moreover have "length w = 16" using S mt by (simp add: w_def)
  ultimately show ?thesis using 1 unfolding S_def by metis
qed

lemma uri_turns:
  assumes D: "parse_state D = htqp_readtospace" "wlen D = 0" "length (word D) = 16" "query_words D = 1"
    and u: "plain_word u" and c: "c > 0x20" and len: "header_size D + length u + 1 < MAX_HTTP_HEADER_SIZE"
  shows "\<exists>w. http_loop D (u @ 0x20 # c # r) =
      http_loop (D\<lparr>word := w, query_words := 2, uri_offset := header_size D, uri_size := length u, header_size := header_size D + length u + 1\<rparr>) (c # r)
    \<and> length w = 16"
proof -
  define w where "w = take 15 u @ drop (min 15 (length u)) (word D)"
  define A where "A = D\<lparr>word := w, wlen := length u, parse_state := htqp_skipspc, query_words := 2, uri_offset := header_size D,
    uri_size := length u, header_size := header_size D + length u\<rparr>"
  have "u \<noteq> []" using u by (simp add: plain_word_def)
  then have "end_word (D\<lparr>word := w, wlen := length u\<rparr>) = Some A" using D by (simp add: end_word_def end_uri_def A_def)
  then have "do_readtospace D (u @ 0x20 # c # r) = Some (A, 0x20 # c # r)"
    using D u by (intro word_turn) (auto simp: plain_word_def w_def)
  then have 1: "http_loop D (u @ 0x20 # c # r) = http_loop A (0x20 # c # r)" using D(1) by (intro http_loop_turn) simp_all
  have "A\<lparr>header_size := header_size A + 1, wlen := 0, parse_state := htqp_readtospace\<rparr>
      = D\<lparr>word := w, query_words := 2, uri_offset := header_size D, uri_size := length u, header_size := header_size D + length u + 1\<rparr>"
    using D by (simp add: A_def)
  moreover have "http_loop A (0x20 # c # r) = http_loop (A\<lparr>header_size := header_size A + 1, wlen := 0, parse_state := htqp_readtospace\<rparr>) (c # r)"
    using c len by (intro space_turn) (simp_all add: A_def)
  moreover have "length w = 16" using D by (auto simp: w_def)
  ultimately show ?thesis using 1 by metis
qed

lemma version_turns:
  assumes D: "parse_state D = htqp_readtospace" "wlen D = 0" "length (word D) = 16" "query_words D = 2" "\<not> qf_error D"
    and len: "header_size D + 10 < MAX_HTTP_HEADER_SIZE" and r: "r \<noteq> []"
  shows "\<exists>w. http_loop D (version_text v @ CR_LF @ r) =
      http_loop (D\<lparr>word := w, wlen := 8, query_words := 8, http_ver := (if v then HTTP_V11 else HTTP_V10), header_size := header_size D + 10,
        parse_state := htqp_linestart\<rparr>) r \<and> length w = 16"
proof -
  let ?v = "version_text v"
  define w where "w = take 15 ?v @ drop (min 15 (length ?v)) (word D)"
  have v: "plain_word ?v" "length ?v = 8" by (simp_all add: version_text_def plain_word_def ascii_def)
  define G where "G = D\<lparr>word := w, wlen := length ?v, parse_state := htqp_skipspctoeoln, query_words := 3,
    http_ver := (if v then HTTP_V11 else HTTP_V10), header_size := header_size D + 8\<rparr>"
  have "end_word (D\<lparr>word := w, wlen := length ?v\<rparr>) = Some G"
    using D v(2) by (simp add: end_word_def end_version_word [where w = "word D" and v = v] G_def w_def)
  then have "do_readtospace D (?v @ 0x0D # 0x0A # r) = Some (G, 0x0D # 0x0A # r)"
    using D v by (intro word_turn) (auto simp: plain_word_def w_def)
  then have 1: "http_loop D (?v @ CR_LF @ r) = http_loop G (CR_LF @ r)" using D(1) by (intro http_loop_turn) (simp_all add: CR_LF_def)
  have "http_ver G > HTTP_V09" by (simp add: G_def HTTP_V11_def HTTP_V10_def HTTP_V09_def)
  then have "http_loop G (CR_LF @ r) = http_loop (G\<lparr>query_words := max 8 (query_words G + 1), header_size := header_size G + 2, parse_state := htqp_linestart\<rparr>) r"
    using len r D by (intro end_line) (simp_all add: G_def)
  moreover have "G\<lparr>query_words := max 8 (query_words G + 1), header_size := header_size G + 2, parse_state := htqp_linestart\<rparr>
      = D\<lparr>word := w, wlen := 8, query_words := 8, http_ver := (if v then HTTP_V11 else HTTP_V10), header_size := header_size D + 10,
        parse_state := htqp_linestart\<rparr>" using v(2) by (simp add: G_def)
  moreover have "length w = 16" using D v by (simp add: w_def)
  ultimately show ?thesis using 1 by metis
qed

text \<open>The parser after the request line.\<close>

definition lined :: "hts_data \<Rightarrow> http_request \<Rightarrow> hts_data" where
  "lined D q = (http_start D)\<lparr>query_type := rq_method q, uri_offset := length (method_text (rq_method q)) + 1, uri_size := length (rq_uri q),
     http_ver := (if rq_v11 q then HTTP_V11 else HTTP_V10), header_size := length (request_line q), parse_state := htqp_linestart\<rparr>"

lemma request_line_parsed:
  assumes st: "parse_state D = htqp_start" and q: "rq_method q \<in> {htqt_get, htqt_head, htqt_post, htqt_options}" "plain_word (rq_uri q)"
    and len: "length (request_line q) < MAX_HTTP_HEADER_SIZE" and r: "r \<noteq> []"
  shows "\<exists>w l k f. http_loop D (request_line q @ r) = http_loop (scratch w l k f (lined D q)) r \<and> line_start (scratch w l k f (lined D q))"
proof -
  let ?m = "method_text (rq_method q)" and ?u = "rq_uri q" and ?v = "version_text (rq_v11 q)"
  have v: "length ?v = 8" "plain_word ?v" by (simp_all add: version_text_def plain_word_def ascii_def)
  have ll: "length (request_line q) = length ?m + length ?u + 12" by (simp add: request_line_def v CR_LF_def)
  obtain c u' where c: "?u = c # u'" "c > 0x20" using q(2) by (cases ?u) (auto simp: plain_word_def)
  obtain d v' where d: "?v = d # v'" "d > 0x20" using v(2) by (cases ?v) (auto simp: plain_word_def)
  from method_turns [OF st q(1) c(2), of "u' @ 0x20 # ?v @ CR_LF @ r"] obtain w1 where
    1: "http_loop D (?m @ 0x20 # ?u @ 0x20 # ?v @ CR_LF @ r) =
      http_loop ((http_start D)\<lparr>word := w1, query_words := 1, query_type := rq_method q, header_size := length ?m + 1\<rparr>) (?u @ 0x20 # ?v @ CR_LF @ r)"
    "length w1 = 16" by (auto simp: c)
  define B where "B = (http_start D)\<lparr>word := w1, query_words := 1, query_type := rq_method q, header_size := length ?m + 1\<rparr>"
  have B: "parse_state B = htqp_readtospace" "wlen B = 0" "length (word B) = 16" "query_words B = 1" "header_size B + length ?u + 1 < MAX_HTTP_HEADER_SIZE"
    using 1(2) len ll by (simp_all add: B_def http_start_def)
  from uri_turns [OF B(1-4) q(2) d(2) B(5), of "v' @ CR_LF @ r"] obtain w2 where
    2: "http_loop B (?u @ 0x20 # ?v @ CR_LF @ r) =
      http_loop (B\<lparr>word := w2, query_words := 2, uri_offset := header_size B, uri_size := length ?u, header_size := header_size B + length ?u + 1\<rparr>) (?v @ CR_LF @ r)"
    "length w2 = 16" by (auto simp: d)
  define F where "F = B\<lparr>word := w2, query_words := 2, uri_offset := header_size B, uri_size := length ?u, header_size := header_size B + length ?u + 1\<rparr>"
  have F: "parse_state F = htqp_readtospace" "wlen F = 0" "length (word F) = 16" "query_words F = 2" "\<not> qf_error F" "header_size F + 10 < MAX_HTTP_HEADER_SIZE"
    using B(1,2) 2(2) len ll by (simp_all add: F_def B_def http_start_def)
  from version_turns [OF F r, of "rq_v11 q"] obtain w3 where
    3: "http_loop F (?v @ CR_LF @ r) = http_loop (F\<lparr>word := w3, wlen := 8, query_words := 8, http_ver := (if rq_v11 q then HTTP_V11 else HTTP_V10),
      header_size := header_size F + 10, parse_state := htqp_linestart\<rparr>) r" "length w3 = 16" by blast
  have "F\<lparr>word := w3, wlen := 8, query_words := 8, http_ver := (if rq_v11 q then HTTP_V11 else HTTP_V10),
      header_size := header_size F + 10, parse_state := htqp_linestart\<rparr> = scratch w3 8 8 0 (lined D q)"
    using ll by (simp add: lined_def scratch_def F_def B_def http_start_def)
  moreover have "line_start (scratch w3 8 8 0 (lined D q))"
    using 3(2) by (simp add: line_start_def scratch_def lined_def http_start_def HTTP_V11_def HTTP_V10_def HTTP_V09_def)
  moreover have "http_loop D (request_line q @ r) = http_loop D (?m @ 0x20 # ?u @ 0x20 # ?v @ CR_LF @ r)" by (simp add: request_line_def)
  ultimately show ?thesis using 1(1) 2(1) 3(1) unfolding B_def [symmetric] F_def [symmetric] by metis
qed

lemma last_line:
  assumes "line_start D"
  shows "\<exists>f. http_loop D (CR_LF @ r) = Some (D\<lparr>first_line_size := f, header_size := header_size D + 2, parse_state := htqp_done\<rparr>, r)"
proof -
  define f where "f = (if first_line_size D = 0 then header_size D else first_line_size D)"
  let ?E = "D\<lparr>first_line_size := f, header_size := header_size D + 1, parse_state := htqp_wantlastlf\<rparr>"
  have "http_loop D (CR_LF @ r) = http_loop ?E (0x0A # r)"
    using assms by (intro http_loop_turn) (auto simp: CR_LF_def line_start_def do_linestart_def f_def)
  also have "\<dots> = Some (D\<lparr>first_line_size := (if f = 0 then header_size D + 2 else f), header_size := header_size D + 2, parse_state := htqp_done\<rparr>, r)"
    by (subst http_loop_turn [where D' = "D\<lparr>first_line_size := (if f = 0 then header_size D + 2 else f), header_size := header_size D + 2, parse_state := htqp_done\<rparr>" and r' = r])
      (auto simp: do_wantlastlf_def)
  finally show ?thesis by blast
qed

subsection \<open>The whole request\<close>

definition slice :: "nat \<Rightarrow> nat \<Rightarrow> bytes \<Rightarrow> bytes" where
  "slice off len s = take len (drop off s)"

lemma slice_middle: "slice (length a) (length b) (a @ b @ c) = b"
  by (simp add: slice_def)

lemma request_parsed:
  assumes st: "parse_state D = htqp_start" and q: "wf_request q"
  shows "\<exists>w l k f. http_loop D (request_text q @ body) = Some (scratch w l k f ((fold effect (rq_headers q) (lined D q))
    \<lparr>header_size := length (request_text q), parse_state := htqp_done\<rparr>), body)"
proof -
  let ?hs = "rq_headers q" and ?L = "lined D q"
  let ?ls = "concat (map header_line ?hs)"
  have len: "length (request_line q) + length ?ls + 2 < MAX_HTTP_HEADER_SIZE"
    using q by (simp add: wf_request_def request_text_def CR_LF_def)
  have ne: "?ls @ CR_LF @ body \<noteq> []" "CR_LF @ body \<noteq> []" by (simp_all add: CR_LF_def)
  from request_line_parsed [OF st _ _ _ ne(1), of q] q len obtain w l k f where
    1: "http_loop D (request_line q @ ?ls @ CR_LF @ body) = http_loop (scratch w l k f ?L) (?ls @ CR_LF @ body)"
    "line_start (scratch w l k f ?L)" by (auto simp: wf_request_def)
  have "data_size (scratch w l k f ?L) = -1" "header_size (scratch w l k f ?L) = length (request_line q)"
    by (simp_all add: scratch_def lined_def http_start_def)
  with headers_parsed [OF 1(2), of ?hs "CR_LF @ body"] q len ne(2) obtain w' l' k' f' where
    2: "http_loop (scratch w l k f ?L) (?ls @ CR_LF @ body) = http_loop (scratch w' l' k' f' (fold effect ?hs (scratch w l k f ?L))) (CR_LF @ body)"
    "line_start (scratch w' l' k' f' (fold effect ?hs (scratch w l k f ?L)))" by (auto simp: wf_request_def)
  note t = effects_scratch scratch_twice
  from last_line [OF 2(2), of body] obtain f2 where
    3: "http_loop (scratch w' l' k' f' (fold effect ?hs ?L)) (CR_LF @ body)
      = Some ((scratch w' l' k' f' (fold effect ?hs ?L))\<lparr>first_line_size := f2, header_size := header_size (scratch w' l' k' f' (fold effect ?hs ?L)) + 2,
          parse_state := htqp_done\<rparr>, body)" unfolding t by blast
  have "header_size (fold effect ?hs ?L) + 2 = length (request_text q)"
    by (simp add: effects_header_size lined_def request_text_def CR_LF_def)
  then have "(scratch w' l' k' f' (fold effect ?hs ?L))\<lparr>first_line_size := f2, header_size := header_size (scratch w' l' k' f' (fold effect ?hs ?L)) + 2,
          parse_state := htqp_done\<rparr>
      = scratch w' l' k' f2 ((fold effect ?hs ?L)\<lparr>header_size := length (request_text q), parse_state := htqp_done\<rparr>)"
    by (simp add: scratch_def)
  then show ?thesis using 1(1) 2(1) 3 unfolding t by (auto simp: request_text_def)
qed

text \<open>The host that a request names, and what the parser should record of a request: slices of the text for
  the URI and for the last host, the length of the body or -1, and whether a Connection header says keep-alive.\<close>

definition request_host :: "http_request \<Rightarrow> bytes" where
  "request_host q = (if hosts (rq_headers q) = [] then [] else last (hosts (rq_headers q)))"

definition parsed_as :: "http_request \<Rightarrow> hts_data \<Rightarrow> bool" where
  "parsed_as q D \<longleftrightarrow> \<not> qf_error D \<and> header_size D = length (request_text q) \<and> query_type D = rq_method q \<and>
     http_ver D = (if rq_v11 q then HTTP_V11 else HTTP_V10) \<and>
     slice (uri_offset D) (uri_size D) (request_text q) = rq_uri q \<and>
     data_size D = (if lengths (rq_headers q) = [] then -1 else int (last (lengths (rq_headers q)))) \<and>
     qf_keepalive D = list_ex keeps_alive (rq_headers q) \<and>
     slice (host_offset D) (host_size D) (request_text q) = request_host q"

lemma effects_host_slice:
  "slice (host_offset (fold effect (rq_headers q) (lined D q))) (host_size (fold effect (rq_headers q) (lined D q))) (request_text q) = request_host q"
proof (cases "hosts (rq_headers q) = []")
  case True
  then show ?thesis using effects_host [of "rq_headers q" "lined D q"] by (simp add: lined_def http_start_def slice_def request_host_def)
next
  case False
  with effects_host [of "rq_headers q" "lined D q"] obtain pre post where
    "concat (map header_line (rq_headers q)) = pre @ last (hosts (rq_headers q)) @ post"
    "host_offset (fold effect (rq_headers q) (lined D q)) = length (request_line q @ pre)"
    "host_size (fold effect (rq_headers q) (lined D q)) = length (last (hosts (rq_headers q)))"
    by (auto simp: lined_def)
  then show ?thesis using False slice_middle [of "request_line q @ pre" "last (hosts (rq_headers q))" "post @ CR_LF"]
    by (simp add: request_text_def request_host_def)
qed

lemma request_parsed_as:
  assumes "wf_request q" and "parse_state D = htqp_start"
  shows "\<exists>D'. http_loop D (request_text q @ body) = Some (D', body) \<and> parse_state D' = htqp_done \<and> parsed_as q D'"
proof -
  let ?E = "fold effect (rq_headers q) (lined D q)"
  from request_parsed [OF assms(2,1), of body] obtain w l k f where p: "http_loop D (request_text q @ body)
    = Some (scratch w l k f (?E\<lparr>header_size := length (request_text q), parse_state := htqp_done\<rparr>), body)" by blast
  have uri: "slice (uri_offset ?E) (uri_size ?E) (request_text q) = rq_uri q"
    using slice_middle [of "method_text (rq_method q) @ [0x20]" "rq_uri q"
      "0x20 # version_text (rq_v11 q) @ CR_LF @ concat (map header_line (rq_headers q)) @ CR_LF"]
    by (simp add: effects_kept lined_def request_text_def request_line_def)
  have "data_size (lined D q) = -1" "\<not> qf_keepalive (lined D q)" "\<not> qf_error (lined D q)" "query_type (lined D q) = rq_method q"
    "http_ver (lined D q) = (if rq_v11 q then HTTP_V11 else HTTP_V10)" by (simp_all add: lined_def http_start_def)
  then show ?thesis using p uri effects_host_slice [of q D]
    by (simp add: parsed_as_def scratch_def effects_kept effects_data_size effects_keepalive)
qed

text \<open>C18: (HTTP request round trip). Parsing the text of a well-formed request from the start state, whatever
  follows it, stops at the first byte after the request, without an error, with the method, the version,
  the length of the body (or -1) and the keep-alive flag of the request; the recorded slices of the text are
  the URI and the value of the last Host header.\<close>

theorem http_request_roundtrip:
  assumes "wf_request q" and "parse_state D = htqp_start"
  shows "\<exists>D'. http_parse_data D (request_text q @ body) = Some (length (request_text q), D') \<and>
    parse_state D' = htqp_done \<and> parsed_as q D'"
  using request_parsed_as [OF assms, of body] by (auto simp: http_parse_data_def)

definition sample_request :: http_request where
  "sample_request = \<lparr>rq_method = htqt_post, rq_uri = ascii ''/a'', rq_v11 = True,
     rq_headers = [Host (ascii ''h''), Content_Length 2, Connection (ascii ''Keep-Alive'')]\<rparr>"

lemma sample_request_wf: "wf_request sample_request"
  by (simp add: wf_request_def sample_request_def plain_word_def ascii_def lengths_def request_text_def request_line_def
      header_line_def method_text_def version_text_def CR_LF_def MAX_HTTP_HEADER_SIZE_def decimal.simps)

theorem http_request_roundtrip_witness:
  "\<exists>D'. http_parse_data new_hts_data (request_text sample_request @ [1, 2]) = Some (length (request_text sample_request), D') \<and>
    query_type D' = htqt_post \<and> slice (uri_offset D') (uri_size D') (request_text sample_request) = ascii ''/a'' \<and>
    data_size D' = 2 \<and> qf_keepalive D'"
proof -
  have k: "list_ex keeps_alive (rq_headers sample_request)" by (simp add: sample_request_def keeps_alive_def ascii_def to_lower_def)
  have l: "lengths (rq_headers sample_request) = [2]" by (simp add: sample_request_def lengths_def)
  have "rq_method sample_request = htqt_post" "rq_uri sample_request = ascii ''/a''" by (simp_all add: sample_request_def)
  with http_request_roundtrip [OF sample_request_wf new_hts_data_ok(2), of "[1, 2]"] k l show ?thesis
    by (fastforce simp: parsed_as_def)
qed

end
