(* ===== verification/Srv_Http_Reply.thy ===== *)
theory Srv_Http_Reply
  imports Srv_Http_Request Srv_Ip_Acl
begin

text \<open>
  The replies of the HTTP server, \<open>server/src/net/net-http-server.c\<close>: dates, status lines, headers and error pages,
  with the state they are written from. A date is the date of the calendar, and no reply overflows its
  buffer or fails an assertion while the clock fits 32 bits. The bytes a connection has received are a
  list of blocks, none of them empty, as the message buffers hold them; the messages it sends are a list. The
  last fields of the state are those the process shares. \<open>None\<close> is a failed assertion.
\<close>

subsection \<open>Dates\<close>

definition months :: string where "months = ''JanFebMarAprMayJunJulAugSepOctNovDecGlk''"
definition dows :: string where "dows = ''SunMonTueWedThuFriSatEar''"

definition dd :: "int \<Rightarrow> int list" where
  "dd year = [31, if year mod 4 \<noteq> 0 then 28 else 29, 31, 30, 31, 30, 31, 31, 30, 31, 30, 31]"

text \<open>The loop over the months: the index and the days left.\<close>

fun month_loop :: "int list \<Rightarrow> int \<Rightarrow> int \<Rightarrow> int \<times> int" where
  "month_loop [] i xd = (i, xd)"
| "month_loop (m # ms) i xd = (if xd < m then (i, xd) else month_loop ms (i + 1) (xd - m))"

record http_date =
  hd_year :: int
  hd_mon :: int
  hd_day :: int
  hd_dow :: int
  hd_hour :: int
  hd_min :: int
  hd_sec :: int

definition split_year :: "int \<Rightarrow> int \<times> int" where
  "split_year days =
     (let xd = days mod (365 * 3 + 366);
          year = days div (365 * 3 + 366) * 4 + 1970 in
      if xd \<ge> 365 then
        let year = year + 1; xd = xd - 365 in
        if xd \<ge> 365 then
          let year = year + 1; xd = xd - 365 in
          if xd \<ge> 366 then (year + 1, xd - 366) else (year, xd)
        else (year, xd)
      else (year, xd))"

definition http_date_fields :: "int \<Rightarrow> http_date" where
  "http_date_fields time =
     (let t0 = (if time < 0 then 0 else time);
          sec = t0 mod 60; t1 = t0 div 60;
          min = t1 mod 60; t2 = t1 div 60;
          hour = t2 mod 24; t3 = t2 div 24;
          dow = (t3 + 4) mod 7;
          (year, xd) = split_year t3;
          (mon, xd1) = month_loop (dd year) 0 xd in
      \<lparr>hd_year = year, hd_mon = mon, hd_day = xd1 + 1, hd_dow = dow, hd_hour = hour, hd_min = min, hd_sec = sec\<rparr>)"

definition two_digits :: "int \<Rightarrow> bytes" where
  "two_digits n = (if n < 10 then 0x30 # decimal (nat n) else decimal (nat n))"

definition name_at :: "string \<Rightarrow> int \<Rightarrow> bytes" where
  "name_at names i = ascii (take 3 (drop (nat (i * 3)) names))"

definition gen_http_date :: "int \<Rightarrow> bytes option" where
  "gen_http_date time =
     (let d = http_date_fields time in
      if 1 \<le> hd_day d \<and> hd_day d \<le> 31 \<and> 0 \<le> hd_mon d \<and> hd_mon d \<le> 11 \<and> 1970 \<le> hd_year d \<and> hd_year d \<le> 2039 then
        Some (take 29 (name_at dows (hd_dow d) @ ascii '', '' @ two_digits (hd_day d) @ ascii '' '' @
          name_at months (hd_mon d) @ ascii '' '' @ decimal (nat (hd_year d)) @ ascii '' '' @ two_digits (hd_hour d) @
          ascii '':'' @ two_digits (hd_min d) @ ascii '':'' @ two_digits (hd_sec d) @ ascii '' GMT''))
      else None)"

subsection \<open>Replies\<close>

record http_state =
  c_in :: "bytes list"
  c_working :: bool
  c_stop :: bool
  c_pending :: nat
  c_data :: hts_data
  c_out :: "bytes list"
  c_ip :: u32
  now_date :: "int \<times> bytes"
  extra_headers :: bytes
  http_queries :: int
  http_bad_headers :: int
  http_queries_size :: int

abbreviation on_data :: "(hts_data \<Rightarrow> hts_data) \<Rightarrow> http_state \<Rightarrow> http_state" where
  "on_data f S \<equiv> S\<lparr>c_data := f (c_data S)\<rparr>"

definition http_get_error_msg_text :: "int \<Rightarrow> string \<times> int" where
  "http_get_error_msg_text code =
     (if code = 200 then (''OK'', code)
      else if code = 201 then (''Created'', code)
      else if code = 202 then (''Accepted'', code)
      else if code = 204 then (''No Content'', code)
      else if code = 206 then (''Partial Content'', code)
      else if code = 301 then (''Moved Permanently'', code)
      else if code = 302 then (''Found'', code)
      else if code = 303 then (''See Other'', code)
      else if code = 304 then (''Not Modified'', code)
      else if code = 307 then (''Temporary Redirect'', code)
      else if code = 400 then (''Bad Request'', code)
      else if code = 403 then (''Forbidden'', code)
      else if code = 404 then (''Not Found'', code)
      else if code = 405 then (''Method Not Allowed'', code)
      else if code = 406 then (''Not Acceptable'', code)
      else if code = 408 then (''Request Timeout'', code)
      else if code = 411 then (''Length Required'', code)
      else if code = 413 then (''Request Entity Too Large'', code)
      else if code = 414 then (''Request URI Too Long'', code)
      else if code = 418 then (''I'' @ [CHR 0x27] @ ''m a teapot'', code)
      else if code = 429 then (''Too Many Requests'', code)
      else if code = 501 then (''Not Implemented'', code)
      else if code = 502 then (''Bad Gateway'', code)
      else if code = 503 then (''Service Unavailable'', code)
      else (''Internal Server Error'', 500))"

definition SERVER_VERSION :: string where "SERVER_VERSION = ''Teleproxy/1.0''"

definition line :: "string \<Rightarrow> bytes" where "line s = ascii s @ CR_LF"

definition error_text :: "int \<Rightarrow> string \<Rightarrow> bytes" where
  "error_text code msg =
     line ''<html>'' @
     ascii ''<head><title>'' @ decimal (nat code) @ ascii '' '' @ ascii msg @ line ''</title></head>'' @
     line (''<body bgcolor='' @ [CHR 0x22] @ ''white'' @ [CHR 0x22] @ ''>'') @
     ascii ''<center><h1>'' @ decimal (nat code) @ ascii '' '' @ ascii msg @ line ''</h1></center>'' @
     line (''<hr><center>'' @ SERVER_VERSION @ ''</center>'') @
     line ''</body>'' @
     line ''</html>''"

definition cur_http_date :: "int \<Rightarrow> http_state \<Rightarrow> (bytes \<times> http_state) option" where
  "cur_http_date now S =
     (if fst (now_date S) \<noteq> now then
        do { d \<leftarrow> gen_http_date now; Some (d, S\<lparr>now_date := (now, d)\<rparr>) }
      else Some (snd (now_date S), S))"

definition header_text :: "hts_data \<Rightarrow> bytes \<Rightarrow> int \<Rightarrow> string \<Rightarrow> bytes \<Rightarrow> bytes option \<Rightarrow> bytes option \<Rightarrow> bytes" where
  "header_text D extra code msg date_text add ctype =
     ascii ''HTTP/1.1 '' @ decimal (nat code) @ ascii '' '' @ ascii msg @ CR_LF @
     line (''Server: '' @ SERVER_VERSION) @
     ascii ''Date: '' @ date_text @ CR_LF @
     ascii ''Content-Type: '' @ take 256 (case ctype of Some t \<Rightarrow> t | None \<Rightarrow> ascii ''text/html'') @ CR_LF @
     ascii ''Connection: '' @ ascii (if qf_keepalive D then ''keep-alive'' else ''close'') @ CR_LF @
     take 1024 (if qf_extra_headers D then extra else []) @
     take 1024 (case add of Some a \<Rightarrow> a | None \<Rightarrow> [])"

definition write_basic_http_header_raw ::
    "int \<Rightarrow> http_state \<Rightarrow> int \<Rightarrow> int \<Rightarrow> int \<Rightarrow> bytes option \<Rightarrow> bytes option \<Rightarrow> (bytes \<times> http_state) option" where
  "write_basic_http_header_raw now S code0 date len add ctype =
     (let D = c_data S in
      if http_ver D \<ge> HTTP_V10 \<or> http_ver D = 0 then
        let (msg, code) = http_get_error_msg_text code0 in
        do {
          (date_text, S1) \<leftarrow> (if date \<noteq> 0 then do { d \<leftarrow> gen_http_date date; Some (d, S) } else cur_http_date now S);
          let text = header_text D (extra_headers S1) code msg date_text add ctype;
          let S2 = on_data (\<lambda>D. D\<lparr>qf_extra_headers := False\<rparr>) S1;
          if \<not> length text < 4096 - 64 then None
          else Some (text @ (if len \<ge> 0 then ascii ''Content-Length: '' @ decimal (nat len) @ CR_LF else []) @ CR_LF, S2)
        }
      else Some ([], S))"

definition write_http_error_raw :: "int \<Rightarrow> http_state \<Rightarrow> int \<Rightarrow> (bytes \<times> http_state) option" where
  "write_http_error_raw now S code0 =
     (if code0 = 204 then write_basic_http_header_raw now S code0 0 (-1) None None
      else
        let (msg, code) = http_get_error_msg_text code0;
            buff = error_text code msg in
        do {
          (h, S1) \<leftarrow> write_basic_http_header_raw now S code 0 (int (length buff)) None None;
          Some (h @ buff, S1)
        })"

definition write_http_error :: "int \<Rightarrow> http_state \<Rightarrow> int \<Rightarrow> http_state option" where
  "write_http_error now S code =
     do { (raw, S1) \<leftarrow> write_http_error_raw now S code; Some (S1\<lparr>c_out := c_out S1 @ [raw]\<rparr>) }"

subsection \<open>The calendar\<close>

definition leap :: "int \<Rightarrow> bool" where
  "leap y \<longleftrightarrow> 4 dvd y \<and> (\<not> 100 dvd y \<or> 400 dvd y)"

definition month_days :: "int \<Rightarrow> int list" where
  "month_days y = [31, if leap y then 29 else 28, 31, 30, 31, 30, 31, 31, 30, 31, 30, 31]"

text \<open>Days from the first of January 1970 to a date (the month from zero, the day from one).\<close>

definition days_to :: "int \<Rightarrow> int \<Rightarrow> int \<Rightarrow> int" where
  "days_to y m d = (\<Sum>i \<in> {1970..<y}. if leap i then 366 else 365) + sum_list (take (nat m) (month_days y)) + d - 1"

lemma leap_iff:
  assumes "1970 \<le> y" "y \<le> 2039"
  shows "leap y \<longleftrightarrow> 4 dvd y"
proof -
  have "400 dvd y" if h: "100 dvd y"
  proof -
    obtain k where k: "y = 100 * k" using h by (rule dvdE)
    then have "k = 20" using assms by linarith
    then show ?thesis using k by simp
  qed
  then show ?thesis unfolding leap_def by blast
qed

lemma dd_month_days: "1970 \<le> y \<Longrightarrow> y \<le> 2039 \<Longrightarrow> dd y = month_days y"
  unfolding dd_def month_days_def by (simp add: leap_iff dvd_eq_mod_eq_0)

lemma years_days:
  "y \<le> 69 \<Longrightarrow> (\<Sum>i \<in> {1970..<1970 + int y}. if leap i then 366 else 365) = int y * 365 + (int y + 1) div 4"
proof (induction y)
  case (Suc y)
  have "{1970..<1970 + int (Suc y)} = insert (1970 + int y) {1970..<1970 + int y}" by auto
  moreover have "leap (1970 + int y) \<longleftrightarrow> 4 dvd 1970 + int y" using Suc.prems by (intro leap_iff) simp_all
  ultimately have "(\<Sum>i \<in> {1970..<1970 + int (Suc y)}. if leap i then 366 else 365)
      = (if 4 dvd 1970 + int y then 366 else 365) + (int y * 365 + (int y + 1) div 4)"
    using Suc by simp
  then show ?case by (cases "4 dvd 1970 + int y") (simp; presburger)+
qed simp

lemma split_year_result:
  assumes "0 \<le> days" "days \<le> 24855" "split_year days = (year, xd)"
  shows "1970 \<le> year" "year \<le> 2038" "0 \<le> xd" "xd < (if year mod 4 \<noteq> 0 then 365 else 366)"
    "days = (year - 1970) * 365 + (year - 1969) div 4 + xd"
proof -
  define q x where "q = days div 1461" and "x = days mod 1461"
  have d: "days = 1461 * q + x" "0 \<le> x" "x < 1461" by (simp_all add: q_def x_def)
  have q: "0 \<le> q" "q \<le> 17" using d assms(1,2) by linarith+
  have m: "(4 * q + 1970) mod 4 = 2" "(4 * q + 1971) mod 4 = 3" "(4 * q + 1972) mod 4 = 0" "(4 * q + 1973) mod 4 = 1"
    "(4 * q + 1) div 4 = q" "(4 * q + 2) div 4 = q" "(4 * q + 3) div 4 = q" "(4 * q + 4) div 4 = q + 1" by presburger+
  have y: "split_year days = (if x < 365 then (4 * q + 1970, x) else if x < 730 then (4 * q + 1971, x - 365)
      else if x < 1096 then (4 * q + 1972, x - 730) else (4 * q + 1973, x - 1096))"
    by (simp add: split_year_def Let_def flip: q_def x_def)
  consider "x < 365" | "365 \<le> x" "x < 730" | "730 \<le> x" "x < 1096" | "1096 \<le> x" by linarith
  then have "1970 \<le> year \<and> year \<le> 2038 \<and> 0 \<le> xd \<and> xd < (if year mod 4 \<noteq> 0 then 365 else 366) \<and>
    days = (year - 1970) * 365 + (year - 1969) div 4 + xd"
  proof cases
    case 1
    then have "year = 4 * q + 1970" "xd = x" using y assms(3) by simp_all
    then show ?thesis using d q 1 m assms(2) by simp
  next
    case 2
    then have "year = 4 * q + 1971" "xd = x - 365" using y assms(3) by simp_all
    then show ?thesis using d q 2 m assms(2) by simp
  next
    case 3
    then have "year = 4 * q + 1972" "xd = x - 730" using y assms(3) by simp_all
    then show ?thesis using d q 3 m assms(2) by simp
  next
    case 4
    then have "year = 4 * q + 1973" "xd = x - 1096" using y assms(3) by simp_all
    then show ?thesis using d q 4 m assms(2) by simp
  qed
  then show "1970 \<le> year" "year \<le> 2038" "0 \<le> xd" "xd < (if year mod 4 \<noteq> 0 then 365 else 366)"
    "days = (year - 1970) * 365 + (year - 1969) div 4 + xd"
    by blast+
qed

lemma month_loop_result:
  "0 \<le> xd \<Longrightarrow> xd < sum_list ms \<Longrightarrow>
     \<exists>k d. month_loop ms i xd = (i + int k, d) \<and> k < length ms \<and> xd = sum_list (take k ms) + d \<and> 0 \<le> d \<and> d < ms ! k"
proof (induction ms arbitrary: i xd)
  case (Cons m ms)
  show ?case
  proof (cases "xd < m")
    case True
    then show ?thesis using Cons.prems by (intro exI [of _ "0 :: nat"] exI [of _ xd]) simp
  next
    case False
    then obtain k d where "month_loop ms (i + 1) (xd - m) = (i + 1 + int k, d)" "k < length ms" "xd - m = sum_list (take k ms) + d"
      "0 \<le> d" "d < ms ! k" using Cons.IH [of "xd - m" "i + 1"] Cons.prems by auto
    then show ?thesis using False by (intro exI [of _ "Suc k"]) simp
  qed
qed simp

lemma date_of_day:
  assumes n: "0 \<le> n" "n \<le> 24855" and y: "split_year n = (year, xd)"
  shows "\<exists>k e. month_loop (dd year) 0 xd = (int k, e) \<and> k < 12 \<and> 0 \<le> e \<and> e + 1 \<le> month_days year ! k \<and> days_to year (int k) (e + 1) = n"
proof -
  note yr = split_year_result [OF n y]
  have dd: "dd year = month_days year" using yr(1,2) by (intro dd_month_days) simp_all
  have "xd < sum_list (dd year)" using yr(4) by (simp add: dd_def split: if_splits)
  from month_loop_result [OF yr(3) this, of 0] obtain k e where k: "month_loop (dd year) 0 xd = (int k, e)" "k < length (dd year)"
    "xd = sum_list (take k (dd year)) + e" "0 \<le> e" "e < dd year ! k" by (metis add_0)
  have "(\<Sum>i \<in> {1970..<year}. if leap i then 366 else 365) = (year - 1970) * 365 + (year - 1969) div 4"
    using years_days [of "nat (year - 1970)"] yr(1,2) by simp
  then have "days_to year (int k) (e + 1) = n" unfolding days_to_def dd [symmetric] nat_int using k(3) yr(5) by linarith
  moreover have "k < 12" using k(2) by (simp add: dd_def)
  moreover have "e + 1 \<le> month_days year ! k" using k(5) unfolding dd by simp
  ultimately show ?thesis using k(1,4) by blast
qed

lemma day_split:
  fixes t :: int
  assumes "0 \<le> t" "t < 2 ^ 31"
  shows "t div 60 div 60 div 24 = t div 86400" "0 \<le> t div 86400" "t div 86400 \<le> 24855"
    "t div 60 div 60 mod 24 * 3600 + t div 60 mod 60 * 60 + t mod 60 = t mod 86400"
proof -
  show "t div 60 div 60 div 24 = t div 86400"
    using zdiv_zmult2_eq [of 1440 t 60] zdiv_zmult2_eq [of 24 "t div 60" 60] by simp
  have "86400 * (t div 86400) + t mod 86400 = t" "0 \<le> t mod 86400" "t mod 86400 < 86400" "t < 2147483648" using assms(2) by simp_all
  then show "0 \<le> t div 86400" "t div 86400 \<le> 24855" using assms(1) by linarith+
  show "t div 60 div 60 mod 24 * 3600 + t div 60 mod 60 * 60 + t mod 60 = t mod 86400"
    using zmod_zmult2_eq [of 1440 t 60] zmod_zmult2_eq [of 24 "t div 60" 60] by simp
qed

lemma http_date_fields_valid:
  assumes "0 \<le> t" "t < 2 ^ 31"
  defines "d \<equiv> http_date_fields t"
  shows "1970 \<le> hd_year d" "hd_year d \<le> 2038" "0 \<le> hd_mon d" "hd_mon d < 12"
      "1 \<le> hd_day d" "hd_day d \<le> month_days (hd_year d) ! nat (hd_mon d)"
      "days_to (hd_year d) (hd_mon d) (hd_day d) = t div 86400" "hd_dow d = (t div 86400 + 4) mod 7"
      "0 \<le> hd_hour d" "hd_hour d < 24" "0 \<le> hd_min d" "hd_min d < 60" "0 \<le> hd_sec d" "hd_sec d < 60"
      "hd_hour d * 3600 + hd_min d * 60 + hd_sec d = t mod 86400"
proof -
  note n = day_split [OF assms(1,2)]
  obtain year xd where y: "split_year (t div 86400) = (year, xd)" by (rule prod.exhaust)
  from date_of_day [OF n(2,3) y] obtain k e where k: "month_loop (dd year) 0 xd = (int k, e)" "k < 12" "0 \<le> e"
    "e + 1 \<le> month_days year ! k" "days_to year (int k) (e + 1) = t div 86400" by blast
  have "\<not> t < 0" using assms(1) by simp
  then have d: "d = \<lparr>hd_year = year, hd_mon = int k, hd_day = e + 1, hd_dow = (t div 86400 + 4) mod 7,
      hd_hour = t div 60 div 60 mod 24, hd_min = t div 60 mod 60, hd_sec = t mod 60\<rparr>"
    unfolding d_def http_date_fields_def Let_def by (simp only: if_False n(1) y k(1) prod.case)
  show "hd_hour d * 3600 + hd_min d * 60 + hd_sec d = t mod 86400" unfolding d using n(4) by (simp only: http_date.simps)
  show "hd_dow d = (t div 86400 + 4) mod 7" unfolding d by (simp only: http_date.simps)
  show "1970 \<le> hd_year d" "hd_year d \<le> 2038" unfolding d using split_year_result(1,2) [OF n(2,3) y] by simp_all
  show "0 \<le> hd_mon d" "hd_mon d < 12" "1 \<le> hd_day d" "hd_day d \<le> month_days (hd_year d) ! nat (hd_mon d)"
      "days_to (hd_year d) (hd_mon d) (hd_day d) = t div 86400" unfolding d using k(2-5) by simp_all
  show "0 \<le> hd_hour d" "hd_hour d < 24" "0 \<le> hd_min d" "hd_min d < 60" "0 \<le> hd_sec d" "hd_sec d < 60"
    unfolding d by simp_all
qed

lemma length_decimal: "length (decimal n) = (if n < 10 then 1 else length (decimal (n div 10)) + 1)"
  by (simp add: decimal.simps [of n])

lemma length_decimal_le: "n < 10 ^ Suc k \<Longrightarrow> length (decimal n) \<le> Suc k"
proof (induction k arbitrary: n)
  case 0
  then show ?case by (simp add: length_decimal [of n])
next
  case (Suc k)
  have "n div 10 < 10 ^ Suc k" using Suc.prems by (simp add: less_mult_imp_div_less mult.commute)
  then show ?case using Suc.IH by (auto simp: length_decimal [of n])
qed

lemma length_two_digits: "0 \<le> n \<Longrightarrow> n < 100 \<Longrightarrow> length (two_digits n) = 2"
  by (auto simp: two_digits_def length_decimal [of "nat n"] length_decimal [of "nat n div 10"])

lemma length_year:
  assumes "1970 \<le> n" "n \<le> 2039"
  shows "length (decimal (nat n)) = 4"
proof -
  define m where "m = nat n"
  have "\<not> m < 10" "\<not> m div 10 < 10" "\<not> m div 10 div 10 < 10" "m div 10 div 10 div 10 < 10"
    using assms by (simp_all add: m_def flip: div_mult2_eq)
  then show ?thesis unfolding m_def [symmetric]
    by (simp add: length_decimal [of m] length_decimal [of "m div 10"] length_decimal [of "m div 10 div 10"]
        length_decimal [of "m div 10 div 10 div 10"])
qed

lemma length_name_at: "0 \<le> i \<Longrightarrow> 3 * i + 3 \<le> int (length names) \<Longrightarrow> length (name_at names i) = 3"
  by (simp add: name_at_def)

lemma month_days_le: "k < 12 \<Longrightarrow> month_days y ! k \<le> 31"
  by (auto simp: month_days_def less_Suc_eq numeral_eq_Suc)

lemma gen_http_date_length:
  assumes "0 \<le> t" "t < 2 ^ 31"
  shows "\<exists>b. gen_http_date t = Some b \<and> length b = 29"
proof -
  let ?d = "http_date_fields t"
  note v = http_date_fields_valid [OF assms]
  have m: "hd_day ?d \<le> 31" using v(3,4,6) month_days_le [of "nat (hd_mon ?d)" "hd_year ?d"] by linarith
  have w: "0 \<le> hd_dow ?d" "hd_dow ?d < 7" unfolding v(8) by simp_all
  have "length (name_at dows (hd_dow ?d)) = 3" using w by (intro length_name_at) (simp_all add: dows_def)
  moreover have "length (name_at months (hd_mon ?d)) = 3" using v(3,4) by (intro length_name_at) (simp_all add: months_def)
  moreover have "length (two_digits (hd_day ?d)) = 2" "length (two_digits (hd_hour ?d)) = 2" "length (two_digits (hd_min ?d)) = 2"
    "length (two_digits (hd_sec ?d)) = 2" using v(5,9-14) m by (intro length_two_digits; simp)+
  moreover have "length (decimal (nat (hd_year ?d))) = 4" using v(1,2) by (intro length_year) auto
  ultimately show ?thesis using v(1-5) m by (simp add: gen_http_date_def Let_def)
qed

text \<open>Every time of 32 bits that is not negative becomes the date of the calendar with that number of
  days since 1970, its day of the week and its time of day; the text has 29 characters and no assertion
  fails.\<close>

lemma http_date_correct:
  assumes "0 \<le> t" "t < 2 ^ 31"
  shows "let d = http_date_fields t in
      1 \<le> hd_day d \<and> hd_day d \<le> month_days (hd_year d) ! nat (hd_mon d) \<and> 0 \<le> hd_mon d \<and> hd_mon d < 12 \<and>
      days_to (hd_year d) (hd_mon d) (hd_day d) = t div 86400 \<and> hd_dow d = (t div 86400 + 4) mod 7 \<and>
      hd_hour d * 3600 + hd_min d * 60 + hd_sec d = t mod 86400 \<and>
      (\<exists>b. gen_http_date t = Some b \<and> length b = 29)"
proof -
  let ?d = "http_date_fields t"
  note v = http_date_fields_valid [OF assms]
  show ?thesis using v gen_http_date_length [OF assms] unfolding Let_def by blast
qed

subsection \<open>Replies are written\<close>

lemma gen_http_date_ok:
  assumes "t < 2 ^ 31"
  shows "\<exists>b. gen_http_date t = Some b \<and> length b = 29"
proof (cases "0 \<le> t")
  case True
  then show ?thesis using assms gen_http_date_length by blast
next
  case False
  then have "gen_http_date t = gen_http_date 0" by (simp add: gen_http_date_def http_date_fields_def)
  then show ?thesis using gen_http_date_length [of 0] by simp
qed

lemma http_get_error_msg_text_bounds:
  assumes "http_get_error_msg_text code = (msg, c)"
  shows "length msg \<le> 24" "200 \<le> c" "c < 1000"
  using assms unfolding http_get_error_msg_text_def by (auto split: if_splits)

lemma header_text_length:
  assumes "http_get_error_msg_text code0 = (msg, code)" "length date_text \<le> 29"
  shows "length (header_text D extra code msg date_text add ctype) < 4096 - 64"
proof -
  note b = http_get_error_msg_text_bounds [OF assms(1)]
  have "length (decimal (nat code)) \<le> 3" using b length_decimal_le [of "nat code" 2] by simp
  moreover have "length (ascii (if qf_keepalive D then ''keep-alive'' else ''close'')) \<le> 10" by simp
  ultimately show ?thesis using b assms(2) unfolding header_text_def line_def SERVER_VERSION_def CR_LF_def
    by (simp add: length_ascii del: ascii_Cons)
qed

definition date_ok :: "http_state \<Rightarrow> bool" where
  "date_ok S \<longleftrightarrow> length (snd (now_date S)) \<le> 29"

text \<open>The clock fits a 32-bit time.\<close>

abbreviation clock_ok :: "int \<Rightarrow> bool" where
  "clock_ok now \<equiv> now < 2 ^ 31"

lemma write_header_ok:
  assumes "clock_ok now" "date_ok S"
  shows "\<exists>h nd x. write_basic_http_header_raw now S code 0 len add ctype =
      Some (h, S\<lparr>now_date := nd, c_data := (c_data S)\<lparr>qf_extra_headers := x\<rparr>\<rparr>) \<and> length (snd nd) \<le> 29"
proof (cases "http_ver (c_data S) \<ge> HTTP_V10 \<or> http_ver (c_data S) = 0")
  case True
  obtain msg c where m: "http_get_error_msg_text code = (msg, c)" by (rule prod.exhaust)
  obtain b where b: "gen_http_date now = Some b" "length b = 29" using gen_http_date_ok [OF assms(1)] by blast
  define nd where "nd = (if fst (now_date S) \<noteq> now then (now, b) else now_date S)"
  have nd: "length (snd nd) \<le> 29" using b assms(2) by (simp add: nd_def date_ok_def)
  have c: "cur_http_date now S = Some (snd nd, S\<lparr>now_date := nd\<rparr>)" using b by (simp add: cur_http_date_def nd_def)
  have l: "length (header_text D extra c msg (snd nd) add ctype) < 4096 - 64" for D extra
    by (rule header_text_length [OF m nd])
  have "\<exists>h. write_basic_http_header_raw now S code 0 len add ctype = Some (h, S\<lparr>now_date := nd, c_data := (c_data S)\<lparr>qf_extra_headers := False\<rparr>\<rparr>)"
    using True l unfolding write_basic_http_header_raw_def by (simp add: m c Let_def)
  then show ?thesis using nd by blast
next
  case False
  have "S = S\<lparr>now_date := now_date S, c_data := (c_data S)\<lparr>qf_extra_headers := qf_extra_headers (c_data S)\<rparr>\<rparr>" by simp
  moreover have "write_basic_http_header_raw now S code 0 len add ctype = Some ([], S)"
    using False unfolding write_basic_http_header_raw_def by (simp add: Let_def)
  ultimately show ?thesis using assms(2) unfolding date_ok_def by metis
qed

lemma write_http_error_ok:
  assumes "clock_ok now" "date_ok S"
  shows "\<exists>raw nd x. write_http_error now S code =
      Some (S\<lparr>now_date := nd, c_data := (c_data S)\<lparr>qf_extra_headers := x\<rparr>, c_out := c_out S @ [raw]\<rparr>) \<and> length (snd nd) \<le> 29"
proof -
  obtain msg c where m: "http_get_error_msg_text code = (msg, c)" by (rule prod.exhaust)
  obtain h nd x where h: "write_basic_http_header_raw now S code 0 (-1) None None =
      Some (h, S\<lparr>now_date := nd, c_data := (c_data S)\<lparr>qf_extra_headers := x\<rparr>\<rparr>)" "length (snd nd) \<le> 29"
    using write_header_ok [OF assms] by metis
  obtain h2 nd2 x2 where h2: "write_basic_http_header_raw now S c 0 (int (length (error_text c msg))) None None =
      Some (h2, S\<lparr>now_date := nd2, c_data := (c_data S)\<lparr>qf_extra_headers := x2\<rparr>\<rparr>)" "length (snd nd2) \<le> 29"
    using write_header_ok [OF assms] by metis
  show ?thesis
  proof (cases "code = 204")
    case True
    then show ?thesis using h
      by (intro exI [of _ h] exI [of _ nd] exI [of _ x]) (simp add: write_http_error_def write_http_error_raw_def)
  next
    case False
    then show ?thesis using h2 m
      by (intro exI [of _ "h2 @ error_text c msg"] exI [of _ nd2] exI [of _ x2]) (simp add: write_http_error_def write_http_error_raw_def Let_def)
  qed
qed

end
