(* ===== verification/Srv_Http_Server.thy ===== *)
theory Srv_Http_Server
  imports Srv_Http_Reply
begin

text \<open>
  The HTTP server, \<open>hts_parse_execute\<close> of \<open>server/src/net/net-http-server.c\<close>, and the pages of statistics it
  serves, \<open>hts_stats_execute\<close> of \<open>server/src/mtproto/mtproto-proxy-http.c\<close>. The pages themselves, the state of the
  message buffers and the clock are parameters. \<open>None\<close> is a failed assertion.
\<close>

definition connection_write_close :: "http_state \<Rightarrow> http_state" where
  "connection_write_close S = (if c_working S then S\<lparr>c_working := False\<rparr> else S)"

subsection \<open>Executing requests\<close>

text \<open>What serves a request: the time, the operation, the bytes of the request and the state to the result and
  the state.\<close>

type_synonym http_execute = "int \<Rightarrow> hts_query_type \<Rightarrow> bytes \<Rightarrow> http_state \<Rightarrow> (int \<times> http_state) option"

definition hts_default_execute :: http_execute where
  "hts_default_execute now op msg S =
     (let S1 = (if op = htqt_empty then S else on_data (\<lambda>D. D\<lparr>qf_error := True\<rparr>) S) in
      Some (if data_size (c_data S1) \<ge> 0 then -413 else -501, S1))"

definition is_private_ip :: "u32 \<Rightarrow> bool" where
  "is_private_ip ip \<longleftrightarrow> drop_bit 24 ip = 127 \<or> drop_bit 24 ip = 10 \<or> drop_bit 20 ip = 0xAC1 \<or> drop_bit 16 ip = 0xC0A8"

datatype stats_page = Page_link | Page_metrics | Page_stats

definition page_of_uri :: "bytes \<Rightarrow> stats_page option" where
  "page_of_uri uri =
     (if uri = ascii ''/link'' then Some Page_link
      else if uri = ascii ''/metrics'' then Some Page_metrics
      else if uri = ascii ''/stats'' then Some Page_stats
      else None)"

fun page_type :: "stats_page \<Rightarrow> bytes" where
  "page_type Page_link = ascii ''text/html; charset=utf-8''"
| "page_type Page_metrics = ascii ''text/plain; version=0.0.4; charset=utf-8''"
| "page_type Page_stats = ascii ''text/plain''"

definition hts_stats_execute ::
    "(stats_page \<Rightarrow> bytes \<Rightarrow> bytes) \<Rightarrow> bool \<Rightarrow> bool \<Rightarrow> acl_state \<Rightarrow> http_execute" where
  "hts_stats_execute pages bufs mem acl now op msg S =
     (let D = c_data S in
      if \<not> bufs then Some (-429, S)
      else if op \<noteq> htqt_get \<or> data_size D \<noteq> -1 then Some (-501, on_data (\<lambda>D. D\<lparr>qf_keepalive := False\<rparr>) S)
      else if \<not> is_private_ip (c_ip S) \<and> \<not> ip_acl_check_stats_v4 acl (c_ip S) then Some (-404, S)
      else if header_size D > MAX_HTTP_HEADER_SIZE \<or> length msg < header_size D then None
      else
        let hdr = take (header_size D) msg in
        case page_of_uri (slice (uri_offset D) (uri_size D) hdr) of
          None \<Rightarrow> Some (-404, S)
        | Some pg \<Rightarrow>
            let body = pages pg (slice (host_offset D) (host_size D) hdr) in
            do {
              (h, S1) \<leftarrow> write_basic_http_header_raw now S 200 0 (int (length body)) None (Some (page_type pg));
              if \<not> mem then Some (-1, S1)
              else Some (0, S1\<lparr>c_out := c_out S1 @ [h @ body]\<rparr>)
            })"

definition NEED_MORE_BYTES :: int where "NEED_MORE_BYTES = 0x7FFFFFFF"
definition SKIP_ALL_BYTES :: int where "SKIP_ALL_BYTES = - 0x80000000"

text \<open>Taking bytes off the front of a message: \<open>None\<close> when it has fewer.\<close>

fun skip_blocks :: "nat \<Rightarrow> bytes list \<Rightarrow> bytes list option" where
  "skip_blocks 0 bs = Some bs"
| "skip_blocks n [] = None"
| "skip_blocks n (b # bs) = (if n < length b then Some (drop n b # bs) else skip_blocks (n - length b) bs)"

definition total_bytes :: "bytes list \<Rightarrow> nat" where
  "total_bytes bs = length (concat bs)"

text \<open>A request has ended: \<open>Some r\<close> returns from \<open>hts_parse_execute\<close>, \<open>None\<close> goes on with the next request.\<close>

definition skip_in :: "nat \<Rightarrow> http_state \<Rightarrow> http_state option" where
  "skip_in n S = do { bs \<leftarrow> skip_blocks n (c_in S); Some (S\<lparr>c_in := bs\<rparr>) }"

text \<open>Arithmetic on \<open>int\<close> wraps around: the server is compiled with \<open>-fwrapv\<close>.\<close>

definition wrap_int :: "int \<Rightarrow> int" where
  "wrap_int x = (x + 2 ^ 31) mod 2 ^ 32 - 2 ^ 31"

definition rwm_fetch_data_back :: "bytes \<Rightarrow> int \<Rightarrow> bytes option" where
  "rwm_fetch_data_back m bytes =
     (let k = min bytes (int (length m)) in
      if k < 0 then None else Some (take (length m - nat k) m))"

definition rwm_trunc :: "bytes \<Rightarrow> int \<Rightarrow> bytes option" where
  "rwm_trunc m len =
     (if len \<ge> int (length m) then Some m else rwm_fetch_data_back m (wrap_int (int (length m) - len)))"

definition serve :: "http_execute \<Rightarrow> int \<Rightarrow> http_state \<Rightarrow> (int \<times> http_state) option" where
  "serve exec now S =
     (let D = c_data S in
      if query_type D = htqt_post \<and> data_size D < 0 then Some (-411, S)
      else if query_type D \<noteq> htqt_post \<and> data_size D > 0 then Some (-413, S)
      else
        let bytes = (if query_type D = htqt_post then wrap_int (int (header_size D) + data_size D) else int (header_size D)) in
        do {
          r \<leftarrow> (if bytes < int (total_bytes (c_in S)) then rwm_trunc (concat (c_in S)) bytes else Some (concat (c_in S)));
          exec now (query_type D) r S
        })"

definition request_served :: "int \<Rightarrow> int \<Rightarrow> http_state \<Rightarrow> (int option \<times> http_state) option" where
  "request_served now res S =
     (if res > 0 then Some (Some res, S)
      else do {
        S1 \<leftarrow> skip_in (header_size (c_data S)) S;
        if res = SKIP_ALL_BYTES \<or> res = 0 then
          if data_size (c_data S1) > 0 then
            let x = total_bytes (c_in S1);
                y = min x (nat (data_size (c_data S1))) in
            do {
              S2 \<leftarrow> skip_in y S1;
              if y < x then Some (Some (int y - int x), on_data (\<lambda>D. D\<lparr>parse_state := htqp_start\<rparr>) S2)
              else Some (None, S2)
            }
          else Some (None, S1)
        else
          let S2 = (if res = -413 then on_data (\<lambda>D. D\<lparr>qf_keepalive := False\<rparr>) S1 else S1) in
          do {
            S3 \<leftarrow> write_http_error now S2 (- res);
            Some (None, on_data (\<lambda>D. D\<lparr>qf_error := False\<rparr>) S3)
          }
      })"

definition request_finished :: "int \<Rightarrow> http_state \<Rightarrow> (int option \<times> http_state) option" where
  "request_finished now S =
     do {
       S1 \<leftarrow> (if qf_error (c_data S)
              then write_http_error now (on_data (\<lambda>D. D\<lparr>qf_keepalive := False\<rparr>) S) 400
              else Some S);
       if c_pending S1 = 0 \<and> \<not> qf_keepalive (c_data S1)
       then Some (Some 0, on_data (\<lambda>D. D\<lparr>parse_state := htqp_invalid\<rparr>) (connection_write_close S1))
       else Some (None, on_data (\<lambda>D. D\<lparr>parse_state := htqp_start\<rparr>) S1)
     }"

definition request_done :: "http_execute \<Rightarrow> int \<Rightarrow> http_state \<Rightarrow> (int option \<times> http_state) option" where
  "request_done exec now S0 =
     (let S = (if header_size (c_data S0) \<ge> MAX_HTTP_HEADER_SIZE then on_data (\<lambda>D. D\<lparr>qf_error := True\<rparr>) S0 else S0) in
      if \<not> qf_error (c_data S) then
        do {
          (res, S1) \<leftarrow> serve exec now S;
          let S2 = S1\<lparr>http_queries := http_queries S1 + 1,
                      http_queries_size := http_queries_size S1 + wrap_int (int (header_size (c_data S1)) + data_size (c_data S1))\<rparr>;
          (ret, S3) \<leftarrow> request_served now res S2;
          case ret of Some r \<Rightarrow> Some (Some r, S3) | None \<Rightarrow> request_finished now S3
        }
      else
        do {
          S1 \<leftarrow> skip_in (header_size (c_data S)) S;
          request_finished now (S1\<lparr>http_bad_headers := http_bad_headers S1 + 1\<rparr>)
        })"

partial_function (option) hts_parse_loop :: "http_execute \<Rightarrow> int \<Rightarrow> http_state \<Rightarrow> bytes list \<Rightarrow> (int \<times> http_state) option" where
  "hts_parse_loop exec now S raw =
     (if \<not> (c_working S \<and> c_pending S = 0 \<and> raw \<noteq> []) then Some (NEED_MORE_BYTES, S)
      else if c_stop S then Some (NEED_MORE_BYTES, S)
      else Option.bind (http_parse_data (c_data S) (hd raw)) (\<lambda>(n, D).
        Option.bind (skip_blocks n raw) (\<lambda>raw1.
          let S1 = S\<lparr>c_data := D\<rparr> in
          if parse_state D = htqp_done then
            Option.bind (request_done exec now S1) (\<lambda>(ret, S2).
              case ret of Some r \<Rightarrow> Some (r, S2) | None \<Rightarrow> hts_parse_loop exec now S2 (c_in S2))
          else hts_parse_loop exec now S1 raw1)))"

definition hts_parse_execute :: "http_execute option \<Rightarrow> int \<Rightarrow> http_state \<Rightarrow> (int \<times> http_state) option" where
  "hts_parse_execute exec now S =
     (let S1 = on_data (\<lambda>D. D\<lparr>parse_state := htqp_start\<rparr>) S in
      hts_parse_loop (case exec of Some f \<Rightarrow> f | None \<Rightarrow> hts_default_execute) now S1 (c_in S1))"

subsection \<open>Messages\<close>

lemma skip_blocks_ok:
  "n \<le> total_bytes bs \<Longrightarrow> \<exists>bs'. skip_blocks n bs = Some bs' \<and> concat bs' = drop n (concat bs) \<and> ([] \<notin> set bs \<longrightarrow> [] \<notin> set bs')"
proof (induction n bs rule: skip_blocks.induct)
  case (3 v b bs)
  show ?case
  proof (cases "Suc v < length b")
    case True
    then show ?thesis by (auto simp: total_bytes_def)
  next
    case False
    with 3 have "\<exists>bs'. skip_blocks (Suc v - length b) bs = Some bs' \<and> concat bs' = drop (Suc v - length b) (concat bs) \<and> ([] \<notin> set bs \<longrightarrow> [] \<notin> set bs')"
      by (simp add: total_bytes_def)
    then show ?thesis using False by auto
  qed
qed (auto simp: total_bytes_def)

lemma skip_in_ok:
  assumes "n \<le> total_bytes (c_in S)" "[] \<notin> set (c_in S)"
  shows "\<exists>bs. skip_in n S = Some (S\<lparr>c_in := bs\<rparr>) \<and> concat bs = drop n (concat (c_in S)) \<and> [] \<notin> set bs"
  using skip_blocks_ok [OF assms(1)] assms(2) by (auto simp: skip_in_def)

lemma wrap_int_id: "- (2 ^ 31) \<le> x \<Longrightarrow> x < 2 ^ 31 \<Longrightarrow> wrap_int x = x"
  by (simp add: wrap_int_def)

lemma rwm_trunc_ok:
  assumes "0 \<le> len" "int (length m) < 2 ^ 31"
  shows "rwm_trunc m len = Some (take (nat len) m)"
proof (cases "len \<ge> int (length m)")
  case True
  then show ?thesis by (simp add: rwm_trunc_def)
next
  case False
  then have "wrap_int (int (length m) - len) = int (length m) - len" using assms by (intro wrap_int_id) simp_all
  moreover have "length m - nat (int (length m) - len) = nat len" using False assms(1) by linarith
  ultimately show ?thesis using False assms(1) by (simp add: rwm_trunc_def rwm_fetch_data_back_def)
qed

subsection \<open>What serves a request\<close>

text \<open>What the server relies on: a served request leaves the input, the size of the header, the address and the
  scratch word of the parser as they are.\<close>

definition kept :: "http_state \<Rightarrow> http_state \<Rightarrow> bool" where
  "kept S S' \<longleftrightarrow> c_in S' = c_in S \<and> c_ip S' = c_ip S \<and> header_size (c_data S') = header_size (c_data S) \<and>
     word (c_data S') = word (c_data S) \<and> date_ok S'"

definition oversized :: "hts_data \<Rightarrow> bool" where
  "oversized D \<longleftrightarrow> query_type D = htqt_post \<and> int (header_size D) + data_size D \<ge> 2 ^ 31"

text \<open>What is left after a request: the input without its header and perhaps its body.\<close>

definition went_on :: "http_state \<Rightarrow> http_state \<Rightarrow> bool" where
  "went_on S S' \<longleftrightarrow> date_ok S' \<and> [] \<notin> set (c_in S') \<and> suffix (concat (c_in S')) (concat (c_in S)) \<and>
     word (c_data S') = word (c_data S) \<and> c_ip S' = c_ip S"

lemma suffix_drop_drop: "suffix (drop a (drop b xs)) xs"
  by (metis drop_drop suffix_drop)

text \<open>Some request of the input is a POST whose header and body together exceed the largest \<open>int\<close>.\<close>

definition oversized_seen :: "bytes \<Rightarrow> bool" where
  "oversized_seen data \<longleftrightarrow> (\<exists>rest D0 D r. suffix rest data \<and> http_ok D0 \<and> parse_state D0 = htqp_start \<and>
     http_loop D0 rest = Some (D, r) \<and> parse_state D = htqp_done \<and> \<not> qf_error D \<and> oversized D)"

lemma oversized_seen_suffix: "oversized_seen a \<Longrightarrow> suffix a b \<Longrightarrow> oversized_seen b"
  unfolding oversized_seen_def by (meson suffix_order.trans)

lemma http_feed_append:
  "http_feed D0 fed = Some (D, r) \<Longrightarrow> parse_state D \<noteq> htqp_done \<Longrightarrow> http_feed D0 (fed @ bs) = http_feed D bs"
  by (induction fed arbitrary: D0) (auto split: bind_splits if_splits)

text \<open>Between two blocks: the parser has been fed the blocks of the input before \<open>raw\<close>.\<close>

definition feeding :: "http_state \<Rightarrow> bytes list \<Rightarrow> bool" where
  "feeding S raw \<longleftrightarrow> (\<exists>D0 fed. c_in S = fed @ raw \<and> http_ok D0 \<and> parse_state D0 = htqp_start \<and> http_feed D0 fed = Some (c_data S, [])) \<and>
     http_ok (c_data S) \<and> parse_state (c_data S) \<noteq> htqp_done \<and> accounted (c_data S) + total_bytes raw \<le> total_bytes (c_in S)"

lemma feeding_start:
  assumes "parse_state (c_data S) = htqp_start" "length (word (c_data S)) = 16"
  shows "feeding S (c_in S)"
  using assms unfolding feeding_def
  by (intro conjI exI [of _ "c_data S"] exI [of _ "[]"]) (auto simp: http_ok_def accounted_def)

lemma feeding_block:
  assumes f: "feeding S (b # raw)" and ne: "[] \<notin> set (c_in S)"
  obtains n D where "http_parse_data (c_data S) b = Some (n, D)" "http_ok D" "length (word D) = 16"
    "parse_state D \<noteq> htqp_done \<longrightarrow> skip_blocks n (b # raw) = Some raw \<and> feeding (S\<lparr>c_data := D\<rparr>) raw"
    "parse_state D = htqp_done \<longrightarrow> n \<le> length b \<and> header_size D \<le> total_bytes (c_in S) \<and>
       (\<not> qf_error D \<and> oversized D \<longrightarrow> oversized_seen (concat (c_in S)))"
proof -
  from f obtain D0 fed where D0: "c_in S = fed @ b # raw" "http_ok D0" "parse_state D0 = htqp_start" "http_feed D0 fed = Some (c_data S, [])"
    and D: "http_ok (c_data S)" "parse_state (c_data S) \<noteq> htqp_done" "accounted (c_data S) + total_bytes (b # raw) \<le> total_bytes (c_in S)"
    unfolding feeding_def by blast
  from http_loop_ok [OF D(1), of b] obtain D' r' where l: "http_loop (c_data S) b = Some (D', r')" "http_ok D'" "suffix r' b"
    "r' \<noteq> [] \<longrightarrow> parse_state D' = htqp_done" "accounted D' + length r' \<le> accounted (c_data S) + length b" by force
  have feed: "http_feed D0 (fed @ b # bs) = (if parse_state D' = htqp_done then Some (D', r' @ concat bs) else http_feed D' bs)" for bs
    using http_feed_append [OF D0(4) D(2)] l(1) by simp
  show thesis
  proof (rule that [of "length b - length r'" D'])
    show "http_parse_data (c_data S) b = Some (length b - length r', D')" using l(1) by (simp add: http_parse_data_def)
    show "http_ok D'" by fact
    show "length (word D') = 16" using l(2) by (simp add: http_ok_def)
  next
    have "skip_blocks (length b - length r') (b # raw) = Some raw \<and> feeding (S\<lparr>c_data := D'\<rparr>) raw" if nd: "parse_state D' \<noteq> htqp_done"
    proof -
    from nd have "r' = []" using l(4) by blast
    moreover have "b \<noteq> []" using ne D0(1) by auto
    ultimately have "skip_blocks (length b - length r') (b # raw) = Some raw" by (cases b) simp_all
    moreover have "http_feed D0 (fed @ [b]) = Some (D', [])" using feed [of "[]"] nd by simp
    moreover have "accounted D' + total_bytes raw \<le> total_bytes (c_in S)" using D(3) l(5) by (simp add: total_bytes_def)
    ultimately show ?thesis
      using D0(1-3) l(2) nd unfolding feeding_def by (auto intro!: exI [of _ D0] exI [of _ "fed @ [b]"])
    qed
    then show "parse_state D' \<noteq> htqp_done \<longrightarrow> skip_blocks (length b - length r') (b # raw) = Some raw \<and> feeding (S\<lparr>c_data := D'\<rparr>) raw"
      by blast
  next
    have "length b - length r' \<le> length b \<and> header_size D' \<le> total_bytes (c_in S) \<and>
       (\<not> qf_error D' \<and> oversized D' \<longrightarrow> oversized_seen (concat (c_in S)))" if dn: "parse_state D' = htqp_done"
    proof -
    have h: "header_size D' \<le> total_bytes (c_in S)" using D(3) l(5) dn by (simp add: total_bytes_def accounted_def)
    have "oversized_seen (concat (c_in S))" if "\<not> qf_error D'" "oversized D'"
    proof -
      have "http_feed D0 (c_in S) = Some (D', r' @ concat raw)" using feed [of raw] dn D0(1) by simp
      moreover have "\<not> given_up D'" using that(1) dn by (simp add: given_up_def)
      ultimately have "http_loop D0 (concat (c_in S)) = Some (D', r' @ concat raw)"
        using http_feed_agree [OF D0(2) ne] D0(3) by (auto simp: agree_def)
      then show ?thesis using D0(2,3) dn that unfolding oversized_seen_def by blast
    qed
    then show ?thesis using h by auto
    qed
    then show "parse_state D' = htqp_done \<longrightarrow> length b - length r' \<le> length b \<and> header_size D' \<le> total_bytes (c_in S) \<and>
       (\<not> qf_error D' \<and> oversized D' \<longrightarrow> oversized_seen (concat (c_in S)))" by blast
  qed
qed

definition may_run :: "http_state \<Rightarrow> bytes list \<Rightarrow> bool" where
  "may_run S raw \<longleftrightarrow> date_ok S \<and> [] \<notin> set (c_in S) \<and> feeding S raw \<and> int (total_bytes (c_in S)) < 2 ^ 31 \<and> \<not> oversized_seen (concat (c_in S))"

locale http_service =
  fixes exec :: http_execute
  assumes exec_ok: "clock_ok now \<Longrightarrow> date_ok S \<Longrightarrow> header_size (c_data S) < MAX_HTTP_HEADER_SIZE \<Longrightarrow> header_size (c_data S) \<le> length msg \<Longrightarrow>
    \<exists>res S'. exec now op msg S = Some (res, S') \<and> kept S S'"
begin

lemma serve_ok:
  assumes "clock_ok now" "date_ok S" "header_size (c_data S) < MAX_HTTP_HEADER_SIZE" "header_size (c_data S) \<le> total_bytes (c_in S)"
    "\<not> oversized (c_data S)" "int (total_bytes (c_in S)) < 2 ^ 31"
  shows "\<exists>res S'. serve exec now S = Some (res, S') \<and> kept S S'"
proof -
  let ?D = "c_data S"
  have refl: "kept S S" using assms(2) by (simp add: kept_def)
  consider "query_type ?D = htqt_post" "data_size ?D < 0" | "query_type ?D \<noteq> htqt_post" "data_size ?D > 0"
    | "query_type ?D = htqt_post" "data_size ?D \<ge> 0" | "query_type ?D \<noteq> htqt_post" "data_size ?D \<le> 0" by linarith
  then show ?thesis
  proof cases
    case 1
    then show ?thesis using refl by (simp add: serve_def Let_def)
  next
    case 2
    then show ?thesis using refl by (simp add: serve_def Let_def)
  next
    case 3
    define n where "n = int (header_size ?D) + data_size ?D"
    have n: "wrap_int n = n" "0 \<le> n" "int (header_size ?D) \<le> n" using 3 assms(5) unfolding n_def by (auto simp: oversized_def intro!: wrap_int_id)
    define r where "r = (if n < int (total_bytes (c_in S)) then take (nat n) (concat (c_in S)) else concat (c_in S))"
    have "rwm_trunc (concat (c_in S)) n = Some (take (nat n) (concat (c_in S)))"
      using n(2) assms(6) by (intro rwm_trunc_ok) (simp_all add: total_bytes_def)
    then have "serve exec now S = exec now htqt_post r S" using 3 n(1) by (simp add: serve_def Let_def r_def n_def)
    moreover have "header_size ?D \<le> length r" using n(3) assms(4) unfolding r_def total_bytes_def by (auto simp: nat_le_iff le_nat_iff)
    ultimately show ?thesis using exec_ok [OF assms(1-3)] by simp
  next
    case 4
    define n where "n = int (header_size ?D)"
    have "rwm_trunc (concat (c_in S)) n = Some (take (nat n) (concat (c_in S)))"
      using assms(6) by (intro rwm_trunc_ok) (simp_all add: total_bytes_def n_def)
    then have "serve exec now S = exec now (query_type ?D) (if n < int (total_bytes (c_in S)) then take (nat n) (concat (c_in S)) else concat (c_in S)) S"
      using 4 by (simp add: serve_def Let_def n_def)
    then show ?thesis using exec_ok [OF assms(1-3)] assms(4) by (simp add: total_bytes_def n_def)
  qed
qed

lemma request_served_ok:
  assumes "clock_ok now" "date_ok S" "[] \<notin> set (c_in S)" "header_size (c_data S) \<le> total_bytes (c_in S)"
  shows "\<exists>ret S'. request_served now res S = Some (ret, S') \<and> went_on S S' \<and>
    (ret = None \<longrightarrow> total_bytes (c_in S') + header_size (c_data S) \<le> total_bytes (c_in S))"
proof -
  let ?h = "header_size (c_data S)"
  from skip_in_ok [OF assms(4,3)] obtain bs where bs: "skip_in ?h S = Some (S\<lparr>c_in := bs\<rparr>)" "concat bs = drop ?h (concat (c_in S))" "[] \<notin> set bs" by blast
  have tb: "total_bytes bs + ?h = total_bytes (c_in S)" using bs(2) assms(4) by (simp add: total_bytes_def)
  have suf: "suffix (concat bs) (concat (c_in S))" using bs(2) suffix_drop by metis
  consider "res > 0" | "res = SKIP_ALL_BYTES \<or> res = 0" "data_size (c_data S) > 0" | "res = SKIP_ALL_BYTES \<or> res = 0" "data_size (c_data S) \<le> 0"
    | "res < 0" "res \<noteq> SKIP_ALL_BYTES" by linarith
  then show ?thesis
  proof cases
    case 1
    then show ?thesis using assms by (auto simp: request_served_def went_on_def)
  next
    case 2
    let ?y = "min (total_bytes bs) (nat (data_size (c_data S)))"
    have "?y \<le> total_bytes (c_in (S\<lparr>c_in := bs\<rparr>))" by simp
    from skip_in_ok [OF this] bs(3) obtain bs2 where b2: "skip_in ?y (S\<lparr>c_in := bs\<rparr>) = Some (S\<lparr>c_in := bs2\<rparr>)"
      "concat bs2 = drop ?y (concat bs)" "[] \<notin> set bs2" by auto
    have "suffix (concat bs2) (concat (c_in S))" unfolding b2(2) bs(2) by (rule suffix_drop_drop)
    moreover have "total_bytes bs2 \<le> total_bytes bs" by (simp add: total_bytes_def b2(2))
    moreover have "\<not> res > 0" using 2 by (auto simp: SKIP_ALL_BYTES_def)
    ultimately show ?thesis using 2 bs(1) b2 tb assms(2) by (auto simp: request_served_def went_on_def Let_def date_ok_def)
  next
    case 3
    have "\<not> res > 0" using 3 by (auto simp: SKIP_ALL_BYTES_def)
    then show ?thesis using 3 bs tb suf assms(2) by (auto simp: request_served_def went_on_def date_ok_def)
  next
    case 4
    let ?S = "if res = -413 then on_data (\<lambda>D. D\<lparr>qf_keepalive := False\<rparr>) (S\<lparr>c_in := bs\<rparr>) else S\<lparr>c_in := bs\<rparr>"
    have S: "date_ok ?S" "c_in ?S = bs" "word (c_data ?S) = word (c_data S)" "c_ip ?S = c_ip S" using assms(2) by (simp_all add: date_ok_def)
    from write_http_error_ok [OF assms(1) S(1), of "- res"] obtain raw nd x where w: "write_http_error now ?S (- res) =
      Some (?S\<lparr>now_date := nd, c_data := (c_data ?S)\<lparr>qf_extra_headers := x\<rparr>, c_out := c_out ?S @ [raw]\<rparr>)" "length (snd nd) \<le> 29" by blast
    define S3 where "S3 = ?S\<lparr>now_date := nd, c_data := (c_data ?S)\<lparr>qf_extra_headers := x\<rparr>, c_out := c_out ?S @ [raw]\<rparr>"
    have "request_served now res S = Some (None, on_data (\<lambda>D. D\<lparr>qf_error := False\<rparr>) S3)"
      using 4 bs(1) w(1) unfolding request_served_def Let_def S3_def by simp
    moreover have "went_on S (on_data (\<lambda>D. D\<lparr>qf_error := False\<rparr>) S3)" "total_bytes (c_in S3) + ?h \<le> total_bytes (c_in S)"
      using w(2) S(2-4) bs(3) suf tb by (auto simp: S3_def went_on_def date_ok_def)
    ultimately show ?thesis by auto
  qed
qed

lemma request_finished_ok:
  assumes "clock_ok now" "date_ok S"
  shows "\<exists>ret S'. request_finished now S = Some (ret, S') \<and> date_ok S' \<and> c_in S' = c_in S \<and> word (c_data S') = word (c_data S) \<and>
    c_ip S' = c_ip S \<and> (ret = None \<longrightarrow> parse_state (c_data S') = htqp_start) \<and>
    (qf_error (c_data S) \<and> c_pending S = 0 \<longrightarrow> ret \<noteq> None)"
proof (cases "qf_error (c_data S)")
  case True
  let ?S = "on_data (\<lambda>D. D\<lparr>qf_keepalive := False\<rparr>) S"
  have "date_ok ?S" using assms(2) by (simp add: date_ok_def)
  from write_http_error_ok [OF assms(1) this, of 400] obtain raw nd x where w: "write_http_error now ?S 400 =
      Some (?S\<lparr>now_date := nd, c_data := (c_data ?S)\<lparr>qf_extra_headers := x\<rparr>, c_out := c_out ?S @ [raw]\<rparr>)" "length (snd nd) \<le> 29" by blast
  then show ?thesis using True by (auto simp: request_finished_def connection_write_close_def date_ok_def)
next
  case False
  then show ?thesis using assms(2) by (auto simp: request_finished_def connection_write_close_def date_ok_def)
qed

lemma request_done_ok:
  assumes "clock_ok now" "date_ok S" "[] \<notin> set (c_in S)" "header_size (c_data S) \<le> total_bytes (c_in S)"
    "qf_error (c_data S) \<or> 0 < header_size (c_data S)" "qf_error (c_data S) \<or> \<not> oversized (c_data S)"
    "int (total_bytes (c_in S)) < 2 ^ 31" "c_pending S = 0"
  shows "\<exists>ret S'. request_done exec now S = Some (ret, S') \<and> went_on S S' \<and>
    (ret = None \<longrightarrow> parse_state (c_data S') = htqp_start \<and> total_bytes (c_in S') < total_bytes (c_in S))"
proof -
  define T where "T = (if header_size (c_data S) \<ge> MAX_HTTP_HEADER_SIZE then on_data (\<lambda>D. D\<lparr>qf_error := True\<rparr>) S else S)"
  have T: "date_ok T" "c_in T = c_in S" "word (c_data T) = word (c_data S)" "c_ip T = c_ip S" "header_size (c_data T) = header_size (c_data S)" "c_pending T = 0"
    using assms(2,8) by (simp_all add: T_def date_ok_def)
  show ?thesis
  proof (cases "qf_error (c_data T)")
    case False
    then have n: "\<not> qf_error (c_data S)" "T = S" "header_size (c_data S) < MAX_HTTP_HEADER_SIZE" by (auto simp: T_def split: if_splits)
    from serve_ok [OF assms(1,2) n(3) assms(4) _ assms(7)] assms(6) n obtain res S1 where s: "serve exec now S = Some (res, S1)" "kept S S1" by blast
    define S2 where "S2 = S1\<lparr>http_queries := http_queries S1 + 1,
        http_queries_size := http_queries_size S1 + wrap_int (int (header_size (c_data S1)) + data_size (c_data S1))\<rparr>"
    have S2: "date_ok S2" "c_in S2 = c_in S" "header_size (c_data S2) = header_size (c_data S)" "word (c_data S2) = word (c_data S)" "c_ip S2 = c_ip S"
      using s(2) by (simp_all add: S2_def kept_def date_ok_def)
    from request_served_ok [OF assms(1) S2(1), of res] S2 assms(3,4) obtain ret S3 where r: "request_served now res S2 = Some (ret, S3)" "went_on S2 S3"
      "ret = None \<longrightarrow> total_bytes (c_in S3) + header_size (c_data S) \<le> total_bytes (c_in S)" by auto
    have w: "went_on S S3" using r(2) S2 by (simp add: went_on_def)
    have d: "request_done exec now S = (case ret of Some r \<Rightarrow> Some (Some r, S3) | None \<Rightarrow> request_finished now S3)"
      using n s(1) r(1) unfolding request_done_def by (simp add: T_def [symmetric] S2_def [symmetric] Let_def)
    show ?thesis
    proof (cases ret)
      case None
      from request_finished_ok [OF assms(1), of S3] r(2) obtain ret' S' where f: "request_finished now S3 = Some (ret', S')" "date_ok S'" "c_in S' = c_in S3"
        "word (c_data S') = word (c_data S3)" "c_ip S' = c_ip S3" "ret' = None \<longrightarrow> parse_state (c_data S') = htqp_start" by (auto simp: went_on_def)
      have "went_on S S'" using w f by (simp add: went_on_def)
      moreover have "total_bytes (c_in S') < total_bytes (c_in S)" using r(3) None f(3) assms(5) n(1) by simp
      ultimately show ?thesis using d None f(1,6) by simp
    qed (use d w in simp)
  next
    case True
    from skip_in_ok [of "header_size (c_data T)" T] T assms(3,4) obtain bs where bs: "skip_in (header_size (c_data T)) T = Some (T\<lparr>c_in := bs\<rparr>)"
      "concat bs = drop (header_size (c_data T)) (concat (c_in S))" "[] \<notin> set bs" by auto
    let ?S = "T\<lparr>c_in := bs, http_bad_headers := http_bad_headers T + 1\<rparr>"
    have "date_ok ?S" using T by (simp add: date_ok_def)
    from request_finished_ok [OF assms(1) this] True T(6) obtain ret' S' where f: "request_finished now ?S = Some (ret', S')" "date_ok S'" "c_in S' = bs"
        "word (c_data S') = word (c_data T)" "c_ip S' = c_ip T" "ret' \<noteq> None" by auto
    have "request_done exec now S = Some (ret', S')" using True bs(1) f(1) unfolding request_done_def by (simp add: T_def [symmetric] Let_def)
    moreover have "suffix (concat bs) (concat (c_in S))" unfolding bs(2) by (rule suffix_drop)
    then have "went_on S S'" using f bs T by (simp add: went_on_def)
    ultimately show ?thesis using f(6) by auto
  qed
qed

text \<open>The loop returns, leaving a suffix of the input.\<close>

definition returns :: "int \<Rightarrow> http_state \<Rightarrow> bytes list \<Rightarrow> bool" where
  "returns now S raw \<longleftrightarrow>
     (\<exists>r S'. hts_parse_loop exec now S raw = Some (r, S') \<and> suffix (concat (c_in S')) (concat (c_in S)) \<and> c_ip S' = c_ip S)"

lemma loop_request:
  assumes clock: "clock_ok now" and run: "may_run S (b # raw)" "c_working S" "c_pending S = 0" "\<not> c_stop S"
    and p: "http_parse_data (c_data S) b = Some (n, D)" "http_ok D" "length (word D) = 16" "parse_state D = htqp_done"
    and d: "n \<le> length b" "header_size D \<le> total_bytes (c_in S)" "\<not> qf_error D \<and> oversized D \<longrightarrow> oversized_seen (concat (c_in S))"
    and IH: "\<And>S'. total_bytes (c_in S') < total_bytes (c_in S) \<Longrightarrow> may_run S' (c_in S') \<Longrightarrow> returns now S' (c_in S')"
  shows "returns now S (b # raw)"
proof -
  let ?S = "S\<lparr>c_data := D\<rparr>"
  have "n \<le> total_bytes (b # raw)" using d by (simp add: total_bytes_def)
  from skip_blocks_ok [OF this] obtain raw1 where sk: "skip_blocks n (b # raw) = Some raw1" by blast
  have S: "date_ok ?S" "[] \<notin> set (c_in ?S)" "header_size (c_data ?S) \<le> total_bytes (c_in ?S)" "qf_error (c_data ?S) \<or> 0 < header_size (c_data ?S)"
    "qf_error (c_data ?S) \<or> \<not> oversized (c_data ?S)" "int (total_bytes (c_in ?S)) < 2 ^ 31" "c_pending ?S = 0"
    using run d p by (auto simp: date_ok_def http_ok_def may_run_def)
  from request_done_ok [OF clock S] obtain ret S' where r: "request_done exec now ?S = Some (ret, S')" "went_on ?S S'"
    "ret = None \<longrightarrow> parse_state (c_data S') = htqp_start \<and> total_bytes (c_in S') < total_bytes (c_in ?S)" by blast
  have w: "date_ok S'" "[] \<notin> set (c_in S')" "suffix (concat (c_in S')) (concat (c_in S))" "length (word (c_data S')) = 16" "c_ip S' = c_ip S"
    using r(2) p(3) by (simp_all add: went_on_def)
  have step: "hts_parse_loop exec now S (b # raw) = (case ret of Some r \<Rightarrow> Some (r, S') | None \<Rightarrow> hts_parse_loop exec now S' (c_in S'))"
    using run(2-) p(1,4) sk r(1) by (simp add: hts_parse_loop.simps [of exec now S])
  show ?thesis
  proof (cases ret)
    case None
    then have t: "total_bytes (c_in S') < total_bytes (c_in S)" "feeding S' (c_in S')" using r(3) w(4) feeding_start by auto
    have "\<not> oversized_seen (concat (c_in S'))" using oversized_seen_suffix w(3) run(1) by (auto simp: may_run_def)
    then have "may_run S' (c_in S')" using t w run(1) by (simp add: may_run_def)
    from IH [OF t(1) this] obtain r S'' where i: "hts_parse_loop exec now S' (c_in S') = Some (r, S'')"
      "suffix (concat (c_in S'')) (concat (c_in S'))" "c_ip S'' = c_ip S'" by (auto simp: returns_def)
    then have "suffix (concat (c_in S'')) (concat (c_in S))" using w(3) suffix_order.trans by blast
    then show ?thesis using step None i w(5) by (simp add: returns_def)
  qed (use step w in \<open>auto simp: returns_def\<close>)
qed

lemma loop_blocks:
  assumes clock: "clock_ok now"
    and IH: "\<And>S'. total_bytes (c_in S') < N \<Longrightarrow> may_run S' (c_in S') \<Longrightarrow> returns now S' (c_in S')"
  shows "may_run S raw \<Longrightarrow> total_bytes (c_in S) = N \<Longrightarrow> returns now S raw"
proof (induction raw arbitrary: S)
  case Nil
  then show ?case by (simp add: hts_parse_loop.simps returns_def)
next
  case (Cons b raw)
  show ?case
  proof (cases "c_working S \<and> c_pending S = 0 \<and> \<not> c_stop S")
    case False
    then show ?thesis by (auto simp: hts_parse_loop.simps returns_def)
  next
    case run: True
    obtain n D where p: "http_parse_data (c_data S) b = Some (n, D)" "http_ok D" "length (word D) = 16"
      "parse_state D \<noteq> htqp_done \<longrightarrow> skip_blocks n (b # raw) = Some raw \<and> feeding (S\<lparr>c_data := D\<rparr>) raw"
      "parse_state D = htqp_done \<longrightarrow> n \<le> length b \<and> header_size D \<le> total_bytes (c_in S) \<and>
        (\<not> qf_error D \<and> oversized D \<longrightarrow> oversized_seen (concat (c_in S)))"
      using Cons.prems(1) unfolding may_run_def by (blast elim: feeding_block)
    show ?thesis
    proof (cases "parse_state D = htqp_done")
      case False
      have "hts_parse_loop exec now S (b # raw) = hts_parse_loop exec now (S\<lparr>c_data := D\<rparr>) raw"
        using run p(1,4) False by (simp add: hts_parse_loop.simps [of exec now S])
      moreover have "may_run (S\<lparr>c_data := D\<rparr>) raw" using Cons.prems(1) p(4) False by (simp add: may_run_def date_ok_def)
      ultimately show ?thesis using Cons.IH [of "S\<lparr>c_data := D\<rparr>"] Cons.prems(2) by (simp add: returns_def)
    next
      case True
      show ?thesis
        by (rule loop_request [OF clock Cons.prems(1) _ _ _ p(1-3) True]) (use run p(5) True IH Cons.prems(2) in auto)
    qed
  qed
qed

lemma loop_ok: "clock_ok now \<Longrightarrow> may_run S raw \<Longrightarrow> returns now S raw"
proof (induction "total_bytes (c_in S)" arbitrary: S raw rule: less_induct)
  case less
  then show ?case by (intro loop_blocks [of now "total_bytes (c_in S)" S raw]) blast+
qed

lemma parse_execute_ok:
  assumes "clock_ok now" "date_ok S" "[] \<notin> set (c_in S)" "length (word (c_data S)) = 16" "int (total_bytes (c_in S)) < 2 ^ 31"
    "\<not> oversized_seen (concat (c_in S))"
  shows "\<exists>r S'. hts_parse_execute (Some exec) now S = Some (r, S') \<and> suffix (concat (c_in S')) (concat (c_in S)) \<and> c_ip S' = c_ip S"
proof -
  let ?S = "on_data (\<lambda>D. D\<lparr>parse_state := htqp_start\<rparr>) S"
  have "date_ok ?S" using assms(2) by (simp add: date_ok_def)
  moreover have "feeding ?S (c_in ?S)" using assms(4) by (intro feeding_start) simp_all
  ultimately have "may_run ?S (c_in ?S)" using assms(3,5,6) by (simp add: may_run_def)
  from loop_ok [OF assms(1) this] show ?thesis by (simp add: hts_parse_execute_def Let_def returns_def)
qed

end

interpretation by_default: http_service hts_default_execute
  by unfold_locales (auto simp: hts_default_execute_def kept_def date_ok_def Let_def)

interpretation stats: http_service "hts_stats_execute pages bufs mem acl"
proof
  fix now :: int and S :: http_state and msg :: bytes and op :: hts_query_type
  assume a: "clock_ok now" "date_ok S" "header_size (c_data S) < MAX_HTTP_HEADER_SIZE" "header_size (c_data S) \<le> length msg"
  have k: "kept S S" "kept S (on_data (\<lambda>D. D\<lparr>qf_keepalive := False\<rparr>) S)" using a(2) by (simp_all add: kept_def date_ok_def)
  have w: "\<exists>h S1. write_basic_http_header_raw now S 200 0 len add ctype = Some (h, S1) \<and> kept S S1 \<and> kept S (S1\<lparr>c_out := c_out S1 @ [h @ body]\<rparr>)" for len add ctype body
    using write_header_ok [OF a(1,2), of 200 len add ctype] by (fastforce simp: kept_def date_ok_def)
  show "\<exists>res S'. hts_stats_execute pages bufs mem acl now op msg S = Some (res, S') \<and> kept S S'"
  proof (cases "page_of_uri (slice (uri_offset (c_data S)) (uri_size (c_data S)) (take (header_size (c_data S)) msg))")
    case None
    then show ?thesis using a k by (auto simp: hts_stats_execute_def Let_def)
  next
    case (Some pg)
    let ?b = "pages pg (slice (host_offset (c_data S)) (host_size (c_data S)) (take (header_size (c_data S)) msg))"
    from w [of "int (length ?b)" None "Some (page_type pg)" ?b] obtain h S1 where "write_basic_http_header_raw now S 200 0 (int (length ?b)) None (Some (page_type pg)) = Some (h, S1)"
      "kept S S1" "kept S (S1\<lparr>c_out := c_out S1 @ [h @ ?b]\<rparr>)" by blast
    then show ?thesis using Some a k by (auto simp: hts_stats_execute_def Let_def)
  qed
qed

subsection \<open>Oversized requests\<close>

lemma wrap_int_over:
  assumes "2 ^ 31 \<le> x" "x < 2 ^ 32 + 2 ^ 31"
  shows "wrap_int x = x - 2 ^ 32"
proof -
  have "(x + 2 ^ 31) mod 2 ^ 32 = (x - 2 ^ 31 + 2 ^ 32) mod 2 ^ 32" by (simp add: algebra_simps)
  also have "\<dots> = (x - 2 ^ 31) mod 2 ^ 32" by (rule mod_add_self2)
  also have "\<dots> = x - 2 ^ 31" using assms by (intro mod_pos_pos_trivial) simp_all
  finally show ?thesis by (simp add: wrap_int_def)
qed

lemma rwm_trunc_oversized:
  assumes "len < 0" "- (2 ^ 31) \<le> len" "int (length m) - len \<ge> 2 ^ 31" "int (length m) < 2 ^ 31"
  shows "rwm_trunc m len = None"
proof -
  have "wrap_int (int (length m) - len) = int (length m) - len - 2 ^ 32" using assms by (intro wrap_int_over) simp_all
  then show ?thesis using assms by (simp add: rwm_trunc_def rwm_fetch_data_back_def)
qed

lemma serve_oversized:
  assumes "query_type (c_data S) = htqt_post" "0 \<le> data_size (c_data S)" "data_size (c_data S) < 2 ^ 31"
    "int (header_size (c_data S)) + data_size (c_data S) \<ge> 2 ^ 31" "header_size (c_data S) \<le> total_bytes (c_in S)" "int (total_bytes (c_in S)) < 2 ^ 31"
  shows "serve exec now S = None"
proof -
  define n where "n = int (header_size (c_data S)) + data_size (c_data S)"
  have n: "wrap_int n = n - 2 ^ 32" unfolding n_def using assms by (intro wrap_int_over) simp_all
  have "rwm_trunc (concat (c_in S)) (n - 2 ^ 32) = None"
    by (rule rwm_trunc_oversized) (use assms in \<open>simp_all add: n_def total_bytes_def\<close>)
  moreover have "n - 2 ^ 32 < int (total_bytes (c_in S))" using assms by (simp add: n_def)
  ultimately show ?thesis using assms(1,2) n by (simp add: serve_def Let_def n_def [symmetric])
qed

text \<open>The first turn of the loop on a block that holds a whole request.\<close>

lemma loop_first_request:
  assumes "wf_request q" "c_in S = (request_text q @ body) # bs" "c_working S" "c_pending S = 0" "\<not> c_stop S"
  shows "\<exists>D. parsed_as q D \<and> hts_parse_execute (Some exec) now S =
    Option.bind (request_done exec now (S\<lparr>c_data := D\<rparr>))
      (\<lambda>(ret, S2). case ret of Some r \<Rightarrow> Some (r, S2) | None \<Rightarrow> hts_parse_loop exec now S2 (c_in S2))"
proof -
  let ?S = "on_data (\<lambda>D. D\<lparr>parse_state := htqp_start\<rparr>) S"
  have "parse_state (c_data ?S) = htqp_start" by simp
  from request_parsed_as [OF assms(1) this, of body] obtain D where
    p: "http_loop (c_data ?S) (request_text q @ body) = Some (D, body)" "parse_state D = htqp_done" "parsed_as q D" by blast
  have pd: "http_parse_data (c_data ?S) (request_text q @ body) = Some (length (request_text q), D)"
    using p by (simp add: http_parse_data_def)
  obtain raw1 where sk: "skip_blocks (length (request_text q)) ((request_text q @ body) # bs) = Some raw1"
    using skip_blocks_ok [of "length (request_text q)" "(request_text q @ body) # bs"] by (auto simp: total_bytes_def)
  have "hts_parse_loop exec now ?S (c_in ?S) = Option.bind (request_done exec now (S\<lparr>c_data := D\<rparr>))
      (\<lambda>(ret, S2). case ret of Some r \<Rightarrow> Some (r, S2) | None \<Rightarrow> hts_parse_loop exec now S2 (c_in S2))"
    using assms(2-) pd p(2) sk by (simp add: hts_parse_loop.simps [of exec now ?S])
  then show ?thesis using p(3) by (auto simp: hts_parse_execute_def Let_def)
qed

lemma length_bound:
  assumes "wf_request q" "lengths (rq_headers q) = [n]"
  shows "n \<le> 2147483639"
proof -
  have "n \<in> set (lengths (rq_headers q))" using assms(2) by simp
  then have "Content_Length n \<in> set (rq_headers q)" by (auto simp: lengths_def split: http_header.splits)
  then have "wf_header (Content_Length n)" using assms(1) by (auto simp: wf_request_def list_all_iff)
  then show ?thesis by simp
qed

text \<open>C17: (an oversized length ends the server). A well-formed POST request whose Content-Length, at most the largest
  value the parser accepts, exceeds 2 to the 31 together with the header makes the sum that
  \<open>hts_parse_execute\<close> computes wrap to a negative number, and the assertion of
  \<open>rwm_fetch_data_back\<close> that truncates the message fails, whatever serves the requests and whatever follows.\<close>

theorem oversized_post_aborts:
  assumes "wf_request q" "rq_method q = htqt_post" "lengths (rq_headers q) = [n]" "length (request_text q) + n \<ge> 2 ^ 31"
    "c_in S = (request_text q @ body) # bs" "c_working S" "c_pending S = 0" "\<not> c_stop S" "total_bytes (c_in S) < 2 ^ 31"
  shows "hts_parse_execute (Some exec) now S = None"
proof -
  from loop_first_request [OF assms(1,5-8)] obtain D where D: "parsed_as q D" and p: "hts_parse_execute (Some exec) now S =
    Option.bind (request_done exec now (S\<lparr>c_data := D\<rparr>))
      (\<lambda>(ret, S2). case ret of Some r \<Rightarrow> Some (r, S2) | None \<Rightarrow> hts_parse_loop exec now S2 (c_in S2))" by blast
  have D: "query_type D = htqt_post" "data_size D = int n" "header_size D = length (request_text q)" "\<not> qf_error D"
    using D assms(2,3) by (simp_all add: parsed_as_def)
  have n: "int n < 2 ^ 31" using length_bound [OF assms(1,3)] by simp
  have "header_size D < MAX_HTTP_HEADER_SIZE" using assms(1) D(3) by (simp add: wf_request_def)
  moreover have "serve exec now (S\<lparr>c_data := D\<rparr>) = None"
    using assms(4,5,9) D n by (intro serve_oversized) (simp_all add: total_bytes_def)
  ultimately have "request_done exec now (S\<lparr>c_data := D\<rparr>) = None" using D(4) by (simp add: request_done_def Let_def)
  then show ?thesis using p by simp
qed

definition new_http_state :: "bytes list \<Rightarrow> u32 \<Rightarrow> http_state" where
  "new_http_state bs ip = \<lparr>c_in = bs, c_working = True, c_stop = False, c_pending = 0, c_data = new_hts_data, c_out = [], c_ip = ip,
     now_date = (0, ascii ''Thu, 01 Jan 1970 00:00:00 GMT''), extra_headers = [], http_queries = 0, http_bad_headers = 0, http_queries_size = 0\<rparr>"

definition oversized_request :: http_request where
  "oversized_request = \<lparr>rq_method = htqt_post, rq_uri = ascii ''/a'', rq_v11 = True, rq_headers = [Content_Length 2147483639]\<rparr>"

lemma length_oversized_request: "length (request_text oversized_request) = 48"
  by (simp add: oversized_request_def request_text_def request_line_def header_line_def method_text_def version_text_def CR_LF_def decimal.simps)

lemma oversized_request_wf: "wf_request oversized_request"
  using length_oversized_request
  by (simp add: wf_request_def oversized_request_def plain_word_def lengths_def MAX_HTTP_HEADER_SIZE_def)

theorem oversized_post_aborts_witness:
  "hts_parse_execute (Some hts_default_execute) 0 (new_http_state [request_text oversized_request] 0) = None"
proof (rule oversized_post_aborts [OF oversized_request_wf, where n = 2147483639 and body = "[]" and bs = "[]"])
  show "2 ^ 31 \<le> length (request_text oversized_request) + 2147483639" using length_oversized_request by simp
  show "total_bytes (c_in (new_http_state [request_text oversized_request] 0)) < 2 ^ 31"
    using length_oversized_request by (simp add: new_http_state_def total_bytes_def)
qed (simp_all add: oversized_request_def lengths_def new_http_state_def)

subsection \<open>Only those allowed see the pages\<close>

lemma write_http_error_ip: "write_http_error now S code = Some S' \<Longrightarrow> c_ip S' = c_ip S"
  by (auto simp: write_http_error_def write_http_error_raw_def write_basic_http_header_raw_def cur_http_date_def Let_def
      split: bind_splits if_splits prod.splits)

lemma skip_in_ip: "skip_in n S = Some S' \<Longrightarrow> c_ip S' = c_ip S"
  by (auto simp: skip_in_def split: bind_splits)

lemma request_served_ip: "request_served now res S = Some (ret, S') \<Longrightarrow> c_ip S' = c_ip S"
  by (auto simp: request_served_def Let_def split: bind_splits if_splits dest!: skip_in_ip write_http_error_ip)

lemma request_finished_ip: "request_finished now S = Some (ret, S') \<Longrightarrow> c_ip S' = c_ip S"
  by (auto simp: request_finished_def connection_write_close_def split: bind_splits if_splits dest!: write_http_error_ip)

lemma hts_stats_execute_ip: "hts_stats_execute pages bufs mem acl now op msg S = Some (res, S') \<Longrightarrow> c_ip S' = c_ip S"
  by (auto simp: hts_stats_execute_def write_basic_http_header_raw_def cur_http_date_def Let_def
      split: bind_splits if_splits prod.splits option.splits)

lemma serve_ip:
  "(\<And>op msg S res S'. exec now op msg S = Some (res, S') \<Longrightarrow> c_ip S' = c_ip S) \<Longrightarrow> serve exec now S = Some (res, S') \<Longrightarrow> c_ip S' = c_ip S"
  by (auto simp: serve_def Let_def split: bind_splits if_splits)

lemma request_done_ip:
  assumes "\<And>op msg S res S'. exec now op msg S = Some (res, S') \<Longrightarrow> c_ip S' = c_ip S" "request_done exec now S = Some (ret, S')"
  shows "c_ip S' = c_ip S"
proof -
  have "c_ip T' = c_ip T" if "serve exec now T = Some (res, T')" for T res T'
    by (rule serve_ip [OF _ that]) (rule assms(1))
  with assms(2) show ?thesis unfolding request_done_def Let_def
    by (auto split: bind_splits if_splits option.splits dest!: skip_in_ip request_finished_ip request_served_ip)
qed

lemma request_done_cong:
  assumes "\<And>op msg S'. c_ip S' = c_ip S \<Longrightarrow> e1 now op msg S' = e2 now op msg S'"
  shows "request_done e1 now S = request_done e2 now S"
proof -
  have "serve e1 now T = serve e2 now T" if "c_ip T = c_ip S" for T using assms that by (simp add: serve_def Let_def)
  then show ?thesis unfolding request_done_def Let_def by (intro if_cong) (simp_all split: if_splits)
qed

lemma loop_simulates:
  assumes e: "\<And>op msg S. c_ip S = ip \<Longrightarrow> e1 now op msg S = e2 now op msg S"
    and k: "\<And>op msg S res S'. e1 now op msg S = Some (res, S') \<Longrightarrow> c_ip S' = c_ip S"
  shows "hts_parse_loop exec t S raw = Some y \<Longrightarrow> exec = e1 \<longrightarrow> t = now \<longrightarrow> c_ip S = ip \<longrightarrow> hts_parse_loop e2 now S raw = Some y"
  apply (erule hts_parse_loop.raw_induct [where P = "\<lambda>exec t S raw y. exec = e1 \<longrightarrow> t = now \<longrightarrow> c_ip S = ip \<longrightarrow> hts_parse_loop e2 now S raw = Some y", rotated])
  subgoal premises prems for f exec t S raw y
  proof (intro impI)
    assume p: "exec = e1" "t = now" "c_ip S = ip"
    show "hts_parse_loop e2 now S raw = Some y"
    proof (cases "c_working S \<and> c_pending S = 0 \<and> raw \<noteq> [] \<and> \<not> c_stop S")
      case False
      then show ?thesis using prems(2) by (auto simp: hts_parse_loop.simps [of e2] split: if_splits)
    next
      case run: True
      with prems(2) obtain n D raw1 where h: "http_parse_data (c_data S) (hd raw) = Some (n, D)" "skip_blocks n raw = Some raw1"
        and b: "(if parse_state D = htqp_done then Option.bind (request_done e1 now (S\<lparr>c_data := D\<rparr>))
            (\<lambda>(ret, S2). case ret of Some r \<Rightarrow> Some (r, S2) | None \<Rightarrow> f e1 now S2 (c_in S2)) else f e1 now (S\<lparr>c_data := D\<rparr>) raw1) = Some y"
        unfolding p by (auto simp: Let_def split: bind_splits)
      have c: "request_done e1 now (S\<lparr>c_data := D\<rparr>) = request_done e2 now (S\<lparr>c_data := D\<rparr>)"
        by (rule request_done_cong) (use p(3) e in simp)
      show ?thesis
      proof (cases "parse_state D = htqp_done")
        case False
        then have "f e1 now (S\<lparr>c_data := D\<rparr>) raw1 = Some y" using b by simp
        from prems(1) [OF this] p(3) have "hts_parse_loop e2 now (S\<lparr>c_data := D\<rparr>) raw1 = Some y" by simp
        then show ?thesis using run h False by (simp add: hts_parse_loop.simps [of e2 now S])
      next
        case True
        with b obtain ret S2 where r: "request_done e1 now (S\<lparr>c_data := D\<rparr>) = Some (ret, S2)"
          "(case ret of Some r \<Rightarrow> Some (r, S2) | None \<Rightarrow> f e1 now S2 (c_in S2)) = Some y" by (auto split: bind_splits)
        have "c_ip S2 = ip" using request_done_ip [OF k r(1)] p(3) by simp
        then have "(case ret of Some r \<Rightarrow> Some (r, S2) | None \<Rightarrow> hts_parse_loop e2 now S2 (c_in S2)) = Some y"
          using r(2) prems(1) by (auto split: option.splits)
        then show ?thesis using run h True r(1) c by (simp add: hts_parse_loop.simps [of e2 now S])
      qed
    qed
  qed
  done

lemma stats_pages_simulate:
  assumes "\<not> is_private_ip (c_ip S)" "\<not> ip_acl_check_stats_v4 acl (c_ip S)"
    "hts_parse_execute (Some (hts_stats_execute pages bufs mem acl)) now S = Some y"
  shows "hts_parse_execute (Some (hts_stats_execute pages' bufs mem acl)) now S = Some y"
proof -
  let ?e = "\<lambda>pages. hts_stats_execute pages bufs mem acl"
  have "?e pages now op msg T = ?e pages' now op msg T" if "c_ip T = c_ip S" for op msg T
    using assms(1,2) that by (simp add: hts_stats_execute_def Let_def)
  from loop_simulates [of "c_ip S" "?e pages" now "?e pages'", OF this hts_stats_execute_ip] assms(3) show ?thesis
    by (auto simp: hts_parse_execute_def Let_def)
qed

text \<open>C21: (the pages are confidential). What the server does with the input of a connection from an address that is
  neither private nor allowed to see the statistics does not depend on the pages: with any other pages the
  replies, the state and the result are the same.\<close>

theorem stats_pages_confidential:
  assumes "\<not> is_private_ip (c_ip S)" "\<not> ip_acl_check_stats_v4 acl (c_ip S)"
  shows "hts_parse_execute (Some (hts_stats_execute pages bufs mem acl)) now S
       = hts_parse_execute (Some (hts_stats_execute pages' bufs mem acl)) now S"
proof (cases "hts_parse_execute (Some (hts_stats_execute pages bufs mem acl)) now S")
  case None
  then show ?thesis using stats_pages_simulate [OF assms, of pages' bufs mem now _ pages] by (metis not_None_eq)
next
  case (Some y)
  then show ?thesis using stats_pages_simulate [OF assms, of pages bufs mem now y pages'] by simp
qed

definition empty_acl :: acl_state where
  "empty_acl = \<lparr>current_blocklist = None, current_allowlist = None, stats_allowlist = None, blocklist_file = None, allowlist_file = None\<rparr>"

theorem stats_pages_confidential_witness:
  "hts_parse_execute (Some (hts_stats_execute (\<lambda>_ _. [1]) True True empty_acl)) 0 (new_http_state [request_text sample_request] 0x08080808)
     = hts_parse_execute (Some (hts_stats_execute (\<lambda>_ _. [2]) True True empty_acl)) 0 (new_http_state [request_text sample_request] 0x08080808)"
  by (rule stats_pages_confidential)
    (simp_all add: new_http_state_def is_private_ip_def ip_acl_check_stats_v4_def acl_contains_v4_def empty_acl_def drop_bit_eq_div)

text \<open>C19: (the HTTP server returns). On any input that fits an \<open>int\<close>, cut into any blocks, the server
  ends its loop and no assertion fails, unless the input holds an oversized POST, both with the handler
  that serves the statistics and with the default handler of a connection type that has none of its
  own; what is left of the input is a suffix of it, and the address of the client is kept. The time fits
  32 bits and the cached date has at most 29 bytes, as every one the server makes.\<close>

theorem http_server_returns:
  assumes "now < 2 ^ 31" "date_ok S" "[] \<notin> set (c_in S)" "length (word (c_data S)) = 16" "total_bytes (c_in S) < 2 ^ 31"
    "\<not> oversized_seen (concat (c_in S))"
    and handler: "exec = None \<or> exec = Some (hts_stats_execute pages bufs mem acl)"
  shows "\<exists>r S'. hts_parse_execute exec now S = Some (r, S') \<and> suffix (concat (c_in S')) (concat (c_in S)) \<and> c_ip S' = c_ip S"
proof -
  have n: "int (total_bytes (c_in S)) < 2 ^ 31" using assms(5) by simp
  have "hts_parse_execute None now S = hts_parse_execute (Some hts_default_execute) now S"
    by (simp add: hts_parse_execute_def)
  then show ?thesis
    using handler stats.parse_execute_ok [OF assms(1-4) n assms(6), of pages bufs mem acl]
      by_default.parse_execute_ok [OF assms(1-4) n assms(6)] by metis
qed

lemma small_request_not_oversized:
  "\<not> oversized_seen (concat (c_in (new_http_state [[0x47, 0x45], [0x54]] 0)))"
proof -
  have "parse_state D \<noteq> htqp_done" if "suffix rest [0x47, 0x45, 0x54]" "parse_state D0 = htqp_start" "http_loop D0 rest = Some (D, r)" for rest D0 D r
  proof -
    from that(1) consider "rest = []" | "rest = [0x54]" | "rest = [0x45, 0x54]" | "rest = [0x47, 0x45, 0x54]" by (auto simp: suffix_Cons)
    then show ?thesis using that(2,3) by cases (auto simp: http_loop.simps [of D0] do_readtospace_def http_start_def)
  qed
  then show ?thesis unfolding oversized_seen_def new_http_state_def by fastforce
qed

theorem http_server_returns_witness:
  "(\<exists>r S'. hts_parse_execute None 5 (new_http_state [[0x47, 0x45], [0x54]] 0) = Some (r, S')) \<and>
   (\<exists>r S'. hts_parse_execute (Some (hts_stats_execute (\<lambda>_ _. [1]) True True empty_acl)) 5
       (new_http_state [[0x47, 0x45], [0x54]] 0) = Some (r, S'))"
proof -
  let ?S = "new_http_state [[0x47, 0x45], [0x54]] 0"
  have S: "5 < (2 ^ 31 :: int)" "date_ok ?S" "[] \<notin> set (c_in ?S)" "length (word (c_data ?S)) = 16" "total_bytes (c_in ?S) < 2 ^ 31"
    by (simp_all add: new_http_state_def date_ok_def total_bytes_def new_hts_data_def)
  note r = http_server_returns [OF S small_request_not_oversized, of _ "\<lambda>_ _. [1]" True True empty_acl]
  show ?thesis using r [of None] r [of "Some (hts_stats_execute (\<lambda>_ _. [1]) True True empty_acl)"] by blast
qed

subsection \<open>Those allowed see them\<close>

lemma write_header_200:
  assumes "clock_ok now" "date_ok S" "HTTP_V10 \<le> http_ver (c_data S)"
  shows "\<exists>h nd. write_basic_http_header_raw now S 200 0 len add ctype =
      Some (h, S\<lparr>now_date := nd, c_data := (c_data S)\<lparr>qf_extra_headers := False\<rparr>\<rparr>) \<and> length (snd nd) \<le> 29 \<and> prefix (line ''HTTP/1.1 200 OK'') h"
proof -
  obtain b where b: "gen_http_date now = Some b" "length b = 29" using gen_http_date_ok [OF assms(1)] by blast
  define nd where "nd = (if fst (now_date S) \<noteq> now then (now, b) else now_date S)"
  have nd: "length (snd nd) \<le> 29" using b assms(2) by (simp add: nd_def date_ok_def)
  have c: "cur_http_date now S = Some (snd nd, S\<lparr>now_date := nd\<rparr>)" using b by (simp add: cur_http_date_def nd_def)
  have m: "http_get_error_msg_text 200 = (''OK'', 200)" by (simp add: http_get_error_msg_text_def)
  have l: "length (header_text D extra 200 ''OK'' (snd nd) add ctype) < 4096 - 64" for D extra
    by (rule header_text_length [OF m nd])
  have p: "prefix (line ''HTTP/1.1 200 OK'') (header_text D extra 200 ''OK'' (snd nd) add ctype @ t)" for D extra t
    by (simp add: header_text_def line_def decimal.simps)
  have "\<exists>h. write_basic_http_header_raw now S 200 0 len add ctype =
      Some (h, S\<lparr>now_date := nd, c_data := (c_data S)\<lparr>qf_extra_headers := False\<rparr>\<rparr>) \<and> prefix (line ''HTTP/1.1 200 OK'') h"
    using assms(3) l p unfolding write_basic_http_header_raw_def by (simp add: m c Let_def)
  then show ?thesis using nd by blast
qed

lemma stats_execute_page:
  assumes c: "clock_ok now" "date_ok S" and a: "is_private_ip (c_ip S) \<or> ip_acl_check_stats_v4 acl (c_ip S)"
    and D: "parsed_as q (c_data S)" "wf_request q" "rq_method q = htqt_get" "lengths (rq_headers q) = []" "page_of_uri (rq_uri q) = Some pg"
  shows "\<exists>h nd. hts_stats_execute pages True True acl now htqt_get (request_text q) S =
      Some (0, S\<lparr>now_date := nd, c_data := (c_data S)\<lparr>qf_extra_headers := False\<rparr>, c_out := c_out S @ [h @ pages pg (request_host q)]\<rparr>) \<and>
      length (snd nd) \<le> 29 \<and> prefix (line ''HTTP/1.1 200 OK'') h"
proof -
  have "HTTP_V10 \<le> http_ver (c_data S)" using D(1) by (simp add: parsed_as_def HTTP_V10_def HTTP_V11_def)
  from write_header_200 [OF c this, of "int (length (pages pg (request_host q)))" None "Some (page_type pg)"] obtain h nd where
    h: "write_basic_http_header_raw now S 200 0 (int (length (pages pg (request_host q)))) None (Some (page_type pg)) =
      Some (h, S\<lparr>now_date := nd, c_data := (c_data S)\<lparr>qf_extra_headers := False\<rparr>\<rparr>)" "length (snd nd) \<le> 29" "prefix (line ''HTTP/1.1 200 OK'') h" by blast
  have "hts_stats_execute pages True True acl now htqt_get (request_text q) S =
      Some (0, S\<lparr>now_date := nd, c_data := (c_data S)\<lparr>qf_extra_headers := False\<rparr>, c_out := c_out S @ [h @ pages pg (request_host q)]\<rparr>)"
    using a D h(1) by (auto simp: hts_stats_execute_def Let_def parsed_as_def wf_request_def)
  then show ?thesis using h(2,3) by blast
qed

text \<open>C39: (a page is served). A well-formed GET request for one of the pages, without a body, from an address that is
  private or allowed, is answered with status 200 and the page, made for the host the request names; the input is
  consumed, and the connection stays open exactly when the request says keep-alive.\<close>

theorem stats_page_served:
  assumes "wf_request q" "rq_method q = htqt_get" "lengths (rq_headers q) = []" "page_of_uri (rq_uri q) = Some pg"
    "is_private_ip (c_ip S) \<or> ip_acl_check_stats_v4 acl (c_ip S)"
    "c_in S = [request_text q]" "c_working S" "c_pending S = 0" "\<not> c_stop S" "now < 2 ^ 31" "date_ok S"
  shows "\<exists>r S' h. hts_parse_execute (Some (hts_stats_execute pages True True acl)) now S = Some (r, S') \<and>
    c_out S' = c_out S @ [h @ pages pg (request_host q)] \<and> prefix (line ''HTTP/1.1 200 OK'') h \<and>
    c_in S' = [] \<and> c_working S' = list_ex keeps_alive (rq_headers q)"
proof -
  let ?exec = "hts_stats_execute pages True True acl"
  have "c_in S = (request_text q @ []) # []" using assms(6) by simp
  from loop_first_request [OF assms(1) this assms(7-9), of ?exec now] obtain D where D: "parsed_as q D" and p: "hts_parse_execute (Some ?exec) now S =
    Option.bind (request_done ?exec now (S\<lparr>c_data := D\<rparr>))
      (\<lambda>(ret, S2). case ret of Some r \<Rightarrow> Some (r, S2) | None \<Rightarrow> hts_parse_loop ?exec now S2 (c_in S2))" by blast
  let ?S = "S\<lparr>c_data := D\<rparr>"
  have "date_ok ?S" "is_private_ip (c_ip ?S) \<or> ip_acl_check_stats_v4 acl (c_ip ?S)" "parsed_as q (c_data ?S)"
    using assms(5,11) D by (simp_all add: date_ok_def)
  from stats_execute_page [OF assms(10) this assms(1-4), of pages] obtain h nd where
    x: "?exec now htqt_get (request_text q) ?S = Some (0, ?S\<lparr>now_date := nd, c_data := (c_data ?S)\<lparr>qf_extra_headers := False\<rparr>,
      c_out := c_out ?S @ [h @ pages pg (request_host q)]\<rparr>)"
    "prefix (line ''HTTP/1.1 200 OK'') h" by blast
  let ?T = "S\<lparr>now_date := nd, c_data := D\<lparr>qf_extra_headers := False\<rparr>, c_out := c_out S @ [h @ pages pg (request_host q)]\<rparr>"
  have Df: "\<not> qf_error D" "header_size D = length (request_text q)" "query_type D = htqt_get" "data_size D = -1" "qf_keepalive D = list_ex keeps_alive (rq_headers q)"
    "header_size D < MAX_HTTP_HEADER_SIZE" using D assms(1-3) by (simp_all add: parsed_as_def wf_request_def)
  have sv: "serve ?exec now ?S = Some (0, ?T)" using x(1) Df assms(6) by (simp add: serve_def Let_def total_bytes_def)
  have "request_text q \<noteq> []" by (simp add: request_text_def CR_LF_def)
  then have sk: "skip_blocks (length (request_text q)) [request_text q] = Some []" by (cases "request_text q") simp_all
  show ?thesis
  proof (cases "list_ex keeps_alive (rq_headers q)")
    case True
    then show ?thesis using p sv sk Df x(2) assms(6-8)
      by (simp add: request_done_def request_served_def request_finished_def skip_in_def hts_parse_loop.simps)
  next
    case False
    then show ?thesis using p sv sk Df x(2) assms(6-8)
      by (simp add: request_done_def request_served_def request_finished_def skip_in_def connection_write_close_def)
  qed
qed

definition stats_request :: http_request where
  "stats_request = \<lparr>rq_method = htqt_get, rq_uri = ascii ''/stats'', rq_v11 = False, rq_headers = []\<rparr>"

lemma stats_request_wf: "wf_request stats_request"
  by (simp add: wf_request_def stats_request_def plain_word_def lengths_def request_text_def request_line_def
      method_text_def version_text_def CR_LF_def MAX_HTTP_HEADER_SIZE_def)

theorem stats_page_served_witness:
  "\<exists>r S' h. hts_parse_execute (Some (hts_stats_execute (\<lambda>_ _. [7]) True True empty_acl)) 5 (new_http_state [request_text stats_request] 0x7F000001) = Some (r, S') \<and>
    c_out S' = [h @ [7]] \<and> prefix (line ''HTTP/1.1 200 OK'') h"
  using stats_page_served [OF stats_request_wf, of Page_stats "new_http_state [request_text stats_request] 0x7F000001" empty_acl 5 "\<lambda>_ _. [7]"]
  by (force simp: stats_request_def lengths_def page_of_uri_def new_http_state_def is_private_ip_def drop_bit_eq_div date_ok_def)

end
