(* ===== verification/Srv_Timers.thy ===== *)
theory Srv_Timers
  imports T3_Prelude Complex_Main
begin

text \<open>
  The timers, \<open>server/src/net/net-timers.c\<close>: a binary heap of pointers to timers, ordered by the time of the alarm,
  in an array that is used from index one on; every timer knows its index. The timers themselves are a store
  that the array points into. A time is a real number, and \<open>rnd\<close> is the rounding of a floating-point result.
  \<open>None\<close> is a failed assertion or an access outside the array.
\<close>

definition MAX_EVENT_TIMERS :: nat where "MAX_EVENT_TIMERS = 2 ^ 19"

record event_timer =
  h_idx :: nat
  wakeup_time :: real
  real_wakeup_time :: real

text \<open>\<open>et_heap\<close> is \<open>None\<close> before the first use; a slot that was never written is \<open>None\<close>.\<close>

record 'p timers =
  timer :: "'p \<Rightarrow> event_timer"
  et_heap :: "'p option list option"
  et_heap_size :: nat
  event_timer_insert_ops :: int
  event_timer_remove_ops :: int
  event_timer_alarms :: int
  total_timers :: int

definition alloc_heap :: "'p timers \<Rightarrow> 'p timers" where
  "alloc_heap T = (case et_heap T of None \<Rightarrow> T\<lparr>et_heap := Some (replicate MAX_EVENT_TIMERS None)\<rparr> | Some _ \<Rightarrow> T)"

text \<open>Reading the pointer at an index, writing one there, and the field \<open>h_idx\<close> behind a pointer.\<close>

definition get_timer :: "'p timers \<Rightarrow> nat \<Rightarrow> 'p option" where
  "get_timer T i = do { H \<leftarrow> et_heap T; if i < length H then H ! i else None }"

definition put_timer :: "nat \<Rightarrow> 'p \<Rightarrow> 'p timers \<Rightarrow> 'p timers option" where
  "put_timer i p T = do { H \<leftarrow> et_heap T; if i < length H then Some (T\<lparr>et_heap := Some (H[i := Some p])\<rparr>) else None }"

definition set_h_idx :: "'p \<Rightarrow> nat \<Rightarrow> 'p timers \<Rightarrow> 'p timers" where
  "set_h_idx p i T = T\<lparr>timer := (timer T)(p := (timer T p)\<lparr>h_idx := i\<rparr>)\<rparr>"

definition move_timer :: "'p \<Rightarrow> nat \<Rightarrow> 'p timers \<Rightarrow> 'p timers option" where
  "move_timer p i T = do { T1 \<leftarrow> put_timer i p T; Some (set_h_idx p i T1) }"

abbreviation time_of :: "'p timers \<Rightarrow> 'p \<Rightarrow> real" where
  "time_of T p \<equiv> wakeup_time (timer T p)"

fun adjust_up :: "'p timers \<Rightarrow> 'p \<Rightarrow> nat \<Rightarrow> ('p timers \<times> nat) option" where
  "adjust_up T et i =
     (if i > 1 then
        let j = i div 2 in
        do {
          q \<leftarrow> get_timer T j;
          if time_of T q \<le> time_of T et then Some (T, i)
          else do { T1 \<leftarrow> move_timer q i T; adjust_up T1 et j }
        }
      else Some (T, i))"

declare adjust_up.simps [simp del]

definition smaller_child :: "'p timers \<Rightarrow> nat \<Rightarrow> (nat \<times> 'p) option" where
  "smaller_child T j =
     do {
       q \<leftarrow> get_timer T j;
       if j < et_heap_size T then do { r \<leftarrow> get_timer T (j + 1); Some (if time_of T q > time_of T r then (j + 1, r) else (j, q)) }
       else Some (j, q)
     }"

partial_function (option) adjust_down :: "'p timers \<Rightarrow> 'p \<Rightarrow> nat \<Rightarrow> nat \<Rightarrow> ('p timers \<times> nat) option" where
  "adjust_down T et i j =
     (if j \<le> et_heap_size T then
        Option.bind (smaller_child T j) (\<lambda>(j, q).
          if time_of T et \<le> time_of T q then Some (T, i)
          else Option.bind (move_timer q i T) (\<lambda>T1. adjust_down T1 et j (2 * j)))
      else Some (T, i))"

definition basic_et_adjust :: "'p \<Rightarrow> nat \<Rightarrow> 'p timers \<Rightarrow> (nat \<times> 'p timers) option" where
  "basic_et_adjust et i T =
     do {
       (T1, i1) \<leftarrow> adjust_up T et i;
       (T2, i2) \<leftarrow> adjust_down T1 et i1 (2 * i1);
       T3 \<leftarrow> move_timer et i2 T2;
       Some (i2, T3)
     }"

definition insert_event_timer :: "'p \<Rightarrow> 'p timers \<Rightarrow> (nat \<times> 'p timers) option" where
  "insert_event_timer et T0 =
     (let T = alloc_heap T0;
          T = T\<lparr>event_timer_insert_ops := event_timer_insert_ops T + 1\<rparr>;
          i = h_idx (timer T et) in
      if i \<noteq> 0 then
        if i > 0 \<and> i \<le> et_heap_size T \<and> get_timer T i = Some et then basic_et_adjust et i T else None
      else
        let T = T\<lparr>total_timers := total_timers T + 1\<rparr> in
        if \<not> et_heap_size T < MAX_EVENT_TIMERS then None
        else
          let T = T\<lparr>et_heap_size := et_heap_size T + 1\<rparr> in
          basic_et_adjust et (et_heap_size T) T)"

definition remove_event_timer :: "'p \<Rightarrow> 'p timers \<Rightarrow> (int \<times> 'p timers) option" where
  "remove_event_timer et T0 =
     (let T = alloc_heap T0;
          i = h_idx (timer T et) in
      if i = 0 then Some (0, T)
      else
        let T = T\<lparr>total_timers := total_timers T - 1, event_timer_remove_ops := event_timer_remove_ops T + 1\<rparr> in
        if \<not> (i > 0 \<and> i \<le> et_heap_size T \<and> get_timer T i = Some et) then None
        else
          let T = set_h_idx et 0 T in
          do {
            last \<leftarrow> get_timer T (et_heap_size T);
            let T = T\<lparr>et_heap_size := et_heap_size T - 1\<rparr>;
            if i > et_heap_size T then Some (1, T)
            else do { (k, T) \<leftarrow> basic_et_adjust last i T; Some (1, T) }
          })"

definition timers_get_first :: "'p timers \<Rightarrow> real option" where
  "timers_get_first T =
     (if et_heap_size T = 0 then Some 0 else do { p \<leftarrow> get_timer T 1; Some (time_of T p) })"

text \<open>The wait in milliseconds; a value that does not fit an \<open>int\<close> has no meaning.\<close>

definition wait_ms :: "(real \<Rightarrow> real) \<Rightarrow> real \<Rightarrow> int option" where
  "wait_ms rnd wait_time = (let ms = \<lfloor>rnd (wait_time * 1000)\<rfloor> in if ms < 2 ^ 31 - 1 then Some (ms + 1) else None)"

text \<open>The function a timer calls acts on a world \<open>'w\<close> beside the timers.\<close>

type_synonym ('w, 'p) wakeup_fn = "'p \<Rightarrow> 'w \<times> 'p timers \<Rightarrow> ('w \<times> 'p timers) option"

partial_function (option) run_due :: "('w, 'p) wakeup_fn \<Rightarrow> real \<Rightarrow> 'w \<times> 'p timers \<Rightarrow> ('w \<times> 'p timers) option" where
  "run_due wakeup now wT =
     (let T = snd wT in
      if et_heap_size T > 0 then
        Option.bind (get_timer T 1) (\<lambda>et.
          if time_of T et \<le> now then
            if h_idx (timer T et) \<noteq> 1 then None
            else
              Option.bind (remove_event_timer et T) (\<lambda>(r, T1).
                Option.bind (wakeup et (fst wT, T1)) (\<lambda>(w2, T2).
                  run_due wakeup now (w2, T2\<lparr>event_timer_alarms := event_timer_alarms T2 + 1\<rparr>)))
          else Some wT)
      else Some wT)"

definition thread_run_timers ::
  "(real \<Rightarrow> real) \<Rightarrow> ('w, 'p) wakeup_fn \<Rightarrow> real \<Rightarrow> 'w \<times> 'p timers \<Rightarrow> (int \<times> 'w \<times> 'p timers) option" where
  "thread_run_timers rnd wakeup now wT0 =
     (let w = fst wT0; T = alloc_heap (snd wT0) in
      if et_heap_size T = 0 then Some (100000, w, T)
      else do {
        p \<leftarrow> get_timer T 1;
        let wait_time = rnd (time_of T p - now);
        if wait_time > 0 then do { ms \<leftarrow> wait_ms rnd wait_time; Some (ms, w, T) }
        else do {
          (w1, T1) \<leftarrow> run_due wakeup now (w, T);
          if et_heap_size T1 = 0 then Some (100000, w1, T1)
          else do {
            q \<leftarrow> get_timer T1 1;
            let wait_time = rnd (time_of T1 q - now);
            if wait_time > 0 then do { ms \<leftarrow> wait_ms rnd wait_time; Some (ms, w1, T1) }
            else None
          }
        }
      })"

text \<open>A job asks for its timer, \<open>server/src/jobs/jobs.c\<close>: the timer is set to the time asked for, or removed when that is not
  positive. The first component counts the references to the job that are taken. The function that a timer calls is not part
  of \<open>event_timer\<close> here, so that the assertion that a job's timer calls \<open>job_timer_wakeup_gateway\<close>, which
  \<open>job_timer_insert\<close> sets before it asks, is left out.\<close>

definition do_immediate_timer_insert :: "'p \<Rightarrow> 'p timers \<Rightarrow> (int \<times> 'p timers) option" where
  "do_immediate_timer_insert ev T =
     (let active = h_idx (timer T ev) > 0;
          r = real_wakeup_time (timer T ev) in
      if r > 0 then
        do {
          (k, T1) \<leftarrow> insert_event_timer ev (T\<lparr>timer := (timer T)(ev := (timer T ev)\<lparr>wakeup_time := r\<rparr>)\<rparr>);
          Some (if active then 0 else 1, T1)
        }
      else
        do {
          (k, T1) \<leftarrow> remove_event_timer ev (T\<lparr>timer := (timer T)(ev := (timer T ev)\<lparr>wakeup_time := 0\<rparr>)\<rparr>);
          Some (if active then -1 else 0, T1)
        })"

subsection \<open>The heap\<close>

text \<open>The pointers of the array and the timers know each other, except for a hole at index \<open>i\<close> and the timer
  \<open>et\<close> that is to go there.\<close>

definition linked :: "'p timers \<Rightarrow> 'p option \<Rightarrow> nat \<Rightarrow> bool" where
  "linked T et i \<longleftrightarrow> (\<exists>H. et_heap T = Some H \<and> length H = MAX_EVENT_TIMERS \<and> et_heap_size T < MAX_EVENT_TIMERS \<and>
     (\<forall>k. 1 \<le> k \<and> k \<le> et_heap_size T \<and> k \<noteq> i \<longrightarrow> (\<exists>p. H ! k = Some p \<and> h_idx (timer T p) = k \<and> Some p \<noteq> et)) \<and>
     (\<forall>p. Some p \<noteq> et \<and> h_idx (timer T p) \<noteq> 0 \<longrightarrow>
        h_idx (timer T p) \<le> et_heap_size T \<and> h_idx (timer T p) \<noteq> i \<and> H ! h_idx (timer T p) = Some p))"

text \<open>The time at an index.\<close>

definition time_at :: "'p timers \<Rightarrow> nat \<Rightarrow> real" where
  "time_at T k = time_of T (the (get_timer T k))"

definition ordered :: "'p timers \<Rightarrow> nat \<Rightarrow> bool" where
  "ordered T i \<longleftrightarrow>
     (\<forall>k. 2 \<le> k \<and> k \<le> et_heap_size T \<and> k \<noteq> i \<and> k div 2 \<noteq> i \<longrightarrow> time_at T (k div 2) \<le> time_at T k) \<and>
     (\<forall>k. 2 \<le> i \<and> k \<le> et_heap_size T \<and> k div 2 = i \<longrightarrow> time_at T (i div 2) \<le> time_at T k)"

definition timers_ok :: "'p timers \<Rightarrow> bool" where
  "timers_ok T \<longleftrightarrow> linked (alloc_heap T) None 0 \<and> ordered (alloc_heap T) 0 \<and> total_timers T = int (et_heap_size T)"

definition hole :: "'p timers \<Rightarrow> 'p \<Rightarrow> nat \<Rightarrow> bool" where
  "hole T et i \<longleftrightarrow> linked T (Some et) i \<and> ordered T i \<and> 1 \<le> i \<and> i \<le> et_heap_size T"

lemma linked_get:
  assumes "linked T et i" "1 \<le> k" "k \<le> et_heap_size T" "k \<noteq> i"
  obtains p where "get_timer T k = Some p" "h_idx (timer T p) = k" "Some p \<noteq> et" "time_at T k = time_of T p"
proof -
  from assms obtain H p where "et_heap T = Some H" "length H = MAX_EVENT_TIMERS" "et_heap_size T < MAX_EVENT_TIMERS"
    "H ! k = Some p" "h_idx (timer T p) = k" "Some p \<noteq> et" unfolding linked_def by blast
  then show thesis using that [of p] assms(3) by (simp add: get_timer_def time_at_def)
qed

text \<open>Moving a timer into the hole moves the hole to where it was.\<close>

lemma move_timer_result:
  assumes l: "linked T (Some et) i" and i: "i \<le> et_heap_size T" and q: "get_timer T j = Some q" "h_idx (timer T q) = j" "q \<noteq> et" and j: "j \<noteq> 0" "j \<noteq> i" "j \<le> et_heap_size T" "i \<noteq> 0"
  obtains T1 where "move_timer q i T = Some T1" "linked T1 (Some et) j" "et_heap_size T1 = et_heap_size T"
    "\<And>p. time_of T1 p = time_of T p" "\<And>k. k \<noteq> i \<Longrightarrow> time_at T1 k = time_at T k" "time_at T1 i = time_at T j"
    "\<And>p. p \<noteq> q \<Longrightarrow> timer T1 p = timer T p" "h_idx (timer T1 q) = i"
proof -
  from l obtain H where H: "et_heap T = Some H" "length H = MAX_EVENT_TIMERS" "et_heap_size T < MAX_EVENT_TIMERS"
    "\<And>k. 1 \<le> k \<Longrightarrow> k \<le> et_heap_size T \<Longrightarrow> k \<noteq> i \<Longrightarrow> \<exists>p. H ! k = Some p \<and> h_idx (timer T p) = k \<and> p \<noteq> et"
    "\<And>p. p \<noteq> et \<Longrightarrow> h_idx (timer T p) \<noteq> 0 \<Longrightarrow> h_idx (timer T p) \<le> et_heap_size T \<and> h_idx (timer T p) \<noteq> i \<and> H ! h_idx (timer T p) = Some p"
    unfolding linked_def by auto
  define T1 where "T1 = set_h_idx q i (T\<lparr>et_heap := Some (H[i := Some q])\<rparr>)"
  have m: "move_timer q i T = Some T1" using H i by (simp add: move_timer_def put_timer_def T1_def)
  have t: "time_of T1 p = time_of T p" for p by (simp add: T1_def set_h_idx_def)
  have g: "get_timer T1 k = (if k = i then Some q else get_timer T k)" for k using H i by (simp add: T1_def set_h_idx_def get_timer_def)
  have "linked T1 (Some et) j"
    unfolding linked_def
  proof (intro exI [of _ "H[i := Some q]"] conjI allI impI)
    fix k assume k: "1 \<le> k \<and> k \<le> et_heap_size T1 \<and> k \<noteq> j"
    show "\<exists>p. H[i := Some q] ! k = Some p \<and> h_idx (timer T1 p) = k \<and> Some p \<noteq> Some et"
    proof (cases "k = i")
      case True
      then show ?thesis using H i q(3) by (auto simp: T1_def set_h_idx_def)
    next
      case False
      with H(4) [of k] k obtain p where p: "H ! k = Some p" "h_idx (timer T p) = k" "p \<noteq> et" by (auto simp: T1_def set_h_idx_def)
      then have "p \<noteq> q" using q(2) k by auto
      then show ?thesis using p False by (auto simp: T1_def set_h_idx_def)
    qed
  next
    fix p assume p: "Some p \<noteq> Some et \<and> h_idx (timer T1 p) \<noteq> 0"
    have "h_idx (timer T1 p) \<le> et_heap_size T1 \<and> h_idx (timer T1 p) \<noteq> j \<and> H[i := Some q] ! h_idx (timer T1 p) = Some p"
    proof (cases "p = q")
      case True
      then show ?thesis using H(2,3) i j by (simp add: T1_def set_h_idx_def)
    next
      case False
      then have e: "h_idx (timer T1 p) = h_idx (timer T p)" by (simp add: T1_def set_h_idx_def)
      have n: "h_idx (timer T p) \<le> et_heap_size T" "h_idx (timer T p) \<noteq> i" "H ! h_idx (timer T p) = Some p" using H(5) [of p] p e by auto
      have "h_idx (timer T p) \<noteq> j" using n(3) q(1) False H(1-3) j(3) by (auto simp: get_timer_def)
      then show ?thesis using n e by (simp add: T1_def set_h_idx_def)
    qed
    then show "h_idx (timer T1 p) \<le> et_heap_size T1" "h_idx (timer T1 p) \<noteq> j" "H[i := Some q] ! h_idx (timer T1 p) = Some p" by auto
  qed (use H in \<open>simp_all add: T1_def set_h_idx_def\<close>)
  moreover have "et_heap_size T1 = et_heap_size T" "h_idx (timer T1 q) = i" "\<And>p. p \<noteq> q \<Longrightarrow> timer T1 p = timer T p" by (simp_all add: T1_def set_h_idx_def)
  ultimately show thesis using that [of T1] m t g q(1) by (simp add: time_at_def)
qed

text \<open>What the adjustment leaves as it is: the times, and which timers are in the heap.\<close>

definition same_timers :: "'p \<Rightarrow> 'p timers \<Rightarrow> 'p timers \<Rightarrow> bool" where
  "same_timers et T T1 \<longleftrightarrow> et_heap_size T1 = et_heap_size T \<and> total_timers T1 = total_timers T \<and> event_timer_alarms T1 = event_timer_alarms T \<and>
     (\<forall>p. time_of T1 p = time_of T p \<and> real_wakeup_time (timer T1 p) = real_wakeup_time (timer T p)) \<and>
     (\<forall>p. p \<noteq> et \<longrightarrow> (h_idx (timer T1 p) \<noteq> 0) = (h_idx (timer T p) \<noteq> 0))"

lemma same_timers_refl [simp]: "same_timers et T T"
  by (simp add: same_timers_def)

lemma same_timers_trans: "same_timers et T T1 \<Longrightarrow> same_timers et T1 T2 \<Longrightarrow> same_timers et T T2"
  by (simp add: same_timers_def)

lemma hole_move:
  assumes h: "hole T et i" and q: "get_timer T j = Some q" and j: "1 \<le> j" "j \<le> et_heap_size T" "j \<noteq> i"
  obtains T1 where "move_timer q i T = Some T1" "linked T1 (Some et) j" "same_timers et T T1"
    "\<And>k. k \<noteq> i \<Longrightarrow> time_at T1 k = time_at T k" "time_at T1 i = time_at T j"
proof -
  have l: "linked T (Some et) i" "1 \<le> i" "i \<le> et_heap_size T" using h by (auto simp: hole_def)
  obtain p where "get_timer T j = Some p" "h_idx (timer T p) = j" "Some p \<noteq> Some et" "time_at T j = time_of T p"
    by (rule linked_get [OF l(1) j])
  then have hq: "h_idx (timer T q) = j" "q \<noteq> et" using q by auto
  obtain T1 where t: "move_timer q i T = Some T1" "linked T1 (Some et) j" "et_heap_size T1 = et_heap_size T"
    "\<And>p. time_of T1 p = time_of T p" "\<And>k. k \<noteq> i \<Longrightarrow> time_at T1 k = time_at T k" "time_at T1 i = time_at T j"
    "\<And>p. p \<noteq> q \<Longrightarrow> timer T1 p = timer T p" "h_idx (timer T1 q) = i"
    by (rule move_timer_result [OF l(1) l(3) q hq]) (use j l in auto)
  have "total_timers T1 = total_timers T" "event_timer_alarms T1 = event_timer_alarms T" "real_wakeup_time (timer T1 p) = real_wakeup_time (timer T p)" for p
    using t(1) by (auto simp: move_timer_def put_timer_def set_h_idx_def split: bind_splits if_splits)
  moreover have "(h_idx (timer T1 p) \<noteq> 0) = (h_idx (timer T p) \<noteq> 0)" for p using t(7,8) hq(1) j(1) l(2) by (cases "p = q") auto
  ultimately have "same_timers et T T1" using t(3,4) by (simp add: same_timers_def)
  then show thesis using that t by blast
qed

lemma ordered_up:
  assumes o: "ordered T i" and i: "2 \<le> i" "i \<le> et_heap_size T" and s: "et_heap_size T1 = et_heap_size T"
    and t: "\<And>k. k \<noteq> i \<Longrightarrow> time_at T1 k = time_at T k" "time_at T1 i = time_at T (i div 2)"
  shows "ordered T1 (i div 2)"
proof -
  let ?j = "i div 2"
  have ji: "?j < i" "?j div 2 < i" using i by auto
  have C: "time_at T (k div 2) \<le> time_at T k" if "2 \<le> k" "k \<le> et_heap_size T" "k \<noteq> i" "k div 2 \<noteq> i" for k using o that by (simp add: ordered_def)
  have D: "time_at T ?j \<le> time_at T k" if "k \<le> et_heap_size T" "k div 2 = i" for k using o that i by (auto simp: ordered_def)
  show ?thesis unfolding ordered_def s
  proof (intro conjI allI impI)
    fix k assume k: "2 \<le> k \<and> k \<le> et_heap_size T \<and> k \<noteq> ?j \<and> k div 2 \<noteq> ?j"
    then have "k \<noteq> i" by auto
    then show "time_at T1 (k div 2) \<le> time_at T1 k" using k t C [of k] D [of k] by (cases "k div 2 = i") auto
  next
    fix k assume k: "2 \<le> ?j \<and> k \<le> et_heap_size T \<and> k div 2 = ?j"
    have up: "time_at T (?j div 2) \<le> time_at T ?j" using k i ji by (intro C) auto
    have "time_at T1 (?j div 2) = time_at T (?j div 2)" using ji by (intro t(1)) simp
    moreover have "time_at T ?j \<le> time_at T1 k"
    proof (cases "k = i")
      case False
      then show ?thesis using C [of k] k t(1) [of k] ji by auto
    qed (simp add: t)
    ultimately show "time_at T1 (?j div 2) \<le> time_at T1 k" using up by simp
  qed
qed

lemma ordered_down:
  assumes o: "ordered T i" and c: "c div 2 = i" "1 \<le> i" "c \<le> et_heap_size T" and s: "et_heap_size T1 = et_heap_size T"
    and t: "\<And>k. k \<noteq> i \<Longrightarrow> time_at T1 k = time_at T k" "time_at T1 i = time_at T c"
    and m: "\<And>k. k \<le> et_heap_size T \<Longrightarrow> k div 2 = i \<Longrightarrow> time_at T c \<le> time_at T k"
  shows "ordered T1 c"
proof -
  have ci: "i < c" using c(1,2) by linarith
  have C: "time_at T (k div 2) \<le> time_at T k" if "2 \<le> k" "k \<le> et_heap_size T" "k \<noteq> i" "k div 2 \<noteq> i" for k using o that by (simp add: ordered_def)
  show ?thesis unfolding ordered_def s
  proof (intro conjI allI impI)
    fix k assume k: "2 \<le> k \<and> k \<le> et_heap_size T \<and> k \<noteq> c \<and> k div 2 \<noteq> c"
    consider "k = i" | "k div 2 = i" "k \<noteq> i" | "k \<noteq> i" "k div 2 \<noteq> i" by blast
    then show "time_at T1 (k div 2) \<le> time_at T1 k"
    proof cases
      case 1
      then have "time_at T (i div 2) \<le> time_at T c" using o k c by (auto simp: ordered_def)
      moreover have "i div 2 \<noteq> i" using c(2) by simp
      ultimately show ?thesis using 1 t by simp
    next
      case 2
      then show ?thesis using k t m [of k] by simp
    next
      case 3
      then show ?thesis using k t C [of k] by simp
    qed
  next
    fix k assume k: "2 \<le> c \<and> k \<le> et_heap_size T \<and> k div 2 = c"
    then have "k \<noteq> i" "k div 2 \<noteq> i" "2 \<le> k" using ci by auto
    then show "time_at T1 (c div 2) \<le> time_at T1 k" using C [of k] k t c(1) by simp
  qed
qed

lemma adjust_up_ok:
  "hole T et i \<Longrightarrow> \<exists>T1 i1. adjust_up T et i = Some (T1, i1) \<and> hole T1 et i1 \<and> same_timers et T T1 \<and>
     (i1 = 1 \<or> time_at T1 (i1 div 2) \<le> time_of T1 et)"
proof (induction i arbitrary: T rule: less_induct)
  case (less i)
  have h: "linked T (Some et) i" "ordered T i" "1 \<le> i" "i \<le> et_heap_size T" using less.prems by (auto simp: hole_def)
  show ?case
  proof (cases "i = 1")
    case True
    then show ?thesis using less.prems by (simp add: adjust_up.simps [of T et "Suc 0"])
  next
    case False
    then have i: "2 \<le> i" "1 \<le> i div 2" "i div 2 < i" using h(3) by auto
    obtain q where q: "get_timer T (i div 2) = Some q" "h_idx (timer T q) = i div 2" "Some q \<noteq> Some et" "time_at T (i div 2) = time_of T q"
      by (rule linked_get [OF h(1) i(2)]) (use h i in auto)
    show ?thesis
    proof (cases "time_of T q \<le> time_of T et")
      case True
      then show ?thesis using less.prems q i(1) by (simp add: adjust_up.simps [of T et i])
    next
      case False
      obtain T1 where T1: "move_timer q i T = Some T1" "linked T1 (Some et) (i div 2)" "same_timers et T T1"
        "\<And>k. k \<noteq> i \<Longrightarrow> time_at T1 k = time_at T k" "time_at T1 i = time_at T (i div 2)"
        by (rule hole_move [OF less.prems q(1) i(2)]) (use h i in auto)
      have "ordered T1 (i div 2)" by (rule ordered_up [OF h(2) i(1) h(4) _ T1(4,5)]) (use T1(3) in \<open>simp_all add: same_timers_def\<close>)
      then have "hole T1 et (i div 2)" using T1(2,3) i h(4) by (simp add: hole_def same_timers_def)
      from less.IH [OF i(3) this] obtain T2 i2 where "adjust_up T1 et (i div 2) = Some (T2, i2)" "hole T2 et i2" "same_timers et T1 T2"
        "i2 = 1 \<or> time_at T2 (i2 div 2) \<le> time_of T2 et" by blast
      then show ?thesis using False q(1) T1(1,3) i(1) same_timers_trans by (auto simp: adjust_up.simps [of T et i])
    qed
  qed
qed

lemma smaller_child_ok:
  assumes h: "hole T et i" and c: "2 * i \<le> et_heap_size T"
  obtains k q where "smaller_child T (2 * i) = Some (k, q)" "k div 2 = i" "k \<le> et_heap_size T" "get_timer T k = Some q"
    "time_at T k = time_of T q" "\<And>k'. k' \<le> et_heap_size T \<Longrightarrow> k' div 2 = i \<Longrightarrow> time_at T k \<le> time_at T k'"
proof -
  have l: "linked T (Some et) i" "1 \<le> i" using h by (auto simp: hole_def)
  obtain q where q: "get_timer T (2 * i) = Some q" "h_idx (timer T q) = 2 * i" "Some q \<noteq> Some et" "time_at T (2 * i) = time_of T q"
    by (rule linked_get [OF l(1), of "2 * i"]) (use l c in auto)
  have two: "k' = 2 * i \<or> k' = 2 * i + 1" if "k' div 2 = i" for k' using that by linarith
  show thesis
  proof (cases "2 * i < et_heap_size T")
    case True
    obtain r where r: "get_timer T (2 * i + 1) = Some r" "h_idx (timer T r) = 2 * i + 1" "Some r \<noteq> Some et" "time_at T (2 * i + 1) = time_of T r"
      by (rule linked_get [OF l(1), of "2 * i + 1"]) (use l True in auto)
    show thesis
    proof (cases "time_of T q > time_of T r")
      case gt: True
      show thesis
      proof (rule that [of "2 * i + 1" r])
        fix k' assume "k' div 2 = i"
        then show "time_at T (2 * i + 1) \<le> time_at T k'" using two [of k'] q(4) r(4) gt by auto
      qed (use q r True gt in \<open>simp_all add: smaller_child_def\<close>)
    next
      case le: False
      show thesis
      proof (rule that [of "2 * i" q])
        fix k' assume "k' div 2 = i"
        then show "time_at T (2 * i) \<le> time_at T k'" using two [of k'] q(4) r(4) le by auto
      qed (use q r True le c in \<open>simp_all add: smaller_child_def\<close>)
    qed
  next
    case False
    show thesis
    proof (rule that [of "2 * i" q])
      fix k' assume "k' \<le> et_heap_size T" "k' div 2 = i"
      then show "time_at T (2 * i) \<le> time_at T k'" using two [of k'] False by auto
    qed (use q False c in \<open>simp_all add: smaller_child_def\<close>)
  qed
qed

lemma adjust_down_ok:
  "hole T et i \<Longrightarrow> i = 1 \<or> time_at T (i div 2) \<le> time_of T et \<Longrightarrow>
     \<exists>T1 i1. adjust_down T et i (2 * i) = Some (T1, i1) \<and> hole T1 et i1 \<and> same_timers et T T1 \<and>
       (i1 = 1 \<or> time_at T1 (i1 div 2) \<le> time_of T1 et) \<and> (\<forall>k. k \<le> et_heap_size T1 \<and> k div 2 = i1 \<longrightarrow> time_of T1 et \<le> time_at T1 k)"
proof (induction "et_heap_size T - i" arbitrary: T i rule: less_induct)
  case less
  have h: "linked T (Some et) i" "ordered T i" "1 \<le> i" "i \<le> et_heap_size T" using less.prems by (auto simp: hole_def)
  show ?case
  proof (cases "2 * i \<le> et_heap_size T")
    case False
    then have "\<forall>k. k \<le> et_heap_size T \<and> k div 2 = i \<longrightarrow> time_of T et \<le> time_at T k" by auto
    then show ?thesis using False less.prems by (simp add: adjust_down.simps [of T])
  next
    case True
    obtain c q where c: "smaller_child T (2 * i) = Some (c, q)" "c div 2 = i" "c \<le> et_heap_size T" "get_timer T c = Some q"
      "time_at T c = time_of T q" "\<And>k'. k' \<le> et_heap_size T \<Longrightarrow> k' div 2 = i \<Longrightarrow> time_at T c \<le> time_at T k'"
      using smaller_child_ok [OF less.prems(1) True] by blast
    have ci: "i < c" "1 \<le> c" "c \<noteq> i" using c(2) h(3) by auto
    show ?thesis
    proof (cases "time_of T et \<le> time_of T q")
      case le: True
      have "time_of T et \<le> time_at T k" if "k \<le> et_heap_size T \<and> k div 2 = i" for k using that le c(5,6) by fastforce
      then show ?thesis using le True c(1) less.prems by (simp add: adjust_down.simps [of T])
    next
      case gt: False
      obtain T1 where T1: "move_timer q i T = Some T1" "linked T1 (Some et) c" "same_timers et T T1"
        "\<And>k. k \<noteq> i \<Longrightarrow> time_at T1 k = time_at T k" "time_at T1 i = time_at T c"
        using hole_move [OF less.prems(1) c(4) ci(2) c(3) ci(3)] by blast
      have s: "et_heap_size T1 = et_heap_size T" "time_of T1 et = time_of T et" using T1(3) by (simp_all add: same_timers_def)
      have "ordered T1 c" by (rule ordered_down [OF h(2) c(2) h(3) c(3) s(1) T1(4,5) c(6)])
      then have h1: "hole T1 et c" using T1(2) s ci c(3) by (simp add: hole_def)
      have "et_heap_size T1 - c < et_heap_size T - i" using s ci c(3) by linarith
      moreover have "c = 1 \<or> time_at T1 (c div 2) \<le> time_of T1 et" using T1(5) c(2,5) gt s(2) by simp
      ultimately obtain T2 i2 where "adjust_down T1 et c (2 * c) = Some (T2, i2)" "hole T2 et i2" "same_timers et T1 T2"
        "i2 = 1 \<or> time_at T2 (i2 div 2) \<le> time_of T2 et" "\<forall>k. k \<le> et_heap_size T2 \<and> k div 2 = i2 \<longrightarrow> time_of T2 et \<le> time_at T2 k"
        using less.hyps [of T1 c] h1 by blast
      moreover from this(1) have "adjust_down T et i (2 * i) = Some (T2, i2)" using gt True c(1) T1(1) by (simp add: adjust_down.simps [of T])
      ultimately show ?thesis using same_timers_trans [OF T1(3)] by blast
    qed
  qed
qed

lemma place_ok:
  assumes h: "hole T et i" and up: "i = 1 \<or> time_at T (i div 2) \<le> time_of T et"
    and dn: "\<And>k. k \<le> et_heap_size T \<Longrightarrow> k div 2 = i \<Longrightarrow> time_of T et \<le> time_at T k"
  shows "\<exists>T1. move_timer et i T = Some T1 \<and> linked T1 None 0 \<and> ordered T1 0 \<and> same_timers et T T1 \<and> h_idx (timer T1 et) = i"
proof -
  from h obtain H where H: "et_heap T = Some H" "length H = MAX_EVENT_TIMERS" "et_heap_size T < MAX_EVENT_TIMERS"
    "\<And>k. 1 \<le> k \<Longrightarrow> k \<le> et_heap_size T \<Longrightarrow> k \<noteq> i \<Longrightarrow> \<exists>p. H ! k = Some p \<and> h_idx (timer T p) = k \<and> p \<noteq> et"
    "\<And>p. p \<noteq> et \<Longrightarrow> h_idx (timer T p) \<noteq> 0 \<Longrightarrow> h_idx (timer T p) \<le> et_heap_size T \<and> h_idx (timer T p) \<noteq> i \<and> H ! h_idx (timer T p) = Some p"
    and i: "1 \<le> i" "i \<le> et_heap_size T" and o: "ordered T i"
    unfolding hole_def linked_def by auto
  define T1 where "T1 = set_h_idx et i (T\<lparr>et_heap := Some (H[i := Some et])\<rparr>)"
  have m: "move_timer et i T = Some T1" using H i by (simp add: move_timer_def put_timer_def T1_def)
  have t: "time_of T1 p = time_of T p" for p by (simp add: T1_def set_h_idx_def)
  have a: "time_at T1 k = (if k = i then time_of T et else time_at T k)" for k
    using H i t by (simp add: time_at_def get_timer_def) (simp add: T1_def set_h_idx_def)
  have "linked T1 None 0" unfolding linked_def
  proof (intro exI [of _ "H[i := Some et]"] conjI allI impI)
    fix k assume "1 \<le> k \<and> k \<le> et_heap_size T1 \<and> k \<noteq> 0"
    then show "\<exists>p. H[i := Some et] ! k = Some p \<and> h_idx (timer T1 p) = k \<and> Some p \<noteq> None"
      using H(2,3) H(4) [of k] i by (cases "k = i") (auto simp: T1_def set_h_idx_def)
  next
    fix p assume "Some p \<noteq> None \<and> h_idx (timer T1 p) \<noteq> 0"
    then have "h_idx (timer T1 p) \<le> et_heap_size T1 \<and> H[i := Some et] ! h_idx (timer T1 p) = Some p"
      using H(2,3) H(5) [of p] i by (cases "p = et") (auto simp: T1_def set_h_idx_def)
    then show "h_idx (timer T1 p) \<le> et_heap_size T1" "H[i := Some et] ! h_idx (timer T1 p) = Some p" by auto
  qed (use H in \<open>auto simp: T1_def set_h_idx_def\<close>)
  moreover have "ordered T1 0"
  proof -
    have "time_at T1 (k div 2) \<le> time_at T1 k" if k: "2 \<le> k" "k \<le> et_heap_size T" for k
    proof -
      consider "k = i" | "k div 2 = i" "k \<noteq> i" | "k \<noteq> i" "k div 2 \<noteq> i" by blast
      then show ?thesis
      proof cases
        case 1
        moreover have "k div 2 \<noteq> k" using k by linarith
        ultimately show ?thesis using up k a by auto
      next
        case 2
        then show ?thesis using dn [OF k(2)] a by simp
      next
        case 3
        then show ?thesis using o k a by (simp add: ordered_def)
      qed
    qed
    then show ?thesis by (auto simp: ordered_def T1_def set_h_idx_def)
  qed
  moreover have "same_timers et T T1" "h_idx (timer T1 et) = i" by (simp_all add: same_timers_def T1_def set_h_idx_def)
  ultimately show ?thesis using m by blast
qed

lemma basic_et_adjust_ok:
  assumes "hole T et i"
  shows "\<exists>k T1. basic_et_adjust et i T = Some (k, T1) \<and> linked T1 None 0 \<and> ordered T1 0 \<and> same_timers et T T1 \<and> h_idx (timer T1 et) = k \<and> k \<noteq> 0"
proof -
  from adjust_up_ok [OF assms] obtain T1 i1 where u: "adjust_up T et i = Some (T1, i1)" "hole T1 et i1" "same_timers et T T1"
     "i1 = 1 \<or> time_at T1 (i1 div 2) \<le> time_of T1 et" by blast
  from adjust_down_ok [OF u(2,4)] obtain T2 i2 where d: "adjust_down T1 et i1 (2 * i1) = Some (T2, i2)" "hole T2 et i2" "same_timers et T1 T2"
     "i2 = 1 \<or> time_at T2 (i2 div 2) \<le> time_of T2 et" "\<forall>k. k \<le> et_heap_size T2 \<and> k div 2 = i2 \<longrightarrow> time_of T2 et \<le> time_at T2 k" by blast
  have "time_of T2 et \<le> time_at T2 k" if "k \<le> et_heap_size T2" "k div 2 = i2" for k using d(5) that by blast
  from place_ok [OF d(2,4) this] obtain T3 where p: "move_timer et i2 T2 = Some T3" "linked T3 None 0" "ordered T3 0" "same_timers et T2 T3" "h_idx (timer T3 et) = i2" by blast
  have "basic_et_adjust et i T = Some (i2, T3)" using u(1) d(1) p(1) by (simp add: basic_et_adjust_def)
  moreover have "same_timers et T T3" by (rule same_timers_trans [OF same_timers_trans [OF u(3) d(3)] p(4)])
  moreover have "i2 \<noteq> 0" using d(2) by (simp add: hole_def)
  ultimately show ?thesis using p by (intro exI [of _ i2] exI [of _ T3] conjI)
qed

subsection \<open>The operations\<close>

lemma alloc_heap_simps [simp]:
  "timer (alloc_heap T) = timer T" "et_heap_size (alloc_heap T) = et_heap_size T" "total_timers (alloc_heap T) = total_timers T"
  "alloc_heap (alloc_heap T) = alloc_heap T" "event_timer_alarms (alloc_heap T) = event_timer_alarms T"
  by (simp_all add: alloc_heap_def split: option.splits)

lemma linked_alloc: "linked T et i \<Longrightarrow> alloc_heap T = T"
  by (auto simp: linked_def alloc_heap_def)

text \<open>The timers that are set, with their times.\<close>

definition active :: "'p timers \<Rightarrow> 'p \<rightharpoonup> real" where
  "active T p = (if h_idx (timer T p) = 0 then None else Some (time_of T p))"

text \<open>The heap is in order but for the time of one timer, which may have changed.\<close>

definition nearly_ok :: "'p timers \<Rightarrow> 'p \<Rightarrow> bool" where
  "nearly_ok T p \<longleftrightarrow> linked (alloc_heap T) None 0 \<and> ordered (alloc_heap T) (h_idx (timer T p)) \<and> total_timers T = int (et_heap_size T)"

lemma ordered_any: "ordered T 0 \<Longrightarrow> ordered T i"
proof -
  assume o: "ordered T 0"
  have C: "time_at T (k div 2) \<le> time_at T k" if "2 \<le> k" "k \<le> et_heap_size T" for k using o that by (auto simp: ordered_def)
  have "time_at T (i div 2) \<le> time_at T k" if "2 \<le> i" "k \<le> et_heap_size T" "k div 2 = i" for k
  proof -
    have "i \<le> et_heap_size T" "2 \<le> k" using that by auto
    then show ?thesis using C [of i] C [of k] that by simp
  qed
  then show ?thesis using C by (simp add: ordered_def)
qed

lemma linked_at:
  assumes "linked T None 0" "h_idx (timer T p) \<noteq> 0"
  shows "h_idx (timer T p) \<le> et_heap_size T" "get_timer T (h_idx (timer T p)) = Some p"
proof -
  from assms obtain H where H: "et_heap T = Some H" "length H = MAX_EVENT_TIMERS" "et_heap_size T < MAX_EVENT_TIMERS"
    "h_idx (timer T p) \<le> et_heap_size T" "H ! h_idx (timer T p) = Some p" unfolding linked_def by auto
  then show "h_idx (timer T p) \<le> et_heap_size T" "get_timer T (h_idx (timer T p)) = Some p" by (simp_all add: get_timer_def)
qed

lemma linked_unique:
  assumes "linked T None 0" "1 \<le> k" "k \<le> et_heap_size T" "get_timer T k = Some p"
  shows "h_idx (timer T p) = k"
  using linked_get [OF assms(1-3)] assms(2,4) by force

text \<open>Giving a timer a time.\<close>

definition with_time :: "'p \<Rightarrow> real \<Rightarrow> 'p timers \<Rightarrow> 'p timers" where
  "with_time p t T = T\<lparr>timer := (timer T)(p := (timer T p)\<lparr>wakeup_time := t\<rparr>)\<rparr>"

lemma with_time_simps [simp]:
  "h_idx (timer (with_time p t T) q) = h_idx (timer T q)" "et_heap_size (with_time p t T) = et_heap_size T"
  "et_heap (with_time p t T) = et_heap T" "total_timers (with_time p t T) = total_timers T" "get_timer (with_time p t T) = get_timer T"
  "alloc_heap (with_time p t T) = with_time p t (alloc_heap T)"
  by (auto simp: with_time_def get_timer_def fun_eq_iff alloc_heap_def split: option.splits)

lemma time_of_with_time: "time_of (with_time p t T) q = (if q = p then t else time_of T q)"
  by (simp add: with_time_def)

lemma time_at_with_time: "get_timer T k \<noteq> Some p \<Longrightarrow> get_timer T k \<noteq> None \<Longrightarrow> time_at (with_time p t T) k = time_at T k"
  by (auto simp: time_at_def time_of_with_time)

lemma linked_with_time: "linked (with_time p t T) et i = linked T et i"
  by (simp add: linked_def)

lemma nearly_ok_with_time:
  assumes "timers_ok T"
  shows "nearly_ok (with_time p t T) p"
proof -
  let ?T = "alloc_heap T" and ?i = "h_idx (timer T p)"
  have l: "linked ?T None 0" and o: "ordered ?T ?i" using assms ordered_any by (auto simp: timers_ok_def)
  have same: "time_at (with_time p t ?T) k = time_at ?T k" if h: "1 \<le> k" "k \<le> et_heap_size T" "k \<noteq> ?i" for k
  proof -
    obtain q where q: "get_timer ?T k = Some q" "h_idx (timer ?T q) = k" by (rule linked_get [OF l, of k]) (use h in auto)
    then have "q \<noteq> p" using h(3) by auto
    then show ?thesis using q(1) by (intro time_at_with_time) auto
  qed
  have "ordered (with_time p t ?T) ?i" unfolding ordered_def with_time_simps
  proof (intro conjI allI impI)
    fix k assume k: "2 \<le> k \<and> k \<le> et_heap_size ?T \<and> k \<noteq> ?i \<and> k div 2 \<noteq> ?i"
    then have "time_at ?T (k div 2) \<le> time_at ?T k" using o by (simp add: ordered_def)
    moreover have "1 \<le> k div 2" "k div 2 \<le> et_heap_size T" using k by auto
    ultimately show "time_at (with_time p t ?T) (k div 2) \<le> time_at (with_time p t ?T) k" using k same [of k] same [of "k div 2"] by simp
  next
    fix k assume k: "2 \<le> ?i \<and> k \<le> et_heap_size ?T \<and> k div 2 = ?i"
    then have "time_at ?T (?i div 2) \<le> time_at ?T k" using o by (simp add: ordered_def)
    moreover have "?i div 2 \<noteq> ?i" "k \<noteq> ?i" "1 \<le> ?i div 2" "1 \<le> k" "?i div 2 \<le> et_heap_size T" using k by auto
    ultimately show "time_at (with_time p t ?T) (?i div 2) \<le> time_at (with_time p t ?T) k" using k same [of k] same [of "?i div 2"] by simp
  qed
  then show ?thesis using l assms by (simp add: nearly_ok_def linked_with_time timers_ok_def)
qed

lemma linked_hole:
  assumes "linked T None 0" "h_idx (timer T p) \<noteq> 0"
  shows "linked T (Some p) (h_idx (timer T p))"
proof -
  from assms(1) obtain H where H: "et_heap T = Some H" "length H = MAX_EVENT_TIMERS" "et_heap_size T < MAX_EVENT_TIMERS"
    "\<And>k. 1 \<le> k \<Longrightarrow> k \<le> et_heap_size T \<Longrightarrow> \<exists>q. H ! k = Some q \<and> h_idx (timer T q) = k"
    "\<And>q. h_idx (timer T q) \<noteq> 0 \<Longrightarrow> h_idx (timer T q) \<le> et_heap_size T \<and> H ! h_idx (timer T q) = Some q" unfolding linked_def by auto
  show ?thesis unfolding linked_def
  proof (intro exI [of _ H] conjI allI impI)
    fix k assume "1 \<le> k \<and> k \<le> et_heap_size T \<and> k \<noteq> h_idx (timer T p)"
    with H(4) [of k] show "\<exists>q. H ! k = Some q \<and> h_idx (timer T q) = k \<and> Some q \<noteq> Some p" by auto
  next
    fix q assume q: "Some q \<noteq> Some p \<and> h_idx (timer T q) \<noteq> 0"
    show "h_idx (timer T q) \<le> et_heap_size T" "H ! h_idx (timer T q) = Some q" using H(5) [of q] q by auto
    show "h_idx (timer T q) \<noteq> h_idx (timer T p)" using H(5) [of q] H(5) [of p] q assms(2) by auto
  qed (use H in simp_all)
qed

lemma linked_extend:
  assumes "linked T None 0" "h_idx (timer T p) = 0" "et_heap_size T + 1 < MAX_EVENT_TIMERS"
    "timer T1 = timer T" "et_heap T1 = et_heap T" "et_heap_size T1 = et_heap_size T + 1"
  shows "linked T1 (Some p) (et_heap_size T + 1)"
proof -
  from assms(1) obtain H where H: "et_heap T = Some H" "length H = MAX_EVENT_TIMERS"
    "\<And>k. 1 \<le> k \<Longrightarrow> k \<le> et_heap_size T \<Longrightarrow> \<exists>q. H ! k = Some q \<and> h_idx (timer T q) = k"
    "\<And>q. h_idx (timer T q) \<noteq> 0 \<Longrightarrow> h_idx (timer T q) \<le> et_heap_size T \<and> H ! h_idx (timer T q) = Some q" unfolding linked_def by auto
  show ?thesis unfolding linked_def assms(4-6)
  proof (intro exI [of _ H] conjI allI impI)
    fix k assume "1 \<le> k \<and> k \<le> et_heap_size T + 1 \<and> k \<noteq> et_heap_size T + 1"
    with H(3) [of k] assms(2) show "\<exists>q. H ! k = Some q \<and> h_idx (timer T q) = k \<and> Some q \<noteq> Some p" by auto
  next
    fix q assume "Some q \<noteq> Some p \<and> h_idx (timer T q) \<noteq> 0"
    with H(4) [of q] show "h_idx (timer T q) \<le> et_heap_size T + 1" "h_idx (timer T q) \<noteq> et_heap_size T + 1" "H ! h_idx (timer T q) = Some q" by auto
  qed (use H assms(3) in simp_all)
qed

lemma insert_event_timer_ok:
  assumes n: "nearly_ok T p" and room: "h_idx (timer T p) \<noteq> 0 \<or> et_heap_size T + 1 < MAX_EVENT_TIMERS"
  shows "\<exists>k T1. insert_event_timer p T = Some (k, T1) \<and> timers_ok T1 \<and> active T1 = (active T)(p \<mapsto> time_of T p)"
proof -
  define U where "U = (alloc_heap T)\<lparr>event_timer_insert_ops := event_timer_insert_ops (alloc_heap T) + 1\<rparr>"
  have U: "timer U = timer T" "et_heap_size U = et_heap_size T" "total_timers U = total_timers T" "linked U None 0" "ordered U (h_idx (timer T p))"
    using n by (simp_all add: U_def nearly_ok_def linked_def ordered_def time_at_def get_timer_def)
  show ?thesis
  proof (cases "h_idx (timer T p) = 0")
    case False
    let ?i = "h_idx (timer T p)"
    note at = linked_at [OF U(4), of p, unfolded U(1), OF False]
    have "linked U (Some p) ?i" using linked_hole [OF U(4), of p] False U(1) by simp
    then have "hole U p ?i" using U(5) at False by (simp add: hole_def)
    from basic_et_adjust_ok [OF this] obtain k T1 where b: "basic_et_adjust p ?i U = Some (k, T1)" "linked T1 None 0" "ordered T1 0" "same_timers p U T1" "h_idx (timer T1 p) = k" "k \<noteq> 0" by blast
    have "insert_event_timer p T = Some (k, T1)" using b(1) at False U(1) by (simp add: insert_event_timer_def Let_def U_def [symmetric])
    moreover have "timers_ok T1" using b(2-4) U(2,3) n by (simp add: timers_ok_def linked_alloc same_timers_def nearly_ok_def)
    moreover have "active T1 = (active T)(p \<mapsto> time_of T p)" using b(4-6) U(1) by (auto simp: active_def same_timers_def fun_eq_iff)
    ultimately show ?thesis by blast
  next
    case True
    define V where "V = U\<lparr>total_timers := total_timers U + 1, et_heap_size := et_heap_size U + 1\<rparr>"
    have V: "timer V = timer T" "et_heap_size V = et_heap_size T + 1" "time_at V k = time_at U k" for k by (simp_all add: V_def U time_at_def get_timer_def)
    have "linked V (Some p) (et_heap_size U + 1)"
      using U(1,2) True room by (intro linked_extend [OF U(4)]) (simp_all add: V_def)
    then have "linked V (Some p) (et_heap_size T + 1)" by (simp add: U(2))
    moreover have "ordered V (et_heap_size T + 1)" using U(5) True unfolding ordered_def V(2,3) U(2) by auto
    ultimately have "hole V p (et_heap_size T + 1)" by (simp add: hole_def V(2))
    from basic_et_adjust_ok [OF this] obtain k T1 where b: "basic_et_adjust p (et_heap_size T + 1) V = Some (k, T1)" "linked T1 None 0" "ordered T1 0" "same_timers p V T1" "h_idx (timer T1 p) = k" "k \<noteq> 0" by blast
    have "insert_event_timer p T = Some (k, T1)" using b(1) True room U(1,2)
      unfolding insert_event_timer_def Let_def U_def [symmetric] by (simp add: V_def)
    moreover have "timers_ok T1" using b(2-4) U(2,3) n by (simp add: timers_ok_def linked_alloc same_timers_def nearly_ok_def V_def)
    moreover have "active T1 = (active T)(p \<mapsto> time_of T p)" using b(4-6) V(1) by (auto simp: active_def same_timers_def fun_eq_iff)
    ultimately show ?thesis by blast
  qed
qed

lemma linked_drop:
  assumes "linked T None 0" "h_idx (timer T p) \<noteq> 0" "get_timer T (et_heap_size T) = Some l"
    "timer T1 = (timer T)(p := (timer T p)\<lparr>h_idx := 0\<rparr>)" "et_heap T1 = et_heap T" "et_heap_size T1 = et_heap_size T - 1"
  shows "if l = p then linked T1 None 0 else linked T1 (Some l) (h_idx (timer T p)) \<and> h_idx (timer T p) < et_heap_size T"
proof -
  from assms(1) obtain H where H: "et_heap T = Some H" "length H = MAX_EVENT_TIMERS" "et_heap_size T < MAX_EVENT_TIMERS"
    "\<And>k. 1 \<le> k \<Longrightarrow> k \<le> et_heap_size T \<Longrightarrow> \<exists>q. H ! k = Some q \<and> h_idx (timer T q) = k"
    "\<And>q. h_idx (timer T q) \<noteq> 0 \<Longrightarrow> h_idx (timer T q) \<le> et_heap_size T \<and> H ! h_idx (timer T q) = Some q" unfolding linked_def by auto
  have size: "1 \<le> et_heap_size T" using H(5) [OF assms(2)] assms(2) by linarith
  have l: "h_idx (timer T l) = et_heap_size T" by (rule linked_unique [OF assms(1) size _ assms(3)]) simp
  have last: "H ! et_heap_size T = Some l" using assms(3) H(1-3) by (simp add: get_timer_def)
  have idx: "h_idx (timer T1 q) = (if q = p then 0 else h_idx (timer T q))" for q by (simp add: assms(4))
  show ?thesis
  proof (cases "l = p")
    case True
    have "linked T1 None 0" unfolding linked_def assms(5,6)
    proof (intro exI [of _ H] conjI allI impI)
      fix k assume k: "1 \<le> k \<and> k \<le> et_heap_size T - 1 \<and> k \<noteq> 0"
      then have "1 \<le> k" "k \<le> et_heap_size T" by linarith+
      from H(4) [OF this] obtain q where q: "H ! k = Some q" "h_idx (timer T q) = k" by blast
      moreover have "q \<noteq> p" using q(2) k l True size by auto
      ultimately show "\<exists>q. H ! k = Some q \<and> h_idx (timer T1 q) = k \<and> Some q \<noteq> None" by (auto simp: idx)
    next
      fix q assume "Some q \<noteq> None \<and> h_idx (timer T1 q) \<noteq> 0"
      then have q: "q \<noteq> p" "h_idx (timer T q) \<noteq> 0" "h_idx (timer T1 q) = h_idx (timer T q)" by (auto simp: idx split: if_splits)
      have "h_idx (timer T q) \<noteq> et_heap_size T" using H(5) [OF q(2)] last True q(1) by auto
      then show "h_idx (timer T1 q) \<le> et_heap_size T - 1" "H ! h_idx (timer T1 q) = Some q" using H(5) [OF q(2)] q(3) by auto
    qed (use H in \<open>auto simp: idx\<close>)
    then show ?thesis using True by simp
  next
    case False
    have i: "h_idx (timer T p) < et_heap_size T"
      using H(5) [OF assms(2)] last False by (metis le_neq_implies_less option.inject)
    have "linked T1 (Some l) (h_idx (timer T p))" unfolding linked_def assms(5,6)
    proof (intro exI [of _ H] conjI allI impI)
      fix k assume k: "1 \<le> k \<and> k \<le> et_heap_size T - 1 \<and> k \<noteq> h_idx (timer T p)"
      then have "1 \<le> k" "k \<le> et_heap_size T" by linarith+
      from H(4) [OF this] obtain q where "H ! k = Some q" "h_idx (timer T q) = k" by blast
      moreover have "q \<noteq> l" "q \<noteq> p" using calculation(2) k l size by auto
      ultimately show "\<exists>q. H ! k = Some q \<and> h_idx (timer T1 q) = k \<and> Some q \<noteq> Some l" by (auto simp: idx)
    next
      fix q assume "Some q \<noteq> Some l \<and> h_idx (timer T1 q) \<noteq> 0"
      then have q: "q \<noteq> p" "q \<noteq> l" "h_idx (timer T q) \<noteq> 0" "h_idx (timer T1 q) = h_idx (timer T q)" by (auto simp: idx split: if_splits)
      have "h_idx (timer T q) \<noteq> et_heap_size T" "h_idx (timer T q) \<noteq> h_idx (timer T p)"
        using H(5) [OF q(3)] H(5) [OF assms(2)] last q(1,2) by auto
      then show "h_idx (timer T1 q) \<le> et_heap_size T - 1" "h_idx (timer T1 q) \<noteq> h_idx (timer T p)" "H ! h_idx (timer T1 q) = Some q"
        using H(5) [OF q(3)] q(4) by auto
    qed (use H in auto)
    then show ?thesis using False i by simp
  qed
qed

lemma remove_event_timer_ok:
  assumes n: "nearly_ok T p"
  shows "\<exists>T1. remove_event_timer p T = Some (if active T p = None then 0 else 1, T1) \<and> timers_ok T1 \<and> active T1 = (active T)(p := None) \<and>
    event_timer_alarms T1 = event_timer_alarms T"
proof (cases "h_idx (timer T p) = 0")
  case True
  then show ?thesis using n by (auto simp: remove_event_timer_def active_def timers_ok_def nearly_ok_def fun_eq_iff)
next
  case False
  let ?i = "h_idx (timer T p)"
  define U where "U = (alloc_heap T)\<lparr>total_timers := total_timers (alloc_heap T) - 1, event_timer_remove_ops := event_timer_remove_ops (alloc_heap T) + 1\<rparr>"
  have U: "timer U = timer T" "et_heap_size U = et_heap_size T" "linked U None 0" "ordered U ?i" "event_timer_alarms U = event_timer_alarms T"
    using n by (simp_all add: U_def nearly_ok_def linked_def ordered_def time_at_def get_timer_def)
  note at = linked_at [OF U(3), of p, unfolded U(1), OF False]
  have size: "1 \<le> et_heap_size U" using at(1) False U(2) by linarith
  obtain l where l: "get_timer U (et_heap_size U) = Some l" by (rule linked_get [OF U(3) size]) (use size in auto)
  define V where "V = (set_h_idx p 0 U)\<lparr>et_heap_size := et_heap_size U - 1\<rparr>"
  have V: "timer V = (timer U)(p := (timer U p)\<lparr>h_idx := 0\<rparr>)" "et_heap V = et_heap U" "et_heap_size V = et_heap_size U - 1"
    "get_timer V k = get_timer U k" "time_of V q = time_of U q" "total_timers V = total_timers T - 1" "event_timer_alarms V = event_timer_alarms T" for k q
    by (simp_all add: V_def set_h_idx_def get_timer_def U(5) ) (simp add: U_def)
  have ta: "time_at V k = time_at U k" for k by (simp add: time_at_def V(4,5))
  note d = linked_drop [OF U(3), unfolded U(1), OF False l V(1-3) [unfolded U(1)]]
  have "get_timer (set_h_idx p 0 U) k = get_timer U k" for k by (simp add: get_timer_def set_h_idx_def)
  then have r: "remove_event_timer p T = (if ?i > et_heap_size V then Some (1, V) else do { (k, T1) \<leftarrow> basic_et_adjust l ?i V; Some (1, T1) })"
    using False at l U(1,2) unfolding remove_event_timer_def Let_def U_def [symmetric] by (simp add: V_def set_h_idx_def)
  show ?thesis
  proof (cases "l = p")
    case True
    have i: "?i = et_heap_size U" using linked_unique [OF U(3) size _ l] True U(1) by simp
    have "ordered V 0" using U(4) size unfolding ordered_def ta V(3) i by auto
    then have "timers_ok V" using d True n V(3,6) U(2) size by (simp add: timers_ok_def linked_alloc nearly_ok_def of_nat_diff)
    moreover have "active V = (active T)(p := None)" using V(1) U(1) by (auto simp: active_def fun_eq_iff)
    ultimately show ?thesis using r i size V(3,7) False by (auto simp: active_def)
  next
    case ne: False
    then have h: "linked V (Some l) ?i" "?i < et_heap_size U" using d U(2) by auto
    have "ordered V ?i" using U(4) unfolding ordered_def ta V(3) by auto
    then have "hole V l ?i" using h False V(3) by (simp add: hole_def)
    from basic_et_adjust_ok [OF this] obtain k T1 where b: "basic_et_adjust l ?i V = Some (k, T1)" "linked T1 None 0" "ordered T1 0" "same_timers l V T1" "h_idx (timer T1 l) = k" "k \<noteq> 0" by blast
    have hl: "h_idx (timer T l) \<noteq> 0" using linked_unique [OF U(3) size _ l] size U(1) by simp
    have "timers_ok T1" using b(2-4) n V(3,6) U(2) size by (simp add: timers_ok_def linked_alloc same_timers_def nearly_ok_def of_nat_diff)
    moreover have "active T1 q = ((active T)(p := None)) q" for q
      using b(4-6) V(1) U(1) ne hl by (cases "q = l"; cases "q = p") (auto simp: active_def same_timers_def)
    then have "active T1 = (active T)(p := None)" by blast
    moreover have "event_timer_alarms T1 = event_timer_alarms T" using b(4) V(7) by (simp add: same_timers_def)
    moreover have "remove_event_timer p T = Some (1, T1)" using r h(2) V(3) b(1) by simp
    ultimately show ?thesis using False by (simp add: active_def)
  qed
qed

subsection \<open>The least time\<close>

lemma ordered_least: "ordered T 0 \<Longrightarrow> 1 \<le> k \<Longrightarrow> k \<le> et_heap_size T \<Longrightarrow> time_at T 1 \<le> time_at T k"
proof (induction k rule: less_induct)
  case (less k)
  show ?case
  proof (cases "k = 1")
    case False
    then have k: "2 \<le> k" "1 \<le> k div 2" "k div 2 < k" "k div 2 \<le> et_heap_size T" using less.prems by auto
    have "time_at T (k div 2) \<le> time_at T k" using less.prems(1,3) k(1,2) by (simp add: ordered_def)
    then show ?thesis using less.IH [OF k(3) less.prems(1) k(2,4)] by linarith
  qed simp
qed

lemma active_iff:
  assumes "linked T None 0"
  shows "active T p = Some t \<longleftrightarrow> (\<exists>k. 1 \<le> k \<and> k \<le> et_heap_size T \<and> get_timer T k = Some p \<and> time_at T k = t)"
proof
  assume "active T p = Some t"
  then have h: "h_idx (timer T p) \<noteq> 0" "time_of T p = t" by (auto simp: active_def split: if_splits)
  note at = linked_at [OF assms h(1)]
  have "time_at T (h_idx (timer T p)) = t" using at(2) h(2) by (simp add: time_at_def)
  then show "\<exists>k. 1 \<le> k \<and> k \<le> et_heap_size T \<and> get_timer T k = Some p \<and> time_at T k = t"
    using at h(1) by (intro exI [of _ "h_idx (timer T p)"]) simp
next
  assume "\<exists>k. 1 \<le> k \<and> k \<le> et_heap_size T \<and> get_timer T k = Some p \<and> time_at T k = t"
  then obtain k where k: "1 \<le> k" "k \<le> et_heap_size T" "get_timer T k = Some p" "time_at T k = t" by blast
  have "h_idx (timer T p) = k" by (rule linked_unique [OF assms k(1-3)])
  then show "active T p = Some t" using k by (simp add: active_def time_at_def)
qed

lemma active_alloc [simp]: "active (alloc_heap T) = active T"
  by (simp add: active_def fun_eq_iff)

lemma card_active:
  assumes "timers_ok T"
  shows "finite (dom (active T))" "card (dom (active T)) = et_heap_size T"
proof -
  have l: "linked (alloc_heap T) None 0" using assms by (simp add: timers_ok_def)
  have "inj_on (\<lambda>p. h_idx (timer T p)) (dom (active T))"
  proof (rule inj_onI)
    fix p q assume "p \<in> dom (active T)" "q \<in> dom (active T)" "h_idx (timer T p) = h_idx (timer T q)"
    then show "p = q" using linked_at(2) [OF l, of p] linked_at(2) [OF l, of q] by (auto simp: active_def split: if_splits)
  qed
  moreover have "(\<lambda>p. h_idx (timer T p)) ` dom (active T) = {1..et_heap_size T}"
  proof (intro set_eqI iffI)
    fix k assume "k \<in> (\<lambda>p. h_idx (timer T p)) ` dom (active T)"
    then show "k \<in> {1..et_heap_size T}" using linked_at(1) [OF l] by (auto simp: active_def split: if_splits)
  next
    fix k assume "k \<in> {1..et_heap_size T}"
    then obtain p where "h_idx (timer T p) = k" "k \<noteq> 0" using linked_get [OF l, of k] by auto
    then show "k \<in> (\<lambda>p. h_idx (timer T p)) ` dom (active T)" by (auto simp: active_def image_iff)
  qed
  ultimately have "bij_betw (\<lambda>p. h_idx (timer T p)) (dom (active T)) {1..et_heap_size T}" by (simp add: bij_betw_def)
  then show "finite (dom (active T))" "card (dom (active T)) = et_heap_size T"
    using bij_betw_finite bij_betw_same_card by fastforce+
qed

lemma first_least:
  assumes "timers_ok T" "et_heap_size T \<noteq> 0"
  obtains p where "get_timer (alloc_heap T) 1 = Some p" "h_idx (timer T p) = 1" "active T p = Some (time_of T p)" "\<And>q t. active T q = Some t \<Longrightarrow> time_of T p \<le> t"
proof -
  have l: "linked (alloc_heap T) None 0" and o: "ordered (alloc_heap T) 0" using assms(1) by (simp_all add: timers_ok_def)
  obtain p where p: "get_timer (alloc_heap T) 1 = Some p" "h_idx (timer (alloc_heap T) p) = 1" "time_at (alloc_heap T) 1 = time_of (alloc_heap T) p"
    by (rule linked_get [OF l, of 1]) (use assms(2) in auto)
  have "time_of T p \<le> t" if q: "active T q = Some t" for q t
  proof -
    from q active_iff [OF l, of q t] obtain k where "1 \<le> k" "k \<le> et_heap_size (alloc_heap T)" "time_at (alloc_heap T) k = t" by auto
    with ordered_least [OF o, of k] p(3) show ?thesis by simp
  qed
  then show thesis using that [of p] p by (simp add: active_def)
qed

lemma timers_get_first_ok:
  assumes "timers_ok T"
  shows "timers_get_first T = Some (if active T = Map.empty then 0 else Min (ran (active T)))"
proof (cases "et_heap_size T = 0")
  case True
  then have "active T = Map.empty" using card_active [OF assms] by simp
  then show ?thesis using True by (simp add: timers_get_first_def)
next
  case False
  obtain p where p: "get_timer (alloc_heap T) 1 = Some p" "active T p = Some (time_of T p)" "\<And>q t. active T q = Some t \<Longrightarrow> time_of T p \<le> t"
    using first_least [OF assms False] by blast
  have "alloc_heap T = T"
  proof (rule ccontr)
    assume "alloc_heap T \<noteq> T"
    then have "et_heap (alloc_heap T) = Some (replicate MAX_EVENT_TIMERS None)" by (auto simp: alloc_heap_def split: option.splits)
    then show False using p(1) by (auto simp: get_timer_def split: if_splits)
  qed
  moreover have "Min (ran (active T)) = time_of T p"
    using finite_ran [OF card_active(1) [OF assms]] p(2,3) by (intro Min_eqI) (auto simp: ran_def)
  moreover have "active T \<noteq> Map.empty" using p(2) by auto
  ultimately show ?thesis using False p(1) by (simp add: timers_get_first_def)
qed

text \<open>C20: (timers). When a job asks for its timer, the heap stays well-formed, with as many timers in it as are counted, and the
  timers that are set change in the one timer only: it is set to the time asked for, or removed when that is not
  positive. References are taken exactly for timers that are set, and the first time is the least of those set. The
  array must have room for a timer that was not set before.\<close>

theorem timer_request_refines:
  assumes "timers_ok T" "real_wakeup_time (timer T p) \<le> 0 \<or> active T p \<noteq> None \<or> et_heap_size T + 1 < MAX_EVENT_TIMERS"
  shows "\<exists>d T1. do_immediate_timer_insert p T = Some (d, T1) \<and> timers_ok T1 \<and>
    active T1 = (active T)(p := if real_wakeup_time (timer T p) > 0 then Some (real_wakeup_time (timer T p)) else None) \<and>
    d = int (card (dom (active T1))) - int (card (dom (active T))) \<and>
    timers_get_first T1 = Some (if active T1 = Map.empty then 0 else Min (ran (active T1)))"
proof -
  let ?r = "real_wakeup_time (timer T p)"
  have a: "active (with_time p t T) q = (if q = p \<and> active T p \<noteq> None then Some t else active T q)" for t q
    by (auto simp: active_def time_of_with_time)
  have wt: "T\<lparr>timer := (timer T)(p := (timer T p)\<lparr>wakeup_time := t\<rparr>)\<rparr> = with_time p t T" for t by (simp add: with_time_def)
  have "\<exists>d T1. do_immediate_timer_insert p T = Some (d, T1) \<and> timers_ok T1 \<and> active T1 = (active T)(p := if ?r > 0 then Some ?r else None) \<and>
      d = (if ?r > 0 then if active T p = None then 1 else 0 else if active T p = None then 0 else -1)"
  proof (cases "?r > 0")
    case True
    have "h_idx (timer (with_time p ?r T) p) \<noteq> 0 \<or> et_heap_size (with_time p ?r T) + 1 < MAX_EVENT_TIMERS"
      using assms(2) True by (auto simp: active_def split: if_splits)
    from insert_event_timer_ok [OF nearly_ok_with_time [OF assms(1)] this] obtain k T1 where
      i: "insert_event_timer p (with_time p ?r T) = Some (k, T1)" "timers_ok T1" "active T1 = (active (with_time p ?r T))(p \<mapsto> ?r)"
      by (auto simp: time_of_with_time)
    moreover have "active T1 = (active T)(p \<mapsto> ?r)" using i(3) by (auto simp: a fun_eq_iff)
    ultimately show ?thesis using True by (auto simp: do_immediate_timer_insert_def Let_def wt active_def)
  next
    case False
    from remove_event_timer_ok [OF nearly_ok_with_time [OF assms(1), of p 0]] obtain T1 where
      r: "remove_event_timer p (with_time p 0 T) = Some (if active (with_time p 0 T) p = None then 0 else 1, T1)" "timers_ok T1"
        "active T1 = (active (with_time p 0 T))(p := None)" by blast
    moreover have "active T1 = (active T)(p := None)" using r(3) by (auto simp: a fun_eq_iff)
    ultimately show ?thesis using False by (auto simp: do_immediate_timer_insert_def Let_def wt active_def)
  qed
  then obtain d T1 where o: "do_immediate_timer_insert p T = Some (d, T1)" "timers_ok T1" "active T1 = (active T)(p := if ?r > 0 then Some ?r else None)"
    "d = (if ?r > 0 then if active T p = None then 1 else 0 else if active T p = None then 0 else -1)" by blast
  have f: "finite (dom (active T))" by (rule card_active(1) [OF assms(1)])
  have "d = int (card (dom (active T1))) - int (card (dom (active T)))"
  proof (cases "active T p")
    case None then show ?thesis unfolding o(3,4) using f by (auto simp: domIff)
  next
    case (Some a)
    then have "p \<in> dom (active T)" by blast
    then have "0 < card (dom (active T))" "card (dom (active T) - {p}) = card (dom (active T)) - 1" "insert p (dom (active T)) = dom (active T)"
      using f by (auto simp: card_gt_0_iff)
    then show ?thesis unfolding o(3,4) using Some by (auto simp: of_nat_diff)
  qed
  then show ?thesis using o(1-3) timers_get_first_ok [OF o(2)] by blast
qed

lemma no_timers_ok:
  "timers_ok \<lparr>timer = \<lambda>_. \<lparr>h_idx = 0, wakeup_time = w, real_wakeup_time = r\<rparr>, et_heap = None, et_heap_size = 0, event_timer_insert_ops = 0,
    event_timer_remove_ops = 0, event_timer_alarms = 0, total_timers = 0\<rparr>"
  by (simp add: timers_ok_def linked_def ordered_def alloc_heap_def MAX_EVENT_TIMERS_def)

lemma timer_request_refines_witness:
  "\<exists>d T1. do_immediate_timer_insert (7::nat) \<lparr>timer = \<lambda>_. \<lparr>h_idx = 0, wakeup_time = 0, real_wakeup_time = 5\<rparr>, et_heap = None, et_heap_size = 0,
      event_timer_insert_ops = 0, event_timer_remove_ops = 0, event_timer_alarms = 0, total_timers = 0\<rparr> = Some (d, T1) \<and>
    active T1 = [7 \<mapsto> 5] \<and> d = 1 \<and> timers_get_first T1 = Some 5"
proof -
  let ?T = "\<lparr>timer = \<lambda>_. \<lparr>h_idx = 0, wakeup_time = 0, real_wakeup_time = 5\<rparr>, et_heap = None, et_heap_size = 0,
      event_timer_insert_ops = 0, event_timer_remove_ops = 0, event_timer_alarms = 0, total_timers = 0\<rparr> :: nat timers"
  have a: "active ?T = Map.empty" by (simp add: active_def fun_eq_iff)
  show ?thesis using timer_request_refines [OF no_timers_ok, of 0 5 "7::nat"] by (auto simp: a MAX_EVENT_TIMERS_def)
qed

subsection \<open>The last slot\<close>

text \<open>The index past the array is written as soon as the timer is to go there: no timer is above the new one that it
  does not have to pass, and the write at the end of the walk or the first move down the array is outside it.\<close>

lemma adjust_up_None:
  assumes "et_heap T = Some H" "length H \<le> i" "1 < i"
  shows "adjust_up T et i = None \<or> adjust_up T et i = Some (T, i)"
proof -
  have "move_timer q i T = None" for q using assms by (simp add: move_timer_def put_timer_def)
  then show ?thesis using assms(3) by (cases "get_timer T (i div 2)") (simp_all add: adjust_up.simps [of T et i] Let_def)
qed

text \<open>C40: (timers). The array of the heap has \<open>MAX_EVENT_TIMERS\<close> slots and the first is not used. With one timer less than that in
  the heap the assertion in front of a further one still holds, and the pointer is then written behind the array.\<close>

theorem timer_heap_overflow:
  assumes "timers_ok T" "active T p = None" "et_heap_size T = MAX_EVENT_TIMERS - 1"
  shows "et_heap_size T < MAX_EVENT_TIMERS \<and> insert_event_timer p T = None"
proof
  show "et_heap_size T < MAX_EVENT_TIMERS" using assms(3) by (simp add: MAX_EVENT_TIMERS_def)
  define U where "U = (alloc_heap T)\<lparr>event_timer_insert_ops := event_timer_insert_ops (alloc_heap T) + 1, total_timers := total_timers (alloc_heap T) + 1,
    et_heap_size := et_heap_size (alloc_heap T) + 1\<rparr>"
  obtain H where "et_heap (alloc_heap T) = Some H" "length H = MAX_EVENT_TIMERS" using assms(1) by (auto simp: timers_ok_def linked_def)
  then have H: "et_heap U = Some H" "length H = MAX_EVENT_TIMERS" "et_heap_size U = MAX_EVENT_TIMERS"
    using assms(3) by (simp_all add: U_def MAX_EVENT_TIMERS_def)
  have "adjust_up U p MAX_EVENT_TIMERS = None \<or> adjust_up U p MAX_EVENT_TIMERS = Some (U, MAX_EVENT_TIMERS)"
    using H(2) by (intro adjust_up_None [OF H(1)]) (simp_all add: MAX_EVENT_TIMERS_def)
  moreover have "adjust_down U p MAX_EVENT_TIMERS (2 * MAX_EVENT_TIMERS) = Some (U, MAX_EVENT_TIMERS)"
    using H by (subst adjust_down.simps) (simp add: MAX_EVENT_TIMERS_def)
  moreover have "move_timer p MAX_EVENT_TIMERS U = None" using H by (simp add: move_timer_def put_timer_def)
  ultimately have "basic_et_adjust p MAX_EVENT_TIMERS U = None" by (auto simp: basic_et_adjust_def)
  moreover have "h_idx (timer T p) = 0" using assms(2) by (auto simp: active_def split: if_splits)
  ultimately show "insert_event_timer p T = None" using H(3) assms(3) by (simp add: insert_event_timer_def Let_def U_def MAX_EVENT_TIMERS_def)
qed

text \<open>A full heap: the timers one to the last index, in order.\<close>

definition full_heap :: "nat timers" where
  "full_heap = \<lparr>timer = \<lambda>p. \<lparr>h_idx = (if p < MAX_EVENT_TIMERS then p else 0), wakeup_time = real p, real_wakeup_time = 1\<rparr>,
     et_heap = Some (map Some [0..<MAX_EVENT_TIMERS]), et_heap_size = MAX_EVENT_TIMERS - 1, event_timer_insert_ops = 0,
     event_timer_remove_ops = 0, event_timer_alarms = 0, total_timers = int MAX_EVENT_TIMERS - 1\<rparr>"

lemma full_heap_simps:
  "et_heap full_heap = Some (map Some [0..<MAX_EVENT_TIMERS])" "et_heap_size full_heap = MAX_EVENT_TIMERS - 1"
  "h_idx (timer full_heap p) = (if p < MAX_EVENT_TIMERS then p else 0)" "time_of full_heap p = real p"
  "total_timers full_heap = int MAX_EVENT_TIMERS - 1" "alloc_heap full_heap = full_heap"
  by (simp_all add: full_heap_def alloc_heap_def)

lemma full_heap_at:
  assumes "k < MAX_EVENT_TIMERS"
  shows "time_at full_heap k = real k"
  using assms by (simp add: time_at_def get_timer_def full_heap_simps del: upt_rec_numeral)

lemma full_heap_linked: "linked full_heap None 0"
proof -
  let ?H = "map Some [0..<MAX_EVENT_TIMERS]"
  have n: "?H ! k = Some k" "k \<le> MAX_EVENT_TIMERS - 1" if "k < MAX_EVENT_TIMERS" for k using that by simp_all
  have m: "0 < MAX_EVENT_TIMERS" by (simp add: MAX_EVENT_TIMERS_def)
  have "\<forall>k. 1 \<le> k \<and> k \<le> MAX_EVENT_TIMERS - 1 \<and> k \<noteq> 0 \<longrightarrow>
      (\<exists>p. ?H ! k = Some p \<and> (if p < MAX_EVENT_TIMERS then p else 0) = k \<and> Some p \<noteq> None)"
  proof (intro allI impI)
    fix k assume "1 \<le> k \<and> k \<le> MAX_EVENT_TIMERS - 1 \<and> k \<noteq> 0"
    then have "k < MAX_EVENT_TIMERS" by linarith
    then show "\<exists>p. ?H ! k = Some p \<and> (if p < MAX_EVENT_TIMERS then p else 0) = k \<and> Some p \<noteq> None" using n(1) by (intro exI [of _ k]) simp
  qed
  moreover have "\<forall>p. Some p \<noteq> None \<and> (if p < MAX_EVENT_TIMERS then p else 0) \<noteq> 0 \<longrightarrow>
      (if p < MAX_EVENT_TIMERS then p else 0) \<le> MAX_EVENT_TIMERS - 1 \<and> (if p < MAX_EVENT_TIMERS then p else 0) \<noteq> 0 \<and>
      ?H ! (if p < MAX_EVENT_TIMERS then p else 0) = Some p"
    using n by (simp del: nth_map_upt)
  ultimately show ?thesis unfolding linked_def full_heap_simps using m by (intro exI [of _ ?H] conjI) simp_all
qed

lemma full_heap_ordered: "ordered full_heap 0"
  unfolding ordered_def full_heap_simps
proof (intro conjI allI impI)
  fix k assume "2 \<le> k \<and> k \<le> MAX_EVENT_TIMERS - 1 \<and> k \<noteq> 0 \<and> k div 2 \<noteq> 0"
  then have "k < MAX_EVENT_TIMERS" "k div 2 < MAX_EVENT_TIMERS" "k div 2 \<le> k" by linarith+
  then show "time_at full_heap (k div 2) \<le> time_at full_heap k" by (simp only: full_heap_at of_nat_le_iff)
qed simp

lemma full_heap_ok: "timers_ok full_heap"
proof -
  have "int MAX_EVENT_TIMERS - 1 = int (MAX_EVENT_TIMERS - 1)" by (simp add: MAX_EVENT_TIMERS_def)
  then show ?thesis unfolding timers_ok_def full_heap_simps using full_heap_linked full_heap_ordered by blast
qed

lemma timer_heap_overflow_witness: "et_heap_size full_heap < MAX_EVENT_TIMERS \<and> insert_event_timer MAX_EVENT_TIMERS full_heap = None"
  by (rule timer_heap_overflow [OF full_heap_ok]) (simp_all add: full_heap_def active_def)

subsection \<open>Running the timers\<close>

definition due :: "real \<Rightarrow> 'p timers \<Rightarrow> 'p set" where
  "due now T = {p. \<exists>t. active T p = Some t \<and> t \<le> now}"

text \<open>What is asked of the function a timer calls: it keeps the heap well-formed, sets no timer to a time that has passed and none
  to a time more than \<open>2 ^ 20\<close> seconds away (it may cancel any), and does not count alarms.\<close>

definition calls_well :: "real \<Rightarrow> ('w, 'p) wakeup_fn \<Rightarrow> bool" where
  "calls_well now wakeup \<longleftrightarrow> (\<forall>p w T. timers_ok T \<longrightarrow> (\<exists>w1 T1. wakeup p (w, T) = Some (w1, T1) \<and> timers_ok T1 \<and>
     due now T1 \<subseteq> due now T \<and> event_timer_alarms T1 = event_timer_alarms T \<and>
     (\<forall>q t. active T1 q = Some t \<and> (t \<le> now \<or> t > now + 2 ^ 20) \<longrightarrow> active T q = Some t)))"

text \<open>A function that also writes down which timer called it.\<close>

definition logged :: "('w, 'p) wakeup_fn \<Rightarrow> ('p list \<times> 'w, 'p) wakeup_fn" where
  "logged wakeup p = (\<lambda>((l, w), T). map_option (\<lambda>(w1, T1). ((l @ [p], w1), T1)) (wakeup p (w, T)))"

text \<open>The rounding keeps the order, the sign and the numbers that need no rounding.\<close>

definition rounds :: "(real \<Rightarrow> real) \<Rightarrow> bool" where
  "rounds rnd \<longleftrightarrow> mono rnd \<and> (\<forall>x. 0 < rnd x \<longleftrightarrow> 0 < x) \<and> (\<forall>i. \<bar>i\<bar> \<le> 2 ^ 53 \<longrightarrow> rnd (of_int i) = of_int i)"

lemma due_subset: "due now T \<subseteq> dom (active T)"
  by (auto simp: due_def)

lemma alloc_heap_same:
  assumes "timers_ok T" "et_heap_size T \<noteq> 0"
  shows "alloc_heap T = T"
proof (rule ccontr)
  obtain p where p: "get_timer (alloc_heap T) 1 = Some p" by (rule first_least [OF assms])
  assume "alloc_heap T \<noteq> T"
  then have "et_heap (alloc_heap T) = Some (replicate MAX_EVENT_TIMERS None)" by (auto simp: alloc_heap_def split: option.splits)
  then show False using p by (simp add: get_timer_def split: if_splits)
qed

lemma first_timer:
  assumes "timers_ok T" "et_heap_size T \<noteq> 0"
  obtains p where "get_timer T 1 = Some p" "h_idx (timer T p) = 1" "active T p = Some (time_of T p)" "\<And>q t. active T q = Some t \<Longrightarrow> time_of T p \<le> t"
  by (rule first_least [OF assms]) (simp add: alloc_heap_same [OF assms])

text \<open>The alarms do not matter to the heap.\<close>

lemma alarms_alloc: "alloc_heap (T\<lparr>event_timer_alarms := n\<rparr>) = (alloc_heap T)\<lparr>event_timer_alarms := n\<rparr>"
  by (simp add: alloc_heap_def split: option.splits)

lemma alarms_linked: "linked (T\<lparr>event_timer_alarms := n\<rparr>) et i = linked T et i"
  by (simp add: linked_def)

lemma alarms_at: "time_at (T\<lparr>event_timer_alarms := n\<rparr>) k = time_at T k"
  by (simp add: time_at_def get_timer_def)

lemma alarms_ordered: "ordered (T\<lparr>event_timer_alarms := n\<rparr>) i = ordered T i"
  by (simp add: ordered_def alarms_at)

lemma alarms_active [simp]: "active (T\<lparr>event_timer_alarms := n\<rparr>) = active T"
  by (simp add: active_def fun_eq_iff)

lemma alarms_due [simp]: "due now (T\<lparr>event_timer_alarms := n\<rparr>) = due now T"
  by (simp add: due_def)

lemma alarms_ok [simp]: "timers_ok (T\<lparr>event_timer_alarms := n\<rparr>) = timers_ok T"
  by (simp add: timers_ok_def alarms_alloc alarms_linked alarms_ordered)

lemma timers_ok_alloc: "timers_ok T \<Longrightarrow> timers_ok (alloc_heap T)"
  by (simp add: timers_ok_def alloc_heap_def split: option.splits)

definition leaves_due :: "real \<Rightarrow> ('w, 'p) wakeup_fn \<Rightarrow> bool" where
  "leaves_due now wakeup \<longleftrightarrow> (\<forall>p w T w1 T1. wakeup p (w, T) = Some (w1, T1) \<longrightarrow> due now T1 = due now T)"

text \<open>What a run of the due timers leads to, \<open>ps\<close> being the timers that were called: they were due and come in the order of their
  times.\<close>

definition ran_due :: "real \<Rightarrow> bool \<Rightarrow> 'p timers \<Rightarrow> 'p timers \<Rightarrow> 'p list \<Rightarrow> bool" where
  "ran_due now keeps T T1 ps \<longleftrightarrow> timers_ok T1 \<and> due now T1 = {} \<and>
     distinct ps \<and> set ps \<subseteq> due now T \<and> sorted (map (\<lambda>p. the (active T p)) ps) \<and>
     (keeps \<longrightarrow> set ps = due now T) \<and>
     event_timer_alarms T1 - event_timer_alarms T = int (length ps) \<and>
     (\<forall>q t. active T1 q = Some t \<and> t > now + 2 ^ 20 \<longrightarrow> active T q = Some t)"

lemma ran_due_none: "timers_ok T \<Longrightarrow> due now T = {} \<Longrightarrow> ran_due now keeps T T []"
  by (simp add: ran_due_def)

text \<open>One round: the first timer is removed and its function called.\<close>

lemma run_due_step:
  assumes w: "calls_well now wakeup" and T: "timers_ok T" "et_heap_size T \<noteq> 0" and p: "get_timer T 1 = Some p" "h_idx (timer T p) = 1"
    "active T p = Some (time_of T p)" "time_of T p \<le> now"
  obtains v1 T2 where "timers_ok T2"
    "run_due (logged wakeup) now ((l, v), T) =
      run_due (logged wakeup) now ((l @ [p], v1), T2\<lparr>event_timer_alarms := event_timer_alarms T2 + 1\<rparr>)"
    "due now T2 \<subseteq> due now T - {p}" "leaves_due now wakeup \<Longrightarrow> due now T2 = due now T - {p}" "event_timer_alarms T2 = event_timer_alarms T"
    "\<And>q t. active T2 q = Some t \<Longrightarrow> t \<le> now \<or> t > now + 2 ^ 20 \<Longrightarrow> active T q = Some t"
proof -
  have n: "nearly_ok T p" using nearly_ok_with_time [OF T(1), of p "time_of T p"] by (simp add: with_time_def)
  from remove_event_timer_ok [OF n] p(3) obtain T1 where r: "remove_event_timer p T = Some (1, T1)" "timers_ok T1"
    "active T1 = (active T)(p := None)" "event_timer_alarms T1 = event_timer_alarms T" by auto
  from w r(2) obtain v1 T2 where T2: "wakeup p (v, T1) = Some (v1, T2)" "timers_ok T2" "due now T2 \<subseteq> due now T1"
    "event_timer_alarms T2 = event_timer_alarms T1"
    "\<And>q t. active T2 q = Some t \<Longrightarrow> t \<le> now \<or> t > now + 2 ^ 20 \<Longrightarrow> active T1 q = Some t"
    unfolding calls_well_def by blast
  have d1: "due now T1 = due now T - {p}" by (auto simp: due_def r(3))
  show thesis
  proof (rule that [of T2 v1])
    show "run_due (logged wakeup) now ((l, v), T) =
        run_due (logged wakeup) now ((l @ [p], v1), T2\<lparr>event_timer_alarms := event_timer_alarms T2 + 1\<rparr>)"
      using T(2) p(1,2,4) r(1) T2(1) by (simp add: run_due.simps [of _ now "((l, v), T)"] logged_def)
    show "due now T2 \<subseteq> due now T - {p}" using T2(3) d1 by simp
    show "due now T2 = due now T - {p}" if "leaves_due now wakeup" using that T2(1) unfolding leaves_due_def d1 [symmetric] by blast
    show "active T q = Some t" if "active T2 q = Some t" "t \<le> now \<or> t > now + 2 ^ 20" for q t
      using T2(5) [OF that] by (simp add: r(3) split: if_splits)
  qed (use T2(2,4) r(4) in simp_all)
qed

lemma run_due_ok:
  assumes w: "calls_well now wakeup"
  shows "timers_ok T \<Longrightarrow> \<exists>ps v1 T1. run_due (logged wakeup) now ((l, v), T) = Some ((l @ ps, v1), T1) \<and>
    ran_due now (leaves_due now wakeup) T T1 ps"
proof (induction "card (due now T)" arbitrary: T l v rule: less_induct)
  case less
  let ?run = "run_due (logged wakeup) now ((l, v), T)"
  show ?case
  proof (cases "et_heap_size T = 0")
    case True
    then have "active T = Map.empty" using card_active [OF less.prems] by simp
    then have "due now T = {}" by (simp add: due_def)
    then have "ran_due now (leaves_due now wakeup) T T []" by (rule ran_due_none [OF less.prems])
    moreover have "?run = Some ((l @ [], v), T)" using True by (simp add: run_due.simps [of _ now "((l, v), T)"])
    ultimately show ?thesis by blast
  next
    case False
    obtain p where p: "get_timer T 1 = Some p" "h_idx (timer T p) = 1" "active T p = Some (time_of T p)"
      "\<And>q t. active T q = Some t \<Longrightarrow> time_of T p \<le> t"
      by (rule first_timer [OF less.prems False]) blast
    show ?thesis
    proof (cases "time_of T p \<le> now")
      case late: False
      then have "due now T = {}" using p(4) by (force simp: due_def)
      then have "ran_due now (leaves_due now wakeup) T T []" by (rule ran_due_none [OF less.prems])
      moreover have "?run = Some ((l @ [], v), T)" using False late p(1) by (simp add: run_due.simps [of _ now "((l, v), T)"])
      ultimately show ?thesis by blast
    next
      case True
      obtain v1 T2 where T2: "timers_ok T2"
        "?run = run_due (logged wakeup) now ((l @ [p], v1), T2\<lparr>event_timer_alarms := event_timer_alarms T2 + 1\<rparr>)"
        "due now T2 \<subseteq> due now T - {p}" "leaves_due now wakeup \<Longrightarrow> due now T2 = due now T - {p}" "event_timer_alarms T2 = event_timer_alarms T"
        "\<And>q t. active T2 q = Some t \<Longrightarrow> t \<le> now \<or> t > now + 2 ^ 20 \<Longrightarrow> active T q = Some t"
        by (rule run_due_step [OF w less.prems False p(1-3) True]) blast
      let ?T3 = "T2\<lparr>event_timer_alarms := event_timer_alarms T2 + 1\<rparr>"
      have f: "finite (due now T)" by (rule finite_subset [OF due_subset card_active(1) [OF less.prems]])
      have pd: "p \<in> due now T" using p(3) True by (simp add: due_def)
      have "due now ?T3 \<subset> due now T" using T2(3) pd by auto
      then have "card (due now ?T3) < card (due now T)" by (rule psubset_card_mono [OF f])
      moreover have "timers_ok ?T3" using T2(1) by simp
      ultimately obtain ps v4 T4 where T4: "run_due (logged wakeup) now ((l @ [p], v1), ?T3) = Some (((l @ [p]) @ ps, v4), T4)"
        and ran: "ran_due now (leaves_due now wakeup) ?T3 T4 ps"
        using less.hyps [of ?T3 "l @ [p]" v1] by blast
      have ps: "set ps \<subseteq> due now T2" using ran by (simp add: ran_due_def)
      have same: "active T2 q = active T q" if "q \<in> set ps" for q
      proof -
        from that ps obtain t where t: "active T2 q = Some t" "t \<le> now" by (auto simp: due_def)
        then show ?thesis using T2(6) by simp
      qed
      have "ran_due now (leaves_due now wakeup) T T4 (p # ps)"
        unfolding ran_due_def
      proof (intro conjI impI allI)
        show "distinct (p # ps)" "set (p # ps) \<subseteq> due now T" using ran ps T2(3) pd by (auto simp: ran_due_def)
        have m: "map (\<lambda>q. the (active T q)) ps = map (\<lambda>q. the (active T2 q)) ps" using same by simp
        have "sorted (map (\<lambda>q. the (active T q)) ps)" unfolding m using ran by (simp add: ran_due_def)
        moreover have "the (active T p) \<le> the (active T q)" if "q \<in> set ps" for q
          using that ps T2(3) p(3,4) by (force simp: due_def)
        ultimately show "sorted (map (\<lambda>q. the (active T q)) (p # ps))" by simp
        show "set (p # ps) = due now T" if "leaves_due now wakeup" using ran T2(4) [OF that] that pd by (auto simp: ran_due_def)
        show "event_timer_alarms T4 - event_timer_alarms T = int (length (p # ps))" using ran T2(5) by (simp add: ran_due_def)
        show "active T q = Some t" if "active T4 q = Some t \<and> t > now + 2 ^ 20" for q t
          using ran T2(6) that by (simp add: ran_due_def)
      qed (use ran in \<open>simp_all add: ran_due_def\<close>)
      then show ?thesis using T4 T2(2) by auto
    qed
  qed
qed

lemma wait_ms_ok:
  assumes r: "rounds rnd" and t: "now < t" "t \<le> now + 2 ^ 20"
  shows "0 < rnd (t - now)" "\<exists>ms. wait_ms rnd (rnd (t - now)) = Some ms \<and> 0 < ms"
proof -
  have m: "rnd x \<le> rnd y" if "x \<le> y" for x y using r that by (simp add: rounds_def monoD)
  have e: "rnd (of_int i) = of_int i" if "\<bar>i\<bar> \<le> 2 ^ 53" for i using r that unfolding rounds_def by blast
  show p: "0 < rnd (t - now)" using r t(1) by (simp add: rounds_def)
  have "rnd (t - now) \<le> rnd (of_int (2 ^ 20))" using t(2) by (intro m) simp
  then have "rnd (t - now) \<le> 2 ^ 20" using e [of "2 ^ 20"] by simp
  then have "rnd (rnd (t - now) * 1000) \<le> rnd (of_int (2 ^ 20 * 1000))" by (intro m) simp
  then have "rnd (rnd (t - now) * 1000) \<le> 2 ^ 20 * 1000" using e [of "2 ^ 20 * 1000"] by simp
  then have u: "\<lfloor>rnd (rnd (t - now) * 1000)\<rfloor> < 2 ^ 31 - 1" by (simp add: floor_less_iff)
  have "0 < rnd (rnd (t - now) * 1000)" using r p by (simp add: rounds_def)
  then have "0 \<le> \<lfloor>rnd (rnd (t - now) * 1000)\<rfloor>" by simp
  with u show "\<exists>ms. wait_ms rnd (rnd (t - now)) = Some ms \<and> 0 < ms" by (simp add: wait_ms_def)
qed

lemma wait_for_first:
  assumes T: "timers_ok T" "et_heap_size T \<noteq> 0" "due now T = {}" and r: "rounds rnd" and b: "\<And>q t. active T q = Some t \<Longrightarrow> t \<le> now + 2 ^ 20"
  obtains p ms where "get_timer T 1 = Some p" "0 < rnd (time_of T p - now)" "wait_ms rnd (rnd (time_of T p - now)) = Some ms" "0 < ms"
proof -
  obtain p where p: "get_timer T 1 = Some p" "active T p = Some (time_of T p)"
    by (rule first_timer [OF T(1,2)])
  have "now < time_of T p" "time_of T p \<le> now + 2 ^ 20" using T(3) b p(2) by (force simp: due_def)+
  from wait_ms_ok [OF r this] p(1) that show thesis by blast
qed

text \<open>C22: (timers). Running the timers returns a positive waiting time, with no assertion failing, whatever timers within the
  next \<open>2 ^ 20\<close> seconds the called functions set or cancel: every timer that is called was due, is called once, and they are called in
  the order of their times; if the called functions leave the timers that are due alone, exactly the due timers are called. The
  alarm counter counts the calls, no timer that is due is left, and with no timer left the wait is the default one. All timers
  are set to at most \<open>2 ^ 20\<close> seconds from now.\<close>

theorem run_timers_returns:
  assumes "timers_ok T" "calls_well now wakeup" "rounds rnd" "\<forall>q t. active T q = Some t \<longrightarrow> t \<le> now + 2 ^ 20"
  shows "\<exists>ms ps v1 T1. thread_run_timers rnd (logged wakeup) now (([], v), T) = Some (ms, (ps, v1), T1) \<and>
    timers_ok T1 \<and> due now T1 = {} \<and> 0 < ms \<and> (active T1 = Map.empty \<longrightarrow> ms = 100000) \<and>
    distinct ps \<and> set ps \<subseteq> due now T \<and> sorted (map (\<lambda>p. the (active T p)) ps) \<and>
    (leaves_due now wakeup \<longrightarrow> set ps = due now T) \<and>
    event_timer_alarms T1 - event_timer_alarms T = int (length ps)"
proof (cases "et_heap_size T = 0")
  case True
  then have "active T = Map.empty" using card_active [OF assms(1)] by simp
  moreover have "due now T = {}" "due now (alloc_heap T) = {}" using calculation by (simp_all add: due_def)
  moreover have "event_timer_alarms (alloc_heap T) = event_timer_alarms T" by (simp add: alloc_heap_def split: option.splits)
  ultimately show ?thesis using True timers_ok_alloc [OF assms(1)] by (simp add: thread_run_timers_def)
next
  case False
  note a = alloc_heap_same [OF assms(1) False]
  obtain p where p: "get_timer T 1 = Some p" "active T p = Some (time_of T p)" "\<And>q t. active T q = Some t \<Longrightarrow> time_of T p \<le> t"
    by (rule first_timer [OF assms(1) False]) blast
  show ?thesis
  proof (cases "now < time_of T p")
    case True
    then have d: "due now T = {}" using p(3) by (force simp: due_def)
    obtain p' ms where "get_timer T 1 = Some p'" "0 < rnd (time_of T p' - now)" "wait_ms rnd (rnd (time_of T p' - now)) = Some ms" "0 < ms"
      using wait_for_first [OF assms(1) False d assms(3)] assms(4) by blast
    then show ?thesis using False a d assms(1) p(2) by (auto simp: thread_run_timers_def Let_def)
  next
    case past: False
    then have w: "\<not> 0 < rnd (time_of T p - now)" using assms(3) by (simp add: rounds_def)
    obtain ps v1 T1 where T1: "run_due (logged wakeup) now (([], v), T) = Some ((ps, v1), T1)"
      and ran: "ran_due now (leaves_due now wakeup) T T1 ps"
      using run_due_ok [OF assms(2,1), of "[]" v] by auto
    have ok: "timers_ok T1" "due now T1 = {}" using ran by (simp_all add: ran_due_def)
    have b: "t \<le> now + 2 ^ 20" if "active T1 q = Some t" for q t
      using ran assms(4) that unfolding ran_due_def by (meson linorder_not_less)
    have run: "thread_run_timers rnd (logged wakeup) now (([], v), T) = (if et_heap_size T1 = 0 then Some (100000, (ps, v1), T1)
        else Option.bind (get_timer T1 1) (\<lambda>q. if 0 < rnd (time_of T1 q - now)
          then Option.bind (wait_ms rnd (rnd (time_of T1 q - now))) (\<lambda>ms. Some (ms, (ps, v1), T1)) else None))"
      using False a p(1) w T1 by (simp add: thread_run_timers_def Let_def)
    show ?thesis
    proof (cases "et_heap_size T1 = 0")
      case True
      then show ?thesis using run ran by (simp add: ran_due_def)
    next
      case left: False
      obtain q ms where q: "get_timer T1 1 = Some q" "0 < rnd (time_of T1 q - now)" "wait_ms rnd (rnd (time_of T1 q - now)) = Some ms" "0 < ms"
        using wait_for_first [OF ok(1) left ok(2) assms(3), of thesis] b by blast
      have "active T1 \<noteq> Map.empty" using left card_active(2) [OF ok(1)] by auto
      then show ?thesis using run left q ran by (simp add: ran_due_def)
    qed
  qed
qed

lemma full_heap_due: "due 3 full_heap = {1, 2, 3}"
proof -
  have "due 3 full_heap = {p. p < MAX_EVENT_TIMERS \<and> p \<noteq> 0 \<and> p \<le> 3}" by (auto simp: due_def active_def full_heap_simps split: if_splits)
  also have "\<dots> = {p. p \<noteq> 0 \<and> p \<le> 3}" by (auto simp: MAX_EVENT_TIMERS_def)
  also have "\<dots> = {1, 2, 3}" by auto
  finally show ?thesis .
qed

theorem run_timers_returns_witness:
  "\<exists>ms ps T1. thread_run_timers (\<lambda>x. x) (logged (\<lambda>p wT. Some wT)) 3 (([], ()), full_heap) = Some (ms, (ps, ()), T1) \<and>
     0 < ms \<and> set ps = {1, 2, 3} \<and> distinct ps"
proof -
  have w: "calls_well 3 (\<lambda>p (wT :: unit \<times> nat timers). Some wT)" "leaves_due 3 (\<lambda>p (wT :: unit \<times> nat timers). Some wT)" "rounds (\<lambda>x. x)"
    by (auto simp: calls_well_def leaves_due_def rounds_def mono_def)
  have b: "\<forall>q t. active full_heap q = Some t \<longrightarrow> t \<le> 3 + 2 ^ 20"
    by (auto simp: active_def full_heap_simps MAX_EVENT_TIMERS_def split: if_splits)
  show ?thesis using run_timers_returns [OF full_heap_ok w(1,3) b, of "()"] w(2) by (auto simp: full_heap_due)
qed

end
