(* ===== verification/Spec2Isabelle.thy ===== *)
theory Spec2Isabelle
  imports T3_Prelude T3_Types T3_Utf8 T3_Secret T3_Url T3_Session T3_Retry T3_Random T3_Http_Stream
    Srv_Transport_Ws Srv_Precrypto T3_Client_Receive
    Srv_Dispatch Srv_Proxy_Protocol Srv_Tls_Parse Srv_Ip_Acl Srv_Slots Srv_Top_Ips Srv_Http_Server Srv_Timers
begin

text \<open>
  Verification of teleproto3: \<open>libteleproto3\<close>, the reference library of the Type3 protocol
  (\<open>src/lib/\<close>), and the parts of the server that speak it (\<open>src/server/src/net/\<close>).

  \<^bold>\<open>The program.\<close> A client opens a TLS connection and carries an obfuscated MTProto stream over it, either
  in masked WebSocket frames or in the chunks of an endless HTTP request. It derives two AES-CTR
  contexts from a random 64-byte header and a shared secret, and sends packets with a four-byte length
  and up to fifteen bytes of padding. The server recognises the header with one of its secrets, derives
  the same contexts, and passes the packets on. Probes are answered by a silent close after a random
  delay. The library also has the format of the secrets and of the links that distribute them, and the
  client's grading of repeated closes into retry tiers.

  \<^bold>\<open>Conventions.\<close> A byte is an \<open>8 word\<close>, a buffer a list of bytes, a C string the bytes before its NUL. A
  pointer that may be NULL is an option, and \<open>bool\<close> arguments say whether an out-pointer is given.
  Sizes are natural numbers; where they can wrap the wrap-around is written with \<open>sz_add\<close>, \<open>sz_sub\<close>,
  \<open>sz_mul\<close> or on words. Undefined behaviour (reads and writes outside a buffer, freed memory, calls
  through NULL) is the result \<open>None\<close> in the option monad. A loop that may run forever is a
  \<open>partial_function (option)\<close>, so \<open>None\<close> there is also a run that does not return, and the theorems
  that promise a result say \<open>Some\<close>. Allocations, OpenSSL calls, sockets, files and random bytes are
  arguments of the definitions; SHA-256, SHA-1 and the AES keystream are uninterpreted functions, and no
  theorem relies on a property of them other than being functions of their input.

  \<^bold>\<open>Library, one theory a source file (\<open>src/lib/src/\<close>).\<close>
  \<^item> \<open>T3_Prelude\<close>, \<open>T3_Libc\<close>: bytes, C string routines, checked reads, byte orders, sizes, number parsing.
  \<^item> \<open>T3_Types\<close> (\<open>t3.h\<close>, \<open>t3_strerror.c\<close>): result codes and public structures.
  \<^item> \<open>T3_Utf8\<close>, \<open>T3_Secret\<close> (\<open>t3_secret.c\<close>): the octet scan is the reference UTF-8 encoding without control
    characters; what is accepted, that the parts reassemble the domain, the host and mode validators, and
    that parsing inverts serialising.
  \<^item> \<open>T3_Url\<close> (\<open>t3_url_parser.c\<close>): links carry secrets unchanged.
  \<^item> \<open>T3_Session\<close> (\<open>t3_session_header.c\<close>): exactly which headers are accepted, the byte-wise accumulator
    agrees with the parser, the partial copy of the callbacks.
  \<^item> \<open>T3_Retry\<close> (\<open>t3_retry.c\<close>): the ring of eight times refines the whole history of closes over an
    inductive run relation, and the tier is a function of that history.
  \<^item> \<open>T3_Random\<close> (\<open>t3_timing.c\<close>, \<open>t3_padding.c\<close>): the delay is unbiased and total with a live generator; split
    plans are sound, and total under the stated conditions; padding frames.
  \<^item> \<open>T3_Framing\<close>: the locale \<open>framing\<close>, an encoder and an incremental decoder; its lemma is that the
    segmentation of the stream does not matter. \<open>T3_Http_Stream\<close> (\<open>t3_http_stream.c\<close>) interprets it as
    \<open>http\<close>, \<open>Srv_Websocket\<close> as \<open>ws_down\<close>.
  \<^item> \<open>T3_Cipher\<close>, \<open>T3_Client_Crypto\<close> (\<open>t3_client_crypto.c\<close>), \<open>T3_Client_WS\<close> (\<open>t3_client_ws.c\<close>): the CTR context as
    key, start and position, the generated header, frames.
  \<^item> \<open>T3_Ring\<close>, \<open>T3_Client_Stream\<close>, \<open>T3_Client_Pump\<close>, \<open>T3_Client_Receive\<close> (\<open>t3_client_stream.c\<close>): the byte rings
    (locale \<open>byte_queue\<close>, interpreted as \<open>ring\<close>), the client stream over a record \<open>host_io\<close> of socket, TLS
    and generator; the state machine of the pump, delivery of whole messages, and what a write queues.

  \<^bold>\<open>Server (\<open>src/server/src/net/\<close>).\<close>
  \<^item> \<open>Srv_Websocket\<close> (\<open>net-websocket.c\<close>): upgrade, frame headers, unmasking.
  \<^item> \<open>Srv_Transport\<close>, \<open>Srv_Transport_Ws\<close>, \<open>Srv_Transport_Http\<close>, \<open>Srv_Transport_Out\<close>, \<open>Srv_Connection\<close>
    (\<open>net-tcp-connections.c\<close>): the decryption loop as a step function with a decreasing measure; the locale
    \<open>upstream\<close> states what a transport owes the reader, and \<open>ws_up\<close> and \<open>http_up\<close> interpret it; messages
    written by the client's definitions are delivered exactly, and conversely; reader and writer, with the skip
    counter in its 32 bits.
  \<^item> \<open>Srv_Obfs2\<close> (\<open>net-obfs2-parse.c\<close>, \<open>net-tcp-rpc-common.c\<close>): the server derives what the client derived;
    packet lengths.
  \<^item> \<open>Srv_Dispatch\<close> (\<open>net-type3-dispatch.c\<close>, \<open>net-type3-stats.c\<close>): the decision on a new connection, the kill
    switch and the counters over an inductive step relation.
  \<^item> \<open>Srv_Precrypto\<close> (the part of \<open>net-tcp-rpc-ext-server.c\<close> between the POST request and the first packet of an HTTP
    stream): dispatcher, header parser and keys under the reader; the hand-over to the cipher is exact when
    both headers are there in one run, a header in two pieces never gets its keys, and a refused one makes the reader fail an assertion.
  \<^item> \<open>Srv_Proxy_Protocol\<close>, \<open>Srv_Tls_Parse\<close>, \<open>Srv_Ip_Acl\<close> (the files of these names): the PROXY headers, the
    TLS parsers with checked reads, and the address filter against networks as bit prefixes.
  \<^item> \<open>T3_Table\<close>: arrays searched from the front, as most tables of the server are.
  \<^item> \<open>Srv_Secrets\<close> (the slots and limits of \<open>net-tcp-rpc-ext-server.c\<close>): who is let in; the locale
    \<open>address_book\<close>, what a table of connected addresses promises, interpreted as \<open>tracked\<close> on the table of the
    code; the token bucket and the bound on the rate of an address.
  \<^item> \<open>Srv_Drain\<close>, \<open>Srv_Slots\<close> (\<open>net-tcp-rpc-ext-drain.c\<close>, the sweeper of \<open>mtproto-proxy.c\<close>, recognition, relaying and
    closing in \<open>net-tcp-rpc-ext-server.c\<close>, \<open>net-tcp-direct-dc.c\<close> and \<open>mtproto-proxy-http.c\<close>): what a reload and a
    sweep do, and an inductive step relation in which clients, reloads and sweeps interleave; in every
    reachable state a connection keeps the secret it was recognised with, and draining ends.
  \<^item> \<open>Srv_Top_Ips\<close> (\<open>net-tcp-rpc-ext-top-ips.c\<close>): the traffic of each address; the selection loop of the snapshot is
    the head of a stable sort.
  \<^item> \<open>Srv_Http_Parse\<close>, \<open>Srv_Http_Request\<close> (\<open>net-http-parse.c\<close>): the state machine of the request parser, which
    ends, stays inside its input, and does not depend on how the input is cut; well-formed requests, as an
    abstract record, are read as they were written.
  \<^item> \<open>Srv_Http_Reply\<close>, \<open>Srv_Http_Server\<close> (\<open>net-http-server.c\<close>, \<open>mtproto-proxy-http.c\<close>): dates against the
    calendar, headers, error pages; the request loop over the blocks of the input. The locale \<open>http_service\<close> is what
    the loop needs of a handler, interpreted for the default handler (\<open>by_default\<close>) and the statistics (\<open>stats\<close>).
    The loop returns on every input but an oversized POST, which aborts the server; a page is served to whom it
    may be, and nobody else learns anything about it.
  \<^item> \<open>Srv_Timers\<close> (\<open>net-timers.c\<close>, the request for a timer in \<open>jobs.c\<close>): the heap as a map from timers to times,
    the run of the due ones, and the slot the array lacks.

  \<^bold>\<open>This theory\<close> holds what spans client and server beyond the transports: what the dispatcher does with
  the header the client generates.

  \<^bold>\<open>Bounds.\<close> No model has fuel. Buffers are taken shorter than \<open>2^63\<close> bytes, and than \<open>2^31\<close> where the source
  counts in \<open>int\<close>; the clock fits 31 bits. \<open>read_messages\<close> counts calls of the caller, not steps of the code.
  Compare-and-exchange loops are one atomic update. Counters of 64 bits are integers. A \<open>double\<close> is a real
  number, and every floating-point result goes through a parameter \<open>rnd\<close>; what a theorem needs of the rounding
  is among its hypotheses. A message is a list of bytes, or a list of blocks where the code looks at the blocks.

  \<^bold>\<open>Not modelled.\<close> The SOCKS5 shim (threads and sockets around the client stream), the system calls behind
  sockets, TLS and random bytes, the texts of the metrics and statistics pages, the rest of the loop that tells the
  protocols of a new connection apart with its imitation of TLS, connections to data centres, the event loop and the jobs
  beyond timers, the reference counts of message buffers, configuration, the proxying of MTProto itself, the
  bench handler, and the older copies of the server outside \<open>src/server/src/\<close>. Scheduling is modelled where the
  order matters (\<open>Srv_Slots\<close>); otherwise the server runs each connection's reader and writer one at a time.
\<close>

subsection \<open>The client's header at the dispatcher\<close>

text \<open>C35: the two sides disagree on the session header. Every header the library's client generates starts
  with the padding flag set, which the library's own header parser refuses; so a server that is built with
  the dispatcher and serves normally drops every connection of this client, unread and by the timer,
  whatever follows the header.\<close>

theorem client_header_dropped:
  assumes "gen_obfs2_init ks sha rand evp secret dc t e0 d0 w = Some (((0, Some hdr), e, d), w')"
    and "\<And>w b w'. rand w = (Some b, w') \<Longrightarrow> length b = 64"
    and "sampler_ok disp" "g_ks_state disp = KS_IDLE"
  shows "\<exists>disp' t v'. type3_dispatch_on_crypto_init bb be disp \<lparr>dc_in = hdr @ rest, dc_timer = None\<rparr> v
      = Some ((TYPE3_DISPATCH_DROP_SILENT, disp', \<lparr>dc_in = hdr @ rest, dc_timer = Some t\<rparr>), v')"
proof -
  have "take 4 hdr = [0x01, 0x01, 0x01, 0x00]" "4 \<le> length hdr"
    using gen_obfs2_init_session_header [OF assms(1,2)] by simp_all
  then show ?thesis
    using dispatch_refuses [OF assms(3,4), of "\<lparr>dc_in = hdr @ rest, dc_timer = None\<rparr>" bb be v]
    by (auto simp: dropped_def)
qed

definition constant_rand :: "unit \<Rightarrow> bytes option \<times> unit" where
  "constant_rand w = (Some (replicate 64 0x11), w)"

theorem client_header_dropped_witness:
  "\<exists>hdr e d disp' t v'.
     gen_obfs2_init (\<lambda>_ _ i. word_of_nat i) (take 32) constant_rand (\<lambda>_. True) [7] 2 False CtxNull CtxNull () = Some (((0, Some hdr), e, d), ())
     \<and> type3_dispatch_on_crypto_init False False (boot_dispatcher :: unit dispatcher) \<lparr>dc_in = hdr @ [9], dc_timer = None\<rparr> (False, ())
        = Some ((TYPE3_DISPATCH_DROP_SILENT, disp', \<lparr>dc_in = hdr @ [9], dc_timer = Some t\<rparr>), v')"
proof -
  have draw: "draw_until (\<lambda>w. Some (constant_rand w)) (\<lambda>h. \<not> reserved_prefix h) () = Some (Some (replicate 64 0x11), ())"
    using plain_draw by (intro draw_until_step(3)) (simp_all add: constant_rand_def)
  obtain hdr e d where g: "gen_obfs2_init (\<lambda>_ _ i. word_of_nat i) (take 32) constant_rand (\<lambda>_. True) [7] 2 False CtxNull CtxNull ()
      = Some (((0, Some hdr), CtxLive e, CtxLive d), ())"
    using gen_obfs2_init_ok [OF draw, of "\<lambda>_. True" "\<lambda>_ _ i. word_of_nat i" "take 32" "[7]" 2 False CtxNull CtxNull] by blast
  have len: "length b = 64" if "constant_rand w = (Some b, w')" for w b w'
    using that unfolding constant_rand_def by (metis fst_conv length_replicate option.inject)
  have "sampler_ok (boot_dispatcher :: unit dispatcher)" "g_ks_state (boot_dispatcher :: unit dispatcher) = KS_IDLE"
    by (simp_all add: sampler_ok_def boot_dispatcher_def)
  from client_header_dropped [OF g _ this, of False False "[9]" "(False, ())"] len g show ?thesis by blast
qed

end
